(* ===== verification/Prelude.thy ===== *)
theory Prelude
  imports
    Main
    "HOL-Library.Word"
    "HOL-Library.Option_ord"
    "HOL-Library.Product_Lexorder"
    "HOL-Library.List_Lexorder"
    "HOL-Library.Char_ord"
begin

text \<open>
  Shared vocabulary of the development: the machine integer types of the sources and the
  standard-library operations on them (checked, saturating and shifting arithmetic), the
  ordered containers \<open>BTreeMap\<close> and \<open>BTreeSet\<close> as strictly sorted lists with the interface
  locale \<open>ordered_map\<close>, internet addresses, results, and the stable sort of a slice.
\<close>

unbundle bit_operations_syntax

named_theorems rust_word "unsigned readings of the machine integer operations"
named_theorems btree "laws of the ordered containers"

section \<open>Machine integers\<close>

type_synonym u8 = "8 word"
type_synonym u16 = "16 word"
type_synonym u32 = "32 word"
type_synonym u64 = "64 word"
type_synonym u128 = "128 word"

definition checked_add :: "'a::len word \<Rightarrow> 'a word \<Rightarrow> 'a word option" where
  "checked_add a b = (if unat a + unat b < 2 ^ LENGTH('a) then Some (a + b) else None)"

definition checked_sub :: "'a::len word \<Rightarrow> 'a word \<Rightarrow> 'a word option" where
  "checked_sub a b = (if b \<le> a then Some (a - b) else None)"

definition saturating_add :: "'a::len word \<Rightarrow> 'a word \<Rightarrow> 'a word" where
  "saturating_add a b = (case checked_add a b of None \<Rightarrow> - 1 | Some c \<Rightarrow> c)"

definition saturating_sub :: "'a::len word \<Rightarrow> 'a word \<Rightarrow> 'a word" where
  "saturating_sub a b = (case checked_sub a b of None \<Rightarrow> 0 | Some c \<Rightarrow> c)"

definition saturating_mul :: "'a::len word \<Rightarrow> 'a word \<Rightarrow> 'a word" where
  "saturating_mul a b = (if unat a * unat b < 2 ^ LENGTH('a) then a * b else - 1)"

definition checked_shl :: "'a::len word \<Rightarrow> nat \<Rightarrow> 'a word option" where
  "checked_shl a n = (if n < LENGTH('a) then Some (push_bit n a) else None)"

definition checked_shr :: "'a::len word \<Rightarrow> nat \<Rightarrow> 'a word option" where
  "checked_shr a n = (if n < LENGTH('a) then Some (drop_bit n a) else None)"

text \<open>The idiom \<open>x.checked_shl(n).unwrap_or(0)\<close> and its right-shift twin.\<close>

definition shl_or_zero :: "'a::len word \<Rightarrow> nat \<Rightarrow> 'a word" where
  "shl_or_zero a n = (case checked_shl a n of None \<Rightarrow> 0 | Some b \<Rightarrow> b)"

definition shr_or_zero :: "'a::len word \<Rightarrow> nat \<Rightarrow> 'a word" where
  "shr_or_zero a n = (case checked_shr a n of None \<Rightarrow> 0 | Some b \<Rightarrow> b)"

text \<open>Widening conversions (\<open>u32::from\<close>, \<open>u128::from\<close>) keep the value.\<close>

lemma unat_ucast_up [simp]:
  "LENGTH('a) \<le> LENGTH('b) \<Longrightarrow> unat (ucast (a :: 'a::len word) :: 'b::len word) = unat a"
  by (simp add: unsigned_ucast_eq take_bit_nat_eq_self)
     (metis unsigned_less order_less_le_trans power_increasing one_le_numeral take_bit_nat_eq_self)

section \<open>Ordered maps and sets\<close>

text \<open>A \<open>BTreeMap\<close> is a list of pairs with strictly increasing keys, a \<open>BTreeSet\<close> a strictly
  increasing list; iteration is the list itself.\<close>

type_synonym ('k, 'v) btree_map = "('k \<times> 'v) list"
type_synonym 'k btree_set = "'k list"

abbreviation bt_get :: "('k, 'v) btree_map \<Rightarrow> 'k \<Rightarrow> 'v option" where
  "bt_get \<equiv> map_of"

fun bt_insert :: "'k::linorder \<Rightarrow> 'v \<Rightarrow> ('k, 'v) btree_map \<Rightarrow> ('k, 'v) btree_map" where
  "bt_insert k v [] = [(k, v)]"
| "bt_insert k v (kv # m) =
     (if k = fst kv then (k, v) # m
      else if fst kv < k then kv # bt_insert k v m
      else (k, v) # kv # m)"

definition bt_remove :: "'k \<Rightarrow> ('k, 'v) btree_map \<Rightarrow> ('k, 'v) btree_map" where
  "bt_remove k m = filter (\<lambda>kv. fst kv \<noteq> k) m"

definition bt_keys :: "('k, 'v) btree_map \<Rightarrow> 'k list" where
  "bt_keys m = map fst m"

definition bt_values :: "('k, 'v) btree_map \<Rightarrow> 'v list" where
  "bt_values m = map snd m"

definition bt_ok :: "('k::linorder, 'v) btree_map \<Rightarrow> bool" where
  "bt_ok m = sorted_wrt (<) (map fst m)"

fun bs_insert :: "'k::linorder \<Rightarrow> 'k btree_set \<Rightarrow> 'k btree_set" where
  "bs_insert k [] = [k]"
| "bs_insert k (x # s) = (if k = x then x # s else if x < k then x # bs_insert k s else k # x # s)"

definition bs_remove :: "'k \<Rightarrow> 'k btree_set \<Rightarrow> 'k btree_set" where
  "bs_remove k s = filter (\<lambda>x. x \<noteq> k) s"

definition bs_of_list :: "'k::linorder list \<Rightarrow> 'k btree_set" where
  "bs_of_list xs = fold bs_insert xs []"

abbreviation bs_ok :: "'k::linorder btree_set \<Rightarrow> bool" where
  "bs_ok s \<equiv> sorted_wrt (<) s"

section \<open>Addresses, results, sorting\<close>

datatype ip_addr = V4 u32 | V6 u128

fun is_ipv4 :: "ip_addr \<Rightarrow> bool" where
  "is_ipv4 (V4 _) = True"
| "is_ipv4 (V6 _) = False"

definition is_ipv6 :: "ip_addr \<Rightarrow> bool" where
  "is_ipv6 a = (\<not> is_ipv4 a)"

text \<open>The numeric reading shared by the allocators (\<open>number\<close> in the sources).\<close>

fun ip_number :: "ip_addr \<Rightarrow> u128" where
  "ip_number (V4 a) = ucast a"
| "ip_number (V6 a) = a"

lemma ip_number_inj:
  assumes "is_ipv4 x = is_ipv4 y" and "ip_number x = ip_number y"
  shows "x = y"
proof (cases x)
  case (V4 a)
  with assms(1) obtain b where b: "y = V4 b" by (cases y) auto
  with assms(2) V4 have "unat (ucast a :: u128) = unat (ucast b :: u128)" by simp
  then have "unat a = unat b" by simp
  with V4 b show ?thesis by (simp add: word_unat_eq_iff)
next
  case (V6 a)
  with assms show ?thesis by (cases y) auto
qed

instantiation ip_addr :: linorder
begin

definition less_eq_ip_addr :: "ip_addr \<Rightarrow> ip_addr \<Rightarrow> bool" where
  "a \<le> b \<longleftrightarrow> (is_ipv6 a, ip_number a) \<le> (is_ipv6 b, ip_number b)"

definition less_ip_addr :: "ip_addr \<Rightarrow> ip_addr \<Rightarrow> bool" where
  "a < b \<longleftrightarrow> (is_ipv6 a, ip_number a) < (is_ipv6 b, ip_number b)"

instance
proof
  fix x y z :: ip_addr
  show "(x < y) = (x \<le> y \<and> \<not> y \<le> x)"
    by (auto simp: less_ip_addr_def less_eq_ip_addr_def)
  show "x \<le> x" by (simp add: less_eq_ip_addr_def)
  show "x \<le> y \<Longrightarrow> y \<le> z \<Longrightarrow> x \<le> z"
    unfolding less_eq_ip_addr_def by (rule order_trans)
  show "x \<le> y \<Longrightarrow> y \<le> x \<Longrightarrow> x = y"
    unfolding less_eq_ip_addr_def by (metis ip_number_inj is_ipv6_def order_antisym prod.inject)
  show "x \<le> y \<or> y \<le> x" unfolding less_eq_ip_addr_def by (rule linear)
qed

end

text \<open>\<open>slice::sort_by\<close>: a stable sort for a comparison \<open>le\<close>.\<close>

fun insert_by :: "('a \<Rightarrow> 'a \<Rightarrow> bool) \<Rightarrow> 'a \<Rightarrow> 'a list \<Rightarrow> 'a list" where
  "insert_by le x [] = [x]"
| "insert_by le x (y # ys) = (if le x y then x # y # ys else y # insert_by le x ys)"

definition sort_by :: "('a \<Rightarrow> 'a \<Rightarrow> bool) \<Rightarrow> 'a list \<Rightarrow> 'a list" where
  "sort_by le xs = foldr (insert_by le) xs []"

section \<open>Laws of the integer operations\<close>

lemma unat_saturating_sub [rust_word]:
  "unat (saturating_sub a b) = unat a - unat b"
  by (simp add: saturating_sub_def checked_sub_def unat_sub word_le_nat_alt)

lemma unat_saturating_add [rust_word]:
  fixes a b :: "'a::len word"
  shows "unat (saturating_add a b) = min (unat a + unat b) (2 ^ LENGTH('a) - 1)"
proof (cases "unat a + unat b < 2 ^ LENGTH('a)")
  case True
  then show ?thesis
    by (simp add: saturating_add_def checked_add_def unat_word_ariths)
next
  case False
  then show ?thesis
    by (simp add: saturating_add_def checked_add_def unsigned_minus_1_eq_mask mask_eq_exp_minus_1)
qed

lemma checked_add_Some [rust_word]:
  "checked_add a b = Some c \<longleftrightarrow> unat a + unat b < 2 ^ LENGTH('a) \<and> c = a + (b :: 'a::len word)"
  by (auto simp: checked_add_def)

lemma checked_sub_Some [rust_word]:
  "checked_sub a b = Some c \<longleftrightarrow> b \<le> a \<and> c = a - (b :: 'a::len word)"
  by (auto simp: checked_sub_def)

lemma shl_or_zero_eq [simp]: "shl_or_zero a n = push_bit n (a :: 'a::len word)"
  by (auto simp: shl_or_zero_def checked_shl_def bit_push_bit_iff intro!: bit_word_eqI)

lemma shr_or_zero_eq [simp]: "shr_or_zero a n = drop_bit n (a :: 'a::len word)"
  by (auto simp: shr_or_zero_def checked_shr_def bit_drop_bit_eq intro!: bit_word_eqI
           dest: bit_imp_le_length)

lemma unat_add_no_wrap:
  "unat a + unat b < 2 ^ LENGTH('a) \<Longrightarrow> unat (a + b :: 'a::len word) = unat a + unat b"
  by (simp add: unat_word_ariths)

lemma checked_add_later:
  assumes "checked_add (a :: 'a::len word) b = Some t" "b \<noteq> 0"
  shows "a < t"
proof -
  have t: "t = a + b" "unat a + unat b < 2 ^ LENGTH('a)" using assms(1) by (simp_all add: checked_add_def split: if_splits)
  then have "unat t = unat a + unat b" by (simp add: unat_add_no_wrap)
  moreover have "0 < unat b" using assms(2) by (simp add: unat_gt_0)
  ultimately show ?thesis by (simp add: word_less_nat_alt)
qed

lemma unat_bound: "unat (a :: 'a::len word) < 2 ^ LENGTH('a)"
  by (rule unsigned_less)

lemma unat_of_nat_small: "n \<le> unat (c :: 'a::len word) \<Longrightarrow> unat (of_nat n :: 'a word) = n"
  by (metis mod_less order_le_less_trans unat_bound unat_of_nat)

lemma card_word_below: "card {n :: 'a::len word. n < c} = unat c"
proof -
  have "unat ` {n. n < c} = {..<unat c}"
  proof (intro equalityI subsetI)
    fix k assume "k \<in> {..<unat c}"
    then have "unat (of_nat k :: 'a word) = k" by (intro unat_of_nat_small [of _ c]) simp
    with \<open>k \<in> {..<unat c}\<close> show "k \<in> unat ` {n. n < c}"
      by (intro image_eqI [of _ _ "of_nat k"]) (simp_all add: word_less_nat_alt)
  qed (auto simp: word_less_nat_alt)
  moreover have "inj_on unat {n. n < c}" by (rule inj_onI) (simp add: word_unat_eq_iff)
  ultimately show ?thesis by (metis card_image card_lessThan)
qed

subsection \<open>Prefix masks\<close>

lemma unat_mask:
  assumes "h \<le> LENGTH('a)"
  shows "unat (mask h :: 'a::len word) = 2 ^ h - 1"
proof -
  have "unat (mask h :: 'a word) = unat (take_bit h (- 1 :: 'a word))"
    by (simp only: mask_eq_take_bit_minus_one)
  also have "\<dots> = take_bit h (mask LENGTH('a))"
    by (simp only: unsigned_take_bit_eq unsigned_minus_1_eq_mask)
  also have "\<dots> = mask h" using assms by (simp add: take_bit_of_mask min_def)
  finally show ?thesis by (simp add: mask_eq_exp_minus_1)
qed

lemma unat_and_not_mask: "unat (x AND NOT (mask h) :: 'a::len word) = unat x div 2 ^ h * 2 ^ h"
proof -
  have t: "unat (take_bit h x) = unat x mod 2 ^ h" by (simp only: unsigned_take_bit_eq) (simp only: take_bit_eq_mod)
  have "(x AND NOT (mask h)) + take_bit h x = x"
    by (subst disjunctive_add_eq_or) (auto simp: bit_eq_iff bit_simps)
  then have "x AND NOT (mask h) = x - take_bit h x" by (simp add: algebra_simps)
  moreover have "take_bit h x \<le> x" by (simp add: word_le_nat_alt t)
  ultimately have "unat (x AND NOT (mask h)) = unat x - unat x mod 2 ^ h" by (simp add: unat_sub t)
  then show ?thesis by (simp add: minus_mod_eq_div_mult)
qed

lemma unat_or_mask:
  fixes x :: "'a::len word"
  assumes "x AND mask h = 0" and "unat x + 2 ^ h \<le> 2 ^ LENGTH('a)" and "h \<le> LENGTH('a)"
  shows "unat (x OR mask h) = unat x + (2 ^ h - 1)"
proof -
  have "x OR mask h = x + mask h" using assms(1) by (simp add: disjunctive_add_eq_or)
  moreover have "unat x + unat (mask h :: 'a word) < 2 ^ LENGTH('a)"
  proof -
    have "(0::nat) < 2 ^ h" by simp
    then show ?thesis using assms(2) unfolding unat_mask [OF assms(3)] by linarith
  qed
  ultimately show ?thesis by (simp add: unat_add_no_wrap unat_mask [OF assms(3)])
qed

lemma aligned_block_fits:
  assumes "unat x < 2 ^ w" and "h \<le> w"
  shows "unat (x AND NOT (mask h) :: 'a::len word) + 2 ^ h \<le> 2 ^ w"
proof -
  have w: "(2::nat) ^ w = 2 ^ (w - h) * 2 ^ h" using assms(2) by (simp flip: power_add)
  then have "unat x div 2 ^ h < 2 ^ (w - h)" using assms(1) by (simp add: less_mult_imp_div_less)
  then have "(unat x div 2 ^ h + 1) * 2 ^ h \<le> 2 ^ w" unfolding w by (intro mult_right_mono) simp_all
  then show ?thesis by (simp add: unat_and_not_mask)
qed

lemma unat_saturating_mul [rust_word]:
  "unat (saturating_mul a b) = min (unat a * unat b) (2 ^ LENGTH('a) - 1)" for a b :: "'a::len word"
proof (cases "unat a * unat b < 2 ^ LENGTH('a)")
  case True
  then show ?thesis by (simp add: saturating_mul_def unat_word_ariths min_absorb1)
next
  case False
  then have "2 ^ LENGTH('a) - 1 \<le> unat a * unat b" by linarith
  with False show ?thesis
    by (simp add: saturating_mul_def unsigned_minus_1_eq_mask mask_eq_exp_minus_1 min_absorb2)
qed

lemma div_eq_iff_between: "0 < s \<Longrightarrow> n div s = i \<longleftrightarrow> i * s \<le> n \<and> n < i * s + (s :: nat)"
  by (metis add.commute div_nat_eqI div_times_less_eq_dividend dividend_less_div_times mult.commute mult_Suc)

lemma unat_push_bit_of_nat:
  "i * 2 ^ n < 2 ^ LENGTH('a) \<Longrightarrow> unat (push_bit n (of_nat i) :: 'a::len word) = i * 2 ^ n"
proof -
  assume "i * 2 ^ n < 2 ^ LENGTH('a)"
  moreover have "push_bit n (of_nat i) = (of_nat (i * 2 ^ n) :: 'a word)" by (simp add: push_bit_eq_mult)
  ultimately show ?thesis by (simp only: unat_of_nat mod_less)
qed

lemma or_aligned_add:
  fixes x y :: "'a::len word"
  assumes "2 ^ n dvd unat x" and "unat y < 2 ^ n"
  shows "x OR y = x + y"
proof -
  have "x AND mask n = 0" using assms(1) by (simp add: and_mask_dvd_nat)
  moreover have "take_bit n y = y"
    using assms(2) by (simp add: word_unat_eq_iff unsigned_take_bit_eq take_bit_nat_eq_self)
  ultimately have "x AND y = 0"
    by (metis and.assoc and.commute take_bit_eq_mask bit.conj_zero_left)
  then show ?thesis by (simp add: disjunctive_add_eq_or)
qed

lemma unat_drop_bit: "unat (drop_bit n (i :: 'a::len word)) = unat i div 2 ^ n"
  by (simp only: unsigned_drop_bit_eq) (simp add: drop_bit_eq_div take_bit_nat_eq_self)

lemma take_bit_small: "unat (x :: 'a::len word) < 2 ^ n \<Longrightarrow> take_bit n x = x"
  by (simp add: word_unat_eq_iff unsigned_take_bit_eq take_bit_nat_eq_self)

lemma bit_small: "unat (x :: 'a::len word) < 2 ^ n \<Longrightarrow> bit x i \<Longrightarrow> i < n"
  by (metis take_bit_small bit_take_bit_iff)

lemma ucast_small: "unat (v :: 'a::len word) < 2 ^ LENGTH('b) \<Longrightarrow> LENGTH('b) \<le> LENGTH('a) \<Longrightarrow>
  ucast (ucast v :: 'b::len word) = v"
  by (simp add: word_unat_eq_iff unsigned_ucast_eq unsigned_take_bit_eq take_bit_nat_eq_self)

subsection \<open>Scanning a ring\<close>

text \<open>A cyclic scan from \<open>s\<close> over \<open>c\<close> positions meets each position once.\<close>

lemma ring_hits: "s < c \<Longrightarrow> m < c \<Longrightarrow> \<exists>i<c. (s + i) mod c = (m :: nat)"
proof (cases "s \<le> m")
  case False
  assume "s < c" "m < c"
  with False show ?thesis by (intro exI [of _ "m + c - s"]) simp
qed (auto intro!: exI [of _ "m - s"])

lemma ring_returns: "s < c \<Longrightarrow> 0 < k \<Longrightarrow> k \<le> c \<Longrightarrow> (s + k) mod c = s \<longleftrightarrow> k = (c :: nat)"
  by (auto simp: mod_if)

lemma unat_ring_next:
  fixes n c :: "'a::len word"
  assumes "n < c"
  shows "unat (if n = c - 1 then 0 else n + 1) = (unat n + 1) mod unat c"
proof -
  have c: "unat (c - 1) = unat c - 1" using assms by (intro unat_minus_one) auto
  have lt: "unat n < unat c" using assms by (simp add: word_less_nat_alt)
  show ?thesis
  proof (cases "n = c - 1")
    case True
    with c lt have "unat n + 1 = unat c" by simp
    then show ?thesis using True by simp
  next
    case False
    then have "unat n \<noteq> unat c - 1" using c by (metis word_unat_eq_iff)
    with lt have "unat n + 1 < unat c" by linarith
    moreover from this have "unat n + 1 < 2 ^ LENGTH('a)"
      using unat_bound [of c] by linarith
    then have "unat (n + 1) = unat n + 1" by (subst unat_add_no_wrap) simp_all
    ultimately show ?thesis using False by simp
  qed
qed

section \<open>Laws of the containers\<close>

lemma bt_get_insert [btree, simp]: "bt_get (bt_insert k v m) = (bt_get m)(k \<mapsto> v)"
  by (induction m) (auto simp: fun_eq_iff)

lemma bt_get_remove [btree, simp]: "bt_get (bt_remove k m) = (bt_get m)(k := None)"
  by (induction m) (auto simp: bt_remove_def fun_eq_iff)

lemma fst_set_bt_insert [btree]: "fst ` set (bt_insert k v m) = insert k (fst ` set m)"
  by (induction m) auto

lemma bt_ok_Nil [btree, simp]: "bt_ok []"
  by (simp add: bt_ok_def)

lemma bt_ok_insert [btree, intro]: "bt_ok m \<Longrightarrow> bt_ok (bt_insert k v m)"
proof (induction m)
  case (Cons kv m)
  then have "bt_ok (bt_insert k v m)" by (simp add: bt_ok_def)
  moreover have "\<forall>a \<in> fst ` set (bt_insert k v m). a = k \<or> a \<in> fst ` set m"
    by (simp add: fst_set_bt_insert)
  ultimately show ?case
    using Cons.prems by (cases kv) (fastforce simp: bt_ok_def)
qed (simp add: bt_ok_def)

lemma bt_ok_remove [btree, intro]: "bt_ok m \<Longrightarrow> bt_ok (bt_remove k m)"
  by (induction m) (auto simp: bt_ok_def bt_remove_def)

lemma bt_ok_distinct: "bt_ok m \<Longrightarrow> distinct (map fst m)"
  by (simp add: bt_ok_def strict_sorted_iff)

lemma bt_length: "bt_ok m \<Longrightarrow> length m = card (dom (bt_get m))"
  by (metis bt_ok_distinct distinct_card dom_map_of_conv_image_fst length_map set_map)

lemma bt_finite_dom [simp]: "finite (dom (bt_get m))"
  by (rule finite_dom_map_of)

lemma filter_keys_card:
  "bt_ok m \<Longrightarrow> length (filter P (bt_keys m)) = card {k. bt_get m k \<noteq> None \<and> P k}"
proof -
  assume "bt_ok m"
  then have "distinct (filter P (map fst m))" by (simp add: bt_ok_distinct)
  then have "length (filter P (map fst m)) = card (set (filter P (map fst m)))"
    by (rule distinct_card [symmetric])
  also have "set (filter P (map fst m)) = {k. bt_get m k \<noteq> None \<and> P k}"
    by (auto simp: map_of_eq_None_iff)
  finally show ?thesis by (simp add: bt_keys_def)
qed

lemma bs_set_insert [btree, simp]: "set (bs_insert k s) = insert k (set s)"
  by (induction s) auto

lemma bs_ok_insert [btree, intro]: "bs_ok s \<Longrightarrow> bs_ok (bs_insert k s)"
  by (induction s) auto

lemma bs_set_remove [btree, simp]: "set (bs_remove k s) = set s - {k}"
  by (auto simp: bs_remove_def)

lemma bs_ok_remove [btree, intro]: "bs_ok s \<Longrightarrow> bs_ok (bs_remove k s)"
  by (simp add: bs_remove_def sorted_wrt_filter)

lemma bs_length: "bs_ok s \<Longrightarrow> length s = card (set s)"
  by (simp add: strict_sorted_iff distinct_card)

lemma bs_of_list_aux: "bs_ok s \<Longrightarrow> bs_ok (fold bs_insert xs s) \<and> set (fold bs_insert xs s) = set xs \<union> set s"
  by (induction xs arbitrary: s) (auto simp: bs_ok_insert)

lemma bs_of_list_set [btree, simp]: "set (bs_of_list xs) = set xs"
  using bs_of_list_aux [of "[]" xs] by (simp add: bs_of_list_def)

lemma bs_of_list_ok [btree, simp]: "bs_ok (bs_of_list xs)"
  using bs_of_list_aux [of "[]" xs] by (simp add: bs_of_list_def)

subsection \<open>The map interface the components rely on\<close>

locale ordered_map =
  fixes empty :: 'm
    and get :: "'m \<Rightarrow> 'k::linorder \<Rightarrow> 'v option"
    and put :: "'k \<Rightarrow> 'v \<Rightarrow> 'm \<Rightarrow> 'm"
    and del :: "'k \<Rightarrow> 'm \<Rightarrow> 'm"
    and len :: "'m \<Rightarrow> nat"
    and ok :: "'m \<Rightarrow> bool"
  assumes get_empty: "get empty k = None"
    and get_put: "ok m \<Longrightarrow> get (put k v m) = (get m)(k \<mapsto> v)"
    and get_del: "ok m \<Longrightarrow> get (del k m) = (get m)(k := None)"
    and finite_get: "finite (dom (get m))"
    and len_card: "ok m \<Longrightarrow> len m = card (dom (get m))"
    and ok_empty: "ok empty"
    and ok_put: "ok m \<Longrightarrow> ok (put k v m)"
    and ok_del: "ok m \<Longrightarrow> ok (del k m)"
begin

lemma len_put: "ok m \<Longrightarrow> len (put k v m) = (if get m k = None then Suc (len m) else len m)"
  by (auto simp: len_card ok_put get_put finite_get card_insert_if domIff)

lemma len_del: "ok m \<Longrightarrow> len (del k m) = (if get m k = None then len m else len m - 1)"
  by (auto simp: len_card ok_del get_del finite_get card_Diff_singleton_if domIff)

lemma len_pos: "ok m \<Longrightarrow> get m k \<noteq> None \<Longrightarrow> 0 < len m"
  by (metis card_gt_0_iff domIff empty_iff finite_get len_card)

lemma put_del_same: "ok m \<Longrightarrow> get m k = None \<Longrightarrow> get (del k (put k v m)) = get m"
  by (simp add: get_del get_put ok_put fun_upd_idem)

end

interpretation bt: ordered_map "[]" bt_get bt_insert bt_remove length bt_ok
  by unfold_locales (auto simp: bt_length intro: bt_ok_insert bt_ok_remove)

section \<open>Laws of the stable sort\<close>

lemma set_insert_by: "set (insert_by le x ys) = insert x (set ys)"
  by (induction ys) auto

lemma set_sort_by [simp]: "set (sort_by le xs) = set xs"
  by (induction xs) (auto simp: sort_by_def set_insert_by)

text \<open>The comparisons of the sources are total preorders on the values they are used on.\<close>

definition total_preorder_on :: "('a \<Rightarrow> 'a \<Rightarrow> bool) \<Rightarrow> 'a set \<Rightarrow> bool" where
  "total_preorder_on le A \<longleftrightarrow>
     (\<forall>a \<in> A. \<forall>b \<in> A. le a b \<or> le b a) \<and>
     (\<forall>a \<in> A. \<forall>b \<in> A. \<forall>c \<in> A. le a b \<longrightarrow> le b c \<longrightarrow> le a c)"

lemma total_preorder_on_total: "total_preorder_on le A \<Longrightarrow> a \<in> A \<Longrightarrow> b \<in> A \<Longrightarrow> \<not> le a b \<Longrightarrow> le b a"
  unfolding total_preorder_on_def by meson

lemma total_preorder_on_trans:
  "total_preorder_on le A \<Longrightarrow> a \<in> A \<Longrightarrow> b \<in> A \<Longrightarrow> c \<in> A \<Longrightarrow> le a b \<Longrightarrow> le b c \<Longrightarrow> le a c"
  unfolding total_preorder_on_def by meson

lemma total_preorder_on_subset: "total_preorder_on le A \<Longrightarrow> B \<subseteq> A \<Longrightarrow> total_preorder_on le B"
  unfolding total_preorder_on_def by (meson subsetD)

lemma total_preorder_on_cong:
  "(\<And>a b. a \<in> A \<Longrightarrow> b \<in> A \<Longrightarrow> le a b = le' a b) \<Longrightarrow> total_preorder_on le' A \<Longrightarrow> total_preorder_on le A"
  unfolding total_preorder_on_def by meson

lemma total_preorder_on_key: "total_preorder_on (\<lambda>a b. f a \<le> (f b :: 'b::linorder)) A"
  by (auto simp: total_preorder_on_def)

lemma sorted_insert_by:
  "total_preorder_on le (insert x (set ys)) \<Longrightarrow> sorted_wrt le ys \<Longrightarrow> sorted_wrt le (insert_by le x ys)"
proof (induction ys)
  case (Cons y ys)
  have "total_preorder_on le (insert x (set ys))"
    using Cons.prems(1) by (rule total_preorder_on_subset) auto
  with Cons have IH: "sorted_wrt le (insert_by le x ys)" by simp
  show ?case
  proof (cases "le x y")
    case True
    have "le x z" if "z \<in> set ys" for z
      by (rule total_preorder_on_trans [OF Cons.prems(1), of x y]) (use that True Cons.prems(2) in simp_all)
    with True Cons.prems(2) show ?thesis by simp
  next
    case False
    then have "le y x" by (intro total_preorder_on_total [OF Cons.prems(1)]) simp_all
    with False IH Cons.prems(2) show ?thesis by (simp add: set_insert_by)
  qed
qed simp

lemma sorted_sort_by: "total_preorder_on le (set xs) \<Longrightarrow> sorted_wrt le (sort_by le xs)"
proof (induction xs)
  case (Cons x xs)
  have "total_preorder_on le (set xs)"
    using Cons.prems by (rule total_preorder_on_subset) auto
  with Cons have "sorted_wrt le (sort_by le xs)" by simp
  with Cons.prems have "sorted_wrt le (insert_by le x (sort_by le xs))"
    by (intro sorted_insert_by) simp_all
  then show ?case by (simp add: sort_by_def)
qed (simp add: sort_by_def)

section \<open>Decimal numbers\<close>

definition digit :: "nat \<Rightarrow> char" where
  "digit d = char_of (48 + d)"

fun print_nat :: "nat \<Rightarrow> string" where
  "print_nat n = (if n < 10 then [digit n] else print_nat (n div 10) @ [digit (n mod 10)])"

declare print_nat.simps [simp del]

definition is_digit :: "char \<Rightarrow> bool" where
  "is_digit c \<longleftrightarrow> 48 \<le> (of_char c :: nat) \<and> (of_char c :: nat) \<le> 57"

definition digits_value :: "string \<Rightarrow> nat" where
  "digits_value ds = foldl (\<lambda>n c. n * 10 + ((of_char c :: nat) - 48)) 0 ds"

lemma of_char_digit: "d < 10 \<Longrightarrow> (of_char (digit d) :: nat) = 48 + d"
  by (simp add: digit_def)

lemma print_nat_digits: "print_nat n \<noteq> [] \<and> list_all is_digit (print_nat n) \<and> digits_value (print_nat n) = n"
proof (induction n rule: print_nat.induct)
  case (1 n)
  show ?case
  proof (cases "n < 10")
    case True
    then show ?thesis by (simp add: print_nat.simps [of n] is_digit_def digits_value_def of_char_digit)
  next
    case False
    with 1 show ?thesis
      by (simp add: print_nat.simps [of n] is_digit_def digits_value_def of_char_digit)
  qed
qed

end
