(* ===== verification/Allocator.thy ===== *)
theory Allocator
  imports Prelude
begin

text \<open>
  The contract every address allocator of the program promises its callers, as the locale
  \<open>allocator\<close>: a request always returns, hands out a value nobody holds, fails only when
  nothing is left, and giving the value back restores the pool. The host-scope pool and the
  node-prefix set are interpretations.
\<close>

text \<open>\<open>n\<close> successive requests, stopping at the first failure.\<close>

fun drain :: "('s \<Rightarrow> (('e + 'a) \<times> 's) option) \<Rightarrow> nat \<Rightarrow> 's \<Rightarrow> 'a list \<times> 's" where
  "drain request 0 s = ([], s)"
| "drain request (Suc n) s =
     (case request s of
        Some (Inr a, s') \<Rightarrow> (let (as, t) = drain request n s' in (a # as, t))
      | Some (Inl _, s') \<Rightarrow> ([], s')
      | None \<Rightarrow> ([], s))"

locale allocator =
  fixes inv :: "'s \<Rightarrow> bool"
    and avail :: "'s \<Rightarrow> 'a set"
    and request :: "'s \<Rightarrow> (('e + 'a) \<times> 's) option"
    and give :: "'a \<Rightarrow> 's \<Rightarrow> 's"
  assumes take_returns: "inv s \<Longrightarrow> request s \<noteq> None"
    and take_ok: "inv s \<Longrightarrow> request s = Some (Inr a, s') \<Longrightarrow>
      inv s' \<and> a \<in> avail s \<and> avail s' = avail s - {a}"
    and take_err: "inv s \<Longrightarrow> request s = Some (Inl e, s') \<Longrightarrow> inv s' \<and> avail s = {} \<and> avail s' = {}"
    and give_back: "inv s \<Longrightarrow> request s = Some (Inr a, s') \<Longrightarrow>
      inv (give a s') \<and> avail (give a s') = avail s"
begin

lemma take_succeeds_iff: "inv s \<Longrightarrow> (\<exists>a s'. request s = Some (Inr a, s')) \<longleftrightarrow> avail s \<noteq> {}"
proof
  assume "inv s" and "avail s \<noteq> {}"
  from take_returns [OF \<open>inv s\<close>] obtain r s' where "request s = Some (r, s')" by auto
  with take_err [OF \<open>inv s\<close>] \<open>avail s \<noteq> {}\<close> show "\<exists>a s'. request s = Some (Inr a, s')"
    by (cases r) auto
qed (auto dest: take_ok)

lemma drain_correct:
  "inv s \<Longrightarrow> drain request n s = (as, t) \<Longrightarrow>
    inv t \<and> distinct as \<and> set as \<subseteq> avail s \<and> avail t = avail s - set as \<and>
    (length as < n \<longrightarrow> set as = avail s)"
proof (induction n arbitrary: s as t)
  case (Suc n)
  from take_returns [OF Suc.prems(1)] obtain r s' where r: "request s = Some (r, s')" by auto
  show ?case
  proof (cases r)
    case (Inl e)
    with r Suc.prems take_err [OF Suc.prems(1), of e s'] show ?thesis by auto
  next
    case (Inr a)
    with r take_ok [OF Suc.prems(1), of a s']
    have s': "inv s'" "a \<in> avail s" "avail s' = avail s - {a}" by auto
    from Suc.prems(2) r Inr obtain bs where "drain request n s' = (bs, t)" "as = a # bs"
      by (auto split: prod.splits)
    with Suc.IH [OF s'(1), of bs t] s' show ?thesis by auto
  qed
qed auto

lemma drain_length:
  assumes "inv s" and "finite (avail s)"
  shows "length (fst (drain request n s)) = min n (card (avail s))"
proof -
  obtain as t where as: "drain request n s = (as, t)" by fastforce
  have le: "length as \<le> n"
    using as by (induction n arbitrary: s as t) (auto split: option.splits sum.splits prod.splits)
  from drain_correct [OF assms(1) as] have "distinct as" "set as \<subseteq> avail s"
    "length as < n \<longrightarrow> set as = avail s" by auto
  then show ?thesis
    using le as assms(2) by (metis card_mono distinct_card fst_conv min_absorb1 min_absorb2 nat_less_le order_refl)
qed

end

end
