(* ===== verification/Ipam.thy ===== *)
theory Ipam
  imports Prelude Allocator
begin

text \<open>
  Host-scope address management, \<open>crates/flowsdn-ipam/src/lib.rs\<close>: a pool for one prefix backed
  by sparse bitmap words (\<open>host_scope\<close>) and the dual-stack coordinator (\<open>ipam\<close>). The random
  start of a scan is the field \<open>hs_random\<close>, the keyed hash of the standard library, which the
  theorems leave arbitrary.
\<close>

section \<open>State and operations\<close>

datatype ipam_error =
    InvalidPrefix | CapacityOverflow | NotInRange | Allocated | Excluded string | Full
  | FamilyMismatch | FamilyDisabled

record range_options =
  allow_first_ip :: bool
  allow_last_ip :: bool

record host_scope =
  hs_network :: ip_addr
  hs_prefix_len :: u8
  hs_first :: u128
  hs_last :: u128
  hs_capacity :: u128
  hs_words :: "(u128, u64) btree_map"
  hs_owners :: "(ip_addr, string) btree_map"
  hs_excluded :: "(ip_addr, string) btree_map"
  hs_materialized :: "ip_addr btree_set"
  hs_random :: "u128 \<Rightarrow> u8 \<Rightarrow> u64"
  hs_sequence :: u128

record pool_summary =
  ps_capacity :: u128
  ps_allocated :: u128
  ps_excluded :: u128
  ps_allocated_excluded :: u128
  ps_available :: u128

definition from_number :: "u128 \<Rightarrow> bool \<Rightarrow> ip_addr" where
  "from_number v ipv4 = (if ipv4 then V4 (ucast v) else V6 v)"

definition bool_u128 :: "bool \<Rightarrow> u128" where
  "bool_u128 b = (if b then 1 else 0)"

definition host_scope_new ::
  "(u128 \<Rightarrow> u8 \<Rightarrow> u64) \<Rightarrow> ip_addr \<Rightarrow> u8 \<Rightarrow> range_options \<Rightarrow> ipam_error + host_scope" where
  "host_scope_new rnd address prefix_len options =
     (let width = (if is_ipv4 address then 32 else 128 :: u8)
      in case checked_sub width prefix_len of
           None \<Rightarrow> Inl InvalidPrefix
         | Some host_bits \<Rightarrow>
             let host_mask = (if host_bits = 128 then - 1
                              else push_bit (unat host_bits mod 128) (1 :: u128) - 1);
                 network_number = ip_number address AND NOT host_mask;
                 network = from_number network_number (is_ipv4 address);
                 reserve_first = (1 < host_bits \<and> \<not> allow_first_ip options);
                 reserve_last = (1 < host_bits \<and> \<not> allow_last_ip options);
                 first = network_number + bool_u128 reserve_first;
                 last = (network_number OR host_mask) - bool_u128 reserve_last
             in case Option.bind (checked_sub last first) (\<lambda>n. checked_add n 1) of
                  None \<Rightarrow> Inl CapacityOverflow
                | Some capacity \<Rightarrow>
                    Inr \<lparr>hs_network = network, hs_prefix_len = prefix_len, hs_first = first,
                         hs_last = last, hs_capacity = capacity, hs_words = [], hs_owners = [],
                         hs_excluded = [], hs_materialized = [], hs_random = rnd,
                         hs_sequence = 0\<rparr>)"

definition hs_offset :: "host_scope \<Rightarrow> ip_addr \<Rightarrow> u128 option" where
  "hs_offset hs address =
     (if is_ipv4 address \<noteq> is_ipv4 (hs_network hs) then None
      else let v = ip_number address
           in if v < hs_first hs \<or> hs_last hs < v then None
              else checked_sub v (hs_first hs))"

definition word_index :: "u128 \<Rightarrow> u128" where
  "word_index offset = drop_bit 6 offset"

definition word_mask :: "u128 \<Rightarrow> u64" where
  "word_mask offset = push_bit (unat (offset AND 63)) 1"

definition hs_is_set :: "host_scope \<Rightarrow> u128 \<Rightarrow> bool" where
  "hs_is_set hs offset =
     (case bt_get (hs_words hs) (word_index offset) of
        None \<Rightarrow> False
      | Some bits \<Rightarrow> bits AND word_mask offset \<noteq> 0)"

definition hs_reserve :: "host_scope \<Rightarrow> u128 \<Rightarrow> ip_addr \<Rightarrow> string \<Rightarrow> host_scope" where
  "hs_reserve hs offset address owner =
     hs\<lparr>hs_words := bt_insert (word_index offset)
          ((case bt_get (hs_words hs) (word_index offset) of None \<Rightarrow> 0 | Some b \<Rightarrow> b)
             OR word_mask offset) (hs_words hs),
        hs_owners := bt_insert address owner (hs_owners hs)\<rparr>"

definition hs_allocate :: "host_scope \<Rightarrow> ip_addr \<Rightarrow> string \<Rightarrow> (ipam_error + unit) \<times> host_scope" where
  "hs_allocate hs address owner =
     (case hs_offset hs address of
        None \<Rightarrow> (Inl NotInRange, hs)
      | Some offset \<Rightarrow>
          (case bt_get (hs_excluded hs) address of
             Some o' \<Rightarrow> (Inl (Excluded o'), hs)
           | None \<Rightarrow>
               if hs_is_set hs offset then (Inl Allocated, hs)
               else (Inr (), hs_reserve hs offset address owner)))"

text \<open>The body of the scan loop; \<open>None\<close> is an exhausted step budget.\<close>

fun hs_scan ::
  "nat \<Rightarrow> string \<Rightarrow> u128 \<Rightarrow> u128 \<Rightarrow> host_scope \<Rightarrow> ((ipam_error + ip_addr) \<times> host_scope) option" where
  "hs_scan 0 owner start offset hs = None"
| "hs_scan (Suc fuel) owner start offset hs =
     (let address = from_number (hs_first hs + offset) (is_ipv4 (hs_network hs));
          free = (\<not> hs_is_set hs offset);
          excluded = bt_get (hs_excluded hs) address
      in if free \<and> excluded = None
         then Some (Inr address, hs_reserve hs offset address owner)
         else let hs' = (if free
                         then (hs_reserve hs offset address (the excluded @ '' (excluded)''))
                                \<lparr>hs_materialized := bs_insert address (hs_materialized hs)\<rparr>
                         else hs);
                  offset' = (if offset = hs_capacity hs' - 1 then 0 else offset + 1)
              in if offset' = start \<or> of_nat (length (hs_owners hs')) = hs_capacity hs'
                 then Some (Inl Full, hs')
                 else hs_scan fuel owner start offset' hs')"

definition hs_scan_start :: "host_scope \<Rightarrow> u128" where
  "hs_scan_start hs =
     (push_bit 64 (ucast (hs_random hs (hs_sequence hs) 0))
        OR ucast (hs_random hs (hs_sequence hs) 1)) mod hs_capacity hs"

definition hs_allocate_next ::
  "host_scope \<Rightarrow> string \<Rightarrow> ((ipam_error + ip_addr) \<times> host_scope) option" where
  "hs_allocate_next hs owner =
     (if of_nat (length (hs_owners hs)) = hs_capacity hs then Some (Inl Full, hs)
      else let hs' = hs\<lparr>hs_sequence := hs_sequence hs + 1\<rparr>
           in if hs_capacity hs' = 0 then Some (Inl Full, hs')
              else hs_scan (unat (hs_capacity hs')) owner (hs_scan_start hs') (hs_scan_start hs') hs')"

definition hs_exclude_ip :: "host_scope \<Rightarrow> ip_addr \<Rightarrow> string \<Rightarrow> host_scope" where
  "hs_exclude_ip hs address owner = hs\<lparr>hs_excluded := bt_insert address owner (hs_excluded hs)\<rparr>"

definition hs_release :: "host_scope \<Rightarrow> ip_addr \<Rightarrow> host_scope" where
  "hs_release hs address =
     (case hs_offset hs address of
        None \<Rightarrow> hs
      | Some offset \<Rightarrow>
          hs\<lparr>hs_words :=
               (case bt_get (hs_words hs) (word_index offset) of
                  None \<Rightarrow> hs_words hs
                | Some bits \<Rightarrow>
                    let bits' = bits AND NOT (word_mask offset)
                    in if bits' = 0 then bt_remove (word_index offset) (hs_words hs)
                       else bt_insert (word_index offset) bits' (hs_words hs)),
             hs_owners := bt_remove address (hs_owners hs),
             hs_materialized := bs_remove address (hs_materialized hs)\<rparr>)"

definition hs_summary :: "host_scope \<Rightarrow> pool_summary" where
  "hs_summary hs =
     (let allocated = of_nat (length (hs_owners hs) - length (hs_materialized hs));
          excluded = of_nat (length (filter (\<lambda>a. hs_offset hs a \<noteq> None) (bt_keys (hs_excluded hs))));
          allocated_excluded = of_nat (length (filter (\<lambda>a. bt_get (hs_excluded hs) a \<noteq> None \<and>
            a \<notin> set (hs_materialized hs)) (bt_keys (hs_owners hs))));
          unavailable = saturating_sub (saturating_add allocated excluded) allocated_excluded
      in \<lparr>ps_capacity = hs_capacity hs, ps_allocated = allocated, ps_excluded = excluded,
          ps_allocated_excluded = allocated_excluded,
          ps_available = saturating_sub (hs_capacity hs) unavailable\<rparr>)"

subsection \<open>The dual-stack coordinator\<close>

record ipam =
  ipam_v4 :: "host_scope option"
  ipam_v6 :: "host_scope option"

record address_pair =
  pair_v4 :: "u32 option"
  pair_v6 :: "u128 option"

definition ipam_new :: "host_scope option \<Rightarrow> host_scope option \<Rightarrow> ipam_error + ipam" where
  "ipam_new p4 p6 =
     (if (case p4 of None \<Rightarrow> False | Some p \<Rightarrow> \<not> is_ipv4 (hs_network p)) \<or>
         (case p6 of None \<Rightarrow> False | Some p \<Rightarrow> \<not> is_ipv6 (hs_network p))
      then Inl FamilyMismatch
      else Inr \<lparr>ipam_v4 = p4, ipam_v6 = p6\<rparr>)"

text \<open>\<open>family_mut\<close>: read the pool of an address family, and write it back.\<close>

definition ipam_family :: "ipam \<Rightarrow> ip_addr \<Rightarrow> ipam_error + host_scope" where
  "ipam_family m address =
     (case (if is_ipv4 address then ipam_v4 m else ipam_v6 m) of
        None \<Rightarrow> Inl FamilyDisabled | Some p \<Rightarrow> Inr p)"

definition ipam_set_family :: "ipam \<Rightarrow> bool \<Rightarrow> host_scope \<Rightarrow> ipam" where
  "ipam_set_family m v4 p = (if v4 then m\<lparr>ipam_v4 := Some p\<rparr> else m\<lparr>ipam_v6 := Some p\<rparr>)"

definition ipam_allocate :: "ipam \<Rightarrow> ip_addr \<Rightarrow> string \<Rightarrow> (ipam_error + unit) \<times> ipam" where
  "ipam_allocate m address owner =
     (case ipam_family m address of
        Inl e \<Rightarrow> (Inl e, m)
      | Inr p \<Rightarrow> let (r, p') = hs_allocate p address owner
                 in (r, ipam_set_family m (is_ipv4 address) p'))"

definition ipam_allocate_next_family ::
  "ipam \<Rightarrow> bool \<Rightarrow> string \<Rightarrow> ((ipam_error + ip_addr) \<times> ipam) option" where
  "ipam_allocate_next_family m ipv6 owner =
     (case (if ipv6 then ipam_v6 m else ipam_v4 m) of
        None \<Rightarrow> Some (Inl FamilyDisabled, m)
      | Some p \<Rightarrow> map_option (\<lambda>(r, p'). (r, ipam_set_family m (\<not> ipv6) p')) (hs_allocate_next p owner))"

definition ipam_exclude_ip :: "ipam \<Rightarrow> ip_addr \<Rightarrow> string \<Rightarrow> (ipam_error + unit) \<times> ipam" where
  "ipam_exclude_ip m address owner =
     (case ipam_family m address of
        Inl e \<Rightarrow> (Inl e, m)
      | Inr p \<Rightarrow> (Inr (), ipam_set_family m (is_ipv4 address) (hs_exclude_ip p address owner)))"

definition ipam_release :: "ipam \<Rightarrow> ip_addr \<Rightarrow> (ipam_error + unit) \<times> ipam" where
  "ipam_release m address =
     (case ipam_family m address of
        Inl e \<Rightarrow> (Inl e, m)
      | Inr p \<Rightarrow> (Inr (), ipam_set_family m (is_ipv4 address) (hs_release p address)))"

text \<open>The two halves of \<open>Ipam::allocate_next\<close>: IPv6 first, then IPv4 with rollback.\<close>

definition ipam_next_v6 :: "ipam \<Rightarrow> string \<Rightarrow> ((ipam_error + u128 option) \<times> ipam) option" where
  "ipam_next_v6 m owner =
     (case ipam_v6 m of
        None \<Rightarrow> Some (Inr None, m)
      | Some p \<Rightarrow>
          (case hs_allocate_next p owner of
             None \<Rightarrow> None
           | Some (r, p') \<Rightarrow>
               Some (case r of Inl e \<Rightarrow> Inl e
                     | Inr (V6 a) \<Rightarrow> Inr (Some a) | Inr (V4 _) \<Rightarrow> Inl FamilyMismatch,
                     m\<lparr>ipam_v6 := Some p'\<rparr>)))"

definition ipam_rollback_v6 :: "ipam \<Rightarrow> u128 option \<Rightarrow> ipam" where
  "ipam_rollback_v6 m v6 =
     (case (ipam_v6 m, v6) of
        (Some p, Some a) \<Rightarrow> m\<lparr>ipam_v6 := Some (hs_release p (V6 a))\<rparr>
      | _ \<Rightarrow> m)"

definition ipam_next_v4 ::
  "ipam \<Rightarrow> u128 option \<Rightarrow> string \<Rightarrow> ((ipam_error + u32 option) \<times> ipam) option" where
  "ipam_next_v4 m v6 owner =
     (case ipam_v4 m of
        None \<Rightarrow> Some (Inr None, m)
      | Some p \<Rightarrow>
          (case hs_allocate_next p owner of
             None \<Rightarrow> None
           | Some (r, p') \<Rightarrow>
               let m' = m\<lparr>ipam_v4 := Some p'\<rparr>
               in Some (case r of
                    Inr (V4 a) \<Rightarrow> (Inr (Some a), m')
                  | Inr (V6 _) \<Rightarrow> (Inl FamilyMismatch, ipam_rollback_v6 m' v6)
                  | Inl e \<Rightarrow> (Inl e, ipam_rollback_v6 m' v6))))"

definition ipam_allocate_next ::
  "ipam \<Rightarrow> string \<Rightarrow> ((ipam_error + address_pair) \<times> ipam) option" where
  "ipam_allocate_next m owner =
     (if ipam_v4 m = None \<and> ipam_v6 m = None then Some (Inl FamilyDisabled, m)
      else case ipam_next_v6 m owner of
        None \<Rightarrow> None
      | Some (Inl e, m1) \<Rightarrow> Some (Inl e, m1)
      | Some (Inr v6, m1) \<Rightarrow>
          (case ipam_next_v4 m1 v6 owner of
             None \<Rightarrow> None
           | Some (Inl e, m2) \<Rightarrow> Some (Inl e, m2)
           | Some (Inr v4, m2) \<Rightarrow> Some (Inr \<lparr>pair_v4 = v4, pair_v6 = v6\<rparr>, m2)))"


section \<open>Well-formed pools\<close>

definition hs_avail :: "host_scope \<Rightarrow> ip_addr set" where
  "hs_avail hs = {a. hs_offset hs a \<noteq> None \<and> bt_get (hs_owners hs) a = None \<and>
     bt_get (hs_excluded hs) a = None}"

definition hs_geom :: "host_scope \<Rightarrow> bool" where
  "hs_geom hs \<longleftrightarrow> hs_first hs \<le> hs_last hs \<and>
     unat (hs_capacity hs) = Suc (unat (hs_last hs) - unat (hs_first hs)) \<and>
     (is_ipv4 (hs_network hs) \<longrightarrow> unat (hs_last hs) < 2 ^ 32)"

definition hs_wf :: "host_scope \<Rightarrow> bool" where
  "hs_wf hs \<longleftrightarrow> hs_geom hs \<and>
     bt_ok (hs_words hs) \<and> bt_ok (hs_owners hs) \<and> bt_ok (hs_excluded hs) \<and>
     bs_ok (hs_materialized hs) \<and>
     (\<forall>a. bt_get (hs_owners hs) a \<noteq> None \<longleftrightarrow>
        (\<exists>n. hs_offset hs a = Some n \<and> hs_is_set hs n)) \<and>
     (\<forall>a \<in> set (hs_materialized hs). bt_get (hs_owners hs) a \<noteq> None \<and> bt_get (hs_excluded hs) a \<noteq> None)"

abbreviation addr_of :: "host_scope \<Rightarrow> u128 \<Rightarrow> ip_addr" where
  "addr_of hs n \<equiv> from_number (hs_first hs + n) (is_ipv4 (hs_network hs))"

subsection \<open>Bitmap words\<close>

lemma word_mask_bit: "b AND word_mask n \<noteq> 0 \<longleftrightarrow> bit b (unat (n AND 63))"
  by (simp add: word_mask_def push_bit_eq_mult and_exp_eq_0_iff_not_bit)

lemma word_bit_bound: "unat (n AND 63 :: u128) < 64"
proof -
  have "n AND 63 = take_bit 6 n" by (simp add: take_bit_eq_mask mask_numeral)
  then show ?thesis using take_bit_nat_less_exp [of 6 "unat n"] by (simp add: unsigned_take_bit_eq)
qed

lemma bit_word_mask: "bit (word_mask n) i \<longleftrightarrow> i = unat (n AND 63)"
  using word_bit_bound [of n] by (auto simp: word_mask_def bit_exp_iff)

lemma word_position_inj:
  assumes "word_index n = word_index p" and "unat (n AND 63) = unat (p AND 63)"
  shows "n = p"
proof -
  have "n AND 63 = p AND 63" using assms(2) by (simp add: word_unat_eq_iff)
  then have low: "take_bit 6 n = take_bit 6 p" by (simp add: take_bit_eq_mask mask_numeral)
  have "n = push_bit 6 (drop_bit 6 n) + take_bit 6 n" by (simp add: bits_ident)
  also have "\<dots> = push_bit 6 (drop_bit 6 p) + take_bit 6 p"
    using assms(1) low by (simp add: word_index_def)
  also have "\<dots> = p" by (simp add: bits_ident)
  finally show ?thesis .
qed

lemma hs_is_set_bit:
  "hs_is_set hs n \<longleftrightarrow>
    (\<exists>b. bt_get (hs_words hs) (word_index n) = Some b \<and> bit b (unat (n AND 63)))"
  by (auto simp: hs_is_set_def word_mask_bit split: option.splits)

lemma hs_is_set_reserve:
  "hs_is_set (hs_reserve hs n a w) p \<longleftrightarrow> p = n \<or> hs_is_set hs p"
  by (auto simp: hs_is_set_bit hs_reserve_def bit_or_iff bit_word_mask
           dest: word_position_inj split: option.splits if_splits)

lemma hs_is_set_release:
  assumes "hs_offset hs a = Some n"
  shows "hs_is_set (hs_release hs a) p \<longleftrightarrow> p \<noteq> n \<and> hs_is_set hs p"
proof (cases "bt_get (hs_words hs) (word_index n)")
  case None
  then show ?thesis using assms by (auto simp: hs_is_set_bit hs_release_def)
next
  case (Some b)
  let ?b = "b AND NOT (word_mask n)"
  have bits: "bit ?b i \<longleftrightarrow> bit b i \<and> i \<noteq> unat (n AND 63)" if "i < 64" for i
    using that by (auto simp: bit_and_iff bit_not_iff bit_word_mask)
  have "hs_is_set (hs_release hs a) p \<longleftrightarrow>
    (if word_index p = word_index n then bit ?b (unat (p AND 63)) else hs_is_set hs p)"
    using assms Some by (auto simp: hs_is_set_bit hs_release_def Let_def)
  also have "\<dots> \<longleftrightarrow> p \<noteq> n \<and> hs_is_set hs p"
    using Some word_position_inj [of p n] bits [OF word_bit_bound [of p]]
    by (auto simp: hs_is_set_bit)
  finally show ?thesis .
qed

lemma hs_offset_cong:
  "hs_first hs' = hs_first hs \<Longrightarrow> hs_last hs' = hs_last hs \<Longrightarrow> hs_network hs' = hs_network hs \<Longrightarrow>
    hs_offset hs' = hs_offset hs"
  by (simp add: hs_offset_def fun_eq_iff Let_def)

subsection \<open>Offsets and addresses\<close>

lemma ip_number_from_number:
  "(v4 \<Longrightarrow> unat v < 2 ^ 32) \<Longrightarrow> ip_number (from_number v v4) = v"
  by (cases v4)
     (auto simp: from_number_def word_unat_eq_iff unsigned_ucast_eq unsigned_take_bit_eq take_bit_nat_eq_self)

lemma is_ipv4_from_number [simp]: "is_ipv4 (from_number v v4) = v4"
  by (simp add: from_number_def)

lemma hs_offset_Some:
  assumes "hs_geom hs" and "hs_offset hs a = Some n"
  shows "n < hs_capacity hs \<and> addr_of hs n = a"
proof -
  from assms(2) have n: "n = ip_number a - hs_first hs" "hs_first hs \<le> ip_number a"
    "ip_number a \<le> hs_last hs" "is_ipv4 a = is_ipv4 (hs_network hs)"
    by (auto simp: hs_offset_def Let_def checked_sub_Some split: if_splits)
  have "unat n = unat (ip_number a) - unat (hs_first hs)" using n by (simp add: unat_sub)
  then have "unat n < unat (hs_capacity hs)"
    using assms(1) n(2,3) by (auto simp: hs_geom_def word_le_nat_alt)
  moreover have "addr_of hs n = a"
  proof (rule ip_number_inj)
    show "is_ipv4 (addr_of hs n) = is_ipv4 a" using n by simp
    show "ip_number (addr_of hs n) = ip_number a"
      using n assms(1) by (subst ip_number_from_number) (auto simp: hs_geom_def word_le_nat_alt)
  qed
  ultimately show ?thesis by (simp add: word_less_nat_alt)
qed

lemma hs_offset_addr_of:
  assumes "hs_geom hs" and "n < hs_capacity hs"
  shows "hs_offset hs (addr_of hs n) = Some n"
proof -
  have le: "unat (hs_first hs) + unat n \<le> unat (hs_last hs)"
    using assms by (auto simp: hs_geom_def word_less_nat_alt word_le_nat_alt)
  then have sum: "unat (hs_first hs + n) = unat (hs_first hs) + unat n"
    using unat_bound [of "hs_last hs"] by (intro unat_add_no_wrap) linarith
  then have num: "ip_number (addr_of hs n) = hs_first hs + n"
    using assms(1) le by (intro ip_number_from_number) (auto simp: hs_geom_def)
  show ?thesis
    using sum le by (auto simp: hs_offset_def num checked_sub_Some word_le_nat_alt word_less_nat_alt)
qed

lemma hs_range_card:
  assumes "hs_geom hs"
  shows "card {a. hs_offset hs a \<noteq> None} = unat (hs_capacity hs)" and "finite {a. hs_offset hs a \<noteq> None}"
proof -
  have eq: "{a. hs_offset hs a \<noteq> None} = addr_of hs ` {n. n < hs_capacity hs}"
    using hs_offset_Some [OF assms] hs_offset_addr_of [OF assms] by (force simp: image_iff)
  have "inj_on (addr_of hs) {n. n < hs_capacity hs}"
    by (rule inj_onI) (metis hs_offset_addr_of [OF assms] mem_Collect_eq option.inject)
  then show "card {a. hs_offset hs a \<noteq> None} = unat (hs_capacity hs)"
    unfolding eq by (simp add: card_image card_word_below)
  show "finite {a. hs_offset hs a \<noteq> None}" unfolding eq by simp
qed

subsection \<open>Every operation keeps the pool well-formed\<close>

lemma hs_wf_owned:
  "hs_wf hs \<Longrightarrow> bt_get (hs_owners hs) a \<noteq> None \<longleftrightarrow> (\<exists>n. hs_offset hs a = Some n \<and> hs_is_set hs n)"
  unfolding hs_wf_def by blast

lemma hs_wfD:
  assumes "hs_wf hs"
  shows "hs_geom hs" "bt_ok (hs_words hs)" "bt_ok (hs_owners hs)" "bt_ok (hs_excluded hs)"
    "bs_ok (hs_materialized hs)"
    "a \<in> set (hs_materialized hs) \<Longrightarrow> bt_get (hs_owners hs) a \<noteq> None"
    "a \<in> set (hs_materialized hs) \<Longrightarrow> bt_get (hs_excluded hs) a \<noteq> None"
  using assms unfolding hs_wf_def by blast+

lemma hs_wfI:
  assumes "hs_geom hs" "bt_ok (hs_words hs)" "bt_ok (hs_owners hs)" "bt_ok (hs_excluded hs)"
    "bs_ok (hs_materialized hs)"
    and "\<And>a. bt_get (hs_owners hs) a \<noteq> None \<longleftrightarrow> (\<exists>n. hs_offset hs a = Some n \<and> hs_is_set hs n)"
    and "\<And>a. a \<in> set (hs_materialized hs) \<Longrightarrow> bt_get (hs_owners hs) a \<noteq> None"
    and "\<And>a. a \<in> set (hs_materialized hs) \<Longrightarrow> bt_get (hs_excluded hs) a \<noteq> None"
  shows "hs_wf hs"
  using assms unfolding hs_wf_def by blast

lemma hs_wf_offset_owned:
  "hs_wf hs \<Longrightarrow> hs_offset hs a = Some n \<Longrightarrow> bt_get (hs_owners hs) a = None \<longleftrightarrow> \<not> hs_is_set hs n"
  by (metis hs_wf_owned option.inject)

lemma hs_owned_in_range: "hs_wf hs \<Longrightarrow> bt_get (hs_owners hs) a \<noteq> None \<Longrightarrow> hs_offset hs a \<noteq> None"
  using hs_wf_owned [of hs a] by auto

lemma hs_offset_inj:
  "hs_wf hs \<Longrightarrow> hs_offset hs a = Some n \<Longrightarrow> hs_offset hs b = Some n \<Longrightarrow> b = a"
  using hs_offset_Some [of hs] hs_wfD(1) by metis

lemma hs_offset_reserve [simp]: "hs_offset (hs_reserve hs n a w) = hs_offset hs"
  by (rule hs_offset_cong) (simp_all add: hs_reserve_def)

lemma hs_reserve_fields [simp]:
  "bt_get (hs_owners (hs_reserve hs n a w)) = (bt_get (hs_owners hs))(a \<mapsto> w)"
  "hs_excluded (hs_reserve hs n a w) = hs_excluded hs"
  "hs_materialized (hs_reserve hs n a w) = hs_materialized hs"
  "hs_capacity (hs_reserve hs n a w) = hs_capacity hs"
  "hs_first (hs_reserve hs n a w) = hs_first hs"
  "hs_network (hs_reserve hs n a w) = hs_network hs"
  by (simp_all add: hs_reserve_def)

lemma hs_wf_reserve:
  assumes "hs_wf hs" and "hs_offset hs a = Some n"
  shows "hs_wf (hs_reserve hs n a w)"
proof -
  have geom: "hs_geom (hs_reserve hs n a w)"
    using hs_wfD(1) [OF assms(1)] by (simp add: hs_geom_def hs_reserve_def)
  have ok: "bt_ok (hs_words (hs_reserve hs n a w))" "bt_ok (hs_owners (hs_reserve hs n a w))"
    using hs_wfD(2,3) [OF assms(1)] by (simp_all add: hs_reserve_def bt_ok_insert)
  have owned: "bt_get (hs_owners (hs_reserve hs n a w)) b \<noteq> None \<longleftrightarrow>
      (\<exists>m. hs_offset hs b = Some m \<and> hs_is_set (hs_reserve hs n a w) m)" for b
  proof (cases "b = a")
    case False
    then have "hs_offset hs b \<noteq> Some n" using hs_offset_inj [OF assms] by blast
    with False show ?thesis using hs_wf_owned [OF assms(1), of b] by (auto simp: hs_is_set_reserve)
  qed (use assms(2) in \<open>simp add: hs_is_set_reserve\<close>)
  show ?thesis
  proof (rule hs_wfI)
    show "bt_get (hs_owners (hs_reserve hs n a w)) b \<noteq> None"
      if "b \<in> set (hs_materialized (hs_reserve hs n a w))" for b
      using that hs_wfD(6) [OF assms(1), of b] by simp
  qed (use geom ok owned hs_wfD(4,5,7) [OF assms(1)] in simp_all)
qed

lemma hs_wf_exclude:
  assumes "hs_wf hs"
  shows "hs_wf (hs_exclude_ip hs a w)"
proof -
  have "hs_offset (hs_exclude_ip hs a w) = hs_offset hs"
    by (rule hs_offset_cong) (simp_all add: hs_exclude_ip_def)
  moreover have "hs_is_set (hs_exclude_ip hs a w) = hs_is_set hs"
    by (simp add: hs_is_set_def hs_exclude_ip_def fun_eq_iff)
  moreover have "hs_geom (hs_exclude_ip hs a w)"
    using hs_wfD(1) [OF assms] by (simp add: hs_geom_def hs_exclude_ip_def)
  moreover have "hs_words (hs_exclude_ip hs a w) = hs_words hs" "hs_owners (hs_exclude_ip hs a w) = hs_owners hs"
    "hs_materialized (hs_exclude_ip hs a w) = hs_materialized hs"
    by (simp_all add: hs_exclude_ip_def)
  moreover have "bt_get (hs_excluded (hs_exclude_ip hs a w)) = (bt_get (hs_excluded hs))(a \<mapsto> w)"
    "bt_ok (hs_excluded (hs_exclude_ip hs a w))"
    using hs_wfD(4) [OF assms] by (simp_all add: hs_exclude_ip_def bt_ok_insert)
  ultimately show ?thesis
    by (intro hs_wfI) (use hs_wfD [OF assms] hs_wf_owned [OF assms] in simp_all)
qed

lemma hs_offset_release [simp]: "hs_offset (hs_release hs a) = hs_offset hs"
  by (rule hs_offset_cong) (auto simp: hs_release_def split: option.splits)

lemma hs_owners_release:
  "hs_wf hs \<Longrightarrow> bt_get (hs_owners (hs_release hs a)) = (bt_get (hs_owners hs))(a := None)"
  by (cases "hs_offset hs a") (auto simp: hs_release_def fun_eq_iff dest: hs_owned_in_range)

lemma hs_excluded_release [simp]: "hs_excluded (hs_release hs a) = hs_excluded hs"
  by (auto simp: hs_release_def split: option.splits)

lemma hs_wf_release:
  assumes "hs_wf hs"
  shows "hs_wf (hs_release hs a)"
proof (cases "hs_offset hs a")
  case None
  then show ?thesis using assms by (simp add: hs_release_def)
next
  case (Some n)
  have owned: "bt_get (hs_owners (hs_release hs a)) b \<noteq> None \<longleftrightarrow>
      (\<exists>m. hs_offset hs b = Some m \<and> hs_is_set (hs_release hs a) m)" for b
  proof (cases "b = a")
    case False
    then have "hs_offset hs b \<noteq> Some n" using hs_offset_inj [OF assms Some] by blast
    with False show ?thesis
      using hs_wf_owned [OF assms, of b]
      by (auto simp: hs_is_set_release [OF Some] hs_owners_release [OF assms])
  qed (use Some in \<open>simp add: hs_is_set_release [OF Some] hs_owners_release [OF assms]\<close>)
  have words: "bt_ok (hs_words (hs_release hs a))"
    using Some hs_wfD(2) [OF assms]
    by (simp add: hs_release_def Let_def bt_ok_insert bt_ok_remove split: option.splits)
  have rest: "bt_ok (hs_owners (hs_release hs a))" "bs_ok (hs_materialized (hs_release hs a))"
    "set (hs_materialized (hs_release hs a)) = set (hs_materialized hs) - {a}"
    using Some hs_wfD(3,5) [OF assms] by (simp_all add: hs_release_def bt_ok_remove bs_ok_remove)
  have "hs_geom (hs_release hs a)"
    using hs_wfD(1) [OF assms] Some by (simp add: hs_geom_def hs_release_def)
  then show ?thesis
  proof (rule hs_wfI)
    show "bt_get (hs_owners (hs_release hs a)) b \<noteq> None"
      if "b \<in> set (hs_materialized (hs_release hs a))" for b
      using that rest(3) hs_wfD(6) [OF assms, of b] hs_owners_release [OF assms, of a] by simp
  qed (use owned words rest hs_wfD(4,7) [OF assms] in simp_all)
qed

lemma hs_avail_release:
  assumes "hs_wf hs"
  shows "hs_avail (hs_release hs a) =
    (if hs_offset hs a \<noteq> None \<and> bt_get (hs_excluded hs) a = None then insert a (hs_avail hs) else hs_avail hs)"
  using hs_owners_release [OF assms, of a] by (auto simp: hs_avail_def)

lemma hs_avail_reserve:
  "hs_offset hs a = Some n \<Longrightarrow> hs_avail (hs_reserve hs n a w) = hs_avail hs - {a}"
  by (auto simp: hs_avail_def)

lemma hs_owned_count:
  assumes "hs_wf hs"
  shows "length (hs_owners hs) \<le> unat (hs_capacity hs)"
    and "length (hs_owners hs) = unat (hs_capacity hs) \<Longrightarrow> hs_avail hs = {}"
proof -
  let ?D = "dom (bt_get (hs_owners hs))" and ?R = "{a. hs_offset hs a \<noteq> None}"
  have geom: "hs_geom hs" using assms by (simp add: hs_wf_def)
  have sub: "?D \<subseteq> ?R" using hs_owned_in_range [OF assms] by blast
  have len: "length (hs_owners hs) = card ?D" using assms by (intro bt_length) (simp add: hs_wf_def)
  show "length (hs_owners hs) \<le> unat (hs_capacity hs)"
    using card_mono [OF hs_range_card(2) [OF geom] sub] len hs_range_card(1) [OF geom] by simp
  assume "length (hs_owners hs) = unat (hs_capacity hs)"
  then have "?D = ?R"
    using card_subset_eq [OF hs_range_card(2) [OF geom] sub] len hs_range_card(1) [OF geom] by simp
  then show "hs_avail hs = {}" by (auto simp: hs_avail_def)
qed

lemma hs_full_test:
  assumes "hs_wf hs"
  shows "of_nat (length (hs_owners hs)) = hs_capacity hs \<longleftrightarrow>
    length (hs_owners hs) = unat (hs_capacity hs)"
  using unat_of_nat_small [OF hs_owned_count(1) [OF assms]] by (simp add: word_unat_eq_iff)

subsection \<open>The scan\<close>

definition hs_all_set :: "host_scope \<Rightarrow> nat \<Rightarrow> nat \<Rightarrow> bool" where
  "hs_all_set hs s j \<longleftrightarrow> (\<forall>i<j. hs_is_set hs (of_nat ((s + i) mod unat (hs_capacity hs))))"

lemma hs_all_set_full:
  assumes "hs_wf hs" and "s < unat (hs_capacity hs)" and "hs_all_set hs s (unat (hs_capacity hs))"
  shows "hs_avail hs = {}"
proof -
  have "bt_get (hs_owners hs) a \<noteq> None" if "hs_offset hs a = Some n" for a n
  proof -
    have "unat n < unat (hs_capacity hs)"
      using hs_offset_Some [OF hs_wfD(1) [OF assms(1)] that] by (simp add: word_less_nat_alt)
    from ring_hits [OF assms(2) this] obtain i where
      "i < unat (hs_capacity hs)" "(s + i) mod unat (hs_capacity hs) = unat n" by auto
    with assms(3) have "hs_is_set hs n" by (auto simp: hs_all_set_def)
    with that show ?thesis using hs_wf_owned [OF assms(1)] by blast
  qed
  then show ?thesis by (auto simp: hs_avail_def)
qed

abbreviation hs_materialize :: "host_scope \<Rightarrow> u128 \<Rightarrow> ip_addr \<Rightarrow> string \<Rightarrow> host_scope" where
  "hs_materialize hs n a w \<equiv>
     (hs_reserve hs n a w)\<lparr>hs_materialized := bs_insert a (hs_materialized hs)\<rparr>"

lemma hs_materialize_facts:
  assumes "hs_wf hs" and "hs_offset hs a = Some n" and "bt_get (hs_excluded hs) a \<noteq> None"
  shows "hs_wf (hs_materialize hs n a w)" and "hs_avail (hs_materialize hs n a w) = hs_avail hs"
    and "hs_is_set (hs_materialize hs n a w) m \<longleftrightarrow> m = n \<or> hs_is_set hs m"
proof -
  let ?h = "hs_materialize hs n a w"
  have off: "hs_offset ?h = hs_offset hs"
    by (rule hs_offset_cong) (simp_all add: hs_reserve_def)
  have set: "hs_is_set ?h m \<longleftrightarrow> hs_is_set (hs_reserve hs n a w) m" for m
    by (simp add: hs_is_set_def)
  then show "hs_is_set ?h m \<longleftrightarrow> m = n \<or> hs_is_set hs m" by (simp add: hs_is_set_reserve)
  have r: "hs_wf (hs_reserve hs n a w)" using assms(1,2) by (rule hs_wf_reserve)
  show "hs_wf ?h"
  proof (rule hs_wfI)
    show "hs_geom ?h" using hs_wfD(1) [OF r] by (simp add: hs_geom_def)
    show "bt_get (hs_owners ?h) b \<noteq> None \<longleftrightarrow> (\<exists>m. hs_offset ?h b = Some m \<and> hs_is_set ?h m)" for b
      using hs_wf_owned [OF r, of b] by (simp add: off set)
    show "bt_get (hs_owners ?h) b \<noteq> None" if "b \<in> set (hs_materialized ?h)" for b
      using that hs_wfD(6) [OF assms(1), of b] by auto
    show "bt_get (hs_excluded ?h) b \<noteq> None" if "b \<in> set (hs_materialized ?h)" for b
      using that hs_wfD(7) [OF assms(1), of b] assms(3) by auto
  qed (use hs_wfD(2-5) [OF r] hs_wfD(5) [OF assms(1)] in \<open>simp_all add: bs_ok_insert\<close>)
  show "hs_avail ?h = hs_avail hs"
    using assms(3) by (auto simp: hs_avail_def off)
qed

text \<open>One turn of the loop on a position that is taken or excluded.\<close>

definition hs_scan_skip :: "u128 \<Rightarrow> host_scope \<Rightarrow> host_scope" where
  "hs_scan_skip n hs =
     (if hs_is_set hs n then hs
      else hs_materialize hs n (addr_of hs n)
             (the (bt_get (hs_excluded hs) (addr_of hs n)) @ '' (excluded)''))"

lemma hs_scan_Suc:
  "hs_scan (Suc fuel) owner start n hs =
     (if \<not> hs_is_set hs n \<and> bt_get (hs_excluded hs) (addr_of hs n) = None
      then Some (Inr (addr_of hs n), hs_reserve hs n (addr_of hs n) owner)
      else if (if n = hs_capacity hs - 1 then 0 else n + 1) = start \<or>
              of_nat (length (hs_owners (hs_scan_skip n hs))) = hs_capacity hs
           then Some (Inl Full, hs_scan_skip n hs)
           else hs_scan fuel owner start (if n = hs_capacity hs - 1 then 0 else n + 1) (hs_scan_skip n hs))"
  by (cases "hs_is_set hs n"; cases "bt_get (hs_excluded hs) (addr_of hs n)")
     (simp_all add: Let_def hs_scan_skip_def)

declare hs_scan.simps(2) [simp del]

definition hs_same_geometry :: "host_scope \<Rightarrow> host_scope \<Rightarrow> bool" where
  "hs_same_geometry hs hs' \<longleftrightarrow> hs_network hs' = hs_network hs \<and> hs_prefix_len hs' = hs_prefix_len hs \<and>
     hs_first hs' = hs_first hs \<and> hs_last hs' = hs_last hs \<and> hs_capacity hs' = hs_capacity hs \<and>
     hs_excluded hs' = hs_excluded hs \<and> hs_random hs' = hs_random hs"

text \<open>Owners outside the exclusion list are untouched.\<close>

definition hs_keeps_owners :: "host_scope \<Rightarrow> host_scope \<Rightarrow> ip_addr set \<Rightarrow> bool" where
  "hs_keeps_owners hs hs' A \<longleftrightarrow>
     (\<forall>b. b \<notin> A \<longrightarrow> bt_get (hs_excluded hs) b = None \<or> bt_get (hs_owners hs) b \<noteq> None \<longrightarrow>
        bt_get (hs_owners hs') b = bt_get (hs_owners hs) b)"

lemma hs_scan_skip_facts:
  assumes "hs_wf hs" and "n < hs_capacity hs"
    and "hs_is_set hs n \<or> bt_get (hs_excluded hs) (addr_of hs n) \<noteq> None"
  shows "hs_wf (hs_scan_skip n hs)" and "hs_avail (hs_scan_skip n hs) = hs_avail hs"
    and "hs_is_set (hs_scan_skip n hs) m \<longleftrightarrow> m = n \<or> hs_is_set hs m"
    and "hs_same_geometry hs (hs_scan_skip n hs)" and "hs_keeps_owners hs (hs_scan_skip n hs) {}"
proof -
  have off: "hs_offset hs (addr_of hs n) = Some n"
    using hs_offset_addr_of [OF hs_wfD(1) [OF assms(1)] assms(2)] .
  note f = hs_materialize_facts [OF assms(1) off]
  show "hs_wf (hs_scan_skip n hs)" and "hs_avail (hs_scan_skip n hs) = hs_avail hs"
    and "hs_is_set (hs_scan_skip n hs) m \<longleftrightarrow> m = n \<or> hs_is_set hs m"
    using assms f by (auto simp: hs_scan_skip_def)
  show "hs_same_geometry hs (hs_scan_skip n hs)"
    by (simp add: hs_same_geometry_def hs_scan_skip_def hs_reserve_def)
  show "hs_keeps_owners hs (hs_scan_skip n hs) {}"
    using assms(1,3) hs_wf_offset_owned [OF assms(1) off]
    by (auto simp: hs_keeps_owners_def hs_scan_skip_def)
qed

definition hs_scan_post ::
  "string \<Rightarrow> host_scope \<Rightarrow> (ipam_error + ip_addr) \<times> host_scope \<Rightarrow> bool" where
  "hs_scan_post owner hs res \<longleftrightarrow>
     hs_wf (snd res) \<and> hs_same_geometry hs (snd res) \<and>
     (case fst res of
        Inr a \<Rightarrow> a \<in> hs_avail hs \<and> hs_avail (snd res) = hs_avail hs - {a} \<and>
          bt_get (hs_owners (snd res)) a = Some owner \<and> hs_keeps_owners hs (snd res) {a}
      | Inl e \<Rightarrow> e = Full \<and> hs_avail hs = {} \<and> hs_avail (snd res) = {} \<and>
          hs_keeps_owners hs (snd res) {})"

lemma hs_scan_post_trans:
  assumes "hs_scan_post owner hs' res" and "hs_avail hs' = hs_avail hs"
    and "hs_same_geometry hs hs'" and "hs_keeps_owners hs hs' {}"
  shows "hs_scan_post owner hs res"
proof -
  have "hs_keeps_owners hs hs'' A" if "hs_keeps_owners hs' hs'' A" for hs'' A
    using that assms(3,4) by (auto simp: hs_keeps_owners_def hs_same_geometry_def)
  then show ?thesis
    using assms by (auto simp: hs_scan_post_def hs_same_geometry_def split: sum.splits)
qed

lemma hs_scan_hit:
  assumes "hs_wf hs" and "n < hs_capacity hs"
    and "\<not> hs_is_set hs n" and "bt_get (hs_excluded hs) (addr_of hs n) = None"
  shows "hs_scan_post owner hs (Inr (addr_of hs n), hs_reserve hs n (addr_of hs n) owner)"
proof -
  have off: "hs_offset hs (addr_of hs n) = Some n"
    using hs_offset_addr_of [OF hs_wfD(1) [OF assms(1)] assms(2)] .
  have "bt_get (hs_owners hs) (addr_of hs n) = None"
    using hs_wf_offset_owned [OF assms(1) off] assms(3) by simp
  then have "addr_of hs n \<in> hs_avail hs" using off assms(4) by (simp add: hs_avail_def)
  then show ?thesis
    using hs_wf_reserve [OF assms(1) off] hs_avail_reserve [OF off]
    by (simp add: hs_scan_post_def hs_same_geometry_def hs_keeps_owners_def)
       (simp add: hs_reserve_def)
qed

lemma hs_scan_correct:
  assumes "hs_wf hs" and "start < hs_capacity hs" and "j < unat (hs_capacity hs)"
    and "unat n = (unat start + j) mod unat (hs_capacity hs)"
    and "hs_all_set hs (unat start) j" and "unat (hs_capacity hs) - j \<le> fuel"
  shows "\<exists>res. hs_scan fuel owner start n hs = Some res \<and> hs_scan_post owner hs res"
  using assms
proof (induction fuel arbitrary: hs n j)
  case (Suc fuel)
  let ?c = "unat (hs_capacity hs)" and ?next = "if n = hs_capacity hs - 1 then 0 else n + 1"
  let ?hs = "hs_scan_skip n hs"
  have n: "n < hs_capacity hs" using Suc.prems(3,4) by (simp add: word_less_nat_alt)
  show ?case
  proof (cases "\<not> hs_is_set hs n \<and> bt_get (hs_excluded hs) (addr_of hs n) = None")
    case True
    with hs_scan_hit [OF Suc.prems(1) n] show ?thesis by (simp add: hs_scan_Suc)
  next
    case False
    then have skip: "hs_is_set hs n \<or> bt_get (hs_excluded hs) (addr_of hs n) \<noteq> None" by simp
    note f = hs_scan_skip_facts [OF Suc.prems(1) n skip]
    have cap: "hs_capacity ?hs = hs_capacity hs" using f(4) by (simp add: hs_same_geometry_def)
    have set: "hs_all_set ?hs (unat start) (Suc j)"
      unfolding hs_all_set_def cap
    proof (intro allI impI)
      fix i assume "i < Suc j"
      then consider "i < j" | "i = j" by linarith
      then show "hs_is_set ?hs (of_nat ((unat start + i) mod ?c))"
      proof cases
        case 1
        with Suc.prems(5) show ?thesis by (simp add: f(3) hs_all_set_def)
      next
        case 2
        then show ?thesis by (simp add: f(3) flip: Suc.prems(4))
      qed
    qed
    have nxt: "unat ?next = (unat start + Suc j) mod ?c"
      using unat_ring_next [OF n] Suc.prems(4) by (simp add: mod_Suc_eq)
    have full: "hs_scan_post owner hs (Inl Full, ?hs)" if "hs_avail ?hs = {}"
      using that f by (simp add: hs_scan_post_def)
    show ?thesis
    proof (cases "?next = start \<or> of_nat (length (hs_owners ?hs)) = hs_capacity hs")
      case True
      have "hs_avail ?hs = {}"
      proof (cases "?next = start")
        case True
        then have "(unat start + Suc j) mod ?c = unat start" using nxt by simp
        then have "Suc j = ?c"
          using Suc.prems(2,3) by (subst (asm) ring_returns) (auto simp: word_less_nat_alt)
        then show ?thesis
          using hs_all_set_full [OF f(1)] set cap Suc.prems(2) by (simp add: word_less_nat_alt)
      next
        case False
        with True have "length (hs_owners ?hs) = unat (hs_capacity ?hs)"
          using hs_full_test [OF f(1)] cap by simp
        then show ?thesis by (rule hs_owned_count(2) [OF f(1)])
      qed
      with full have "hs_scan_post owner hs (Inl Full, ?hs)" by simp
      then show ?thesis by (simp only: hs_scan_Suc if_not_P [OF False] if_P [OF True]) blast
    next
      case no: False
      then have "(unat start + Suc j) mod ?c \<noteq> unat start" using nxt by (simp add: word_unat_eq_iff)
      then have "Suc j < ?c"
        using Suc.prems(2,3) ring_returns [of "unat start" ?c "Suc j"] by (auto simp: word_less_nat_alt)
      moreover have "?c - Suc j \<le> fuel" using Suc.prems(6) by linarith
      ultimately obtain res where "hs_scan fuel owner start ?next ?hs = Some res" "hs_scan_post owner ?hs res"
        using Suc.IH [OF f(1), of "Suc j" ?next] Suc.prems(2) nxt set cap by auto
      moreover from this(2) have "hs_scan_post owner hs res"
        using f(2,4,5) by (rule hs_scan_post_trans)
      ultimately show ?thesis by (simp only: hs_scan_Suc if_not_P [OF False] if_not_P [OF no]) blast
    qed
  qed
qed simp

lemma hs_sequence_irrelevant [simp]:
  "hs_offset (hs\<lparr>hs_sequence := q\<rparr>) = hs_offset hs" "hs_is_set (hs\<lparr>hs_sequence := q\<rparr>) = hs_is_set hs"
  "hs_wf (hs\<lparr>hs_sequence := q\<rparr>) \<longleftrightarrow> hs_wf hs" "hs_avail (hs\<lparr>hs_sequence := q\<rparr>) = hs_avail hs"
proof -
  show off: "hs_offset (hs\<lparr>hs_sequence := q\<rparr>) = hs_offset hs" by (rule hs_offset_cong) simp_all
  show set: "hs_is_set (hs\<lparr>hs_sequence := q\<rparr>) = hs_is_set hs" by (simp add: hs_is_set_def fun_eq_iff)
  show "hs_wf (hs\<lparr>hs_sequence := q\<rparr>) \<longleftrightarrow> hs_wf hs" by (simp add: hs_wf_def hs_geom_def off set)
  show "hs_avail (hs\<lparr>hs_sequence := q\<rparr>) = hs_avail hs" by (simp add: hs_avail_def off)
qed

lemma hs_allocate_next_correct:
  assumes "hs_wf hs"
  shows "\<exists>res. hs_allocate_next hs owner = Some res \<and> hs_scan_post owner hs res"
proof (cases "of_nat (length (hs_owners hs)) = hs_capacity hs")
  case True
  then have "hs_avail hs = {}"
    using hs_full_test [OF assms] hs_owned_count(2) [OF assms] by blast
  with True assms show ?thesis
    by (simp add: hs_allocate_next_def hs_scan_post_def hs_same_geometry_def hs_keeps_owners_def)
next
  case False
  let ?hs = "hs\<lparr>hs_sequence := hs_sequence hs + 1\<rparr>"
  have wf: "hs_wf ?hs" using assms by simp
  have pos: "hs_capacity hs \<noteq> 0"
    using hs_wfD(1) [OF assms] by (auto simp: hs_geom_def)
  have "hs_scan_start ?hs < hs_capacity ?hs"
    using pos by (simp add: hs_scan_start_def word_mod_less_divisor word_gt_0)
  then obtain res where "hs_scan (unat (hs_capacity ?hs)) owner (hs_scan_start ?hs) (hs_scan_start ?hs) ?hs = Some res"
    "hs_scan_post owner ?hs res"
    using hs_scan_correct [OF wf, of "hs_scan_start ?hs" 0 "hs_scan_start ?hs" "unat (hs_capacity ?hs)" owner]
    by (auto simp: word_less_nat_alt hs_all_set_def)
  moreover have "hs_scan_post owner hs res"
    using \<open>hs_scan_post owner ?hs res\<close>
    by (rule hs_scan_post_trans)
       (simp_all add: hs_same_geometry_def hs_keeps_owners_def)
  ultimately show ?thesis using False pos by (auto simp: hs_allocate_next_def Let_def)
qed

subsection \<open>The pool is an allocator\<close>

lemma hs_release_restores:
  assumes "hs_wf hs'" and "a \<in> hs_avail hs" and "hs_avail hs' = hs_avail hs - {a}"
    and "hs_same_geometry hs hs'"
  shows "hs_avail (hs_release hs' a) = hs_avail hs"
proof -
  have "hs_offset hs' = hs_offset hs"
    using assms(4) by (intro hs_offset_cong) (simp_all add: hs_same_geometry_def)
  then show ?thesis
    using assms(2-4) hs_avail_release [OF assms(1), of a]
    by (auto simp: hs_same_geometry_def hs_avail_def)
qed

interpretation pool: allocator hs_wf hs_avail "\<lambda>hs. hs_allocate_next hs owner" "\<lambda>a hs. hs_release hs a"
proof
  fix s :: host_scope and s' a and e :: ipam_error
  assume wf: "hs_wf s"
  from hs_allocate_next_correct [OF wf, of owner] obtain res where
    res: "hs_allocate_next s owner = Some res" "hs_scan_post owner s res" by blast
  show "hs_allocate_next s owner \<noteq> None" using res by simp
  show "hs_wf s' \<and> a \<in> hs_avail s \<and> hs_avail s' = hs_avail s - {a}"
    if "hs_allocate_next s owner = Some (Inr a, s')"
    using that res by (simp add: hs_scan_post_def)
  show "hs_wf s' \<and> hs_avail s = {} \<and> hs_avail s' = {}"
    if "hs_allocate_next s owner = Some (Inl e, s')"
    using that res by (simp add: hs_scan_post_def)
  show "hs_wf (hs_release s' a) \<and> hs_avail (hs_release s' a) = hs_avail s"
    if "hs_allocate_next s owner = Some (Inr a, s')"
    using that res hs_wf_release [of s' a] hs_release_restores [of s' a s]
    by (simp add: hs_scan_post_def)
qed

lemma hs_avail_finite: "hs_wf hs \<Longrightarrow> finite (hs_avail hs)"
  by (rule finite_subset [OF _ hs_range_card(2) [OF hs_wfD(1)]]) (auto simp: hs_avail_def)

lemma hs_allocate_cases:
  assumes "hs_wf hs"
  shows "hs_allocate hs a w =
    (if hs_offset hs a = None then (Inl NotInRange, hs)
     else case bt_get (hs_excluded hs) a of
       Some x \<Rightarrow> (Inl (Excluded x), hs)
     | None \<Rightarrow> if bt_get (hs_owners hs) a \<noteq> None then (Inl Allocated, hs)
               else (Inr (), hs_reserve hs (the (hs_offset hs a)) a w))"
  using hs_wf_offset_owned [OF assms, of a]
  by (cases "hs_offset hs a") (auto simp: hs_allocate_def split: option.splits)

lemma hs_allocate_wf:
  assumes "hs_wf hs" and "hs_allocate hs a w = (r, hs')"
  shows "hs_wf hs'"
  using assms hs_wf_reserve [OF assms(1), of a]
  by (auto simp: hs_allocate_def split: option.splits if_splits)

subsection \<open>Counting what is left\<close>

lemma hs_unavailable_count:
  assumes "hs_wf hs"
  defines "Ow \<equiv> {a. bt_get (hs_owners hs) a \<noteq> None}"
    and "Xs \<equiv> {a. bt_get (hs_excluded hs) a \<noteq> None \<and> hs_offset hs a \<noteq> None}"
    and "Mat \<equiv> set (hs_materialized hs)"
  shows "card (hs_avail hs) + card (Ow \<union> Xs) = unat (hs_capacity hs)"
    and "card (Ow \<union> Xs) = (card Ow - card Mat) + card Xs - card (Ow \<inter> Xs - Mat)"
    and "card (Ow \<inter> Xs - Mat) \<le> card Ow - card Mat" and "card Xs \<le> unat (hs_capacity hs)"
    and "card Ow \<le> unat (hs_capacity hs)"
proof -
  let ?R = "{a. hs_offset hs a \<noteq> None}"
  note R = hs_range_card [OF hs_wfD(1) [OF assms(1)]]
  have sub: "Ow \<subseteq> ?R" "Xs \<subseteq> ?R" "Mat \<subseteq> Ow \<inter> Xs"
    using hs_owned_in_range [OF assms(1)] hs_wfD(6,7) [OF assms(1)]
    by (auto simp: Ow_def Xs_def Mat_def)
  have fin: "finite Ow" "finite Xs" "finite Mat"
    using R(2) sub by (auto intro: finite_subset simp: Mat_def)
  have split: "?R = hs_avail hs \<union> (Ow \<union> Xs)"
    using sub(1,2) unfolding hs_avail_def Ow_def Xs_def by blast
  have disj: "hs_avail hs \<inter> (Ow \<union> Xs) = {}"
    unfolding hs_avail_def Ow_def Xs_def by blast
  show "card (hs_avail hs) + card (Ow \<union> Xs) = unat (hs_capacity hs)"
    using card_Un_disjoint [OF hs_avail_finite [OF assms(1)] finite_UnI [OF fin(1,2)] disj]
      R(1) arg_cong [OF split, of card] by linarith
  have "card (Ow \<union> Xs) + card (Ow \<inter> Xs) = card Ow + card Xs"
    using card_Un_Int [OF fin(1,2)] by linarith
  moreover have "card (Ow \<inter> Xs) = card (Ow \<inter> Xs - Mat) + card Mat"
    using sub(3) fin card_mono [of "Ow \<inter> Xs" Mat] by (simp add: card_Diff_subset)
  moreover have mat: "card (Ow \<inter> Xs - Mat) + card Mat \<le> card Ow"
    using calculation(2) card_mono [OF fin(1), of "Ow \<inter> Xs"] by simp
  ultimately show "card (Ow \<union> Xs) = (card Ow - card Mat) + card Xs - card (Ow \<inter> Xs - Mat)"
    by linarith
  show "card (Ow \<inter> Xs - Mat) \<le> card Ow - card Mat" using mat by linarith
  show "card Xs \<le> unat (hs_capacity hs)" "card Ow \<le> unat (hs_capacity hs)"
    using card_mono [OF R(2) sub(1)] card_mono [OF R(2) sub(2)] R(1) by simp_all
qed

lemma unat_available:
  assumes "x < 2 ^ 64" and "y < 2 ^ 64" and "b \<le> x"
  shows "unat (saturating_sub c (saturating_sub (saturating_add (of_nat x) (of_nat y)) (of_nat b)) :: u128) =
    unat c - (x + y - b)"
  using assms by (simp add: rust_word unat_of_nat)

lemma hs_summary_available:
  assumes "hs_wf hs" and "length (hs_owners hs) < 2 ^ 64" and "length (hs_excluded hs) < 2 ^ 64"
  shows "unat (ps_available (hs_summary hs)) = card (hs_avail hs)"
proof -
  let ?Ow = "{a. bt_get (hs_owners hs) a \<noteq> None}"
    and ?Xs = "{a. bt_get (hs_excluded hs) a \<noteq> None \<and> hs_offset hs a \<noteq> None}"
    and ?Mat = "set (hs_materialized hs)"
  note c = hs_unavailable_count [OF assms(1)]
  have ow: "length (hs_owners hs) = card ?Ow"
    using bt_length [OF hs_wfD(3) [OF assms(1)]] by (simp add: dom_def)
  have mat: "length (hs_materialized hs) = card ?Mat"
    using hs_wfD(5) [OF assms(1)] by (rule bs_length)
  have xs: "length (filter (\<lambda>a. hs_offset hs a \<noteq> None) (bt_keys (hs_excluded hs))) = card ?Xs"
    using filter_keys_card [OF hs_wfD(4) [OF assms(1)]] .
  have "length (filter (\<lambda>a. bt_get (hs_excluded hs) a \<noteq> None \<and> a \<notin> ?Mat) (bt_keys (hs_owners hs))) =
      card {a. bt_get (hs_owners hs) a \<noteq> None \<and> bt_get (hs_excluded hs) a \<noteq> None \<and> a \<notin> ?Mat}"
    using filter_keys_card [OF hs_wfD(3) [OF assms(1)]] .
  also have "{a. bt_get (hs_owners hs) a \<noteq> None \<and> bt_get (hs_excluded hs) a \<noteq> None \<and> a \<notin> ?Mat} =
      ?Ow \<inter> ?Xs - ?Mat"
    using hs_owned_in_range [OF assms(1)] by blast
  finally have both: "length (filter (\<lambda>a. bt_get (hs_excluded hs) a \<noteq> None \<and> a \<notin> ?Mat)
      (bt_keys (hs_owners hs))) = card (?Ow \<inter> ?Xs - ?Mat)" .
  have lim: "card ?Ow < 2 ^ 64" "card ?Xs < 2 ^ 64"
    using assms(2,3) ow xs length_filter_le [of "\<lambda>a. hs_offset hs a \<noteq> None" "bt_keys (hs_excluded hs)"]
    by (simp_all add: bt_keys_def)
  have "unat (ps_available (hs_summary hs)) =
      unat (hs_capacity hs) - ((card ?Ow - card ?Mat) + card ?Xs - card (?Ow \<inter> ?Xs - ?Mat))"
    unfolding hs_summary_def Let_def pool_summary.select_convs ow mat xs both
    by (rule unat_available) (use lim c(3) in auto)
  then show ?thesis using c(1,2) by linarith
qed

subsection \<open>A new pool\<close>

lemma host_mask_eq:
  "h \<le> 128 \<Longrightarrow> (if h = 128 then - 1 else push_bit (unat h mod 128) (1 :: u128) - 1) = mask (unat (h :: u8))"
proof (cases "h = 128")
  case True
  then show ?thesis by (simp add: mask_eq_exp_minus_1)
next
  case False
  assume "h \<le> 128"
  then have "unat h \<le> 128" by (simp add: word_le_nat_alt)
  moreover have "unat h \<noteq> 128" using False by (simp add: word_unat_eq_iff)
  ultimately show ?thesis using False by (simp add: mask_eq_exp_minus_1)
qed

definition prefix_width :: "ip_addr \<Rightarrow> nat" where
  "prefix_width a = (if is_ipv4 a then 32 else 128)"

definition reserved_ends :: "nat \<Rightarrow> range_options \<Rightarrow> nat" where
  "reserved_ends h opt = (if h > 1 then (if allow_first_ip opt then 0 else 1) +
     (if allow_last_ip opt then 0 else 1) else 0)"

lemma ip_number_bound: "unat (ip_number a) < 2 ^ prefix_width a"
proof (cases a)
  case (V4 x)
  then show ?thesis using unat_bound [of x] by (simp only: prefix_width_def) simp
next
  case (V6 x)
  then show ?thesis using unat_bound [of x] by (simp only: prefix_width_def) simp
qed

lemma host_scope_new_bounds:
  fixes net :: u128
  assumes "h \<le> 128" and "net AND mask h = 0" and "unat net + 2 ^ h \<le> 2 ^ w" and "w \<le> 128"
    and "r1 \<le> 1" and "r2 \<le> 1" and "r1 + r2 \<noteq> 0 \<longrightarrow> 1 < h"
  shows "unat (net + of_nat r1) = unat net + r1"
    and "unat ((net OR mask h) - of_nat r2) = unat net + (2 ^ h - 1) - r2" and "r1 + r2 < 2 ^ h"
proof -
  have le: "unat net + 2 ^ h \<le> 2 ^ LENGTH(128)"
    using assms(3) power_increasing [OF assms(4), of "2::nat"] by simp
  have h: "r1 + r2 < 2 ^ h"
  proof (cases "1 < h")
    case True
    then have "(2::nat) ^ 2 \<le> 2 ^ h" by (intro power_increasing) simp_all
    then show ?thesis using assms(5,6) by simp
  qed (use assms(7) in simp)
  then show "r1 + r2 < 2 ^ h" .
  have r: "unat (of_nat r1 :: u128) = r1" "unat (of_nat r2 :: u128) = r2"
    using assms(5,6) by (simp_all add: unat_of_nat)
  have "unat net + unat (of_nat r1 :: u128) < 2 ^ LENGTH(128)"
    using le h unfolding r by linarith
  then show "unat (net + of_nat r1) = unat net + r1" by (simp add: unat_add_no_wrap r)
  have o: "unat (net OR mask h) = unat net + (2 ^ h - 1)"
    using assms(2) le assms(1) by (intro unat_or_mask) simp_all
  moreover have "(of_nat r2 :: u128) \<le> net OR mask h"
    using h by (simp add: word_le_nat_alt r o)
  ultimately show "unat ((net OR mask h) - of_nat r2) = unat net + (2 ^ h - 1) - r2"
    by (simp add: unat_sub r)
qed

lemma host_scope_new_unfold:
  assumes "host_scope_new rnd a p opt = Inr hs"
  defines "h \<equiv> prefix_width a - unat p"
  obtains net :: u128 and r1 r2 :: nat and n where
    "unat p \<le> prefix_width a" "net = ip_number a AND NOT (mask h)"
    "r1 = (if 1 < h \<and> \<not> allow_first_ip opt then 1 else 0)"
    "r2 = (if 1 < h \<and> \<not> allow_last_ip opt then 1 else 0)"
    "checked_sub ((net OR mask h) - of_nat r2) (net + of_nat r1) = Some n" "unat n + 1 < 2 ^ 128"
    "hs = \<lparr>hs_network = from_number net (is_ipv4 a), hs_prefix_len = p, hs_first = net + of_nat r1,
       hs_last = (net OR mask h) - of_nat r2, hs_capacity = n + 1, hs_words = [], hs_owners = [],
       hs_excluded = [], hs_materialized = [], hs_random = rnd, hs_sequence = 0\<rparr>"
proof -
  let ?w = "if is_ipv4 a then 32 else 128 :: u8"
  have w: "unat ?w = prefix_width a" by (simp add: prefix_width_def)
  from assms(1) have le: "p \<le> ?w"
    by (auto simp: host_scope_new_def checked_sub_def Let_def split: if_splits)
  then have p: "unat p \<le> prefix_width a" using w by (simp add: word_le_nat_alt)
  have hb: "unat (?w - p) = h" using le by (simp add: unat_sub w h_def)
  have "h \<le> 128" by (auto simp: h_def prefix_width_def)
  then have m: "(if ?w - p = 128 then - 1 else push_bit (unat (?w - p) mod 128) 1 - 1) = (mask h :: u128)"
    using host_mask_eq [of "?w - p"] hb by (simp add: word_le_nat_alt)
  have one: "1 < ?w - p \<longleftrightarrow> 1 < h" using hb by (simp add: word_less_nat_alt)
  have b: "bool_u128 c = of_nat (if c then 1 else 0)" for c by (simp add: bool_u128_def)
  have cs: "checked_sub ?w p = Some (?w - p)" using le by (simp add: checked_sub_def)
  show thesis
    using assms(1) that [OF p refl refl refl]
    unfolding host_scope_new_def Let_def cs option.case m one b
    by (auto simp: checked_add_Some bind_eq_Some_conv split: option.splits)
qed

lemma host_scope_new_correct:
  assumes "host_scope_new rnd a p opt = Inr hs"
  shows "hs_wf hs" and "unat p \<le> prefix_width a"
    and "unat (hs_capacity hs) = 2 ^ (prefix_width a - unat p) - reserved_ends (prefix_width a - unat p) opt"
    and "is_ipv4 (hs_network hs) = is_ipv4 a" and "hs_owners hs = []" and "hs_excluded hs = []"
proof -
  define h where "h = prefix_width a - unat p"
  from host_scope_new_unfold [OF assms] obtain net :: u128 and r1 r2 n where
    p: "unat p \<le> prefix_width a" and net: "net = ip_number a AND NOT (mask h)" and
    r1: "r1 = (if 1 < h \<and> \<not> allow_first_ip opt then 1 else 0)" and
    r2: "r2 = (if 1 < h \<and> \<not> allow_last_ip opt then 1 else 0)" and
    n: "checked_sub ((net OR mask h) - of_nat r2) (net + of_nat r1) = Some n" "unat n + 1 < 2 ^ 128" and
    hs: "hs = \<lparr>hs_network = from_number net (is_ipv4 a), hs_prefix_len = p, hs_first = net + of_nat r1,
       hs_last = (net OR mask h) - of_nat r2, hs_capacity = n + 1, hs_words = [], hs_owners = [],
       hs_excluded = [], hs_materialized = [], hs_random = rnd, hs_sequence = 0\<rparr>"
    unfolding h_def by metis
  have w: "h \<le> prefix_width a" "prefix_width a \<le> 128" by (auto simp: h_def prefix_width_def)
  have fit: "unat net + 2 ^ h \<le> 2 ^ prefix_width a"
    unfolding net using ip_number_bound w(1) by (rule aligned_block_fits)
  have low: "net AND mask h = 0" by (simp add: net and.assoc)
  note b = host_scope_new_bounds [OF order_trans [OF w] low fit w(2), of r1 r2]
  have first: "unat (net + of_nat r1) = unat net + r1"
    and last: "unat ((net OR mask h) - of_nat r2) = unat net + (2 ^ h - 1) - r2"
    and ends: "r1 + r2 < 2 ^ h"
    using b by (auto simp: r1 r2)
  have le: "net + of_nat r1 \<le> (net OR mask h) - of_nat r2"
    and n': "n = ((net OR mask h) - of_nat r2) - (net + of_nat r1)"
    using n(1) by (simp_all add: checked_sub_Some)
  have un: "unat n = (2 ^ h - 1) - r2 - r1"
    using le unfolding n' by (simp add: unat_sub first last)
  have cap: "unat (n + 1) = unat n + 1"
    using n(2) by (subst unat_add_no_wrap) simp_all
  show "hs_wf hs"
  proof (rule hs_wfI)
    have "(0::nat) < 2 ^ h" by simp
    with fit last have "unat ((net OR mask h) - of_nat r2) < 2 ^ prefix_width a" by linarith
    then show "hs_geom hs"
      using le cap un by (auto simp: hs_geom_def hs first last prefix_width_def word_le_nat_alt)
  qed (simp_all add: hs hs_is_set_def)
  show "unat p \<le> prefix_width a" by fact
  show "unat (hs_capacity hs) = 2 ^ (prefix_width a - unat p) - reserved_ends (prefix_width a - unat p) opt"
  proof -
    have "reserved_ends h opt = r1 + r2" by (simp add: reserved_ends_def r1 r2)
    then show ?thesis unfolding h_def [symmetric] using un cap ends by (simp add: hs)
  qed
  show "is_ipv4 (hs_network hs) = is_ipv4 a" "hs_owners hs = []" "hs_excluded hs = []" by (simp_all add: hs)
qed

subsection \<open>Both families\<close>

definition pool_avail :: "host_scope option \<Rightarrow> ip_addr set" where
  "pool_avail p = (case p of None \<Rightarrow> {} | Some hs \<Rightarrow> hs_avail hs)"

definition ipam_avail :: "ipam \<Rightarrow> ip_addr set" where
  "ipam_avail m = pool_avail (ipam_v4 m) \<union> pool_avail (ipam_v6 m)"

definition pool_wf :: "bool \<Rightarrow> host_scope option \<Rightarrow> bool" where
  "pool_wf v4 p = (case p of None \<Rightarrow> True | Some hs \<Rightarrow> hs_wf hs \<and> is_ipv4 (hs_network hs) = v4)"

definition ipam_wf :: "ipam \<Rightarrow> bool" where
  "ipam_wf m = (pool_wf True (ipam_v4 m) \<and> pool_wf False (ipam_v6 m))"

lemma ipam_new_wf:
  "ipam_new p4 p6 = Inr m \<Longrightarrow> (\<And>p. p4 = Some p \<Longrightarrow> hs_wf p) \<Longrightarrow> (\<And>p. p6 = Some p \<Longrightarrow> hs_wf p) \<Longrightarrow>
    ipam_wf m"
  by (auto simp: ipam_new_def ipam_wf_def pool_wf_def is_ipv6_def split: option.splits if_splits)

lemma pool_avail_family: "a \<in> pool_avail p \<Longrightarrow> pool_wf v4 p \<Longrightarrow> is_ipv4 a = v4"
  by (auto simp: pool_avail_def pool_wf_def hs_avail_def hs_offset_def split: option.splits if_splits)

lemma pool_avail_other_family:
  "pool_wf False p \<Longrightarrow> V4 x \<notin> pool_avail p" "pool_wf True p \<Longrightarrow> V6 y \<notin> pool_avail p"
  by (auto dest: pool_avail_family)

lemma pool_wf_geometry:
  "hs_wf hs' \<Longrightarrow> hs_same_geometry hs hs' \<Longrightarrow> pool_wf v4 (Some hs) \<Longrightarrow> pool_wf v4 (Some hs')"
  by (simp add: pool_wf_def hs_same_geometry_def)

text \<open>What one pool does for the coordinator.\<close>

lemma pool_allocate_next:
  assumes "pool_wf v4 (Some p)"
  obtains r p' where "hs_allocate_next p owner = Some (r, p')" and "pool_wf v4 (Some p')"
    and "\<And>e. r = Inl e \<Longrightarrow> hs_avail p' = hs_avail p"
    and "\<And>a. r = Inr a \<Longrightarrow> a \<in> hs_avail p \<and> is_ipv4 a = v4 \<and> hs_avail p' = hs_avail p - {a} \<and>
      pool_wf v4 (Some (hs_release p' a)) \<and> hs_avail (hs_release p' a) = hs_avail p"
proof -
  have wf: "hs_wf p" using assms by (simp add: pool_wf_def)
  from hs_allocate_next_correct [OF wf, of owner] obtain r p' where
    r: "hs_allocate_next p owner = Some (r, p')" and post: "hs_scan_post owner p (r, p')" by auto
  have geo: "hs_wf p'" "hs_same_geometry p p'" using post by (simp_all add: hs_scan_post_def)
  have rel: "pool_wf v4 (Some (hs_release p' a))" for a
    using pool_wf_geometry [OF geo assms] hs_wf_release [of p' a]
    by (auto simp: pool_wf_def hs_release_def split: option.splits)
  show thesis
  proof (rule that [OF r pool_wf_geometry [OF geo assms]])
    show "hs_avail p' = hs_avail p" if "r = Inl e" for e
      using that post by (simp add: hs_scan_post_def)
    show "a \<in> hs_avail p \<and> is_ipv4 a = v4 \<and> hs_avail p' = hs_avail p - {a} \<and>
      pool_wf v4 (Some (hs_release p' a)) \<and> hs_avail (hs_release p' a) = hs_avail p" if "r = Inr a" for a
    proof -
      have a: "a \<in> hs_avail p" "hs_avail p' = hs_avail p - {a}"
        using that post by (simp_all add: hs_scan_post_def)
      moreover have "is_ipv4 a = v4"
        using pool_avail_family [of a "Some p" v4] a(1) assms by (simp add: pool_avail_def)
      ultimately show ?thesis using hs_release_restores [OF geo(1) a geo(2)] rel by simp
    qed
  qed
qed

definition pair_addresses :: "address_pair \<Rightarrow> ip_addr set" where
  "pair_addresses pr = V4 ` set_option (pair_v4 pr) \<union> V6 ` set_option (pair_v6 pr)"

lemma ipam_next_v6_correct:
  assumes "ipam_wf m"
  obtains r m1 where "ipam_next_v6 m owner = Some (r, m1)" and "ipam_wf m1" and "ipam_v4 m1 = ipam_v4 m"
    and "\<And>e. r = Inl e \<Longrightarrow> pool_avail (ipam_v6 m1) = pool_avail (ipam_v6 m)"
    and "\<And>v6. r = Inr v6 \<Longrightarrow> (v6 = None \<longleftrightarrow> ipam_v6 m = None) \<and>
      V6 ` set_option v6 \<subseteq> pool_avail (ipam_v6 m) \<and>
      pool_avail (ipam_v6 m1) = pool_avail (ipam_v6 m) - V6 ` set_option v6 \<and>
      pool_avail (ipam_v6 (ipam_rollback_v6 m1 v6)) = pool_avail (ipam_v6 m) \<and>
      pool_wf False (ipam_v6 (ipam_rollback_v6 m1 v6))"
proof (cases "ipam_v6 m")
  case None
  show thesis
    by (rule that [of "Inr None" m])
       (use assms None in \<open>auto simp: ipam_next_v6_def ipam_rollback_v6_def pool_avail_def pool_wf_def\<close>)
next
  case (Some p)
  then have "pool_wf False (Some p)" using assms by (simp add: ipam_wf_def)
  from pool_allocate_next [OF this, of owner] obtain r p' where
    r: "hs_allocate_next p owner = Some (r, p')" "pool_wf False (Some p')"
    and err: "\<And>e. r = Inl e \<Longrightarrow> hs_avail p' = hs_avail p"
    and ok: "\<And>a. r = Inr a \<Longrightarrow> a \<in> hs_avail p \<and> is_ipv4 a = False \<and> hs_avail p' = hs_avail p - {a} \<and>
      pool_wf False (Some (hs_release p' a)) \<and> hs_avail (hs_release p' a) = hs_avail p" by blast
  let ?m = "m\<lparr>ipam_v6 := Some p'\<rparr>"
  have wf: "ipam_wf ?m" using assms r(2) by (simp add: ipam_wf_def)
  show thesis
  proof (cases r)
    case (Inl e)
    show thesis
      by (rule that [of "Inl e" ?m])
         (use Some r Inl wf err in \<open>auto simp: ipam_next_v6_def pool_avail_def\<close>)
  next
    case (Inr a)
    with ok [of a] obtain x where x: "a = V6 x" by (cases a) auto
    show thesis
      by (rule that [of "Inr (Some x)" ?m])
         (use Some r Inr x wf ok [of a] in \<open>auto simp: ipam_next_v6_def pool_avail_def ipam_rollback_v6_def\<close>)
  qed
qed

lemma ipam_next_v4_correct:
  assumes "ipam_wf m" and "pool_wf False (ipam_v6 (ipam_rollback_v6 m v6))"
  obtains r m2 where "ipam_next_v4 m v6 owner = Some (r, m2)" and "ipam_wf m2"
    and "\<And>e. r = Inl e \<Longrightarrow> pool_avail (ipam_v4 m2) = pool_avail (ipam_v4 m) \<and>
      pool_avail (ipam_v6 m2) = pool_avail (ipam_v6 (ipam_rollback_v6 m v6))"
    and "\<And>v4. r = Inr v4 \<Longrightarrow> (v4 = None \<longleftrightarrow> ipam_v4 m = None) \<and>
      V4 ` set_option v4 \<subseteq> pool_avail (ipam_v4 m) \<and>
      pool_avail (ipam_v4 m2) = pool_avail (ipam_v4 m) - V4 ` set_option v4 \<and>
      ipam_v6 m2 = ipam_v6 m"
proof (cases "ipam_v4 m")
  case None
  show thesis
    by (rule that [of "Inr None" m]) (use assms None in \<open>auto simp: ipam_next_v4_def pool_avail_def\<close>)
next
  case (Some p)
  then have "pool_wf True (Some p)" using assms by (simp add: ipam_wf_def)
  from pool_allocate_next [OF this, of owner] obtain r p' where
    r: "hs_allocate_next p owner = Some (r, p')" "pool_wf True (Some p')"
    and err: "\<And>e. r = Inl e \<Longrightarrow> hs_avail p' = hs_avail p"
    and ok: "\<And>a. r = Inr a \<Longrightarrow> a \<in> hs_avail p \<and> is_ipv4 a = True \<and> hs_avail p' = hs_avail p - {a} \<and>
      pool_wf True (Some (hs_release p' a)) \<and> hs_avail (hs_release p' a) = hs_avail p" by blast
  let ?m = "m\<lparr>ipam_v4 := Some p'\<rparr>"
  show thesis
  proof (cases r)
    case (Inl e)
    have "ipam_v6 (ipam_rollback_v6 ?m v6) = ipam_v6 (ipam_rollback_v6 m v6)"
      "ipam_v4 (ipam_rollback_v6 ?m v6) = Some p'"
      by (simp_all add: ipam_rollback_v6_def split: option.splits)
    then show thesis
      using Some r Inl err assms(2)
      by (intro that [of "Inl e" "ipam_rollback_v6 ?m v6"])
         (simp_all add: ipam_next_v4_def pool_avail_def ipam_wf_def)
  next
    case (Inr a)
    with ok [of a] obtain x where x: "a = V4 x" by (cases a) auto
    show thesis
      using assms(1) Some r Inr x ok [of a]
      by (intro that [of "Inr (Some x)" ?m])
         (auto simp: ipam_next_v4_def pool_avail_def ipam_wf_def)
  qed
qed

lemma ipam_allocate_next_correct:
  assumes "ipam_wf m"
  shows "\<exists>r m'. ipam_allocate_next m owner = Some (r, m') \<and> ipam_wf m' \<and>
    (case r of
       Inl e \<Rightarrow> ipam_avail m' = ipam_avail m
     | Inr pr \<Rightarrow> (pair_v4 pr = None \<longleftrightarrow> ipam_v4 m = None) \<and> (pair_v6 pr = None \<longleftrightarrow> ipam_v6 m = None) \<and>
         pair_addresses pr \<subseteq> ipam_avail m \<and> ipam_avail m' = ipam_avail m - pair_addresses pr)"
proof (cases "ipam_v4 m = None \<and> ipam_v6 m = None")
  case True
  with assms show ?thesis by (simp add: ipam_allocate_next_def)
next
  case False
  from ipam_next_v6_correct [OF assms, of owner] obtain r6 m1 where
    r6: "ipam_next_v6 m owner = Some (r6, m1)" "ipam_wf m1" "ipam_v4 m1 = ipam_v4 m"
    and e6: "\<And>e. r6 = Inl e \<Longrightarrow> pool_avail (ipam_v6 m1) = pool_avail (ipam_v6 m)"
    and o6: "\<And>v6. r6 = Inr v6 \<Longrightarrow> (v6 = None \<longleftrightarrow> ipam_v6 m = None) \<and>
      V6 ` set_option v6 \<subseteq> pool_avail (ipam_v6 m) \<and>
      pool_avail (ipam_v6 m1) = pool_avail (ipam_v6 m) - V6 ` set_option v6 \<and>
      pool_avail (ipam_v6 (ipam_rollback_v6 m1 v6)) = pool_avail (ipam_v6 m) \<and>
      pool_wf False (ipam_v6 (ipam_rollback_v6 m1 v6))" by blast
  show ?thesis
  proof (cases r6)
    case (Inl e)
    with r6 e6 show ?thesis
      unfolding ipam_allocate_next_def if_not_P [OF False] by (simp add: ipam_avail_def)
  next
    case (Inr v6)
    note o6 = o6 [OF Inr]
    from ipam_next_v4_correct [OF r6(2), of v6 owner] o6 obtain r4 m2 where
      r4: "ipam_next_v4 m1 v6 owner = Some (r4, m2)" "ipam_wf m2"
      and e4: "\<And>e. r4 = Inl e \<Longrightarrow> pool_avail (ipam_v4 m2) = pool_avail (ipam_v4 m1) \<and>
        pool_avail (ipam_v6 m2) = pool_avail (ipam_v6 (ipam_rollback_v6 m1 v6))"
      and o4: "\<And>v4. r4 = Inr v4 \<Longrightarrow> (v4 = None \<longleftrightarrow> ipam_v4 m1 = None) \<and>
        V4 ` set_option v4 \<subseteq> pool_avail (ipam_v4 m1) \<and>
        pool_avail (ipam_v4 m2) = pool_avail (ipam_v4 m1) - V4 ` set_option v4 \<and>
        ipam_v6 m2 = ipam_v6 m1" by blast
    show ?thesis
    proof (cases r4)
      case e: (Inl e)
      with r6 r4 Inr e4 [OF e] o6 show ?thesis
        unfolding ipam_allocate_next_def if_not_P [OF False] by (simp add: ipam_avail_def)
    next
      case v4: (Inr v4)
      let ?X = "V4 ` set_option v4" and ?Y = "V6 ` set_option v6"
      have "pool_avail (ipam_v6 m) \<inter> ?X = {}" "pool_avail (ipam_v4 m) \<inter> ?Y = {}"
        using assms pool_avail_other_family [of "ipam_v6 m"] pool_avail_other_family [of "ipam_v4 m"]
        unfolding ipam_wf_def by blast+
      then have "(pool_avail (ipam_v4 m) - ?X) \<union> (pool_avail (ipam_v6 m) - ?Y) =
          pool_avail (ipam_v4 m) \<union> pool_avail (ipam_v6 m) - (?X \<union> ?Y)" by blast
      moreover have "pool_avail (ipam_v4 m2) = pool_avail (ipam_v4 m) - ?X"
        "pool_avail (ipam_v6 m2) = pool_avail (ipam_v6 m) - ?Y"
        using o4 [OF v4] o6 r6(3) by simp_all
      ultimately have "pool_avail (ipam_v4 m2) \<union> pool_avail (ipam_v6 m2) =
          pool_avail (ipam_v4 m) \<union> pool_avail (ipam_v6 m) - (?X \<union> ?Y)" by simp
      then show ?thesis
        using r6 r4 Inr v4 o4 [OF v4] o6
        unfolding ipam_allocate_next_def if_not_P [OF False]
        by (simp add: ipam_avail_def pair_addresses_def le_supI1 le_supI2)
    qed
  qed
qed

section \<open>Pools in use\<close>

inductive hs_step :: "host_scope \<Rightarrow> host_scope \<Rightarrow> bool" where
  hs_step_allocate: "hs_allocate hs a w = (r, hs') \<Longrightarrow> hs_step hs hs'"
| hs_step_next: "hs_allocate_next hs w = Some (r, hs') \<Longrightarrow> hs_step hs hs'"
| hs_step_exclude: "hs_step hs (hs_exclude_ip hs a w)"
| hs_step_release: "hs_step hs (hs_release hs a)"

text \<open>The pools a caller can hold: created by \<open>new\<close>, then changed by the operations only.\<close>

inductive hs_reach :: "host_scope \<Rightarrow> bool" where
  hs_reach_new: "host_scope_new rnd a p opt = Inr hs \<Longrightarrow> hs_reach hs"
| hs_reach_step: "hs_reach hs \<Longrightarrow> hs_step hs hs' \<Longrightarrow> hs_reach hs'"

lemma hs_step_wf: "hs_step hs hs' \<Longrightarrow> hs_wf hs \<Longrightarrow> hs_wf hs'"
proof (induction rule: hs_step.induct)
  case (hs_step_allocate hs a w r hs')
  then show ?case by (blast intro: hs_allocate_wf)
next
  case (hs_step_next hs w r hs')
  then show ?case using hs_allocate_next_correct [of hs w] by (auto simp: hs_scan_post_def)
qed (auto intro: hs_wf_exclude hs_wf_release)

lemma hs_reach_wf: "hs_reach hs \<Longrightarrow> hs_wf hs"
  by (induction rule: hs_reach.induct) (auto intro: hs_step_wf host_scope_new_correct(1))

inductive ipam_step :: "ipam \<Rightarrow> ipam \<Rightarrow> bool" where
  ipam_step_allocate: "ipam_allocate m a w = (r, m') \<Longrightarrow> ipam_step m m'"
| ipam_step_next_family: "ipam_allocate_next_family m v6 w = Some (r, m') \<Longrightarrow> ipam_step m m'"
| ipam_step_exclude: "ipam_exclude_ip m a w = (r, m') \<Longrightarrow> ipam_step m m'"
| ipam_step_release: "ipam_release m a = (r, m') \<Longrightarrow> ipam_step m m'"
| ipam_step_next: "ipam_allocate_next m w = Some (r', m') \<Longrightarrow> ipam_step m m'"

inductive ipam_reach :: "ipam \<Rightarrow> bool" where
  ipam_reach_new: "ipam_new p4 p6 = Inr m \<Longrightarrow> (\<And>p. p4 = Some p \<Longrightarrow> hs_reach p) \<Longrightarrow>
    (\<And>p. p6 = Some p \<Longrightarrow> hs_reach p) \<Longrightarrow> ipam_reach m"
| ipam_reach_step: "ipam_reach m \<Longrightarrow> ipam_step m m' \<Longrightarrow> ipam_reach m'"

lemma hs_step_network: "hs_step hs hs' \<Longrightarrow> hs_wf hs \<Longrightarrow> hs_network hs' = hs_network hs"
proof (induction rule: hs_step.induct)
  case (hs_step_next hs w r hs')
  then show ?case
    using hs_allocate_next_correct [of hs w] by (auto simp: hs_scan_post_def hs_same_geometry_def)
qed (auto simp: hs_allocate_def hs_reserve_def hs_exclude_ip_def hs_release_def split: option.splits if_splits)

lemma pool_wf_step: "pool_wf v4 (Some p) \<Longrightarrow> hs_step p p' \<Longrightarrow> pool_wf v4 (Some p')"
  using hs_step_wf [of p p'] hs_step_network [of p p'] by (simp add: pool_wf_def)

text \<open>Every operation of the coordinator is a pool operation written back to its family.\<close>

lemma ipam_wf_set_family:
  assumes "ipam_wf m" and "(if v4 then ipam_v4 m else ipam_v6 m) = Some p" and "hs_step p p'"
  shows "ipam_wf (ipam_set_family m v4 p')"
  using assms pool_wf_step [of v4 p p'] by (cases v4) (auto simp: ipam_wf_def ipam_set_family_def)

lemma ipam_family_Inr:
  "ipam_family m a = Inr p \<Longrightarrow> (if is_ipv4 a then ipam_v4 m else ipam_v6 m) = Some p"
  by (auto simp: ipam_family_def split: option.splits)

lemma ipam_step_wf: "ipam_step m m' \<Longrightarrow> ipam_wf m \<Longrightarrow> ipam_wf m'"
proof (induction rule: ipam_step.induct)
  case (ipam_step_allocate m a w r m')
  then show ?case
    by (auto simp: ipam_allocate_def split: sum.splits prod.splits
        intro: ipam_wf_set_family [OF _ ipam_family_Inr hs_step_allocate])
next
  case (ipam_step_next_family m v6 w r m')
  then show ?case
    by (auto simp: ipam_allocate_next_family_def split: option.splits if_splits
        intro!: ipam_wf_set_family intro: hs_step_next)
next
  case (ipam_step_exclude m a w r m')
  then show ?case
    by (auto simp: ipam_exclude_ip_def split: sum.splits
        intro: ipam_wf_set_family [OF _ ipam_family_Inr hs_step_exclude])
next
  case (ipam_step_release m a r m')
  then show ?case
    by (auto simp: ipam_release_def split: sum.splits
        intro: ipam_wf_set_family [OF _ ipam_family_Inr hs_step_release])
next
  case (ipam_step_next m w r' m')
  then show ?case using ipam_allocate_next_correct [of m w] by auto
qed

lemma ipam_reach_wf: "ipam_reach m \<Longrightarrow> ipam_wf m"
proof (induction rule: ipam_reach.induct)
  case (ipam_reach_new p4 p6 m)
  then show ?case by (intro ipam_new_wf) (auto intro: hs_reach_wf)
qed (rule ipam_step_wf)

section \<open>Properties\<close>

text \<open>
  C33. Asking a pool for the next address always returns. The address it hands out lies in the
  allocatable range, was neither owned nor excluded, and is owned by the caller afterwards, while
  every other owner keeps its address; \<open>Full\<close> is reported only when every address of the range
  is owned or excluded.
\<close>

theorem hs_allocate_next_spec:
  assumes "hs_reach hs"
  shows "\<exists>r hs'. hs_allocate_next hs owner = Some (r, hs') \<and> hs_reach hs' \<and>
    (case r of
       Inr a \<Rightarrow> hs_offset hs a \<noteq> None \<and> bt_get (hs_owners hs) a = None \<and> bt_get (hs_excluded hs) a = None \<and>
         bt_get (hs_owners hs') a = Some owner \<and>
         (\<forall>b. b \<noteq> a \<longrightarrow> bt_get (hs_owners hs) b \<noteq> None \<longrightarrow>
            bt_get (hs_owners hs') b = bt_get (hs_owners hs) b)
     | Inl e \<Rightarrow> e = Full \<and> (\<forall>a. hs_offset hs a \<noteq> None \<longrightarrow>
         bt_get (hs_owners hs) a \<noteq> None \<or> bt_get (hs_excluded hs) a \<noteq> None))"
proof -
  from hs_allocate_next_correct [OF hs_reach_wf [OF assms], of owner] obtain r hs' where
    r: "hs_allocate_next hs owner = Some (r, hs')" and post: "hs_scan_post owner hs (r, hs')" by auto
  have "hs_reach hs'" using assms hs_step_next [OF r] by (rule hs_reach_step)
  moreover have "bt_get (hs_owners hs) a \<noteq> None \<or> bt_get (hs_excluded hs) a \<noteq> None"
    if "hs_avail hs = {}" and "hs_offset hs a \<noteq> None" for a
  proof -
    from that(1) have "a \<notin> hs_avail hs" by simp
    with that(2) show ?thesis by (simp add: hs_avail_def)
  qed
  ultimately show ?thesis
    using r post by (cases r) (auto simp: hs_scan_post_def hs_avail_def hs_keeps_owners_def)
qed

definition lab_options :: range_options where
  "lab_options = \<lparr>allow_first_ip = False, allow_last_ip = False\<rparr>"

definition lab_pool :: host_scope where
  "lab_pool = \<lparr>hs_network = V4 167772160, hs_prefix_len = 29, hs_first = 167772161, hs_last = 167772166,
     hs_capacity = 6, hs_words = [], hs_owners = [], hs_excluded = [], hs_materialized = [],
     hs_random = (\<lambda>_ _. 5), hs_sequence = 0\<rparr>"

lemma lab_pool_new: "host_scope_new (\<lambda>_ _. 5) (V4 167772163) 29 lab_options = Inr lab_pool"
  by (simp add: host_scope_new_def lab_options_def lab_pool_def checked_sub_def checked_add_def
      from_number_def bool_u128_def Let_def)

lemma lab_pool_reach: "hs_reach lab_pool"
  by (rule hs_reach_new [OF lab_pool_new])

theorem hs_allocate_next_spec_witness:
  "hs_reach lab_pool \<and> (\<exists>r hs'. hs_allocate_next lab_pool ''web'' = Some (r, hs') \<and> hs_reach hs')"
  using hs_allocate_next_spec [OF lab_pool_reach, of "''web''"] lab_pool_reach by blast

text \<open>
  C34. A sequence of \<open>n\<close> requests returns exactly as many addresses as are left, at most \<open>n\<close>,
  all different and all available before, and leaves the others available: no address is handed
  out twice, and none is lost.
\<close>

theorem hs_requests_distinct:
  assumes "hs_reach hs" and "drain (\<lambda>h. hs_allocate_next h owner) n hs = (as, t)"
  shows "distinct as \<and> set as \<subseteq> hs_avail hs \<and> length as = min n (card (hs_avail hs)) \<and>
    hs_avail t = hs_avail hs - set as"
  using pool.drain_correct [OF hs_reach_wf [OF assms(1)] assms(2)] assms(2)
    pool.drain_length [OF hs_reach_wf [OF assms(1)] hs_avail_finite [OF hs_reach_wf [OF assms(1)]], of owner n]
  by simp

theorem hs_requests_distinct_witness:
  "\<exists>as t. drain (\<lambda>h. hs_allocate_next h ''web'') 4 lab_pool = (as, t) \<and> distinct as \<and>
     length as = min 4 (card (hs_avail lab_pool)) \<and> hs_avail t = hs_avail lab_pool - set as"
proof -
  obtain as t where d: "drain (\<lambda>h. hs_allocate_next h ''web'') 4 lab_pool = (as, t)" by fastforce
  then show ?thesis using hs_requests_distinct [OF lab_pool_reach d] by blast
qed

text \<open>
  A request for one given address succeeds exactly when it is available: an address outside
  the range, an excluded one and an owned one are refused with their own errors and leave the pool
  as it was; a granted one is owned by the caller, and releasing it makes it available again.
\<close>

theorem hs_allocate_spec:
  assumes "hs_reach hs"
  shows "(case hs_allocate hs a owner of
      (Inl NotInRange, hs') \<Rightarrow> hs' = hs \<and> hs_offset hs a = None
    | (Inl (Excluded x), hs') \<Rightarrow> hs' = hs \<and> hs_offset hs a \<noteq> None \<and> bt_get (hs_excluded hs) a = Some x
    | (Inl Allocated, hs') \<Rightarrow> hs' = hs \<and> bt_get (hs_owners hs) a \<noteq> None \<and> bt_get (hs_excluded hs) a = None
    | (Inl _, _) \<Rightarrow> False
    | (Inr _, hs') \<Rightarrow> hs_reach hs' \<and> a \<in> hs_avail hs \<and> bt_get (hs_owners hs') = (bt_get (hs_owners hs))(a \<mapsto> owner) \<and>
        hs_avail hs' = hs_avail hs - {a} \<and> hs_avail (hs_release hs' a) = hs_avail hs)"
proof -
  note wf = hs_reach_wf [OF assms]
  show ?thesis
  proof (cases "a \<in> hs_avail hs")
    case True
    then obtain n where n: "hs_offset hs a = Some n" by (auto simp: hs_avail_def)
    let ?hs = "hs_reserve hs n a owner"
    have ok: "hs_allocate hs a owner = (Inr (), ?hs)"
      using True n by (auto simp: hs_allocate_cases [OF wf] hs_avail_def)
    have reach: "hs_reach ?hs" using assms hs_step_allocate [OF ok] by (rule hs_reach_step)
    have "hs_same_geometry hs ?hs" by (simp add: hs_same_geometry_def hs_reserve_def)
    then have "hs_avail (hs_release ?hs a) = hs_avail hs"
      using hs_reach_wf [OF reach] True hs_avail_reserve [OF n] by (intro hs_release_restores)
    then show ?thesis using ok reach True hs_avail_reserve [OF n] by simp
  next
    case False
    then show ?thesis
      by (auto simp: hs_allocate_cases [OF wf] hs_avail_def split: option.splits)
  qed
qed

theorem hs_allocate_spec_witness:
  "fst (hs_allocate lab_pool (V4 167772162) ''web'') = Inr () \<and>
   hs_avail (hs_release (snd (hs_allocate lab_pool (V4 167772162) ''web'')) (V4 167772162)) = hs_avail lab_pool"
proof -
  have ok: "hs_allocate lab_pool (V4 167772162) ''web'' =
      (Inr (), hs_reserve lab_pool 1 (V4 167772162) ''web'')"
    by (simp add: hs_allocate_def hs_offset_def lab_pool_def checked_sub_def hs_is_set_def)
  show ?thesis using hs_allocate_spec [OF lab_pool_reach, of "V4 167772162" "''web''"] by (simp add: ok)
qed

text \<open>
  The \<open>available\<close> count of a pool summary is the number of addresses a request could still
  be given, with exclusions recorded before and after allocations and exclusions met by a scan
  each counted once. The two bounds are those of the platform's 64-bit lengths.
\<close>

theorem hs_summary_spec:
  assumes "hs_reach hs" and "length (hs_owners hs) < 2 ^ 64" and "length (hs_excluded hs) < 2 ^ 64"
  shows "unat (ps_available (hs_summary hs)) = card (hs_avail hs)"
  using assms(2,3) hs_reach_wf [OF assms(1)] by (intro hs_summary_available)

theorem hs_summary_spec_witness:
  "unat (ps_available (hs_summary (hs_exclude_ip lab_pool (V4 167772161) ''router''))) =
     card (hs_avail (hs_exclude_ip lab_pool (V4 167772161) ''router''))"
  by (rule hs_summary_spec [OF hs_reach_step [OF lab_pool_reach hs_step_exclude]])
     (simp_all add: hs_exclude_ip_def lab_pool_def)

text \<open>
  A new pool covers its prefix: the prefix length is at most the family's width, and the
  capacity is the number of addresses of the prefix less the reserved ends (none for the two
  smallest prefixes); no address is owned or excluded, so all of them are available.
\<close>

theorem host_scope_new_spec:
  assumes "host_scope_new rnd a p opt = Inr hs"
  shows "unat p \<le> prefix_width a \<and>
    card (hs_avail hs) = 2 ^ (prefix_width a - unat p) - reserved_ends (prefix_width a - unat p) opt"
proof -
  note new = host_scope_new_correct [OF assms]
  have "hs_avail hs = {b. hs_offset hs b \<noteq> None}" by (simp add: hs_avail_def new(5,6))
  then show ?thesis using hs_range_card(1) [OF hs_wfD(1) [OF new(1)]] new(2,3) by simp
qed

theorem host_scope_new_spec_witness: "card (hs_avail lab_pool) = 6"
  using host_scope_new_spec [OF lab_pool_new] by (simp add: prefix_width_def reserved_ends_def lab_options_def)

text \<open>
  C35. The dual-stack request is all or nothing: it always returns; on success it hands out one
  available address of every enabled family and takes exactly those; on failure, whichever family
  ran out, the set of available addresses is what it was before.
\<close>

theorem ipam_allocate_next_spec:
  assumes "ipam_reach m"
  shows "\<exists>r m'. ipam_allocate_next m owner = Some (r, m') \<and> ipam_reach m' \<and>
    (case r of
       Inl e \<Rightarrow> ipam_avail m' = ipam_avail m
     | Inr pr \<Rightarrow> (pair_v4 pr = None \<longleftrightarrow> ipam_v4 m = None) \<and> (pair_v6 pr = None \<longleftrightarrow> ipam_v6 m = None) \<and>
         pair_addresses pr \<subseteq> ipam_avail m \<and> ipam_avail m' = ipam_avail m - pair_addresses pr)"
  using ipam_allocate_next_correct [OF ipam_reach_wf [OF assms], of owner]
    ipam_reach_step [OF assms ipam_step_next, of owner] by blast

theorem ipam_allocate_next_spec_witness:
  "\<exists>r m'. ipam_allocate_next \<lparr>ipam_v4 = Some lab_pool, ipam_v6 = None\<rparr> ''web'' = Some (r, m') \<and> ipam_reach m'"
proof -
  have "ipam_new (Some lab_pool) None = Inr \<lparr>ipam_v4 = Some lab_pool, ipam_v6 = None\<rparr>"
    by (simp add: ipam_new_def lab_pool_def)
  then have "ipam_reach \<lparr>ipam_v4 = Some lab_pool, ipam_v6 = None\<rparr>"
    by (rule ipam_reach_new) (use lab_pool_reach in auto)
  then show ?thesis using ipam_allocate_next_spec [of _ "''web''"] by blast
qed

end
