(* ===== verification/CidrSet.thy ===== *)
theory CidrSet
  imports Prelude Allocator
begin

text \<open>
  The fixed node-prefix allocator, \<open>crates/flowsdn-ipam/src/cidrset.rs\<close>: a cluster prefix cut into
  node blocks of one size, a flag per block and a cursor for the next request. Lengths and indices
  are natural numbers (\<open>usize\<close>); the conversion from \<open>u128\<close> fails from \<open>2 ^ 64\<close> on. A panic of the
  source is the error \<open>Panic\<close>.
\<close>

section \<open>State and operations\<close>

datatype cidr_error = Msg string | Panic string

record prefix =
  px_address :: ip_addr
  px_bits :: u8

definition ip_width :: "ip_addr \<Rightarrow> u8" where
  "ip_width a = (if is_ipv4 a then 32 else 128)"

definition ip_of :: "u128 \<Rightarrow> bool \<Rightarrow> cidr_error + ip_addr" where
  "ip_of n v6 = (if v6 then Inr (V6 n)
     else if unat n < 2 ^ 32 then Inr (V4 (ucast n)) else Inl (Panic ''IPv4 bounded''))"

definition prefix_new :: "ip_addr \<Rightarrow> u8 \<Rightarrow> cidr_error + prefix" where
  "prefix_new address bits =
     (let width = ip_width address
      in if width < bits then Inl (Msg ''invalid prefix'')
         else let shift = unat (saturating_sub width bits);
                  v = shl_or_zero (shr_or_zero (ip_number address) shift) shift
              in case ip_of v (is_ipv6 address) of
                   Inl e \<Rightarrow> Inl e
                 | Inr a \<Rightarrow> Inr \<lparr>px_address = a, px_bits = bits\<rparr>)"

definition prefix_last :: "prefix \<Rightarrow> u128" where
  "prefix_last p =
     ip_number (px_address p) OR
     shr_or_zero (- 1) (unat (saturating_sub (128 :: u8) (saturating_sub (ip_width (px_address p)) (px_bits p))))"

record cidr_set =
  cs_cluster :: prefix
  cs_node_mask :: u8
  cs_used :: "bool list"
  cs_next :: nat

definition cidr_set_new :: "prefix \<Rightarrow> u8 \<Rightarrow> cidr_error + cidr_set" where
  "cidr_set_new cluster node_mask =
     (let width = ip_width (px_address cluster)
      in case checked_sub node_mask (px_bits cluster) of
           None \<Rightarrow> Inl (Msg ''node mask smaller than cluster'')
         | Some diff \<Rightarrow>
             if width < node_mask \<or> (if is_ipv4 (px_address cluster) then 24 else 16) < diff
             then Inl (Msg ''subnet mask size too big'')
             else Inr \<lparr>cs_cluster = cluster, cs_node_mask = node_mask,
                       cs_used = replicate (2 ^ unat diff) False, cs_next = 0\<rparr>)"

definition to_usize :: "u128 \<Rightarrow> nat option" where
  "to_usize n = (if unat n < 2 ^ 64 then Some (unat n) else None)"

abbreviation cs_base :: "cidr_set \<Rightarrow> ip_addr" where
  "cs_base cs \<equiv> px_address (cs_cluster cs)"

definition cs_shift :: "cidr_set \<Rightarrow> nat" where
  "cs_shift cs = unat (saturating_sub (ip_width (cs_base cs)) (cs_node_mask cs))"

definition cs_index :: "cidr_set \<Rightarrow> ip_addr \<Rightarrow> cidr_error + nat" where
  "cs_index cs address =
     (if is_ipv4 address \<noteq> is_ipv4 (cs_base cs) \<or> ip_number address < ip_number (cs_base cs) \<or>
         prefix_last (cs_cluster cs) < ip_number address
      then Inl (Msg ''address outside cluster'')
      else case to_usize (shr_or_zero (saturating_sub (ip_number address) (ip_number (cs_base cs)))
                  (unat (saturating_sub (ip_width address) (cs_node_mask cs)))) of
             None \<Rightarrow> Inl (Msg ''index overflow'')
           | Some i \<Rightarrow> Inr i)"

definition cs_allocated :: "cidr_set \<Rightarrow> nat" where
  "cs_allocated cs = length (filter (\<lambda>v. v) (cs_used cs))"

definition cs_capacity :: "cidr_set \<Rightarrow> nat" where
  "cs_capacity cs = length (cs_used cs)"

definition cs_is_full :: "cidr_set \<Rightarrow> bool" where
  "cs_is_full cs = list_all (\<lambda>v. v) (cs_used cs)"

definition cs_is_cluster :: "cidr_set \<Rightarrow> prefix \<Rightarrow> bool" where
  "cs_is_cluster cs p = (cs_cluster cs = p)"

definition cs_block :: "cidr_set \<Rightarrow> nat \<Rightarrow> cidr_error + prefix" where
  "cs_block cs i =
     (if length (cs_used cs) \<le> i then Inl (Msg ''block index out of range'')
      else let offset = shl_or_zero (of_nat i) (cs_shift cs)
           in case ip_of (ip_number (cs_base cs) OR offset) (is_ipv6 (cs_base cs)) of
                Inl e \<Rightarrow> Inl e
              | Inr a \<Rightarrow> prefix_new a (cs_node_mask cs))"

definition cs_interval :: "cidr_set \<Rightarrow> prefix \<Rightarrow> cidr_error + (nat \<times> nat)" where
  "cs_interval cs p =
     (if is_ipv4 (px_address p) \<noteq> is_ipv4 (cs_base cs) \<or>
         prefix_last (cs_cluster cs) < ip_number (px_address p) \<or>
         prefix_last p < ip_number (cs_base cs)
      then Inl (Msg ''CIDR allocation failed; not in range'')
      else let base = ip_number (cs_base cs);
               first = shr_or_zero (saturating_sub (max (ip_number (px_address p)) base) base) (cs_shift cs);
               last = shr_or_zero (saturating_sub (min (prefix_last p) (prefix_last (cs_cluster cs))) base) (cs_shift cs)
           in case (to_usize first, to_usize last) of
                (Some f, Some l) \<Rightarrow> Inr (f, l)
              | _ \<Rightarrow> Inl (Msg ''index''))"

definition cs_in_range :: "cidr_set \<Rightarrow> prefix \<Rightarrow> bool" where
  "cs_in_range cs p = (case cs_interval cs p of Inl _ \<Rightarrow> False | Inr _ \<Rightarrow> True)"

text \<open>\<open>*used.get_mut(i).ok_or("index")? = v\<close> over a list of indices.\<close>

fun mark_all :: "bool \<Rightarrow> nat list \<Rightarrow> bool list \<Rightarrow> (cidr_error + unit) \<times> bool list" where
  "mark_all v [] used = (Inr (), used)"
| "mark_all v (i # is) used =
     (if i < length used then mark_all v is (used[i := v]) else (Inl (Msg ''index''), used))"

definition cs_mark :: "bool \<Rightarrow> cidr_set \<Rightarrow> prefix \<Rightarrow> (cidr_error + unit) \<times> cidr_set" where
  "cs_mark v cs p =
     (case cs_interval cs p of
        Inl e \<Rightarrow> (Inl e, cs)
      | Inr (f, l) \<Rightarrow> let (r, used) = mark_all v [f..<Suc l] (cs_used cs) in (r, cs\<lparr>cs_used := used\<rparr>))"

definition cs_occupy :: "cidr_set \<Rightarrow> prefix \<Rightarrow> (cidr_error + unit) \<times> cidr_set" where
  "cs_occupy cs p = cs_mark True cs p"

definition cs_release :: "cidr_set \<Rightarrow> prefix \<Rightarrow> (cidr_error + unit) \<times> cidr_set" where
  "cs_release cs p = cs_mark False cs p"

definition cs_is_allocated :: "cidr_set \<Rightarrow> prefix \<Rightarrow> cidr_error + bool" where
  "cs_is_allocated cs p =
     (case cs_interval cs p of
        Inl e \<Rightarrow> Inl e
      | Inr (f, l) \<Rightarrow> Inr (list_all (\<lambda>i. i < length (cs_used cs) \<and> cs_used cs ! i) [f..<Suc l]))"

fun cs_scan :: "nat list \<Rightarrow> cidr_set \<Rightarrow> (cidr_error + prefix) \<times> cidr_set" where
  "cs_scan [] cs = (Inl (Msg ''there are no remaining CIDRs left to allocate''), cs)"
| "cs_scan (step # steps) cs =
     (let i = (cs_next cs + step) mod length (cs_used cs)
      in if i < length (cs_used cs) \<and> \<not> cs_used cs ! i
         then (cs_block cs i,
               cs\<lparr>cs_used := (cs_used cs)[i := True], cs_next := (i + 1) mod length (cs_used cs)\<rparr>)
         else cs_scan steps cs)"

definition cs_allocate_next :: "cidr_set \<Rightarrow> (cidr_error + prefix) \<times> cidr_set" where
  "cs_allocate_next cs = cs_scan [0..<length (cs_used cs)] cs"

section \<open>Geometry\<close>

definition prefix_size :: "prefix \<Rightarrow> nat" where
  "prefix_size p = 2 ^ (unat (ip_width (px_address p)) - unat (px_bits p))"

abbreviation px_number :: "prefix \<Rightarrow> nat" where
  "px_number p \<equiv> unat (ip_number (px_address p))"

text \<open>A canonical prefix: the form \<open>Prefix::new\<close> gives.\<close>

definition prefix_ok :: "prefix \<Rightarrow> bool" where
  "prefix_ok p \<longleftrightarrow> px_bits p \<le> ip_width (px_address p) \<and> prefix_size p dvd px_number p"

definition prefix_addresses :: "prefix \<Rightarrow> ip_addr set" where
  "prefix_addresses p = {a. is_ipv4 a = is_ipv4 (px_address p) \<and>
     px_number p \<le> unat (ip_number a) \<and> unat (ip_number a) < px_number p + prefix_size p}"

definition cs_wf :: "cidr_set \<Rightarrow> bool" where
  "cs_wf cs \<longleftrightarrow> prefix_ok (cs_cluster cs) \<and> px_bits (cs_cluster cs) \<le> cs_node_mask cs \<and>
     cs_node_mask cs \<le> ip_width (cs_base cs) \<and>
     unat (cs_node_mask cs) - unat (px_bits (cs_cluster cs)) \<le> 24 \<and>
     length (cs_used cs) = 2 ^ (unat (cs_node_mask cs) - unat (px_bits (cs_cluster cs))) \<and>
     cs_next cs < length (cs_used cs)"

lemma unat_ip_width: "unat (ip_width a) = (if is_ipv4 a then 32 else 128)"
  by (simp add: ip_width_def)

lemma ip_number_width: "unat (ip_number a) < 2 ^ unat (ip_width a)"
proof (cases a)
  case (V4 x)
  then show ?thesis using unat_bound [of x] by (simp only: unat_ip_width) simp
next
  case (V6 x)
  then show ?thesis using unat_bound [of x] by (simp only: unat_ip_width) simp
qed

lemma host_mask_shr: "h \<le> 128 \<Longrightarrow> drop_bit (128 - h) (- 1 :: u128) = mask h"
  by (rule bit_word_eqI) (auto simp: bit_simps)

lemma prefix_ok_fits:
  assumes "prefix_ok p"
  shows "px_number p + prefix_size p \<le> 2 ^ unat (ip_width (px_address p))"
proof -
  let ?w = "unat (ip_width (px_address p))" and ?h = "unat (ip_width (px_address p)) - unat (px_bits p)"
  have le: "unat (px_bits p) \<le> ?w" using assms by (simp add: prefix_ok_def word_le_nat_alt)
  from assms obtain k where k: "px_number p = prefix_size p * k" by (auto simp: prefix_ok_def)
  have w: "(2::nat) ^ ?w = 2 ^ unat (px_bits p) * prefix_size p"
    using le by (simp add: prefix_size_def flip: power_add)
  have "prefix_size p * k < 2 ^ unat (px_bits p) * prefix_size p"
    using ip_number_width [of "px_address p"] unfolding k [symmetric] w [symmetric] .
  then have "k < 2 ^ unat (px_bits p)" by (simp add: mult.commute)
  then have "prefix_size p * Suc k \<le> prefix_size p * 2 ^ unat (px_bits p)"
    by (intro mult_le_mono2) simp
  then show ?thesis unfolding w k by (simp add: mult.commute)
qed

lemma unat_prefix_last:
  assumes "prefix_ok p"
  shows "unat (prefix_last p) = px_number p + (prefix_size p - 1)"
proof -
  let ?h = "unat (ip_width (px_address p)) - unat (px_bits p)"
  have h: "?h \<le> 128" by (auto simp: unat_ip_width)
  have sh: "unat (saturating_sub (128 :: u8) (saturating_sub (ip_width (px_address p)) (px_bits p))) = 128 - ?h"
    by (simp add: unat_saturating_sub)
  have "prefix_last p = ip_number (px_address p) OR mask ?h"
    unfolding prefix_last_def sh shr_or_zero_eq host_mask_shr [OF h] ..
  moreover have "ip_number (px_address p) AND mask ?h = 0"
    using assms by (auto simp: prefix_ok_def prefix_size_def simp flip: and_mask_dvd_nat)
  moreover have "unat (ip_number (px_address p)) + 2 ^ ?h \<le> 2 ^ LENGTH(128)"
  proof -
    have "(2::nat) ^ unat (ip_width (px_address p)) \<le> 2 ^ 128"
      by (intro power_increasing) (auto simp: unat_ip_width)
    then show ?thesis using prefix_ok_fits [OF assms] by (simp add: prefix_size_def)
  qed
  ultimately show ?thesis using h by (simp add: unat_or_mask prefix_size_def)
qed

lemma push_drop_bit: "push_bit n (drop_bit n x) = x AND NOT (mask n :: 'a::len word)"
  by (rule bit_word_eqI) (auto simp: bit_simps)

lemma prefix_new_correct:
  assumes "b \<le> ip_width a"
  obtains p where "prefix_new a b = Inr p" and "prefix_ok p" and "px_bits p = b"
    and "is_ipv4 (px_address p) = is_ipv4 a"
    and "px_number p = unat (ip_number a) div prefix_size p * prefix_size p"
proof -
  let ?h = "unat (ip_width a) - unat b"
  let ?v = "ip_number a AND NOT (mask ?h)"
  have v: "unat ?v = unat (ip_number a) div 2 ^ ?h * 2 ^ ?h" by (rule unat_and_not_mask)
  have le: "unat ?v < 2 ^ unat (ip_width a)"
    using ip_number_width [of a] unfolding v by (meson div_times_less_eq_dividend order_le_less_trans)
  define c where "c = (if is_ipv4 a then V4 (ucast ?v) else V6 ?v)"
  have num: "ip_number c = ?v" and fam: "is_ipv4 c = is_ipv4 a"
    using le by (auto simp: c_def unat_ip_width ucast_small)
  have "ip_of ?v (is_ipv6 a) = Inr c"
    using le by (auto simp: ip_of_def c_def is_ipv6_def unat_ip_width)
  moreover have "unat (saturating_sub (ip_width a) b) = ?h" by (simp add: unat_saturating_sub)
  ultimately have "prefix_new a b = Inr \<lparr>px_address = c, px_bits = b\<rparr>"
    using assms by (simp add: prefix_new_def Let_def push_drop_bit)
  moreover have "ip_width c = ip_width a" using fam by (simp add: ip_width_def)
  ultimately show thesis
    using assms num fam v
    by (intro that [of "\<lparr>px_address = c, px_bits = b\<rparr>"]) (simp_all add: prefix_ok_def prefix_size_def)
qed

definition block_size :: "cidr_set \<Rightarrow> nat" where
  "block_size cs = 2 ^ cs_shift cs"

lemma cs_wf_geometry:
  assumes "cs_wf cs"
  shows "prefix_size (cs_cluster cs) = length (cs_used cs) * block_size cs"
    and "0 < length (cs_used cs)" and "length (cs_used cs) \<le> 2 ^ 24" and "0 < block_size cs"
    and "cs_shift cs = unat (ip_width (cs_base cs)) - unat (cs_node_mask cs)" and "cs_shift cs \<le> 128"
    and "prefix_ok (cs_cluster cs)"
proof -
  note wf = assms [unfolded cs_wf_def]
  show sh: "cs_shift cs = unat (ip_width (cs_base cs)) - unat (cs_node_mask cs)"
    by (simp add: cs_shift_def unat_saturating_sub)
  have "unat (ip_width (cs_base cs)) - unat (px_bits (cs_cluster cs)) =
      (unat (cs_node_mask cs) - unat (px_bits (cs_cluster cs))) + cs_shift cs"
    using wf sh by (simp add: word_le_nat_alt)
  then show "prefix_size (cs_cluster cs) = length (cs_used cs) * block_size cs"
    using wf by (simp add: prefix_size_def block_size_def flip: power_add)
  show "0 < length (cs_used cs)" using wf by simp
  show "length (cs_used cs) \<le> 2 ^ 24"
    using wf power_increasing [of "unat (cs_node_mask cs) - unat (px_bits (cs_cluster cs))" 24 "2::nat"] by simp
  show "0 < block_size cs" by (simp add: block_size_def)
  show "cs_shift cs \<le> 128" using sh by (auto simp: unat_ip_width)
  show "prefix_ok (cs_cluster cs)" using wf by simp
qed

lemma cs_block_correct:
  assumes "cs_wf cs" and "i < length (cs_used cs)"
  obtains p where "cs_block cs i = Inr p" and "prefix_ok p" and "px_bits p = cs_node_mask cs"
    and "is_ipv4 (px_address p) = is_ipv4 (cs_base cs)"
    and "px_number p = px_number (cs_cluster cs) + i * block_size cs" and "prefix_size p = block_size cs"
proof -
  note g = cs_wf_geometry [OF assms(1)]
  let ?base = "ip_number (cs_base cs)" and ?off = "push_bit (cs_shift cs) (of_nat i) :: u128"
  have fits: "px_number (cs_cluster cs) + length (cs_used cs) * block_size cs \<le> 2 ^ unat (ip_width (cs_base cs))"
    using prefix_ok_fits [OF g(7)] g(1) by simp
  have step: "i * block_size cs + block_size cs \<le> length (cs_used cs) * block_size cs"
    using assms(2) by (metis Suc_leI add.commute mult_Suc mult_le_mono1)
  have w: "(2::nat) ^ unat (ip_width (cs_base cs)) \<le> 2 ^ 128"
    by (intro power_increasing) (auto simp: unat_ip_width)
  have off: "unat ?off = i * block_size cs"
  proof -
    have "i * block_size cs < 2 ^ LENGTH(128)" using fits step w g(4) by simp
    then show ?thesis unfolding block_size_def by (rule unat_push_bit_of_nat)
  qed
  have "?base OR ?off = ?base + ?off"
  proof (rule or_aligned_add)
    let ?n = "unat (cs_node_mask cs) - unat (px_bits (cs_cluster cs)) + cs_shift cs"
    have n: "length (cs_used cs) * block_size cs = 2 ^ ?n"
      using assms(1) by (simp add: cs_wf_def block_size_def power_add)
    then show "2 ^ ?n dvd unat ?base" using g(1,7) by (simp add: prefix_ok_def)
    show "unat ?off < 2 ^ ?n" unfolding off n [symmetric] using step g(4) by linarith
  qed
  moreover have "unat ?base + unat ?off < 2 ^ LENGTH(128)"
    unfolding off using fits step w g(4) by simp
  ultimately have num: "unat (?base OR ?off) = px_number (cs_cluster cs) + i * block_size cs"
    by (simp add: unat_add_no_wrap off)
  have lt: "unat (?base OR ?off) < 2 ^ unat (ip_width (cs_base cs))"
    unfolding num using fits step g(4) by linarith
  define a where "a = (if is_ipv4 (cs_base cs) then V4 (ucast (?base OR ?off)) else V6 (?base OR ?off))"
  have a: "ip_number a = ?base OR ?off" "is_ipv4 a = is_ipv4 (cs_base cs)"
    using lt by (auto simp: a_def unat_ip_width ucast_small)
  have ip: "ip_of (?base OR ?off) (is_ipv6 (cs_base cs)) = Inr a"
    using lt by (auto simp: ip_of_def a_def is_ipv6_def unat_ip_width)
  have width: "ip_width a = ip_width (cs_base cs)" using a(2) by (simp add: ip_width_def)
  have "cs_node_mask cs \<le> ip_width a" using assms(1) width by (simp add: cs_wf_def)
  from prefix_new_correct [OF this] obtain p where
    p: "prefix_new a (cs_node_mask cs) = Inr p" "prefix_ok p" "px_bits p = cs_node_mask cs"
      "is_ipv4 (px_address p) = is_ipv4 a"
      "px_number p = unat (ip_number a) div prefix_size p * prefix_size p" by blast
  have size: "prefix_size p = block_size cs"
    using p(3,4) a(2) g(5) by (simp add: prefix_size_def block_size_def ip_width_def)
  have "block_size cs dvd px_number (cs_cluster cs)"
    using g(1,7) by (metis dvd_mult2 dvd_trans dvd_triv_right prefix_ok_def)
  then have "block_size cs dvd unat (ip_number a)" unfolding a(1) num by simp
  then have "px_number p = unat (ip_number a)" using p(5) size by simp
  then show thesis
    using assms(2) p a ip size num
    by (intro that [of p]) (simp_all add: cs_block_def Let_def)
qed

lemma cs_block_ex: "cs_wf cs \<Longrightarrow> i < length (cs_used cs) \<Longrightarrow> \<exists>p. cs_block cs i = Inr p"
  by (rule cs_block_correct) (assumption | rule exI)+

section \<open>Ranges of blocks\<close>

text \<open>Block \<open>i\<close> and the prefix share an address.\<close>

definition touches :: "cidr_set \<Rightarrow> prefix \<Rightarrow> nat \<Rightarrow> bool" where
  "touches cs p i \<longleftrightarrow> is_ipv4 (px_address p) = is_ipv4 (cs_base cs) \<and>
     px_number p < px_number (cs_cluster cs) + i * block_size cs + block_size cs \<and>
     px_number (cs_cluster cs) + i * block_size cs < px_number p + prefix_size p"

lemma interval_index_bounds:
  fixes b n pn pl cl s :: nat
  assumes "0 < s" and "pn \<le> cl" and "b \<le> pl" and "b \<le> cl" and "pn \<le> pl"
    and "cl + 1 = b + n * s" and "i < n"
  shows "(max pn b - b) div s \<le> i \<and> i \<le> (min pl cl - b) div s \<longleftrightarrow> pn < b + i * s + s \<and> b + i * s \<le> pl"
    and "(max pn b - b) div s \<le> (min pl cl - b) div s" and "(min pl cl - b) div s < n"
proof -
  have lo: "(max pn b - b) div s \<le> i \<longleftrightarrow> pn < b + i * s + s"
  proof -
    have "(max pn b - b) div s \<le> i \<longleftrightarrow> (max pn b - b) div s < Suc i" by linarith
    also have "\<dots> \<longleftrightarrow> max pn b - b < Suc i * s" using assms(1) by (simp add: div_less_iff_less_mult)
    also have "\<dots> \<longleftrightarrow> pn < b + i * s + s" using assms(1) by (auto simp: max_def)
    finally show ?thesis .
  qed
  have hi: "i \<le> (min pl cl - b) div s \<longleftrightarrow> b + i * s \<le> pl"
  proof -
    have "Suc i * s \<le> n * s" using assms(7) by (intro mult_le_mono1) simp
    then have "b + i * s \<le> cl" using assms(1,6) by simp
    moreover have "i \<le> (min pl cl - b) div s \<longleftrightarrow> i * s \<le> min pl cl - b"
      using assms(1) by (simp add: less_eq_div_iff_mult_less_eq)
    ultimately show ?thesis using assms(3,4) by linarith
  qed
  show "(max pn b - b) div s \<le> i \<and> i \<le> (min pl cl - b) div s \<longleftrightarrow> pn < b + i * s + s \<and> b + i * s \<le> pl"
    using lo hi by blast
  show "(max pn b - b) div s \<le> (min pl cl - b) div s"
    using assms(2-5) by (intro div_le_mono) linarith
  have "min pl cl - b < n * s" using assms(1,4,6,7) by (simp add: min_def) linarith
  then show "(min pl cl - b) div s < n" by (simp add: less_mult_imp_div_less)
qed

lemma unat_max_min: "unat (max x y) = max (unat x) (unat y)" "unat (min x y) = min (unat x) (unat y)"
  for x y :: "'a::len word"
  by (auto simp: max_def min_def word_le_nat_alt)

lemma unat_drop_bit_div: "unat (drop_bit n x) = unat x div 2 ^ n" for x :: "'a::len word"
  by (simp only: unat_drop_bit_eq) (simp only: drop_bit_eq_div)

definition cs_meets :: "cidr_set \<Rightarrow> prefix \<Rightarrow> bool" where
  "cs_meets cs p \<longleftrightarrow> is_ipv4 (px_address p) = is_ipv4 (cs_base cs) \<and>
     px_number p \<le> unat (prefix_last (cs_cluster cs)) \<and> px_number (cs_cluster cs) \<le> unat (prefix_last p)"

lemma cs_interval_meets:
  assumes "cs_wf cs" and "prefix_ok p" and "cs_meets cs p"
  obtains f l where "cs_interval cs p = Inr (f, l)" and "f \<le> l" and "l < length (cs_used cs)"
    and "\<And>i. i < length (cs_used cs) \<Longrightarrow> f \<le> i \<and> i \<le> l \<longleftrightarrow> touches cs p i"
proof -
  note g = cs_wf_geometry [OF assms(1)]
  let ?B = "px_number (cs_cluster cs)" and ?s = "block_size cs" and ?n = "length (cs_used cs)"
  let ?pl = "unat (prefix_last p)" and ?cl = "unat (prefix_last (cs_cluster cs))"
  define f where "f = (max (px_number p) ?B - ?B) div ?s"
  define l where "l = (min ?pl ?cl - ?B) div ?s"
  have cl: "?cl + 1 = ?B + ?n * ?s" using unat_prefix_last [OF g(7)] g(1,2,4) by simp
  have size: "0 < prefix_size p" by (simp add: prefix_size_def)
  have pl: "?pl + 1 = px_number p + prefix_size p" using unat_prefix_last [OF assms(2)] size by linarith
  have m: "px_number p \<le> ?cl" "?B \<le> ?pl" using assms(3) by (simp_all add: cs_meets_def)
  have "0 < ?n * ?s" using g(2,4) by simp
  then have le: "?B \<le> ?cl" "px_number p \<le> ?pl" using cl pl size by linarith+
  note b = interval_index_bounds [OF g(4) m le cl]
  have fl: "f \<le> l" "l < ?n" using b(2,3) [OF g(2)] by (simp_all only: f_def l_def)
  have "unat (drop_bit (cs_shift cs) (saturating_sub (max (ip_number (px_address p)) (ip_number (cs_base cs)))
      (ip_number (cs_base cs)))) = f"
    "unat (drop_bit (cs_shift cs) (saturating_sub (min (prefix_last p) (prefix_last (cs_cluster cs)))
      (ip_number (cs_base cs)))) = l"
    by (simp_all add: unat_drop_bit_div unat_saturating_sub unat_max_min f_def l_def block_size_def)
  moreover have "f < 2 ^ 64" "l < 2 ^ 64" using fl g(3) by simp_all
  ultimately have "cs_interval cs p = Inr (f, l)"
    using assms(3) by (simp add: cs_interval_def cs_meets_def to_usize_def Let_def word_less_nat_alt)
  moreover have "f \<le> i \<and> i \<le> l \<longleftrightarrow> touches cs p i" if "i < ?n" for i
    using b(1) [OF that] assms(3) pl by (auto simp: touches_def f_def l_def cs_meets_def)
  ultimately show thesis using fl by (intro that)
qed

lemma cs_interval_not_meets:
  "\<not> cs_meets cs p \<Longrightarrow> cs_interval cs p = Inl (Msg ''CIDR allocation failed; not in range'')"
  by (auto simp: cs_interval_def cs_meets_def word_less_nat_alt)

lemma cs_meets_touches:
  assumes "cs_wf cs" and "prefix_ok p"
  shows "cs_meets cs p \<longleftrightarrow> (\<exists>i < length (cs_used cs). touches cs p i)"
proof
  assume "cs_meets cs p"
  from cs_interval_meets [OF assms this] show "\<exists>i < length (cs_used cs). touches cs p i"
    by (metis order_refl)
next
  assume "\<exists>i < length (cs_used cs). touches cs p i"
  then obtain i where i: "i < length (cs_used cs)" "touches cs p i" by blast
  note g = cs_wf_geometry [OF assms(1)]
  have "Suc i * block_size cs \<le> length (cs_used cs) * block_size cs"
    using i(1) by (intro mult_le_mono1) simp
  then show "cs_meets cs p"
    using i(2) unat_prefix_last [OF g(7)] unat_prefix_last [OF assms(2)] g(1)
    by (auto simp: touches_def cs_meets_def)
qed

lemma mark_all_correct:
  "\<forall>i \<in> set is. i < length used \<Longrightarrow>
    \<exists>used'. mark_all v is used = (Inr (), used') \<and> length used' = length used \<and>
      (\<forall>j < length used. used' ! j = (if j \<in> set is then v else used ! j))"
proof (induction "is" arbitrary: used)
  case (Cons i "is")
  then have "\<forall>k \<in> set is. k < length (used[i := v])" by simp
  from Cons.IH [OF this] Cons.prems show ?case by (auto simp: nth_list_update)
qed simp

lemma cs_mark_correct:
  assumes "cs_wf cs" and "prefix_ok p" and "cs_meets cs p"
  obtains used' where "cs_mark v cs p = (Inr (), cs\<lparr>cs_used := used'\<rparr>)" and "length used' = length (cs_used cs)"
    and "\<And>j. j < length (cs_used cs) \<Longrightarrow> used' ! j = (if touches cs p j then v else cs_used cs ! j)"
proof -
  from cs_interval_meets [OF assms] obtain f l where
    fl: "cs_interval cs p = Inr (f, l)" "f \<le> l" "l < length (cs_used cs)"
    and t: "\<And>i. i < length (cs_used cs) \<Longrightarrow> f \<le> i \<and> i \<le> l \<longleftrightarrow> touches cs p i" by blast
  have "\<forall>i \<in> set [f..<Suc l]. i < length (cs_used cs)" using fl by auto
  from mark_all_correct [OF this, of v] obtain used' where
    u: "mark_all v [f..<Suc l] (cs_used cs) = (Inr (), used')" "length used' = length (cs_used cs)"
      "\<forall>j < length (cs_used cs). used' ! j = (if j \<in> set [f..<Suc l] then v else cs_used cs ! j)" by blast
  have "j \<in> set [f..<Suc l] \<longleftrightarrow> touches cs p j" if "j < length (cs_used cs)" for j
    using t [OF that] by auto
  then show thesis
    using u fl by (intro that [of used']) (simp_all add: cs_mark_def del: upt_Suc)
qed

lemma cs_mark_ex:
  assumes "cs_wf cs" and "prefix_ok p" and "cs_meets cs p"
  shows "\<exists>used'. cs_mark v cs p = (Inr (), cs\<lparr>cs_used := used'\<rparr>) \<and> length used' = length (cs_used cs) \<and>
    (\<forall>j < length (cs_used cs). used' ! j = (if touches cs p j then v else cs_used cs ! j))"
proof -
  from cs_mark_correct [OF assms, of v] obtain used' where
    "cs_mark v cs p = (Inr (), cs\<lparr>cs_used := used'\<rparr>)" "length used' = length (cs_used cs)"
    "\<And>j. j < length (cs_used cs) \<Longrightarrow> used' ! j = (if touches cs p j then v else cs_used cs ! j)" by blast
  then show ?thesis by auto
qed

lemma cs_mark_wf: "cs_wf cs \<Longrightarrow> length used' = length (cs_used cs) \<Longrightarrow> cs_wf (cs\<lparr>cs_used := used'\<rparr>)"
  by (simp add: cs_wf_def)

lemma cs_mark_not_meets:
  "\<not> cs_meets cs p \<Longrightarrow> cs_mark v cs p = (Inl (Msg ''CIDR allocation failed; not in range''), cs)"
  by (simp add: cs_mark_def cs_interval_not_meets)

section \<open>Allocation\<close>

lemma cs_scan_hit:
  assumes "length (cs_used cs) = n" and "0 < n"
    and "steps = pre @ s # post" and "\<And>t. t \<in> set pre \<Longrightarrow> cs_used cs ! ((cs_next cs + t) mod n)"
    and "\<not> cs_used cs ! ((cs_next cs + s) mod n)"
  shows "cs_scan steps cs =
     (cs_block cs ((cs_next cs + s) mod n),
      cs\<lparr>cs_used := (cs_used cs)[(cs_next cs + s) mod n := True], cs_next := ((cs_next cs + s) mod n + 1) mod n\<rparr>)"
  using assms by (induction pre arbitrary: steps) (auto simp: Let_def)

lemma cs_scan_full:
  assumes "\<And>t. t \<in> set steps \<Longrightarrow> cs_used cs ! ((cs_next cs + t) mod length (cs_used cs))"
  shows "cs_scan steps cs = (Inl (Msg ''there are no remaining CIDRs left to allocate''), cs)"
  using assms by (induction steps) (auto simp: Let_def)

lemma cs_allocate_next_cases:
  assumes "cs_wf cs"
  obtains (full) "\<forall>i < length (cs_used cs). cs_used cs ! i"
      and "cs_allocate_next cs = (Inl (Msg ''there are no remaining CIDRs left to allocate''), cs)"
    | (hit) i p where "i < length (cs_used cs)" and "\<not> cs_used cs ! i" and "cs_block cs i = Inr p"
      and "cs_allocate_next cs = (Inr p, cs\<lparr>cs_used := (cs_used cs)[i := True],
        cs_next := (i + 1) mod length (cs_used cs)\<rparr>)"
proof (cases "\<forall>i < length (cs_used cs). cs_used cs ! i")
  case True
  have "0 < length (cs_used cs)" using cs_wf_geometry(2) [OF assms] .
  then show ?thesis using True full cs_scan_full [of "[0..<length (cs_used cs)]" cs]
    by (simp add: cs_allocate_next_def)
next
  case False
  let ?n = "length (cs_used cs)"
  have n: "0 < ?n" using cs_wf_geometry(2) [OF assms] .
  from False obtain j where j: "j < ?n" "\<not> cs_used cs ! j" by blast
  have "\<exists>t < ?n. (cs_next cs + t) mod ?n = j" using assms j(1) by (intro ring_hits) (simp_all add: cs_wf_def)
  then obtain s where s: "s < ?n" "\<not> cs_used cs ! ((cs_next cs + s) mod ?n)" using j by blast
  define k where "k = (LEAST s. \<not> cs_used cs ! ((cs_next cs + s) mod ?n))"
  have k: "\<not> cs_used cs ! ((cs_next cs + k) mod ?n)" unfolding k_def using s(2) by (rule LeastI)
  have kn: "k < ?n" using Least_le [of "\<lambda>s. \<not> cs_used cs ! ((cs_next cs + s) mod ?n)" s] s by (simp add: k_def)
  have pre: "cs_used cs ! ((cs_next cs + t) mod ?n)" if "t \<in> set [0..<k]" for t
    using not_less_Least [of t "\<lambda>s. \<not> cs_used cs ! ((cs_next cs + s) mod ?n)"] that by (simp add: k_def)
  have split: "[0..<?n] = [0..<k] @ k # [Suc k..<?n]"
    using kn by (metis le0 less_imp_le upt_add_eq_append upt_conv_Cons le_Suc_ex add.left_neutral)
  let ?i = "(cs_next cs + k) mod ?n"
  have i: "?i < ?n" using n by simp
  from cs_block_correct [OF assms i] obtain p where p: "cs_block cs ?i = Inr p" by blast
  show ?thesis
    using hit [OF i k p] cs_scan_hit [OF refl n split pre k] p by (simp add: cs_allocate_next_def)
qed

lemma cs_block_frame: "length used' = length (cs_used cs) \<Longrightarrow>
    cs_block (cs\<lparr>cs_used := used', cs_next := n\<rparr>) i = cs_block cs i"
  "length used' = length (cs_used cs) \<Longrightarrow> cs_block (cs\<lparr>cs_used := used'\<rparr>) i = cs_block cs i"
  "cs_block (cs\<lparr>cs_next := n\<rparr>) i = cs_block cs i"
  by (simp_all add: cs_block_def cs_shift_def cong: sum.case_cong)

lemma touches_block:
  assumes "cs_wf cs" and "i < length (cs_used cs)" and "cs_block cs i = Inr p"
  shows "touches cs p j \<longleftrightarrow> j = i"
proof -
  from cs_block_correct [OF assms(1,2)] assms(3) have
    p: "is_ipv4 (px_address p) = is_ipv4 (cs_base cs)"
      "px_number p = px_number (cs_cluster cs) + i * block_size cs" "prefix_size p = block_size cs" by auto
  have "i * block_size cs < j * block_size cs + block_size cs \<and> j * block_size cs < i * block_size cs + block_size cs
      \<longleftrightarrow> i < Suc j \<and> j < Suc i"
    using cs_wf_geometry(4) [OF assms(1)] by (metis add.commute mult_Suc mult_less_cancel2)
  then show ?thesis using p by (auto simp: touches_def)
qed

lemma cs_block_inj:
  assumes "cs_wf cs" and "i < length (cs_used cs)" and "j < length (cs_used cs)"
    and "cs_block cs i = Inr p" and "cs_block cs j = Inr p"
  shows "i = j"
  using touches_block [OF assms(1,2,4), of j] touches_block [OF assms(1,3,5), of j] by simp

definition cs_free :: "cidr_set \<Rightarrow> prefix set" where
  "cs_free cs = {p. \<exists>i < length (cs_used cs). \<not> cs_used cs ! i \<and> cs_block cs i = Inr p}"

lemma cs_free_take:
  assumes "cs_wf cs" and "i < length (cs_used cs)" and "cs_block cs i = Inr p"
  shows "cs_free (cs\<lparr>cs_used := (cs_used cs)[i := True], cs_next := n\<rparr>) = cs_free cs - {p}"
proof -
  have "\<not> (cs_used cs)[i := True] ! j \<and> cs_block cs j = Inr q \<longleftrightarrow> (\<not> cs_used cs ! j \<and> cs_block cs j = Inr q) \<and> q \<noteq> p"
    if "j < length (cs_used cs)" for j q
    using cs_block_inj [OF assms(1) that assms(2) _ assms(3)] assms(2,3) that by (auto simp: nth_list_update)
  then show ?thesis
    unfolding cs_free_def by (simp add: cs_block_frame set_eq_iff cong: conj_cong) blast
qed

lemma cs_wf_take:
  "cs_wf cs \<Longrightarrow> cs_wf (cs\<lparr>cs_used := (cs_used cs)[i := True], cs_next := (i + 1) mod length (cs_used cs)\<rparr>)"
  using cs_wf_geometry(2) [of cs] by (auto simp: cs_wf_def)

lemma cs_meets_block:
  assumes "cs_wf cs" and "i < length (cs_used cs)" and "cs_block cs i = Inr p"
  shows "prefix_ok p" and "cs_meets cs p"
proof -
  show "prefix_ok p" using cs_block_correct [OF assms(1,2)] assms(3) by auto
  then show "cs_meets cs p" using cs_meets_touches [OF assms(1)] touches_block [OF assms] assms(2) by blast
qed

lemma cs_release_block:
  assumes "cs_wf cs" and "i < length (cs_used cs)" and "cs_block cs i = Inr p"
  shows "cs_release cs p = (Inr (), cs\<lparr>cs_used := (cs_used cs)[i := False]\<rparr>)"
proof -
  from cs_mark_correct [OF assms(1) cs_meets_block [OF assms], of False] obtain used' where
    u: "cs_mark False cs p = (Inr (), cs\<lparr>cs_used := used'\<rparr>)" "length used' = length (cs_used cs)"
      "\<And>j. j < length (cs_used cs) \<Longrightarrow> used' ! j = (if touches cs p j then False else cs_used cs ! j)" by blast
  have "used' = (cs_used cs)[i := False]"
    using u(2,3) by (intro nth_equalityI) (auto simp: touches_block [OF assms] nth_list_update)
  then show ?thesis using u(1) by (simp add: cs_release_def)
qed

interpretation blocks: allocator cs_wf cs_free "\<lambda>cs. Some (cs_allocate_next cs)" "\<lambda>p cs. snd (cs_release cs p)"
proof unfold_locales
  fix cs cs' p
  assume wf: "cs_wf cs" and "Some (cs_allocate_next cs) = Some (Inr p, cs')"
  then obtain i where i: "i < length (cs_used cs)" "\<not> cs_used cs ! i" "cs_block cs i = Inr p"
    and cs': "cs' = cs\<lparr>cs_used := (cs_used cs)[i := True], cs_next := (i + 1) mod length (cs_used cs)\<rparr>"
    by (rule_tac cs_allocate_next_cases [OF wf]) auto
  have wf': "cs_wf cs'" unfolding cs' by (rule cs_wf_take [OF wf])
  have free: "cs_free cs' = cs_free cs - {p}" unfolding cs' by (rule cs_free_take [OF wf i(1,3)])
  have mem: "p \<in> cs_free cs" using i by (auto simp: cs_free_def)
  show "cs_wf cs' \<and> p \<in> cs_free cs \<and> cs_free cs' = cs_free cs - {p}"
    using wf' free mem by simp
  have rel: "cs_release cs' p = (Inr (), cs'\<lparr>cs_used := (cs_used cs')[i := False]\<rparr>)"
    using i cs' by (intro cs_release_block [OF wf']) (simp_all add: cs_block_frame)
  have "(cs_used cs)[i := False] = cs_used cs" using i by (metis list_update_id)
  then have undo: "snd (cs_release cs' p) = cs\<lparr>cs_next := (i + 1) mod length (cs_used cs)\<rparr>"
    by (simp add: rel) (simp add: cs')
  show "cs_wf (snd (cs_release cs' p)) \<and> cs_free (snd (cs_release cs' p)) = cs_free cs"
    unfolding undo using wf wf' cs' by (auto simp: cs_wf_def cs_free_def cs_block_frame)
next
  fix cs cs' e
  assume wf: "cs_wf cs" and "Some (cs_allocate_next cs) = Some (Inl e, cs')"
  then have "\<forall>i < length (cs_used cs). cs_used cs ! i" "cs' = cs"
    by (rule_tac cs_allocate_next_cases [OF wf]; auto)+
  then show "cs_wf cs' \<and> cs_free cs = {} \<and> cs_free cs' = {}" using wf by (auto simp: cs_free_def)
qed simp

section \<open>Reachable sets\<close>

lemma cidr_set_new_wf:
  assumes "prefix_ok c" and "cidr_set_new c m = Inr cs"
  shows "cs_wf cs" and "cs_cluster cs = c" and "cs_node_mask cs = m" and "\<not> (\<exists>v \<in> set (cs_used cs). v)"
proof -
  from assms(2) have le: "px_bits c \<le> m" and w: "m \<le> ip_width (px_address c)"
    and d: "m - px_bits c \<le> (if is_ipv4 (px_address c) then 24 else 16)"
    and cs: "cs = \<lparr>cs_cluster = c, cs_node_mask = m, cs_used = replicate (2 ^ unat (m - px_bits c)) False, cs_next = 0\<rparr>"
    by (auto simp: cidr_set_new_def checked_sub_def Let_def not_less split: if_splits)
  have diff: "unat (m - px_bits c) = unat m - unat (px_bits c)" using le by (rule unat_sub)
  have "unat (m - px_bits c) \<le> 24" using d by (auto simp: word_le_nat_alt split: if_splits)
  then show "cs_wf cs" using assms(1) le w diff by (simp add: cs cs_wf_def)
  show "cs_cluster cs = c" "cs_node_mask cs = m" "\<not> (\<exists>v \<in> set (cs_used cs). v)" by (simp_all add: cs)
qed

lemma prefix_new_ok: "prefix_new a b = Inr p \<Longrightarrow> prefix_ok p"
proof (cases "b \<le> ip_width a")
  case True
  assume "prefix_new a b = Inr p"
  with prefix_new_correct [OF True] show ?thesis by fastforce
next
  case False
  assume "prefix_new a b = Inr p"
  moreover have "prefix_new a b = Inl (Msg ''invalid prefix'')"
    using False by (simp only: prefix_new_def Let_def not_le if_True)
  ultimately show ?thesis by simp
qed

inductive cs_reach :: "cidr_set \<Rightarrow> bool" where
  new: "prefix_new a b = Inr c \<Longrightarrow> cidr_set_new c m = Inr cs \<Longrightarrow> cs_reach cs"
| allocate_next: "cs_reach cs \<Longrightarrow> cs_reach (snd (cs_allocate_next cs))"
| occupy: "cs_reach cs \<Longrightarrow> prefix_new a b = Inr p \<Longrightarrow> cs_reach (snd (cs_occupy cs p))"
| release: "cs_reach cs \<Longrightarrow> prefix_new a b = Inr p \<Longrightarrow> cs_reach (snd (cs_release cs p))"

lemma cs_mark_keeps_wf:
  assumes "cs_wf cs" and "prefix_ok p"
  shows "cs_wf (snd (cs_mark v cs p))"
proof (cases "cs_meets cs p")
  case True
  from cs_mark_correct [OF assms True, of v] obtain used' where
    "cs_mark v cs p = (Inr (), cs\<lparr>cs_used := used'\<rparr>)" "length used' = length (cs_used cs)" by blast
  then show ?thesis using cs_mark_wf [OF assms(1)] by simp
qed (simp add: cs_mark_not_meets assms(1))

lemma cs_reach_wf: "cs_reach cs \<Longrightarrow> cs_wf cs"
proof (induction rule: cs_reach.induct)
  case (new a b c m cs)
  then show ?case by (blast intro: cidr_set_new_wf(1) prefix_new_ok)
next
  case (allocate_next cs)
  from allocate_next.IH show ?case
    by (rule cs_allocate_next_cases) (simp_all add: allocate_next.IH cs_wf_take [simplified])
qed (simp_all add: cs_occupy_def cs_release_def cs_mark_keeps_wf prefix_new_ok)

section \<open>What callers rely on\<close>

lemma ip_of_number:
  "n < 2 ^ unat (ip_width a) \<Longrightarrow> \<exists>b. is_ipv4 b = is_ipv4 a \<and> unat (ip_number b) = n"
proof (cases "is_ipv4 a")
  case True
  assume "n < 2 ^ unat (ip_width a)"
  with True show ?thesis by (intro exI [of _ "V4 (of_nat n)"]) (simp add: unat_ip_width unat_of_nat)
next
  case False
  assume "n < 2 ^ unat (ip_width a)"
  with False show ?thesis by (intro exI [of _ "V6 (of_nat n)"]) (simp add: unat_ip_width unat_of_nat)
qed

lemma prefixes_meet:
  assumes "prefix_ok p" and "prefix_ok q"
  shows "prefix_addresses p \<inter> prefix_addresses q \<noteq> {} \<longleftrightarrow>
    is_ipv4 (px_address p) = is_ipv4 (px_address q) \<and>
    px_number p < px_number q + prefix_size q \<and> px_number q < px_number p + prefix_size p"
proof
  assume *: "is_ipv4 (px_address p) = is_ipv4 (px_address q) \<and>
    px_number p < px_number q + prefix_size q \<and> px_number q < px_number p + prefix_size p"
  let ?n = "max (px_number p) (px_number q)"
  have "0 < prefix_size p" "0 < prefix_size q" by (simp_all add: prefix_size_def)
  then have n: "?n < px_number p + prefix_size p" "?n < px_number q + prefix_size q" using * by auto
  then have "?n < 2 ^ unat (ip_width (px_address p))" using prefix_ok_fits [OF assms(1)] by linarith
  from ip_of_number [OF this] obtain a where "is_ipv4 a = is_ipv4 (px_address p)" "unat (ip_number a) = ?n" by blast
  then have "a \<in> prefix_addresses p \<inter> prefix_addresses q" using * n by (simp add: prefix_addresses_def)
  then show "prefix_addresses p \<inter> prefix_addresses q \<noteq> {}" by blast
qed (auto simp: prefix_addresses_def)

lemma touches_meet:
  assumes "cs_wf cs" and "prefix_ok p" and "i < length (cs_used cs)" and "cs_block cs i = Inr q"
  shows "touches cs p i \<longleftrightarrow> prefix_addresses p \<inter> prefix_addresses q \<noteq> {}"
proof -
  from cs_block_correct [OF assms(1,3)] assms(4) have "prefix_ok q" "is_ipv4 (px_address q) = is_ipv4 (cs_base cs)"
    "px_number q = px_number (cs_cluster cs) + i * block_size cs" "prefix_size q = block_size cs" by auto
  then show ?thesis by (simp add: prefixes_meet [OF assms(2)] touches_def)
qed

lemma blocks_disjoint:
  assumes "cs_wf cs" and "p \<in> cs_free cs" and "q \<in> cs_free cs" and "p \<noteq> q"
  shows "prefix_addresses p \<inter> prefix_addresses q = {}"
proof -
  from assms(2,3) obtain i j where i: "i < length (cs_used cs)" "cs_block cs i = Inr p"
    and j: "j < length (cs_used cs)" "cs_block cs j = Inr q" by (auto simp: cs_free_def)
  then have "i \<noteq> j" using assms(4) by auto
  then show ?thesis
    using touches_meet [OF assms(1) cs_meets_block(1) [OF assms(1) i] j] touches_block [OF assms(1) i, of j] by simp
qed

lemma cs_free_inside:
  assumes "cs_wf cs" and "p \<in> cs_free cs"
  shows "px_bits p = cs_node_mask cs" and "prefix_addresses p \<subseteq> prefix_addresses (cs_cluster cs)"
proof -
  from assms(2) obtain i where i: "i < length (cs_used cs)" "cs_block cs i = Inr p" by (auto simp: cs_free_def)
  from cs_block_correct [OF assms(1) i(1)] i(2) have
    p: "px_bits p = cs_node_mask cs" "is_ipv4 (px_address p) = is_ipv4 (cs_base cs)"
      "px_number p = px_number (cs_cluster cs) + i * block_size cs" "prefix_size p = block_size cs" by auto
  have "Suc i * block_size cs \<le> length (cs_used cs) * block_size cs"
    using i(1) by (intro mult_le_mono1) simp
  then show "prefix_addresses p \<subseteq> prefix_addresses (cs_cluster cs)"
    using p cs_wf_geometry(1) [OF assms(1)] by (auto simp: prefix_addresses_def)
  show "px_bits p = cs_node_mask cs" by (fact p(1))
qed

lemma card_cs_free:
  assumes "cs_wf cs"
  shows "finite (cs_free cs)" and "card (cs_free cs) = cs_capacity cs - cs_allocated cs"
proof -
  let ?I = "{i. i < length (cs_used cs) \<and> \<not> cs_used cs ! i}"
  let ?f = "\<lambda>i. projr (cs_block cs i)"
  have blk: "cs_block cs i = Inr (?f i)" if "i < length (cs_used cs)" for i
    using cs_block_correct [OF assms that] by force
  have im: "cs_free cs = ?f ` ?I" using blk by (force simp: cs_free_def)
  have "inj_on ?f ?I"
    by (intro inj_onI) (metis (mono_tags) assms blk cs_block_inj mem_Collect_eq)
  moreover have "card ?I = length (filter Not (cs_used cs))" by (simp add: length_filter_conv_card)
  moreover have "length (filter Not (cs_used cs)) + cs_allocated cs = cs_capacity cs"
    using sum_length_filter_compl [of Not "cs_used cs"] by (simp add: cs_allocated_def cs_capacity_def)
  ultimately show "card (cs_free cs) = cs_capacity cs - cs_allocated cs"
    unfolding im by (simp add: card_image)
  show "finite (cs_free cs)" unfolding im by simp
qed

text \<open>
  C36. Node prefixes never overlap. From any set built with \<open>CidrSet::new\<close> and used through
  \<open>allocate_next\<close>, \<open>occupy\<close> and \<open>release\<close>, \<open>n\<close> successive calls of \<open>allocate_next\<close> hand out
  exactly \<open>n\<close> prefixes or as many as are left, pairwise without a common address, each of the
  node mask's length and inside the cluster prefix.
\<close>

theorem cs_requests_disjoint:
  assumes "cs_reach cs" and "drain (\<lambda>cs. Some (cs_allocate_next cs)) n cs = (ps, cs')"
  shows "length ps = min n (cs_capacity cs - cs_allocated cs) \<and> distinct ps \<and>
    (\<forall>p \<in> set ps. px_bits p = cs_node_mask cs \<and> prefix_addresses p \<subseteq> prefix_addresses (cs_cluster cs)) \<and>
    (\<forall>p \<in> set ps. \<forall>q \<in> set ps. p \<noteq> q \<longrightarrow> prefix_addresses p \<inter> prefix_addresses q = {})"
proof -
  note wf = cs_reach_wf [OF assms(1)]
  from blocks.drain_correct [OF wf assms(2)] have d: "distinct ps" "set ps \<subseteq> cs_free cs" by auto
  moreover have "length ps = min n (cs_capacity cs - cs_allocated cs)"
    using blocks.drain_length [OF wf card_cs_free(1) [OF wf], of n] assms(2) by (simp add: card_cs_free(2) [OF wf])
  ultimately show ?thesis using cs_free_inside [OF wf] blocks_disjoint [OF wf] by blast
qed

text \<open>
  \<open>occupy\<close> and \<open>release\<close> change exactly the blocks that share an address with the prefix
  (whether it is larger or smaller than a block), and report an error, without a change, exactly
  when there is no such block; \<open>is_allocated\<close> then answers whether every such block is taken.
\<close>

theorem cs_mark_spec:
  assumes "cs_reach cs" and "prefix_new a b = Inr p"
  defines "hits \<equiv> \<lambda>i. i < cs_capacity cs \<and>
    (\<exists>q. cs_block cs i = Inr q \<and> prefix_addresses p \<inter> prefix_addresses q \<noteq> {})"
  shows "if \<exists>i. hits i
    then \<exists>occ rel. cs_occupy cs p = (Inr (), cs\<lparr>cs_used := occ\<rparr>) \<and> cs_release cs p = (Inr (), cs\<lparr>cs_used := rel\<rparr>) \<and>
      length occ = cs_capacity cs \<and> length rel = cs_capacity cs \<and>
      (\<forall>i < cs_capacity cs. occ ! i = (cs_used cs ! i \<or> hits i) \<and> rel ! i = (cs_used cs ! i \<and> \<not> hits i)) \<and>
      cs_is_allocated cs p = Inr (\<forall>i. hits i \<longrightarrow> cs_used cs ! i)
    else cs_occupy cs p = (Inl (Msg ''CIDR allocation failed; not in range''), cs) \<and>
      cs_release cs p = (Inl (Msg ''CIDR allocation failed; not in range''), cs) \<and>
      cs_is_allocated cs p = Inl (Msg ''CIDR allocation failed; not in range'')"
proof -
  note wf = cs_reach_wf [OF assms(1)] and ok = prefix_new_ok [OF assms(2)]
  have hits: "hits i \<longleftrightarrow> i < length (cs_used cs) \<and> touches cs p i" for i
    using cs_block_ex [OF wf, of i] touches_meet [OF wf ok, of i]
    by (auto simp: hits_def cs_capacity_def)
  then have meets: "(\<exists>i. hits i) \<longleftrightarrow> cs_meets cs p" using cs_meets_touches [OF wf ok] by simp
  show ?thesis
  proof (cases "cs_meets cs p")
    case True
    from cs_mark_ex [OF wf ok True, of True] obtain occ where occ: "cs_occupy cs p = (Inr (), cs\<lparr>cs_used := occ\<rparr>)"
      "length occ = cs_capacity cs" "\<forall>i < cs_capacity cs. occ ! i = (cs_used cs ! i \<or> hits i)"
      by (auto simp: cs_occupy_def hits cs_capacity_def)
    from cs_mark_ex [OF wf ok True, of False] obtain rel where rel: "cs_release cs p = (Inr (), cs\<lparr>cs_used := rel\<rparr>)"
      "length rel = cs_capacity cs" "\<forall>i < cs_capacity cs. rel ! i = (cs_used cs ! i \<and> \<not> hits i)"
      by (auto simp: cs_release_def hits cs_capacity_def)
    from cs_interval_meets [OF wf ok True] obtain f l where fl: "cs_interval cs p = Inr (f, l)" "l < length (cs_used cs)"
      and t: "\<And>i. i < length (cs_used cs) \<Longrightarrow> f \<le> i \<and> i \<le> l \<longleftrightarrow> touches cs p i" by blast
    have "(\<forall>i \<in> {f..l}. i < length (cs_used cs) \<and> cs_used cs ! i) \<longleftrightarrow> (\<forall>i. hits i \<longrightarrow> cs_used cs ! i)"
      using fl(2) t hits by (meson atLeastAtMost_iff order_le_less_trans)
    then have "cs_is_allocated cs p = Inr (\<forall>i. hits i \<longrightarrow> cs_used cs ! i)"
      by (simp add: cs_is_allocated_def fl(1) list_all_iff atLeastLessThanSuc_atLeastAtMost del: upt_Suc)
    with occ rel True show ?thesis by (auto simp: meets)
  next
    case False
    then show ?thesis
      by (simp add: meets cs_occupy_def cs_release_def cs_mark_not_meets cs_is_allocated_def cs_interval_not_meets)
  qed
qed

lemma cs_index_correct:
  assumes "cs_wf cs"
  shows "cs_index cs a = (if a \<in> prefix_addresses (cs_cluster cs)
    then Inr ((unat (ip_number a) - px_number (cs_cluster cs)) div block_size cs)
    else Inl (Msg ''address outside cluster''))"
proof -
  note g = cs_wf_geometry [OF assms]
  have "0 < length (cs_used cs) * block_size cs" using g(2,4) by simp
  then have last: "unat (prefix_last (cs_cluster cs)) + 1 = px_number (cs_cluster cs) + length (cs_used cs) * block_size cs"
    using unat_prefix_last [OF g(7)] g(1) by simp
  show ?thesis
  proof (cases "a \<in> prefix_addresses (cs_cluster cs)")
    case True
    then have a: "is_ipv4 a = is_ipv4 (cs_base cs)" "px_number (cs_cluster cs) \<le> unat (ip_number a)"
      "unat (ip_number a) < px_number (cs_cluster cs) + length (cs_used cs) * block_size cs"
      by (simp_all add: prefix_addresses_def g(1))
    then have "(unat (ip_number a) - px_number (cs_cluster cs)) div block_size cs < length (cs_used cs)"
      by (intro less_mult_imp_div_less) linarith
    then have "(unat (ip_number a) - px_number (cs_cluster cs)) div block_size cs < 2 ^ 64" using g(3) by simp
    moreover have "unat (saturating_sub (ip_width a) (cs_node_mask cs)) = cs_shift cs"
      using a(1) by (simp add: cs_shift_def ip_width_def)
    ultimately show ?thesis using True a last
      by (simp add: cs_index_def to_usize_def word_less_nat_alt unat_drop_bit_div unat_saturating_sub block_size_def)
  next
    case False
    then have "is_ipv4 a \<noteq> is_ipv4 (cs_base cs) \<or> ip_number a < ip_number (cs_base cs) \<or>
         prefix_last (cs_cluster cs) < ip_number a"
      using last by (auto simp: prefix_addresses_def g(1) word_less_nat_alt)
    then show ?thesis using False unfolding cs_index_def by (simp only: if_True if_False)
  qed
qed

text \<open>
  \<open>index\<close> inverts \<open>block\<close>: it returns \<open>i\<close> for exactly the addresses of block \<open>i\<close>, and an
  error for exactly the addresses outside the cluster prefix.
\<close>

theorem cs_index_block:
  assumes "cs_reach cs"
  shows "(cs_index cs a = Inr i \<longleftrightarrow> (\<exists>p. cs_block cs i = Inr p \<and> a \<in> prefix_addresses p)) \<and>
    ((\<exists>e. cs_index cs a = Inl e) \<longleftrightarrow> a \<notin> prefix_addresses (cs_cluster cs))"
proof -
  note wf = cs_reach_wf [OF assms]
  note g = cs_wf_geometry [OF wf] and ix = cs_index_correct [OF wf]
  let ?d = "unat (ip_number a) - px_number (cs_cluster cs)"
  have "cs_index cs a = Inr i \<longleftrightarrow> (\<exists>p. cs_block cs i = Inr p \<and> a \<in> prefix_addresses p)"
  proof (cases "i < length (cs_used cs)")
    case True
    from cs_block_correct [OF wf True] obtain p where p: "cs_block cs i = Inr p"
      "is_ipv4 (px_address p) = is_ipv4 (cs_base cs)"
      "px_number p = px_number (cs_cluster cs) + i * block_size cs" "prefix_size p = block_size cs" by blast
    have "Suc i * block_size cs \<le> length (cs_used cs) * block_size cs" using True by (intro mult_le_mono1) simp
    moreover note div_eq_iff_between [OF g(4), of ?d i]
    ultimately have "a \<in> prefix_addresses (cs_cluster cs) \<and> ?d div block_size cs = i \<longleftrightarrow>
        is_ipv4 a = is_ipv4 (cs_base cs) \<and> px_number (cs_cluster cs) + i * block_size cs \<le> unat (ip_number a) \<and>
        unat (ip_number a) < px_number (cs_cluster cs) + i * block_size cs + block_size cs"
      unfolding prefix_addresses_def g(1) mem_Collect_eq mult_Suc by linarith
    also have "\<dots> \<longleftrightarrow> a \<in> prefix_addresses p" using p(2-4) by (simp add: prefix_addresses_def)
    finally show ?thesis using p(1) by (simp add: ix) blast
  next
    case False
    have "?d div block_size cs < length (cs_used cs)" if "a \<in> prefix_addresses (cs_cluster cs)"
      using that by (intro less_mult_imp_div_less) (auto simp: prefix_addresses_def g(1))
    then show ?thesis using False by (auto simp: ix cs_block_def)
  qed
  then show ?thesis by (simp add: ix)
qed

section \<open>A concrete set\<close>

definition lab_cluster :: prefix where
  "lab_cluster = \<lparr>px_address = V4 0x0A000000, px_bits = 24\<rparr>"

definition lab_set :: cidr_set where
  "lab_set = \<lparr>cs_cluster = lab_cluster, cs_node_mask = 26, cs_used = replicate 4 False, cs_next = 0\<rparr>"

lemmas cs_eval = lab_set_def lab_cluster_def prefix_new_def prefix_last_def cidr_set_new_def cs_index_def
  cs_interval_def cs_is_allocated_def cs_allocate_next_def cs_block_def cs_shift_def to_usize_def ip_width_def
  ip_of_def is_ipv6_def saturating_sub_def checked_sub_def Let_def push_bit_eq_mult drop_bit_eq_div upt_rec

lemma lab_cluster_new: "prefix_new (V4 0x0A000007) 24 = Inr lab_cluster"
  by (simp add: cs_eval)

lemma lab_set_reach: "cs_reach lab_set"
proof -
  have "cidr_set_new lab_cluster 26 = Inr lab_set" by (simp add: cs_eval)
  with lab_cluster_new show ?thesis by (rule cs_reach.new)
qed

theorem cs_requests_disjoint_witness:
  "\<exists>ps. fst (drain (\<lambda>cs. Some (cs_allocate_next cs)) 5 lab_set) = ps \<and> length ps = 4 \<and>
    (\<forall>p \<in> set ps. \<forall>q \<in> set ps. p \<noteq> q \<longrightarrow> prefix_addresses p \<inter> prefix_addresses q = {})"
proof -
  obtain ps cs' where d: "drain (\<lambda>cs. Some (cs_allocate_next cs)) 5 lab_set = (ps, cs')" by fastforce
  have "min 5 (cs_capacity lab_set - cs_allocated lab_set) = 4"
    by (simp add: cs_capacity_def cs_allocated_def lab_set_def)
  then show ?thesis using cs_requests_disjoint [OF lab_set_reach d] d by simp
qed

theorem cs_mark_spec_witness:
  "cs_is_allocated (snd (cs_allocate_next lab_set)) \<lparr>px_address = V4 0x0A000010, px_bits = 28\<rparr> = Inr True \<and>
   (\<exists>rel. cs_release (snd (cs_allocate_next lab_set)) \<lparr>px_address = V4 0x0A000010, px_bits = 28\<rparr> =
      (Inr (), (snd (cs_allocate_next lab_set))\<lparr>cs_used := rel\<rparr>))"
proof -
  have alloc: "cs_is_allocated (snd (cs_allocate_next lab_set)) \<lparr>px_address = V4 0x0A000010, px_bits = 28\<rparr> = Inr True"
    by (simp add: cs_eval)
  have p: "prefix_new (V4 0x0A000010) 28 = Inr \<lparr>px_address = V4 0x0A000010, px_bits = 28\<rparr>" by (simp add: cs_eval)
  note cs_mark_spec [OF cs_reach.allocate_next [OF lab_set_reach] p]
  then show ?thesis using alloc by (auto split: if_split_asm)
qed

theorem cs_index_block_witness:
  "cs_index lab_set (V4 0x0A0000C1) = Inr 3 \<and>
   (\<exists>p. cs_block lab_set 3 = Inr p \<and> V4 0x0A0000C1 \<in> prefix_addresses p)"
proof -
  have "cs_index lab_set (V4 0x0A0000C1) = Inr 3" by (simp add: cs_eval)
  then show ?thesis using cs_index_block [OF lab_set_reach, of "V4 0x0A0000C1" 3] by simp
qed

end
