(* ===== verification/Ports.thy ===== *)
theory Ports
  imports Prelude
begin

text \<open>
  Port ranges and their expansion into masked ports, \<open>crates/flowsdn-policy/src/ports.rs\<close>, with
  the error type of \<open>crates/flowsdn-policy/src/lib.rs\<close> and the map pressure plan there. Bit counts
  (\<open>trailing_zeros\<close>, \<open>leading_zeros\<close>) are natural numbers; a failed \<open>expect\<close> is \<open>None\<close>.
\<close>

section \<open>Errors and map pressure\<close>

datatype policy_error =
    PassWithAuthentication
  | InvalidPriority
  | InvalidPortRange
  | ZeroStartRange
  | InvalidProtocol
  | InvalidRedirect
  | InvalidCapacity
  | InvalidException
  | InvalidName
  | RevisionExhausted
  | OracleAuthenticationUnsupported

datatype overflow_action = Reconcile | Lockdown

record pressure_plan =
  pp_alarm :: bool
  pp_overflow :: bool
  pp_action :: overflow_action

text \<open>\<open>u64::div_ceil\<close>\<close>

definition div_ceil :: "u64 \<Rightarrow> u64 \<Rightarrow> u64" where
  "div_ceil a b = (let d = a div b; r = a mod b in if 0 < r then d + 1 else d)"

definition pressure :: "u64 \<Rightarrow> u32 \<Rightarrow> bool \<Rightarrow> policy_error + pressure_plan" where
  "pressure desired capacity lockdown =
     (if \<not> (256 \<le> capacity \<and> capacity \<le> 65536) then Inl InvalidCapacity
      else let maximum = ucast capacity :: u64;
               threshold = div_ceil (saturating_mul maximum 9) 10;
               overflow = maximum < desired
           in Inr \<lparr>pp_alarm = threshold \<le> desired, pp_overflow = overflow,
                   pp_action = (if overflow \<and> lockdown then Lockdown else Reconcile)\<rparr>)"

section \<open>Port ranges\<close>

record port_range =
  pr_start :: u16
  pr_end :: u16

record port_block =
  pb_port :: u16
  pb_prefix :: u8

definition pr_any :: port_range where
  "pr_any = \<lparr>pr_start = 0, pr_end = - 1\<rparr>"

definition pr_from_api :: "u16 \<Rightarrow> u16 option \<Rightarrow> policy_error + port_range" where
  "pr_from_api port end_port =
     (case end_port of
        Some e \<Rightarrow>
          if port = 0 then Inl ZeroStartRange
          else if e < port then Inl InvalidPortRange
          else Inr \<lparr>pr_start = port, pr_end = e\<rparr>
      | None \<Rightarrow>
          if port = 0 then Inr pr_any else Inr \<lparr>pr_start = port, pr_end = port\<rparr>)"

definition pr_bounds :: "port_range \<Rightarrow> u16 \<times> u16" where
  "pr_bounds r = (pr_start r, pr_end r)"

definition pr_contains :: "port_range \<Rightarrow> u16 \<Rightarrow> bool" where
  "pr_contains r port \<longleftrightarrow> pr_start r \<le> port \<and> port \<le> pr_end r"

definition pr_is_any :: "port_range \<Rightarrow> bool" where
  "pr_is_any r \<longleftrightarrow> pr_start r = 0 \<and> pr_end r = - 1"

text \<open>\<open>u32::trailing_zeros\<close> and \<open>u32::leading_zeros\<close>\<close>

definition trailing_zeros :: "'a::len word \<Rightarrow> nat" where
  "trailing_zeros x = length (takeWhile (\<lambda>i. \<not> bit x i) [0..<LENGTH('a)])"

definition leading_zeros :: "'a::len word \<Rightarrow> nat" where
  "leading_zeros x = length (takeWhile (\<lambda>i. \<not> bit x i) (rev [0..<LENGTH('a)]))"

lemma takeWhile_stops: "\<exists>y \<in> set xs. \<not> P y \<Longrightarrow> length (takeWhile P xs) < length xs"
  by (induction xs) auto

lemma takeWhile_before: "j < length (takeWhile P xs) \<Longrightarrow> P (xs ! j)"
  by (metis nth_mem set_takeWhileD takeWhile_nth)

lemma trailing_zeros_bits:
  assumes "x \<noteq> (0 :: 'a::len word)"
  shows "bit x (trailing_zeros x)" and "i < trailing_zeros x \<Longrightarrow> \<not> bit x i"
proof -
  let ?xs = "[0..<LENGTH('a)]"
  from assms obtain j where j: "bit x j" by (auto simp: bit_eq_iff)
  then have "j < LENGTH('a)" by (rule bit_imp_le_length)
  then have "\<exists>y \<in> set ?xs. \<not> \<not> bit x y" using j by auto
  then have "trailing_zeros x < length ?xs" unfolding trailing_zeros_def by (rule takeWhile_stops)
  then show "bit x (trailing_zeros x)"
    using nth_length_takeWhile [of "\<lambda>i. \<not> bit x i" ?xs] by (simp add: trailing_zeros_def)
  assume "i < trailing_zeros x"
  then show "\<not> bit x i"
    using takeWhile_before [of i "\<lambda>i. \<not> bit x i" ?xs] \<open>trailing_zeros x < length ?xs\<close>
    by (simp add: trailing_zeros_def)
qed

lemma leading_zeros_bits:
  assumes "x \<noteq> (0 :: 'a::len word)"
  shows "leading_zeros x < LENGTH('a)" and "bit x (LENGTH('a) - 1 - leading_zeros x)"
    and "LENGTH('a) - 1 - leading_zeros x < i \<Longrightarrow> \<not> bit x i"
proof -
  let ?xs = "rev [0..<LENGTH('a)]" and ?n = "LENGTH('a)"
  from assms obtain j where j: "bit x j" by (auto simp: bit_eq_iff)
  then have "j < ?n" by (rule bit_imp_le_length)
  then have "\<exists>y \<in> set ?xs. \<not> \<not> bit x y" using j by auto
  then have "leading_zeros x < length ?xs" unfolding leading_zeros_def by (rule takeWhile_stops)
  then show lt: "leading_zeros x < ?n" by simp
  then show "bit x (?n - 1 - leading_zeros x)"
    using nth_length_takeWhile [of "\<lambda>i. \<not> bit x i" ?xs] by (simp add: leading_zeros_def rev_nth)
  assume i: "?n - 1 - leading_zeros x < i"
  show "\<not> bit x i"
  proof (cases "i < ?n")
    case True
    let ?k = "?n - 1 - i"
    have k: "?k < leading_zeros x" using i True by linarith
    then show ?thesis
      using takeWhile_before [of ?k "\<lambda>i. \<not> bit x i" ?xs] True by (simp add: leading_zeros_def rev_nth)
  qed (auto dest: bit_imp_le_length)
qed

lemma bit_unat: "bit (unat x) i = bit x i" for x :: "'a::len word"
  by (simp add: bit_unsigned_iff bit_imp_le_length)

lemma trailing_zeros_dvd:
  assumes "x \<noteq> (0 :: 'a::len word)"
  shows "2 ^ k dvd unat x \<longleftrightarrow> k \<le> trailing_zeros x"
proof
  assume "k \<le> trailing_zeros x"
  then have "take_bit k (unat x) = 0"
    using trailing_zeros_bits(2) [OF assms] by (intro bit_eqI) (auto simp: bit_take_bit_iff bit_unat)
  then show "2 ^ k dvd unat x" by (simp add: take_bit_eq_0_iff)
next
  assume "2 ^ k dvd unat x"
  then have "take_bit k (unat x) = 0" by (simp add: take_bit_eq_0_iff)
  then have "\<not> bit (take_bit k (unat x)) (trailing_zeros x)" by simp
  then show "k \<le> trailing_zeros x"
    using trailing_zeros_bits(1) [OF assms] by (simp add: bit_take_bit_iff bit_unat)
qed

lemma leading_zeros_bounds:
  assumes "x \<noteq> (0 :: 'a::len word)"
  shows "2 ^ k \<le> unat x \<longleftrightarrow> k \<le> LENGTH('a) - 1 - leading_zeros x"
proof
  let ?t = "LENGTH('a) - 1 - leading_zeros x"
  have "bit (unat x) ?t" using leading_zeros_bits(2) [OF assms] by (simp add: bit_unat)
  then have "unat x div 2 ^ ?t \<noteq> 0" by (metis bit_iff_odd even_zero)
  then have lo: "2 ^ ?t \<le> unat x" by (metis div_less not_less)
  have "n < Suc ?t" if "bit x n" for n using leading_zeros_bits(3) [OF assms, of n] that not_less_eq by blast
  then have "take_bit (Suc ?t) (unat x) = unat x"
    by (intro bit_eqI) (auto simp: bit_take_bit_iff bit_unat)
  then have hi: "unat x < 2 ^ Suc ?t" using take_bit_nat_less_exp by metis
  assume "2 ^ k \<le> unat x"
  then have "(2::nat) ^ k < 2 ^ Suc ?t" using hi by linarith
  then show "k \<le> ?t" by (metis less_Suc_eq_le nat_power_less_imp_less zero_less_numeral)
next
  let ?t = "LENGTH('a) - 1 - leading_zeros x"
  have "bit (unat x) ?t" using leading_zeros_bits(2) [OF assms] by (simp add: bit_unat)
  then have "unat x div 2 ^ ?t \<noteq> 0" by (metis bit_iff_odd even_zero)
  then have lo: "2 ^ ?t \<le> unat x" by (metis div_less not_less)
  assume "k \<le> ?t"
  then show "2 ^ k \<le> unat x" using lo power_increasing [of k ?t "2::nat"] by linarith
qed

section \<open>Masked-port expansion\<close>

definition block_bits :: "u32 \<Rightarrow> u32 \<Rightarrow> nat" where
  "block_bits cursor e =
     (let remaining = saturating_add (saturating_sub e cursor) 1;
          alignment_bits = (if cursor = 0 then 16 else min (trailing_zeros cursor) 16);
          size_bits = 31 - leading_zeros remaining
      in min alignment_bits size_bits)"

lemma unat_ucast_u16: "unat (ucast (e :: u16) :: u32) = unat e"
  by simp

lemma block_bits_correct:
  assumes "cursor \<le> (ucast (e :: u16) :: u32)"
  shows "block_bits cursor (ucast e) \<le> 16"
    and "k \<le> block_bits cursor (ucast e) \<longleftrightarrow>
      k \<le> 16 \<and> 2 ^ k dvd unat cursor \<and> unat cursor + 2 ^ k \<le> unat e + 1"
proof -
  have le: "unat cursor \<le> unat e" using assms by (simp add: word_le_nat_alt)
  have e: "unat e < 65536" using unat_bound [of e] by simp
  let ?r = "saturating_add (saturating_sub (ucast e) cursor) 1 :: u32"
  have r: "unat ?r = unat e + 1 - unat cursor"
    using le e by (simp add: unat_saturating_add unat_saturating_sub)
  then have "?r \<noteq> 0" using le by (metis One_nat_def add_gr_0 diff_is_0_eq not_less_eq_eq unat_0 add.right_neutral add_Suc_right)
  note lz = leading_zeros_bounds [OF this]
  have size: "k \<le> 31 - leading_zeros ?r \<longleftrightarrow> unat cursor + 2 ^ k \<le> unat e + 1" for k
    using lz [of k] r le by simp linarith
  have align: "k \<le> (if cursor = 0 then 16 else min (trailing_zeros cursor) 16) \<longleftrightarrow>
      k \<le> 16 \<and> 2 ^ k dvd unat cursor" for k
    using trailing_zeros_dvd [of cursor k] by auto
  show "block_bits cursor (ucast e) \<le> 16" by (auto simp: block_bits_def Let_def)
  show "k \<le> block_bits cursor (ucast e) \<longleftrightarrow>
      k \<le> 16 \<and> 2 ^ k dvd unat cursor \<and> unat cursor + 2 ^ k \<le> unat e + 1"
    unfolding block_bits_def Let_def min.bounded_iff align size by blast
qed

text \<open>
  The loop of \<open>blocks\<close>. The bound stays a \<open>u16\<close>, so the cursor never saturates and the loop ends.
\<close>

definition to_u16 :: "u32 \<Rightarrow> u16 option" where
  "to_u16 x = (if x \<le> 65535 then Some (ucast x) else None)"

function blocks_from :: "u32 \<Rightarrow> u16 \<Rightarrow> port_block list option" where
  "blocks_from cursor e =
     (if cursor \<le> ucast e
      then let bits = block_bits cursor (ucast e)
           in case (to_u16 cursor, checked_shl (1 :: u32) bits) of
                (Some port, Some step) \<Rightarrow>
                  map_option (\<lambda>bs. \<lparr>pb_port = port, pb_prefix = of_nat (16 - bits)\<rparr> # bs)
                    (blocks_from (saturating_add cursor step) e)
              | _ \<Rightarrow> None
      else Some [])"
  by pat_completeness auto

lemma block_step:
  assumes "cursor \<le> (ucast (e :: u16) :: u32)"
  shows "unat cursor \<le> unat e" and "to_u16 cursor = Some (ucast cursor)"
    and "checked_shl (1 :: u32) (block_bits cursor (ucast e)) = Some (push_bit (block_bits cursor (ucast e)) 1)"
    and "unat (saturating_add cursor (push_bit (block_bits cursor (ucast e)) 1)) =
      unat cursor + 2 ^ block_bits cursor (ucast e)"
proof -
  let ?b = "block_bits cursor (ucast e)"
  note bb = block_bits_correct [OF assms]
  have e: "unat e < 65536" using unat_bound [of e] by simp
  show le: "unat cursor \<le> unat e" using assms by (simp add: word_le_nat_alt)
  then show "to_u16 cursor = Some (ucast cursor)" using e by (simp add: to_u16_def word_le_nat_alt)
  show "checked_shl (1 :: u32) ?b = Some (push_bit ?b 1)" using bb(1) by (simp add: checked_shl_def)
  have "unat (push_bit ?b (of_nat 1) :: u32) = 1 * 2 ^ ?b"
    using bb(1) power_increasing [of ?b 16 "2::nat"] by (intro unat_push_bit_of_nat) simp
  moreover have "unat cursor + 2 ^ ?b \<le> unat e + 1" using bb(2) [of ?b] by simp
  ultimately show "unat (saturating_add cursor (push_bit ?b 1)) = unat cursor + 2 ^ ?b"
    using e by (simp add: unat_saturating_add)
qed

lemma block_decreases:
  assumes "cursor \<le> (ucast (e :: u16) :: u32)" and "checked_shl (1 :: u32) (block_bits cursor (ucast e)) = Some step"
  shows "65537 - unat (saturating_add cursor step) < 65537 - unat cursor"
proof -
  have "unat cursor < 65536" using block_step(1) [OF assms(1)] unat_bound [of e] by simp
  then show ?thesis using block_step(3,4) [OF assms(1)] assms(2) by (simp add: diff_less_mono2)
qed

termination blocks_from
  by (relation "measure (\<lambda>(cursor, e). 65537 - unat cursor)") (simp_all add: block_decreases)

declare blocks_from.simps [simp del]

definition pr_blocks :: "port_range \<Rightarrow> port_block list option" where
  "pr_blocks r = blocks_from (ucast (pr_start r)) (pr_end r)"

definition pb_matches :: "port_block \<Rightarrow> u16 \<Rightarrow> bool" where
  "pb_matches b port =
     (if 16 < pb_prefix b then False
      else let m = shl_or_zero (- 1) (unat (saturating_sub 16 (pb_prefix b)))
           in port AND m = pb_port b AND m)"

section \<open>What the expansion covers\<close>

definition block_size16 :: "port_block \<Rightarrow> nat" where
  "block_size16 b = 2 ^ (16 - unat (pb_prefix b))"

definition block_ports :: "port_block \<Rightarrow> nat set" where
  "block_ports b = {unat (pb_port b)..<unat (pb_port b) + block_size16 b}"

definition block_ok :: "port_block \<Rightarrow> bool" where
  "block_ok b \<longleftrightarrow> pb_prefix b \<le> 16 \<and> block_size16 b dvd unat (pb_port b)"

lemma shl_minus_one: "push_bit n (- 1 :: 'a::len word) = NOT (mask n)"
  by (rule bit_word_eqI) (auto simp: bit_simps)

lemma pb_matches_iff:
  assumes "block_ok b"
  shows "pb_matches b p \<longleftrightarrow> unat p \<in> block_ports b"
proof -
  let ?h = "16 - unat (pb_prefix b)"
  have sh: "unat (saturating_sub 16 (pb_prefix b)) = ?h" by (simp add: unat_saturating_sub)
  have "pb_matches b p \<longleftrightarrow> p AND NOT (mask ?h) = pb_port b AND NOT (mask ?h)"
    using assms sh by (simp add: pb_matches_def block_ok_def Let_def shl_minus_one leD)
  also have "\<dots> \<longleftrightarrow> unat p div 2 ^ ?h * 2 ^ ?h = unat (pb_port b) div 2 ^ ?h * 2 ^ ?h"
    unfolding word_unat_eq_iff unat_and_not_mask ..
  also have "unat (pb_port b) div 2 ^ ?h * 2 ^ ?h = unat (pb_port b)"
    using assms by (simp add: block_ok_def block_size16_def)
  also have "unat p div 2 ^ ?h * 2 ^ ?h = unat (pb_port b) \<longleftrightarrow>
      unat (pb_port b) \<le> unat p \<and> unat p < unat (pb_port b) + 2 ^ ?h"
  proof -
    from assms obtain m where m: "unat (pb_port b) = m * 2 ^ ?h"
      by (auto simp: block_ok_def block_size16_def dvd_def mult.commute)
    have "unat p div 2 ^ ?h = m \<longleftrightarrow> m * 2 ^ ?h \<le> unat p \<and> unat p < m * 2 ^ ?h + 2 ^ ?h"
      by (rule div_eq_iff_between) simp
    then show ?thesis unfolding m by simp
  qed
  finally show ?thesis by (auto simp: block_ports_def block_size16_def)
qed

text \<open>
  The blocks tile the range from the left; each is the largest aligned block that starts at its
  cursor and fits.
\<close>

fun tiles :: "nat \<Rightarrow> nat \<Rightarrow> port_block list \<Rightarrow> bool" where
  "tiles c e [] = (e < c)"
| "tiles c e (b # bs) =
     (unat (pb_port b) = c \<and> block_ok b \<and> c + block_size16 b \<le> e + 1 \<and>
      (\<forall>k. k \<le> 16 \<and> 2 ^ k dvd c \<and> c + 2 ^ k \<le> e + 1 \<longrightarrow> 2 ^ k \<le> block_size16 b) \<and>
      tiles (c + block_size16 b) e bs)"

lemma blocks_from_tiles: "\<exists>bs. blocks_from cursor e = Some bs \<and> tiles (unat cursor) (unat e) bs"
proof (induction cursor e rule: blocks_from.induct)
  case (1 cursor e)
  show ?case
  proof (cases "cursor \<le> ucast e")
    case True
    let ?b = "block_bits cursor (ucast e)"
    note st = block_step [OF True] and bb = block_bits_correct [OF True]
    have "\<exists>bs. blocks_from (saturating_add cursor (push_bit ?b 1)) e = Some bs \<and>
        tiles (unat (saturating_add cursor (push_bit ?b 1))) (unat e) bs"
      using "1.IH" [OF True refl refl] st(2,3) by simp
    then obtain bs where bs: "blocks_from (saturating_add cursor (push_bit ?b 1)) e = Some bs"
        "tiles (unat cursor + 2 ^ ?b) (unat e) bs" unfolding st(4) by blast
    define px where "px = (of_nat (16 - ?b) :: u8)"
    let ?blk = "\<lparr>pb_port = ucast cursor, pb_prefix = px\<rparr>"
    have pfx: "unat px = 16 - ?b" unfolding px_def by (simp only: unat_of_nat) simp
    then have size: "block_size16 ?blk = 2 ^ ?b" using bb(1) by (simp add: block_size16_def)
    have port: "unat (ucast cursor :: u16) = unat cursor"
      using st(1) unat_bound [of e] by (simp add: unsigned_ucast_eq take_bit_nat_eq_self)
    have "block_ok ?blk" using bb(1) bb(2) [of ?b] pfx size port
      by (simp add: block_ok_def word_le_nat_alt)
    moreover have "\<forall>k. k \<le> 16 \<and> 2 ^ k dvd unat cursor \<and> unat cursor + 2 ^ k \<le> unat e + 1 \<longrightarrow> (2::nat) ^ k \<le> 2 ^ ?b"
      using bb(2) by (auto intro: power_increasing)
    moreover have "unat cursor + 2 ^ ?b \<le> unat e + 1" using bb(2) [of ?b] by simp
    moreover have "blocks_from cursor e = Some (?blk # bs)"
      using True st(2,3) bs(1) by (subst blocks_from.simps) (simp add: px_def)
    ultimately show ?thesis using bs(2) size port by (intro exI [of _ "?blk # bs"]) simp
  next
    case False
    then show ?thesis by (subst blocks_from.simps) (simp add: word_le_nat_alt)
  qed
qed

lemma block_size16_pos [simp]: "0 < block_size16 b"
  by (simp add: block_size16_def)

lemma block_ports_nonempty: "unat (pb_port b) \<in> block_ports b"
  by (simp add: block_ports_def)

lemma tiles_ok: "tiles c e bs \<Longrightarrow> b \<in> set bs \<Longrightarrow> block_ok b \<and> c \<le> unat (pb_port b)"
  by (induction c e bs rule: tiles.induct) fastforce+

lemma tiles_cover: "tiles c e bs \<Longrightarrow> (\<Union>b \<in> set bs. block_ports b) = {c..<Suc e}"
proof (induction c e bs rule: tiles.induct)
  case (2 c e b bs)
  then have "block_ports b = {c..<c + block_size16 b}" "c + block_size16 b \<le> Suc e"
    "(\<Union>b \<in> set bs. block_ports b) = {c + block_size16 b..<Suc e}" by (auto simp: block_ports_def)
  then show ?case by (simp add: ivl_disj_un_two(3) [of c "c + block_size16 b" "Suc e"])
qed simp

lemma tiles_disjoint: "tiles c e bs \<Longrightarrow> sorted_wrt (\<lambda>a b. block_ports a \<inter> block_ports b = {}) bs"
proof (induction c e bs rule: tiles.induct)
  case (2 c e b bs)
  have "block_ports b \<inter> block_ports a = {}" if "a \<in> set bs" for a
    using tiles_ok [of "c + block_size16 b" e bs a] 2(2) that by (auto simp: block_ports_def)
  then show ?case using 2 by simp
qed simp

lemma aligned_nested:
  fixes a b m n :: nat
  assumes "2 ^ m dvd a" and "2 ^ n dvd b" and "a < b" and "b < a + 2 ^ m"
  shows "b + 2 ^ n \<le> a + 2 ^ m"
proof (cases "n \<le> m")
  case True
  then have "2 ^ n dvd a + 2 ^ m - b"
    using assms(1,2) by (meson dvd_add dvd_diff_nat dvd_trans dvd_refl le_imp_power_dvd)
  moreover have "0 < a + 2 ^ m - b" using assms(4) by simp
  ultimately have "2 ^ n \<le> a + 2 ^ m - b" by (rule dvd_imp_le)
  then show ?thesis using assms(4) by linarith
next
  case False
  then have "2 ^ m dvd b" using assms(2) by (meson dvd_trans le_imp_power_dvd nat_le_linear)
  then have "2 ^ m dvd b - a" using assms(1) by (meson dvd_diff_nat)
  moreover have "0 < b - a" using assms(3) by simp
  ultimately have "2 ^ m \<le> b - a" by (rule dvd_imp_le)
  then show ?thesis using assms(3,4) by linarith
qed

lemma tiles_maximal:
  "tiles c e bs \<Longrightarrow> block_ok t \<Longrightarrow> c \<le> unat (pb_port t) \<Longrightarrow> unat (pb_port t) + block_size16 t \<le> Suc e \<Longrightarrow>
    \<exists>b \<in> set bs. block_ports t \<subseteq> block_ports b"
proof (induction c e bs rule: tiles.induct)
  case (1 c e)
  then show ?case using block_size16_pos [of t] by simp
next
  case (2 c e b bs)
  let ?p = "unat (pb_port t)"
  have b: "unat (pb_port b) = c" "block_ok b" "tiles (c + block_size16 b) e bs" using 2(2) by auto
  consider "?p = c" | "c < ?p" "?p < c + block_size16 b" | "c + block_size16 b \<le> ?p" using 2(4) by linarith
  then show ?case
  proof cases
    case 1
    have "block_size16 t \<le> block_size16 b"
      using 2(2,3,5) 1 by (auto simp: block_ok_def block_size16_def)
    then show ?thesis using 1 b(1) by (auto simp: block_ports_def)
  next
    case 2
    have "?p + block_size16 t \<le> c + block_size16 b"
      unfolding block_size16_def
      by (rule aligned_nested) (use 2 b \<open>block_ok t\<close> in \<open>auto simp: block_ok_def block_size16_def\<close>)
    then show ?thesis using 2 b(1) by (auto simp: block_ports_def)
  next
    case 3
    from "2.IH" [OF b(3) \<open>block_ok t\<close> 3 2(5)] show ?thesis by auto
  qed
qed

text \<open>A block whose port has host bits matches the same ports as the aligned one.\<close>

definition block_norm :: "port_block \<Rightarrow> port_block" where
  "block_norm b = b\<lparr>pb_port := pb_port b AND NOT (mask (16 - unat (pb_prefix b)))\<rparr>"

lemma block_norm:
  assumes "pb_prefix b \<le> 16"
  shows "block_ok (block_norm b)" and "pb_matches (block_norm b) p \<longleftrightarrow> pb_matches b p"
proof -
  show "block_ok (block_norm b)"
    using assms by (simp add: block_ok_def block_norm_def block_size16_def unat_and_not_mask)
  have "unat (saturating_sub 16 (pb_prefix b)) = 16 - unat (pb_prefix b)" by (simp add: unat_saturating_sub)
  then show "pb_matches (block_norm b) p \<longleftrightarrow> pb_matches b p"
    by (simp add: pb_matches_def block_norm_def shl_minus_one Let_def and.assoc)
qed

lemma block_ok_fits: "block_ok b \<Longrightarrow> unat (pb_port b) + block_size16 b \<le> 65536"
proof -
  assume ok: "block_ok b"
  then have "2 ^ (16 - unat (pb_prefix b)) dvd (65536::nat) - unat (pb_port b)"
    using le_imp_power_dvd [of "16 - unat (pb_prefix b)" 16 "2::nat"]
    by (intro dvd_diff_nat) (simp_all add: block_ok_def block_size16_def)
  moreover have "unat (pb_port b) < 65536" using unat_bound [of "pb_port b"] by simp
  ultimately show ?thesis using dvd_imp_le [of _ "65536 - unat (pb_port b)"] by (fastforce simp: block_size16_def)
qed

lemma block_in_tile:
  assumes tiles: "tiles (unat s) (unat e) bs" and t: "pb_prefix t \<le> 16"
    and range: "\<And>p. pb_matches t p \<Longrightarrow> s \<le> p \<and> p \<le> e"
  shows "\<exists>b \<in> set bs. \<forall>p. pb_matches t p \<longrightarrow> pb_matches b p"
proof -
  let ?t = "block_norm t"
  note ok = block_norm(1) [OF t] and fits = block_ok_fits [OF block_norm(1) [OF t]]
  have m: "pb_matches t p \<longleftrightarrow> unat p \<in> block_ports ?t" for p
    using pb_matches_iff [OF ok] block_norm(2) [OF t] by simp
  let ?last = "unat (pb_port ?t) + block_size16 ?t - 1"
  have "?last < 65536" using fits block_size16_pos [of ?t] by linarith
  then have last: "unat (of_nat ?last :: u16) = ?last" by (simp only: unat_of_nat) simp
  have "s \<le> pb_port ?t" using range [of "pb_port ?t"] m block_ports_nonempty by blast
  moreover have "?last \<in> block_ports ?t"
    using block_size16_pos [of ?t] by (auto simp only: block_ports_def atLeastLessThan_iff)
  then have "pb_matches t (of_nat ?last)" unfolding m last .
  then have "(of_nat ?last :: u16) \<le> e" using range by blast
  ultimately have "unat s \<le> unat (pb_port ?t)" "unat (pb_port ?t) + block_size16 ?t \<le> Suc (unat e)"
    using last block_size16_pos [of ?t] unfolding word_le_nat_alt by linarith+
  from tiles_maximal [OF tiles ok this] obtain b where b: "b \<in> set bs" "block_ports ?t \<subseteq> block_ports b" by blast
  then show ?thesis using m pb_matches_iff [of b] tiles_ok [OF tiles b(1)] by blast
qed

lemma disjoint_cover_length:
  assumes "sorted_wrt (\<lambda>a b. \<forall>p. \<not> (m a p \<and> m b p)) bs" and "\<And>b. b \<in> set bs \<Longrightarrow> \<exists>p. m b p"
    and "\<And>b p. b \<in> set bs \<Longrightarrow> m b p \<Longrightarrow> \<exists>t \<in> set ts. m t p"
    and "\<And>t p. t \<in> set ts \<Longrightarrow> m t p \<Longrightarrow> \<exists>b \<in> set bs. \<forall>p. m t p \<longrightarrow> m b p"
  shows "length bs \<le> length ts"
proof -
  have "\<forall>b \<in> set bs. \<exists>t \<in> set ts. \<exists>p. m b p \<and> m t p" using assms(2,3) by blast
  then obtain f where f: "\<forall>b \<in> set bs. f b \<in> set ts \<and> (\<exists>p. m b p \<and> m (f b) p)" by metis
  have dist: "distinct bs \<and> (\<forall>a \<in> set bs. \<forall>b \<in> set bs. (\<exists>p. m a p \<and> m b p) \<longrightarrow> a = b)"
    using assms(1,2) by (induction bs) (auto, blast+)
  then have "inj_on f (set bs)" using f assms(4) by (intro inj_onI) metis
  then have "card (set bs) \<le> card (set ts)" using f by (intro card_inj_on_le [of f]) auto
  then show ?thesis using dist distinct_card card_length order_trans by metis
qed

text \<open>
  C15. The expansion of a port range always ends and never panics; its blocks match exactly the
  ports of the range, no port twice, and no list of masked ports that matches exactly the range
  is shorter.
\<close>

theorem pr_blocks_spec:
  "\<exists>bs. pr_blocks r = Some bs \<and>
    (\<forall>p. pr_contains r p \<longleftrightarrow> (\<exists>b \<in> set bs. pb_matches b p)) \<and>
    sorted_wrt (\<lambda>a b. \<forall>p. \<not> (pb_matches a p \<and> pb_matches b p)) bs \<and>
    (\<forall>ts. (\<forall>p. pr_contains r p \<longleftrightarrow> (\<exists>t \<in> set ts. pb_matches t p)) \<longrightarrow> length bs \<le> length ts)"
proof -
  from blocks_from_tiles [of "ucast (pr_start r)" "pr_end r"] obtain bs where
    bs: "pr_blocks r = Some bs" and tiles: "tiles (unat (pr_start r)) (unat (pr_end r)) bs"
    by (auto simp: pr_blocks_def)
  have m: "pb_matches b p \<longleftrightarrow> unat p \<in> block_ports b" if "b \<in> set bs" for b p
    using tiles_ok [OF tiles that] pb_matches_iff by blast
  have cover: "pr_contains r p \<longleftrightarrow> (\<exists>b \<in> set bs. pb_matches b p)" for p
    using tiles_cover [OF tiles] m by (auto simp: pr_contains_def word_le_nat_alt set_eq_iff less_Suc_eq_le)
  have disj: "sorted_wrt (\<lambda>a b. \<forall>p. \<not> (pb_matches a p \<and> pb_matches b p)) bs"
    using tiles_disjoint [OF tiles] by (rule sorted_wrt_mono_rel [rotated]) (use m in blast)
  have "length bs \<le> length ts" if ts: "\<forall>p. pr_contains r p \<longleftrightarrow> (\<exists>t \<in> set ts. pb_matches t p)" for ts
  proof (rule disjoint_cover_length [OF disj])
    show "\<exists>p. pb_matches b p" if "b \<in> set bs" for b using m [OF that] block_ports_nonempty by blast
    show "\<exists>t \<in> set ts. pb_matches t p" if "b \<in> set bs" "pb_matches b p" for b p using that cover ts by blast
    fix t p assume t: "t \<in> set ts" "pb_matches t p"
    then have "pb_prefix t \<le> 16" by (auto simp: pb_matches_def not_less split: if_splits)
    moreover have "pr_start r \<le> q \<and> q \<le> pr_end r" if "pb_matches t q" for q
      using ts t(1) that by (auto simp: pr_contains_def)
    ultimately show "\<exists>b \<in> set bs. \<forall>p. pb_matches t p \<longrightarrow> pb_matches b p" by (intro block_in_tile [OF tiles])
  qed
  then show ?thesis using bs cover disj by blast
qed

theorem pr_blocks_spec_witness:
  "\<exists>bs. pr_blocks \<lparr>pr_start = 4, pr_end = 7\<rparr> = Some bs \<and> length bs \<le> 1 \<and> (\<exists>b \<in> set bs. pb_matches b 6)"
proof -
  let ?r = "\<lparr>pr_start = 4, pr_end = 7\<rparr>" and ?t = "\<lparr>pb_port = 4, pb_prefix = 14\<rparr>"
  have "block_ok ?t" by (simp add: block_ok_def block_size16_def)
  then have t: "\<forall>p. pr_contains ?r p \<longleftrightarrow> (\<exists>t \<in> set [?t]. pb_matches t p)"
    by (auto simp: pb_matches_iff pr_contains_def block_ports_def block_size16_def word_le_nat_alt)
  from pr_blocks_spec [of ?r] obtain bs where bs: "pr_blocks ?r = Some bs"
    and cover: "\<forall>p. pr_contains ?r p \<longleftrightarrow> (\<exists>b \<in> set bs. pb_matches b p)"
    and least: "\<forall>ts. (\<forall>p. pr_contains ?r p \<longleftrightarrow> (\<exists>t \<in> set ts. pb_matches t p)) \<longrightarrow> length bs \<le> length ts" by blast
  have "length bs \<le> length [?t]" using least t by blast
  moreover have "pr_contains ?r 6" by (simp add: pr_contains_def)
  then have "\<exists>b \<in> set bs. pb_matches b 6" using cover by blast
  ultimately show ?thesis using bs by (intro exI [of _ bs]) simp
qed

section \<open>The pressure plan\<close>

lemma ceil_tenth: "(n + 9) div 10 = (if 0 < n mod 10 then n div 10 + 1 else n div (10 :: nat))"
proof -
  define q r where "q = n div 10" and "r = n mod 10"
  then have n: "n = 10 * q + r" and r: "r < 10" by simp_all
  have "(10 * q + r + 9) div 10 = (if 0 < r then q + 1 else q)"
    using r by (intro div_nat_eqI) auto
  then show ?thesis unfolding n using r by simp
qed

lemma pressure_spec:
  "pressure desired capacity lockdown =
    (if unat capacity < 256 \<or> 65536 < unat capacity then Inl InvalidCapacity
     else Inr \<lparr>pp_alarm = (9 * unat capacity \<le> 10 * unat desired), pp_overflow = (unat capacity < unat desired),
       pp_action = (if unat capacity < unat desired \<and> lockdown then Lockdown else Reconcile)\<rparr>)"
proof (cases "unat capacity < 256 \<or> 65536 < unat capacity")
  case False
  let ?m = "ucast capacity :: u64"
  have m: "unat (saturating_mul ?m 9) = 9 * unat capacity"
    using False by (simp add: unat_saturating_mul)
  have c: "unat (div_ceil (saturating_mul ?m 9) 10) = (9 * unat capacity + 9) div 10"
  proof -
    let ?x = "saturating_mul ?m 9"
    have "unat (?x div 10) = 9 * unat capacity div 10" "unat (?x mod 10) = 9 * unat capacity mod 10"
      by (simp_all add: unat_div unat_mod m)
    moreover have "unat (?x div 10) + unat (1 :: u64) < 2 ^ LENGTH(64)"
      using False by (simp add: unat_div m) linarith
    then have "unat (?x div 10 + 1) = unat (?x div 10) + 1" by (simp add: unat_add_no_wrap)
    ultimately show ?thesis
      using ceil_tenth [of "9 * unat capacity"] by (simp add: div_ceil_def Let_def word_less_nat_alt)
  qed
  have "(9 * unat capacity + 9) div 10 \<le> unat desired \<longleftrightarrow> 9 * unat capacity \<le> 10 * unat desired" by linarith
  then show ?thesis
    using False c by (simp add: pressure_def Let_def word_le_nat_alt word_less_nat_alt)
qed (auto simp: pressure_def word_le_nat_alt)

end
