(* ===== verification/Oracle.thy ===== *)
theory Oracle
  imports Ports
begin

text \<open>
  Rules, packets and the brute-force policy evaluation, \<open>crates/flowsdn-policy/src/oracle.rs\<close>. A
  priority is an \<open>f64\<close>, kept as its bit pattern with the comparisons the code uses on it; a set of
  proxy ports is a sorted list. \<open>policy_spec\<close> says what a decision means: the first tier, in order,
  whose strongest matching rules do not pass decides.
\<close>

section \<open>Floating-point priorities\<close>

type_synonym f64 = "64 word"

datatype ordering = Less | Equal | Greater

definition cmp :: "'a::linorder \<Rightarrow> 'a \<Rightarrow> ordering" where
  "cmp a b = (if a < b then Less else if b < a then Greater else Equal)"

definition then_with :: "ordering \<Rightarrow> ordering \<Rightarrow> ordering" where
  "then_with a b = (case a of Equal \<Rightarrow> b | _ \<Rightarrow> a)"

definition f64_exponent :: "f64 \<Rightarrow> u64" where
  "f64_exponent x = take_bit 11 (drop_bit 52 x)"

definition f64_is_finite :: "f64 \<Rightarrow> bool" where
  "f64_is_finite x \<longleftrightarrow> f64_exponent x \<noteq> 2047"

definition f64_is_nan :: "f64 \<Rightarrow> bool" where
  "f64_is_nan x \<longleftrightarrow> f64_exponent x = 2047 \<and> take_bit 52 x \<noteq> 0"

definition f64_is_zero :: "f64 \<Rightarrow> bool" where
  "f64_is_zero x \<longleftrightarrow> take_bit 63 x = 0"

text \<open>\<open>x == y\<close> and \<open>x < 0.0\<close>: a NaN compares to nothing, the two zeros are equal.\<close>

definition f64_eq :: "f64 \<Rightarrow> f64 \<Rightarrow> bool" where
  "f64_eq x y \<longleftrightarrow> \<not> f64_is_nan x \<and> \<not> f64_is_nan y \<and> (x = y \<or> f64_is_zero x \<and> f64_is_zero y)"

definition f64_negative :: "f64 \<Rightarrow> bool" where
  "f64_negative x \<longleftrightarrow> bit x 63 \<and> \<not> f64_is_nan x \<and> \<not> f64_is_zero x"

text \<open>\<open>f64::total_cmp\<close> compares the bits as a signed integer, the magnitude flipped when negative.\<close>

definition f64_total_key :: "f64 \<Rightarrow> int" where
  "f64_total_key x = sint (if bit x 63 then x XOR mask 63 else x)"

definition f64_total_cmp :: "f64 \<Rightarrow> f64 \<Rightarrow> ordering" where
  "f64_total_cmp x y = cmp (f64_total_key x) (f64_total_key y)"

section \<open>Rules and packets\<close>

datatype tier = Admin | Normal | Baseline | Default

fun tier_number :: "tier \<Rightarrow> nat" where
  "tier_number Admin = 100"
| "tier_number Normal = 200"
| "tier_number Baseline = 250"
| "tier_number Default = 255"

lemma tier_number_inj: "tier_number a = tier_number b \<longleftrightarrow> a = b"
  by (cases a; cases b) simp_all

instantiation tier :: linorder
begin

definition less_eq_tier :: "tier \<Rightarrow> tier \<Rightarrow> bool" where
  "less_eq_tier a b \<longleftrightarrow> tier_number a \<le> tier_number b"

definition less_tier :: "tier \<Rightarrow> tier \<Rightarrow> bool" where
  "less_tier a b \<longleftrightarrow> tier_number a < tier_number b"

instance
  by standard (auto simp: less_eq_tier_def less_tier_def tier_number_inj dest: order_antisym)

end

datatype verdict = Allow | Deny | Pass

datatype peer = Any | Identity u32

datatype authentication = Disabled | Required | TestAlwaysFail

record rule =
  r_tier :: tier
  r_priority :: f64
  r_verdict :: verdict
  r_egress :: bool
  r_peer :: peer
  r_protocol :: u8
  r_ports :: port_range
  r_authentication :: "authentication option"
  r_proxy_port :: u16
  r_listener_priority :: u8

record packet =
  p_identity :: u32
  p_egress :: bool
  p_protocol :: u8
  p_port :: u16

datatype decision = DenyAll | AllowVia "u16 btree_set"

definition rule_validate :: "rule \<Rightarrow> policy_error + unit" where
  "rule_validate r =
     (if \<not> f64_is_finite (r_priority r) \<or> f64_negative (r_priority r) then Inl InvalidPriority
      else if r_protocol r = 0 \<and> \<not> pr_is_any (r_ports r) then Inl InvalidProtocol
      else if 126 < r_listener_priority r \<or> r_proxy_port r = 0 \<and> r_listener_priority r \<noteq> 0 \<or>
          r_verdict r \<noteq> Allow \<and> (r_proxy_port r \<noteq> 0 \<or> r_authentication r \<noteq> None)
      then Inl InvalidRedirect
      else Inr ())"

definition rule_matches :: "rule \<Rightarrow> packet \<Rightarrow> bool" where
  "rule_matches r p \<longleftrightarrow> r_egress r = p_egress p \<and>
     (r_peer r = Any \<or> r_peer r = Identity (p_identity p)) \<and>
     (r_protocol r = 0 \<or> r_protocol r = p_protocol p) \<and> pr_contains (r_ports r) (p_port p)"

definition verdict_rank :: "rule \<Rightarrow> u8 \<times> u8" where
  "verdict_rank r =
     (case r_verdict r of
        Deny \<Rightarrow> (3, 0)
      | Pass \<Rightarrow> (0, 0)
      | Allow \<Rightarrow>
          if r_proxy_port r = 0 then (1, 0)
          else if r_listener_priority r = 0 then (2, 0)
          else (2, saturating_sub 127 (r_listener_priority r)))"

fun validate_loop :: "bool \<Rightarrow> bool \<Rightarrow> rule list \<Rightarrow> policy_error + (bool \<times> bool)" where
  "validate_loop passes auth [] = Inr (passes, auth)"
| "validate_loop passes auth (r # rs) =
     (case rule_validate r of
        Inl e \<Rightarrow> Inl e
      | Inr _ \<Rightarrow> validate_loop (passes \<or> r_verdict r = Pass) (auth \<or> r_authentication r \<noteq> None) rs)"

definition validate_subject :: "rule list \<Rightarrow> policy_error + unit" where
  "validate_subject rules =
     (case validate_loop False False rules of
        Inl e \<Rightarrow> Inl e
      | Inr (passes, auth) \<Rightarrow> if passes \<and> auth then Inl PassWithAuthentication else Inr ())"

section \<open>Evaluation\<close>

text \<open>\<open>Iterator::min_by\<close> keeps the first of equal elements, \<open>Iterator::max\<close> the last.\<close>

fun min_by :: "('a \<Rightarrow> 'a \<Rightarrow> ordering) \<Rightarrow> 'a list \<Rightarrow> 'a option" where
  "min_by c [] = None"
| "min_by c (x # xs) = Some (fold (\<lambda>y m. if c m y = Greater then y else m) xs x)"

fun max_by :: "('a \<Rightarrow> 'a \<Rightarrow> ordering) \<Rightarrow> 'a list \<Rightarrow> 'a option" where
  "max_by c [] = None"
| "max_by c (x # xs) = Some (fold (\<lambda>y m. if c m y = Greater then m else y) xs x)"

definition pair_cmp :: "'a::linorder \<times> 'b::linorder \<Rightarrow> 'a \<times> 'b \<Rightarrow> ordering" where
  "pair_cmp a b = then_with (cmp (fst a) (fst b)) (cmp (snd a) (snd b))"

fun evaluate_tiers :: "tier list \<Rightarrow> rule list \<Rightarrow> packet \<Rightarrow> decision" where
  "evaluate_tiers [] rules p = DenyAll"
| "evaluate_tiers (t # ts) rules p =
     (let matches = filter (\<lambda>r. r_tier r = t \<and> rule_matches r p) rules
      in case min_by f64_total_cmp (map r_priority matches) of
           None \<Rightarrow> evaluate_tiers ts rules p
         | Some priority \<Rightarrow>
             let peers = filter (\<lambda>r. f64_eq (r_priority r) priority) matches
             in case max_by pair_cmp (map verdict_rank peers) of
                  None \<Rightarrow> evaluate_tiers ts rules p
                | Some rank \<Rightarrow>
                    let winners = filter (\<lambda>r. verdict_rank r = rank) peers
                    in case winners of
                         [] \<Rightarrow> evaluate_tiers ts rules p
                       | w # _ \<Rightarrow>
                           (case r_verdict w of
                              Pass \<Rightarrow> evaluate_tiers ts rules p
                            | Deny \<Rightarrow> DenyAll
                            | Allow \<Rightarrow> AllowVia (bs_of_list (map r_proxy_port winners))))"

definition evaluate :: "rule list \<Rightarrow> packet \<Rightarrow> policy_error + decision" where
  "evaluate rules p =
     (case validate_subject rules of
        Inl e \<Rightarrow> Inl e
      | Inr _ \<Rightarrow>
          if list_ex (\<lambda>r. r_authentication r \<noteq> None) rules then Inl OracleAuthenticationUnsupported
          else Inr (evaluate_tiers [Admin, Normal, Baseline, Default] rules p))"

section \<open>Comparisons\<close>

lemma cmp_simps [simp]: "cmp a b = Less \<longleftrightarrow> a < b" "cmp a b = Equal \<longleftrightarrow> a = b" "cmp a b = Greater \<longleftrightarrow> b < a"
  by (auto simp: cmp_def)

lemma min_by_cmp:
  assumes "min_by (\<lambda>a b. cmp (k a) (k b :: 'b::linorder)) xs = Some m"
  shows "m \<in> set xs \<and> (\<forall>x \<in> set xs. k m \<le> k x)"
proof -
  let ?f = "\<lambda>y m. if cmp (k m) (k y) = Greater then y else m"
  have "fold ?f ys x \<in> insert x (set ys) \<and> (\<forall>y \<in> insert x (set ys). k (fold ?f ys x) \<le> k y)" for x ys
    by (induction ys arbitrary: x) (auto simp: not_less, (meson order.strict_trans2 less_imp_le order_trans)+)
  then show ?thesis using assms by (cases xs) auto
qed

lemma max_by_cmp:
  assumes "max_by (\<lambda>a b. cmp (k a) (k b :: 'b::linorder)) xs = Some m"
  shows "m \<in> set xs \<and> (\<forall>x \<in> set xs. k x \<le> k m)"
proof -
  let ?f = "\<lambda>y m. if cmp (k m) (k y) = Greater then m else y"
  have "fold ?f ys x \<in> insert x (set ys) \<and> (\<forall>y \<in> insert x (set ys). k y \<le> k (fold ?f ys x))" for x ys
    by (induction ys arbitrary: x) (auto simp: not_less, (meson order.strict_trans1 less_imp_le order_trans)+)
  then show ?thesis using assms by (cases xs) auto
qed

definition f64_level :: "f64 \<Rightarrow> nat" where
  "f64_level x = unat (take_bit 63 x)"

definition priority_ok :: "f64 \<Rightarrow> bool" where
  "priority_ok x \<longleftrightarrow> f64_is_finite x \<and> \<not> f64_negative x"

lemma take_bit_63_eq: "\<not> bit x 63 \<Longrightarrow> take_bit 63 x = (x :: u64)"
proof (rule bit_word_eqI)
  fix n assume "\<not> bit x 63" and "n < LENGTH(64)"
  then show "bit (take_bit 63 x) n = bit x n" by (cases "n = 63") (auto simp: bit_take_bit_iff)
qed

lemma f64_total_key_ok:
  assumes "priority_ok x"
  shows "f64_total_key x = (if bit x 63 then - 1 else int (f64_level x))" and "bit x 63 \<Longrightarrow> f64_level x = 0"
proof -
  have z: "take_bit 63 x = 0" if "bit x 63"
    using assms that by (auto simp: priority_ok_def f64_negative_def f64_is_nan_def f64_is_finite_def f64_is_zero_def)
  then show "bit x 63 \<Longrightarrow> f64_level x = 0" by (simp add: f64_level_def)
  show "f64_total_key x = (if bit x 63 then - 1 else int (f64_level x))"
  proof (cases "bit x 63")
    case True
    have "\<not> bit x n" if "n < 63" for n using z [OF True] that by (metis bit_take_bit_iff bit_0_eq bot_apply bot_bool_def)
    then have "bit x n \<longleftrightarrow> n = 63" if "n < 64" for n using True that by (cases "n = 63") auto
    then have "x XOR mask 63 = - 1" by (intro bit_word_eqI) (auto simp: bit_simps)
    then show ?thesis using True by (simp add: f64_total_key_def)
  next
    case False
    have "uint x = take_bit 63 (uint x)"
      using take_bit_63_eq [OF False] by (metis unsigned_take_bit_eq)
    then have "sint x = int (unat x)"
      using False by (simp add: sint_uint signed_take_bit_eq_if_positive bit_uint_iff)
    then show ?thesis using False by (simp add: f64_total_key_def f64_level_def take_bit_63_eq)
  qed
qed

lemma f64_eq_level:
  assumes "priority_ok x" and "priority_ok y"
  shows "f64_eq x y \<longleftrightarrow> f64_level x = f64_level y"
proof -
  have nan: "\<not> f64_is_nan x" "\<not> f64_is_nan y"
    using assms by (auto simp: priority_ok_def f64_is_nan_def f64_is_finite_def)
  have zero: "f64_is_zero z \<longleftrightarrow> f64_level z = 0" for z
    by (simp add: f64_is_zero_def f64_level_def unat_eq_0)
  have "x = y" if "f64_level x = f64_level y" "f64_level x \<noteq> 0"
  proof -
    have "\<not> bit x 63" "\<not> bit y 63"
      using f64_total_key_ok(2) [OF assms(1)] f64_total_key_ok(2) [OF assms(2)] that by auto
    then show ?thesis using that(1) by (simp add: f64_level_def take_bit_63_eq word_unat_eq_iff)
  qed
  then show ?thesis using nan zero by (cases "f64_level x = 0") (auto simp: f64_eq_def)
qed

lemma f64_total_cmp_level:
  assumes "priority_ok x" and "priority_ok y"
  shows "f64_total_key x \<le> f64_total_key y \<Longrightarrow> f64_level x \<le> f64_level y"
    and "\<not> f64_eq x y \<Longrightarrow> f64_total_cmp x y = cmp (f64_level x) (f64_level y)"
proof -
  note k = f64_total_key_ok [OF assms(1)] f64_total_key_ok [OF assms(2)]
  show le: "f64_total_key x \<le> f64_total_key y \<Longrightarrow> f64_level x \<le> f64_level y"
    using k by (auto split: if_splits)
  show "\<not> f64_eq x y \<Longrightarrow> f64_total_cmp x y = cmp (f64_level x) (f64_level y)"
    using k by (auto simp: f64_total_cmp_def cmp_def f64_eq_level [OF assms] split: if_splits)
qed

lemma rule_validate_ok:
  assumes "rule_validate r = Inr u"
  shows "priority_ok (r_priority r)" and "r_protocol r = 0 \<Longrightarrow> pr_is_any (r_ports r)"
    and "r_listener_priority r \<le> 126" and "r_verdict r \<noteq> Allow \<Longrightarrow> r_proxy_port r = 0"
  using assms by (auto simp: rule_validate_def priority_ok_def not_less split: if_splits)

definition rule_ok :: "rule \<Rightarrow> bool" where
  "rule_ok r \<longleftrightarrow> rule_validate r = Inr ()"

lemma validate_loop_ok:
  "validate_loop passes auth rules = Inr (passes', auth') \<longleftrightarrow>
    list_all rule_ok rules \<and> passes' = (passes \<or> list_ex (\<lambda>r. r_verdict r = Pass) rules) \<and>
    auth' = (auth \<or> list_ex (\<lambda>r. r_authentication r \<noteq> None) rules)"
  by (induction rules arbitrary: passes auth) (auto simp: rule_ok_def split: sum.splits)

lemma validate_subject_ok:
  "validate_subject rules = Inr () \<longleftrightarrow> list_all rule_ok rules \<and>
    \<not> (list_ex (\<lambda>r. r_verdict r = Pass) rules \<and> list_ex (\<lambda>r. r_authentication r \<noteq> None) rules)"
proof (cases "validate_loop False False rules")
  case (Inl e)
  then have "\<not> list_all rule_ok rules"
    using validate_loop_ok [of False False rules "list_ex (\<lambda>r. r_verdict r = Pass) rules"
        "list_ex (\<lambda>r. r_authentication r \<noteq> None) rules"] by auto
  then show ?thesis using Inl by (simp add: validate_subject_def)
next
  case (Inr x)
  then show ?thesis
    using validate_loop_ok [of False False rules "fst x" "snd x"] by (cases x) (auto simp: validate_subject_def)
qed

definition plain_rules :: "rule list \<Rightarrow> bool" where
  "plain_rules rules \<longleftrightarrow> list_all rule_ok rules \<and> \<not> list_ex (\<lambda>r. r_authentication r \<noteq> None) rules"

lemma evaluate_Inr: "evaluate rules p = Inr d \<longleftrightarrow>
    plain_rules rules \<and> d = evaluate_tiers [Admin, Normal, Baseline, Default] rules p"
proof (cases "validate_subject rules")
  case (Inl e)
  then have "\<not> plain_rules rules" using validate_subject_ok [of rules] by (auto simp: plain_rules_def)
  then show ?thesis using Inl by (simp add: evaluate_def)
next
  case (Inr u)
  then have "list_all rule_ok rules" using validate_subject_ok [of rules] by simp
  then show ?thesis using Inr by (auto simp: evaluate_def plain_rules_def)
qed

section \<open>What a decision means\<close>

text \<open>Within a tier a lower priority wins, then the stronger verdict.\<close>

definition rank_number :: "rule \<Rightarrow> nat" where
  "rank_number r = unat (fst (verdict_rank r)) * 256 + unat (snd (verdict_rank r))"

definition as_strong :: "rule \<Rightarrow> rule \<Rightarrow> bool" where
  "as_strong a b \<longleftrightarrow> f64_level (r_priority a) < f64_level (r_priority b) \<or>
     f64_level (r_priority a) = f64_level (r_priority b) \<and> rank_number b \<le> rank_number a"

definition tier_matches :: "rule list \<Rightarrow> packet \<Rightarrow> tier \<Rightarrow> rule list" where
  "tier_matches rules p t = filter (\<lambda>r. r_tier r = t \<and> rule_matches r p) rules"

definition strongest :: "rule list \<Rightarrow> rule list" where
  "strongest ms = filter (\<lambda>r. list_all (as_strong r) ms) ms"

definition settles :: "rule list \<Rightarrow> bool" where
  "settles ws \<longleftrightarrow> ws \<noteq> [] \<and> r_verdict (hd ws) \<noteq> Pass"

definition policy_spec :: "tier list \<Rightarrow> rule list \<Rightarrow> packet \<Rightarrow> decision" where
  "policy_spec ts rules p =
     (case find (\<lambda>t. settles (strongest (tier_matches rules p t))) ts of
        None \<Rightarrow> DenyAll
      | Some t \<Rightarrow>
          let ws = strongest (tier_matches rules p t)
          in if r_verdict (hd ws) = Deny then DenyAll else AllowVia (bs_of_list (map r_proxy_port ws)))"

lemma u8_less: "unat (x :: u8) < 256"
  using unat_bound [of x] by simp

lemma pair_number:
  fixes x y :: "u8 \<times> u8"
  defines "n \<equiv> \<lambda>x :: u8 \<times> u8. unat (fst x) * 256 + unat (snd x)"
  shows "pair_cmp x y = cmp (n x) (n y)" and "n x = n y \<longleftrightarrow> x = y"
proof -
  note lt = u8_less [of "snd x"] u8_less [of "snd y"]
  then show "pair_cmp x y = cmp (n x) (n y)"
    by (auto simp: n_def pair_cmp_def then_with_def cmp_def word_less_nat_alt split: ordering.splits)
  have "n z div 256 = unat (fst z)" "n z mod 256 = unat (snd z)" for z
    using u8_less [of "snd z"] by (simp_all add: n_def)
  then have "n x = n y \<longleftrightarrow> unat (fst x) = unat (fst y) \<and> unat (snd x) = unat (snd y)"
    by (metis n_def)
  then show "n x = n y \<longleftrightarrow> x = y" by (simp add: prod_eq_iff word_unat_eq_iff)
qed

lemma rank_number_verdict: "rank_number a = rank_number b \<Longrightarrow> r_verdict a = r_verdict b"
proof -
  assume "rank_number a = rank_number b"
  then have "verdict_rank a = verdict_rank b" using pair_number(2) by (simp add: rank_number_def)
  then show ?thesis by (auto simp: verdict_rank_def split: verdict.splits if_splits)
qed

lemma as_strong_total: "as_strong a b \<or> as_strong b a"
  by (auto simp: as_strong_def)

lemma winners_strongest:
  assumes ok: "list_all rule_ok ms"
    and min: "min_by f64_total_cmp (map r_priority ms) = Some priority"
    and peers: "peers = filter (\<lambda>r. f64_eq (r_priority r) priority) ms"
    and max: "max_by pair_cmp (map verdict_rank peers) = Some rank"
  shows "filter (\<lambda>r. verdict_rank r = rank) peers = strongest ms"
proof -
  let ?l = "\<lambda>r. f64_level (r_priority r)"
  have pok: "priority_ok (r_priority r)" if "r \<in> set ms" for r
    using ok that rule_validate_ok(1) by (auto simp: list_all_iff rule_ok_def)
  from min have "min_by (\<lambda>a b. cmp (f64_total_key a) (f64_total_key b)) (map r_priority ms) = Some priority"
    by (simp add: f64_total_cmp_def [abs_def])
  from min_by_cmp [OF this] obtain m where m: "m \<in> set ms" "priority = r_priority m"
    and least: "\<And>r. r \<in> set ms \<Longrightarrow> f64_total_key priority \<le> f64_total_key (r_priority r)" by auto
  have lev: "?l m \<le> ?l r" if "r \<in> set ms" for r
    using f64_total_cmp_level(1) [OF pok [OF m(1)] pok [OF that]] least [OF that] m(2) by simp
  have inp: "r \<in> set peers \<longleftrightarrow> r \<in> set ms \<and> ?l r = ?l m" for r
    using peers m f64_eq_level pok by auto
  from max have "max_by (\<lambda>a b. cmp (unat (fst a) * 256 + unat (snd a)) (unat (fst b) * 256 + unat (snd b)))
      (map verdict_rank peers) = Some rank" by (simp add: pair_number(1) [abs_def])
  from max_by_cmp [OF this] obtain w where w: "w \<in> set peers" "rank = verdict_rank w"
    and most: "\<And>r. r \<in> set peers \<Longrightarrow> rank_number r \<le> rank_number w" by (auto simp: rank_number_def)
  have rank: "verdict_rank r = rank \<longleftrightarrow> rank_number r = rank_number w" for r
    unfolding w(2) rank_number_def by (rule pair_number(2) [symmetric])
  have "list_all (as_strong r) ms \<longleftrightarrow> ?l r = ?l m \<and> rank_number r = rank_number w" if "r \<in> set ms" for r
  proof
    assume "list_all (as_strong r) ms"
    then have "as_strong r w" "as_strong r m" using w(1) m(1) inp by (auto simp: list_all_iff)
    then show "?l r = ?l m \<and> rank_number r = rank_number w"
      using lev [OF that] most [of r] inp [of r] inp [of w] w(1) that by (auto simp: as_strong_def)
  next
    assume "?l r = ?l m \<and> rank_number r = rank_number w"
    then show "list_all (as_strong r) ms"
      using lev most inp by (fastforce simp: list_all_iff as_strong_def)
  qed
  then show ?thesis
    unfolding strongest_def peers filter_filter
    using rank f64_eq_level pok m by (intro filter_cong) auto
qed

lemma peers_nonempty:
  assumes "list_all rule_ok ms" and "min_by f64_total_cmp (map r_priority ms) = Some priority"
  shows "filter (\<lambda>r. f64_eq (r_priority r) priority) ms \<noteq> []"
proof -
  from assms(2) have "min_by (\<lambda>a b. cmp (f64_total_key a) (f64_total_key b)) (map r_priority ms) = Some priority"
    by (simp add: f64_total_cmp_def [abs_def])
  from min_by_cmp [OF this] obtain m where m: "m \<in> set ms" "priority = r_priority m" by auto
  then have "priority_ok (r_priority m)" using assms(1) rule_validate_ok(1) by (auto simp: list_all_iff rule_ok_def)
  then show ?thesis using m f64_eq_level by (auto simp: filter_empty_conv)
qed

lemma strongest_nonempty: "ms \<noteq> [] \<Longrightarrow> strongest ms \<noteq> []"
proof -
  have "\<exists>r \<in> set ms. \<forall>x \<in> set ms. as_strong r x" if "ms \<noteq> []" for ms
    using that
  proof (induction ms rule: list_nonempty_induct)
    case (cons x ms)
    then obtain r where r: "r \<in> set ms" "\<forall>y \<in> set ms. as_strong r y" by blast
    have "as_strong x x" by (simp add: as_strong_def)
    moreover have "as_strong x y" if "as_strong x r" "as_strong r y" for y
      using that by (auto simp: as_strong_def)
    ultimately show ?case using r as_strong_total [of r x] by (metis list.set_intros set_ConsD)
  qed (simp add: as_strong_def)
  moreover assume "ms \<noteq> []"
  ultimately show ?thesis by (force simp: strongest_def filter_empty_conv list_all_iff)
qed

lemma evaluate_tiers_spec:
  assumes "list_all rule_ok rules"
  shows "evaluate_tiers ts rules p = policy_spec ts rules p"
proof (induction ts)
  case (Cons t ts)
  let ?ms = "tier_matches rules p t"
  have ok: "list_all rule_ok ?ms" using assms by (auto simp: list_all_iff tier_matches_def)
  show ?case
  proof (cases "min_by f64_total_cmp (map r_priority ?ms)")
    case None
    then have "?ms = []" by (cases ?ms) auto
    then show ?thesis using Cons.IH
      by (simp add: policy_spec_def settles_def strongest_def tier_matches_def)
  next
    case (Some priority)
    let ?ps = "filter (\<lambda>r. f64_eq (r_priority r) priority) ?ms"
    from peers_nonempty [OF ok Some] obtain rank where rank: "max_by pair_cmp (map verdict_rank ?ps) = Some rank"
      by (cases ?ps) auto
    note ws = winners_strongest [OF ok Some refl rank]
    have "strongest ?ms \<noteq> []" using Some by (intro strongest_nonempty) auto
    then obtain w ws' where w: "strongest ?ms = w # ws'" by (cases "strongest ?ms") auto
    show ?thesis
      using Some rank ws w Cons.IH
      by (simp add: Let_def policy_spec_def settles_def flip: tier_matches_def split: verdict.splits)
  qed
qed (simp add: policy_spec_def)

text \<open>The outcome of a tier depends on the set of its matching rules only.\<close>

lemma strongest_set: "set xs = set ys \<Longrightarrow> set (strongest xs) = set (strongest ys)"
  by (auto simp: strongest_def list_all_iff)

lemma strongest_verdict: "a \<in> set (strongest ms) \<Longrightarrow> b \<in> set (strongest ms) \<Longrightarrow> r_verdict a = r_verdict b"
proof (rule rank_number_verdict)
  assume "a \<in> set (strongest ms)" and "b \<in> set (strongest ms)"
  then have "as_strong a b" "as_strong b a" by (auto simp: strongest_def list_all_iff)
  then show "rank_number a = rank_number b" by (auto simp: as_strong_def)
qed

lemma bs_of_list_cong: "set xs = set ys \<Longrightarrow> bs_of_list xs = bs_of_list ys"
  by (metis bs_of_list_ok bs_of_list_set strict_sorted_equal)

lemma strongest_cong:
  assumes "set xs = set ys"
  shows "settles (strongest xs) = settles (strongest ys)"
    and "settles (strongest ys) \<Longrightarrow> r_verdict (hd (strongest xs)) = r_verdict (hd (strongest ys))"
    and "bs_of_list (map r_proxy_port (strongest xs)) = bs_of_list (map r_proxy_port (strongest ys))"
proof -
  note eq = strongest_set [OF assms]
  then have e: "strongest xs = [] \<longleftrightarrow> strongest ys = []" by (metis set_empty)
  have v: "r_verdict (hd (strongest xs)) = r_verdict (hd (strongest ys))" if "strongest ys \<noteq> []"
  proof (rule strongest_verdict [of _ ys])
    show "hd (strongest xs) \<in> set (strongest ys)" using that e eq by (metis hd_in_set)
    show "hd (strongest ys) \<in> set (strongest ys)" using that by (rule hd_in_set)
  qed
  then show "settles (strongest ys) \<Longrightarrow> r_verdict (hd (strongest xs)) = r_verdict (hd (strongest ys))"
    by (simp add: settles_def)
  show "settles (strongest xs) = settles (strongest ys)" using v e by (auto simp: settles_def)
  show "bs_of_list (map r_proxy_port (strongest xs)) = bs_of_list (map r_proxy_port (strongest ys))"
    using eq by (intro bs_of_list_cong) simp
qed


section \<open>Concrete rules\<close>

definition lab_rule :: rule where
  "lab_rule = \<lparr>r_tier = Normal, r_priority = 0x3FF0000000000000, r_verdict = Allow, r_egress = False, r_peer = Any,
     r_protocol = 6, r_ports = \<lparr>pr_start = 80, pr_end = 90\<rparr>, r_authentication = None, r_proxy_port = 0,
     r_listener_priority = 0\<rparr>"

definition lab_rules :: "rule list" where
  "lab_rules = [lab_rule,
     lab_rule\<lparr>r_priority := 0x8000000000000000, r_peer := Identity 7, r_proxy_port := 15001, r_listener_priority := 5\<rparr>,
     lab_rule\<lparr>r_priority := 0, r_peer := Identity 7, r_proxy_port := 15002, r_listener_priority := 5\<rparr>,
     lab_rule\<lparr>r_tier := Admin, r_verdict := Pass, r_protocol := 0, r_ports := pr_any\<rparr>,
     lab_rule\<lparr>r_verdict := Deny, r_peer := Identity 9\<rparr>]"

definition lab_packet :: packet where
  "lab_packet = \<lparr>p_identity = 7, p_egress = False, p_protocol = 6, p_port = 85\<rparr>"

lemmas oracle_eval = lab_rule_def lab_rules_def lab_packet_def rule_ok_def rule_validate_def rule_matches_def
  f64_is_finite_def f64_exponent_def f64_negative_def f64_is_nan_def f64_is_zero_def f64_eq_def f64_total_cmp_def
  f64_total_key_def verdict_rank_def pr_is_any_def pr_any_def pr_contains_def pair_cmp_def then_with_def

lemma lab_rules_valid: "list_all rule_ok lab_rules"
  by (simp add: oracle_eval)

lemma lab_decision: "evaluate lab_rules lab_packet = Inr (AllowVia [15001, 15002])"
  by (simp add: evaluate_def validate_subject_def oracle_eval bs_of_list_def)


end
