(* ===== verification/MapState.thy ===== *)
theory MapState
  imports Oracle "HOL-Library.Option_ord" "HOL-Library.Product_Lexorder"
begin

text \<open>
  The compiled policy index, \<open>crates/flowsdn-policy/src/mapstate.rs\<close>: rules are grouped in buckets
  by identity, direction and protocol, each bucket cut into port intervals with one decision.
  The central result is that a lookup in the compiled index is the evaluation of the source rules.
\<close>

section \<open>State and operations\<close>

datatype bucket = Bucket (bk_identity: "u32 option") (bk_egress: bool) (bk_protocol: "u8 option")

fun bucket_key :: "bucket \<Rightarrow> u32 option \<times> bool \<times> u8 option" where
  "bucket_key (Bucket i e p) = (i, e, p)"

lemma bucket_key_inj: "bucket_key a = bucket_key b \<longleftrightarrow> a = b"
  by (cases a; cases b) simp

instantiation bucket :: linorder
begin

definition less_eq_bucket :: "bucket \<Rightarrow> bucket \<Rightarrow> bool" where
  "less_eq_bucket a b \<longleftrightarrow> bucket_key a \<le> bucket_key b"

definition less_bucket :: "bucket \<Rightarrow> bucket \<Rightarrow> bool" where
  "less_bucket a b \<longleftrightarrow> bucket_key a < bucket_key b"

instance
  by standard (auto simp: less_eq_bucket_def less_bucket_def simp flip: bucket_key_inj)

end

record interval =
  iv_first :: u16
  iv_last :: u16
  iv_decision :: decision

record map_state =
  ms_buckets :: "(bucket, interval list) btree_map"
  ms_identities :: "u32 btree_set"
  ms_protocols :: "u8 btree_set"

definition rank :: "rule \<Rightarrow> u16" where
  "rank r =
     (case r_verdict r of
        Deny \<Rightarrow> 255
      | Pass \<Rightarrow> 0
      | Allow \<Rightarrow>
          if r_proxy_port r = 0 then 1
          else if r_listener_priority r = 0 then 127
          else saturating_sub 255 (ucast (r_listener_priority r)))"

definition compare :: "rule \<Rightarrow> rule \<Rightarrow> ordering" where
  "compare l r =
     then_with
       (then_with (cmp (r_tier l) (r_tier r))
          (if f64_eq (r_priority l) (r_priority r) then Equal else f64_total_cmp (r_priority l) (r_priority r)))
       (cmp (rank r) (rank l))"

text \<open>The loop of \<open>decide\<close>: an early return is \<open>Inl\<close>, the end of the loop or a break \<open>Inr\<close>.\<close>

fun decide_loop :: "rule list \<Rightarrow> u16 \<Rightarrow> tier option \<Rightarrow> rule option \<Rightarrow> u16 btree_set \<Rightarrow>
    decision + (tier option \<times> rule option \<times> u16 btree_set)" where
  "decide_loop [] port passed winner proxy_ports = Inr (passed, winner, proxy_ports)"
| "decide_loop (r # rs) port passed winner proxy_ports =
     (let (first, last) = pr_bounds (r_ports r)
      in if port < first \<or> last < port \<or> passed = Some (r_tier r)
         then decide_loop rs port passed winner proxy_ports
         else case winner of
                Some chosen \<Rightarrow>
                  if compare chosen r \<noteq> Equal then Inr (passed, winner, proxy_ports)
                  else decide_loop rs port passed winner (bs_insert (r_proxy_port r) proxy_ports)
              | None \<Rightarrow>
                  (case r_verdict r of
                     Deny \<Rightarrow> Inl DenyAll
                   | Pass \<Rightarrow> decide_loop rs port (Some (r_tier r)) winner proxy_ports
                   | Allow \<Rightarrow> decide_loop rs port passed (Some r) (bs_insert (r_proxy_port r) proxy_ports)))"

definition decide :: "rule list \<Rightarrow> u16 \<Rightarrow> bool \<Rightarrow> decision" where
  "decide ordered port default_allow =
     (case decide_loop ordered port None None [] of
        Inl d \<Rightarrow> d
      | Inr (passed, winner, proxy_ports) \<Rightarrow>
          if winner \<noteq> None then AllowVia proxy_ports
          else if passed = None \<and> default_allow then AllowVia (bs_of_list [0])
          else DenyAll)"

definition candidates :: "rule list \<Rightarrow> u32 option \<Rightarrow> bool \<Rightarrow> u8 option \<Rightarrow> rule list" where
  "candidates rules identity egress protocol =
     sort_by (\<lambda>a b. compare a b \<noteq> Greater)
       (filter (\<lambda>r. r_egress r = egress \<and>
          (case r_peer r of Any \<Rightarrow> True | Identity i \<Rightarrow> identity = Some i) \<and>
          (r_protocol r = 0 \<or> protocol = Some (r_protocol r))) rules)"

definition port_edges :: "rule list \<Rightarrow> u32 btree_set" where
  "port_edges rs =
     fold (\<lambda>r edges. let (first, last) = pr_bounds (r_ports r)
        in bs_insert (saturating_add (ucast last) 1) (bs_insert (ucast first) edges)) rs (bs_of_list [0, 65536])"

definition push_interval :: "interval list \<Rightarrow> u16 \<Rightarrow> u16 \<Rightarrow> decision \<Rightarrow> interval list" where
  "push_interval ivs f l d =
     (if ivs \<noteq> [] \<and> iv_decision (last ivs) = d
      then butlast ivs @ [(last ivs)\<lparr>iv_last := l\<rparr>]
      else ivs @ [\<lparr>iv_first = f, iv_last = l, iv_decision = d\<rparr>])"

text \<open>The loop over \<open>edges.windows(2)\<close>.\<close>

fun build_intervals :: "rule list \<Rightarrow> bool \<Rightarrow> (u32 \<times> u32) list \<Rightarrow> interval list \<Rightarrow> policy_error + interval list" where
  "build_intervals cs default_allow [] ivs = Inr ivs"
| "build_intervals cs default_allow ((first, e) # ws) ivs =
     (case to_u16 first of
        None \<Rightarrow> Inl InvalidPortRange
      | Some f \<Rightarrow>
          (case to_u16 (saturating_sub e 1) of
             None \<Rightarrow> Inl InvalidPortRange
           | Some l \<Rightarrow> build_intervals cs default_allow ws (push_interval ivs f l (decide cs f default_allow))))"

definition bucket_intervals :: "rule list \<Rightarrow> bool \<Rightarrow> policy_error + interval list" where
  "bucket_intervals cs default_allow =
     (let edges = port_edges cs in build_intervals cs default_allow (zip edges (tl edges)) [])"

text \<open>The three nested loops, as one pass over the keys in the order the code visits them.\<close>

definition bucket_keys :: "u32 btree_set \<Rightarrow> u8 btree_set \<Rightarrow> bucket list" where
  "bucket_keys identities protocols =
     concat (map (\<lambda>identity. concat (map (\<lambda>egress. map (\<lambda>protocol. Bucket identity egress protocol)
       (None # map Some protocols)) [False, True])) (None # map Some identities))"

fun fill_buckets :: "rule list \<Rightarrow> bool \<Rightarrow> bucket list \<Rightarrow> (bucket, interval list) btree_map \<Rightarrow>
    policy_error + (bucket, interval list) btree_map" where
  "fill_buckets rules default_allow [] m = Inr m"
| "fill_buckets rules default_allow (k # ks) m =
     (case bucket_intervals (candidates rules (bk_identity k) (bk_egress k) (bk_protocol k)) default_allow of
        Inl e \<Rightarrow> Inl e
      | Inr ivs \<Rightarrow> fill_buckets rules default_allow ks (bt_insert k ivs m))"

definition rule_identities :: "rule list \<Rightarrow> u32 btree_set" where
  "rule_identities rules =
     bs_of_list (List.map_filter (\<lambda>r. case r_peer r of Any \<Rightarrow> None | Identity i \<Rightarrow> Some i) rules)"

definition rule_protocols :: "rule list \<Rightarrow> u8 btree_set" where
  "rule_protocols rules = bs_of_list (filter (\<lambda>p. p \<noteq> 0) (map r_protocol rules))"

definition compile_with_default :: "rule list \<Rightarrow> bool \<Rightarrow> policy_error + map_state" where
  "compile_with_default rules default_allow =
     (case validate_subject rules of
        Inl e \<Rightarrow> Inl e
      | Inr _ \<Rightarrow>
          if list_ex (\<lambda>r. r_authentication r \<noteq> None) rules then Inl OracleAuthenticationUnsupported
          else let identities = rule_identities rules; protocols = rule_protocols rules
               in case fill_buckets rules default_allow (bucket_keys identities protocols) [] of
                    Inl e \<Rightarrow> Inl e
                  | Inr buckets \<Rightarrow>
                      Inr \<lparr>ms_buckets = buckets, ms_identities = identities, ms_protocols = protocols\<rparr>)"

definition compile :: "rule list \<Rightarrow> policy_error + map_state" where
  "compile rules = compile_with_default rules False"

text \<open>\<open>slice::partition_point\<close>, on a slice the predicate partitions.\<close>

definition partition_point :: "('a \<Rightarrow> bool) \<Rightarrow> 'a list \<Rightarrow> nat" where
  "partition_point P xs = length (takeWhile P xs)"

definition ms_lookup :: "map_state \<Rightarrow> packet \<Rightarrow> decision" where
  "ms_lookup ms p =
     (case bt_get (ms_buckets ms)
             (Bucket (if p_identity p \<in> set (ms_identities ms) then Some (p_identity p) else None)
                (p_egress p)
                (if p_protocol p \<in> set (ms_protocols ms) then Some (p_protocol p) else None)) of
        None \<Rightarrow> DenyAll
      | Some ivs \<Rightarrow>
          let index = partition_point (\<lambda>iv. iv_last iv < p_port p) ivs
          in if index < length ivs \<and> iv_first (ivs ! index) \<le> p_port p then iv_decision (ivs ! index) else DenyAll)"

definition ms_replace :: "map_state \<Rightarrow> rule list \<Rightarrow> (policy_error + unit) \<times> map_state" where
  "ms_replace ms rules = (case compile rules of Inl e \<Rightarrow> (Inl e, ms) | Inr new \<Rightarrow> (Inr (), new))"

definition ms_interval_count :: "map_state \<Rightarrow> nat" where
  "ms_interval_count ms = sum_list (map length (bt_values (ms_buckets ms)))"

section \<open>The order of the candidates\<close>

definition strength_key :: "rule \<Rightarrow> nat \<times> nat \<times> nat" where
  "strength_key r = (tier_number (r_tier r), f64_level (r_priority r), 768 - rank_number r)"

text \<open>The ranks of the index and of the evaluation order the valid rules alike.\<close>

definition rank_code :: "nat \<Rightarrow> nat" where
  "rank_code n = (if n \<le> 256 then n div 256 else if n = 512 then 127 else if n = 768 then 255 else n - 512 + 128)"

definition rank_shape :: "nat \<Rightarrow> bool" where
  "rank_shape n \<longleftrightarrow> n = 0 \<or> n = 256 \<or> n = 512 \<or> n = 768 \<or> 513 \<le> n \<and> n \<le> 638"

lemma rank_code_mono: "rank_shape m \<Longrightarrow> rank_shape n \<Longrightarrow> rank_code m < rank_code n \<longleftrightarrow> m < n"
  unfolding rank_shape_def rank_code_def by (elim disjE) (simp_all, linarith+)

lemma rank_numbers:
  assumes "rule_ok r"
  shows "rank_shape (rank_number r)" and "unat (rank r) = rank_code (rank_number r)" and "rank_number r \<le> 768"
proof -
  have "r_listener_priority r \<le> 126" using assms rule_validate_ok(3) by (auto simp: rule_ok_def)
  then have l: "unat (r_listener_priority r) \<le> 126" by (simp add: word_le_nat_alt)
  show shape: "rank_shape (rank_number r)"
    using l unat_eq_0 [of "r_listener_priority r"]
    by (auto simp: rank_shape_def rank_number_def verdict_rank_def unat_saturating_sub split: verdict.splits)
  then show "rank_number r \<le> 768" by (auto simp: rank_shape_def)
  show "unat (rank r) = rank_code (rank_number r)"
    using l unat_eq_0 [of "r_listener_priority r"]
    by (auto simp: rank_code_def rank_def rank_number_def verdict_rank_def unat_saturating_sub split: verdict.splits)
qed

lemma compare_key:
  assumes "rule_ok a" and "rule_ok b"
  shows "compare a b = cmp (strength_key a) (strength_key b)"
proof -
  have p: "priority_ok (r_priority a)" "priority_ok (r_priority b)"
    using assms rule_validate_ok(1) by (auto simp: rule_ok_def)
  have rank: "cmp (rank b) (rank a) = cmp (768 - rank_number a) (768 - rank_number b)"
  proof -
    note na = rank_numbers [OF assms(1)] and nb = rank_numbers [OF assms(2)]
    have "rank b < rank a \<longleftrightarrow> rank_number b < rank_number a" "rank a < rank b \<longleftrightarrow> rank_number a < rank_number b"
      using rank_code_mono na nb by (simp_all add: word_less_nat_alt)
    then show ?thesis using na(3) nb(3) unfolding cmp_def by simp linarith
  qed
  have prio: "(if f64_eq (r_priority a) (r_priority b) then Equal else f64_total_cmp (r_priority a) (r_priority b)) =
      cmp (f64_level (r_priority a)) (f64_level (r_priority b))"
    using f64_eq_level [OF p] f64_total_cmp_level(2) [OF p] by (auto simp: cmp_def)
  show ?thesis
    unfolding compare_def rank prio
    by (auto simp: then_with_def cmp_def strength_key_def less_tier_def tier_number_inj split: ordering.splits if_splits)
qed

lemma as_strong_key:
  assumes "rule_ok a" and "rule_ok b" and "r_tier a = r_tier b"
  shows "as_strong a b \<longleftrightarrow> strength_key a \<le> strength_key b"
  using rank_numbers(3) [OF assms(1)] rank_numbers(3) [OF assms(2)] assms(3)
  by (auto simp: as_strong_def strength_key_def)

abbreviation ordered :: "rule list \<Rightarrow> bool" where
  "ordered \<equiv> sorted_wrt (\<lambda>a b. strength_key a \<le> strength_key b)"

lemma ordered_sort:
  assumes "list_all rule_ok rs"
  shows "ordered (sort_by (\<lambda>a b. compare a b \<noteq> Greater) rs)"
proof -
  have le: "compare a b \<noteq> Greater \<longleftrightarrow> strength_key a \<le> strength_key b" if "a \<in> set rs" "b \<in> set rs" for a b
    using assms that by (auto simp: list_all_iff compare_key not_less)
  then have "total_preorder_on (\<lambda>a b. compare a b \<noteq> Greater) (set rs)"
    using total_preorder_on_key by (rule total_preorder_on_cong)
  from sorted_sort_by [OF this] show ?thesis by (rule sorted_wrt_mono_rel [rotated]) (simp add: le)
qed

lemma strongest_ordered:
  assumes "ordered (r # rs)" and "list_all rule_ok (r # rs)" and "\<forall>x \<in> set rs. r_tier x = r_tier r"
  shows "strongest (r # rs) = filter (\<lambda>x. strength_key x = strength_key r) (r # rs)"
  unfolding strongest_def
proof (rule filter_cong [OF refl])
  fix x assume x: "x \<in> set (r # rs)"
  have "as_strong x y \<longleftrightarrow> strength_key x \<le> strength_key y" if "y \<in> set (r # rs)" for y
    using assms(2,3) x that by (intro as_strong_key) (auto simp: list_all_iff)
  then have "list_all (as_strong x) (r # rs) \<longleftrightarrow> (\<forall>y \<in> set (r # rs). strength_key x \<le> strength_key y)"
    by (simp add: list_all_iff)
  also have "\<dots> \<longleftrightarrow> strength_key x = strength_key r" using assms(1) x by (auto intro: order_antisym)
  finally show "list_all (as_strong x) (r # rs) \<longleftrightarrow> strength_key x = strength_key r" .
qed

section \<open>The decision of an ordered list\<close>

abbreviation port_in :: "u16 \<Rightarrow> rule \<Rightarrow> bool" where
  "port_in port r \<equiv> pr_contains (r_ports r) port"

lemma decide_loop_Cons:
  "decide_loop (r # rs) port passed winner ps =
     (if \<not> port_in port r \<or> passed = Some (r_tier r) then decide_loop rs port passed winner ps
      else case winner of
             Some c \<Rightarrow> if compare c r \<noteq> Equal then Inr (passed, winner, ps)
                        else decide_loop rs port passed winner (bs_insert (r_proxy_port r) ps)
           | None \<Rightarrow> (case r_verdict r of
                Deny \<Rightarrow> Inl DenyAll
              | Pass \<Rightarrow> decide_loop rs port (Some (r_tier r)) winner ps
              | Allow \<Rightarrow> decide_loop rs port passed (Some r) (bs_insert (r_proxy_port r) ps)))"
proof -
  have "port < pr_start (r_ports r) \<or> pr_end (r_ports r) < port \<or> passed = Some (r_tier r) \<longleftrightarrow>
      \<not> port_in port r \<or> passed = Some (r_tier r)" by (auto simp: pr_contains_def not_le)
  then show ?thesis by (simp only: decide_loop.simps pr_bounds_def Let_def prod.case)
qed

declare decide_loop.simps(2) [simp del]

lemma decide_loop_filter: "decide_loop rs port passed winner ps = decide_loop (filter (port_in port) rs) port passed winner ps"
  by (induction rs arbitrary: passed winner ps) (simp_all add: decide_loop_Cons split: option.split verdict.split)

lemma decide_loop_skip:
  "\<forall>r \<in> set rs. passed = Some (r_tier r) \<Longrightarrow> decide_loop (rs @ ys) port passed winner ps = decide_loop ys port passed winner ps"
  by (induction rs) (simp_all add: decide_loop_Cons)

lemma decide_loop_winner:
  assumes "ordered (c # rs)" and "list_all rule_ok (c # rs)" and "\<forall>r \<in> set rs. port_in port r \<and> passed \<noteq> Some (r_tier r)"
  shows "decide_loop rs port passed (Some c) ps =
    Inr (passed, Some c, fold bs_insert (map r_proxy_port (filter (\<lambda>r. strength_key r = strength_key c) rs)) ps)"
  using assms
proof (induction rs arbitrary: ps)
  case (Cons r rs)
  have eq: "compare c r = Equal \<longleftrightarrow> strength_key r = strength_key c"
    using Cons.prems(2) by (auto simp: compare_key)
  show ?case
  proof (cases "strength_key r = strength_key c")
    case True
    then show ?thesis using Cons eq by (simp add: decide_loop_Cons)
  next
    case False
    then have lt: "strength_key c < strength_key r" using Cons.prems(1) by (simp add: order_le_neq_trans)
    then have "filter (\<lambda>r. strength_key r = strength_key c) rs = []"
      using Cons.prems(1) by (fastforce simp: filter_empty_conv dest: order_less_le_trans)
    then show ?thesis using Cons.prems(3) False eq by (simp add: decide_loop_Cons)
  qed
qed simp

text \<open>The tiers of an ordered list, one after the other.\<close>

lemma ordered_split_tier:
  assumes "ordered rs" and "\<forall>r \<in> set rs. t \<le> r_tier r"
  shows "rs = filter (\<lambda>r. r_tier r = t) rs @ filter (\<lambda>r. r_tier r \<noteq> t) rs"
  using assms
proof (induction rs)
  case (Cons r rs)
  show ?case
  proof (cases "r_tier r = t")
    case False
    then have "tier_number t < tier_number (r_tier r)"
      using Cons.prems(2) tier_number_inj [of t "r_tier r"] by (auto simp: less_eq_tier_def order_le_less)
    then have "filter (\<lambda>r. r_tier r = t) rs = []"
      using Cons.prems(1) by (fastforce simp: filter_empty_conv strength_key_def)
    then show ?thesis using Cons False by simp
  qed (use Cons in simp)
qed simp

definition loop_result :: "bool \<Rightarrow> decision + (tier option \<times> rule option \<times> u16 btree_set) \<Rightarrow> decision" where
  "loop_result default_allow res =
     (case res of
        Inl d \<Rightarrow> d
      | Inr (passed, winner, proxy_ports) \<Rightarrow>
          if winner \<noteq> None then AllowVia proxy_ports
          else if passed = None \<and> default_allow then AllowVia (bs_of_list [0])
          else DenyAll)"

definition tier_decision :: "rule list \<Rightarrow> decision" where
  "tier_decision ws = (if r_verdict (hd ws) = Deny then DenyAll else AllowVia (bs_of_list (map r_proxy_port ws)))"

lemma find_member: "find P xs = Some x \<Longrightarrow> x \<in> set xs"
  by (auto simp: find_Some_iff)

lemma decide_loop_tiers:
  assumes "sorted_wrt (<) ts" and "\<forall>r \<in> set rs. r_tier r \<in> set ts" and "ordered rs" and "list_all rule_ok rs"
    and "\<forall>r \<in> set rs. port_in port r \<and> passed \<noteq> Some (r_tier r)"
  shows "loop_result d (decide_loop rs port passed None []) =
    (case find (\<lambda>t. settles (strongest (filter (\<lambda>r. r_tier r = t) rs))) ts of
       None \<Rightarrow> if passed = None \<and> rs = [] \<and> d then AllowVia (bs_of_list [0]) else DenyAll
     | Some t \<Rightarrow> tier_decision (strongest (filter (\<lambda>r. r_tier r = t) rs)))"
  using assms
proof (induction ts arbitrary: rs passed)
  case Nil
  then show ?case by (simp add: loop_result_def)
next
  case (Cons t ts)
  note prems = Cons.prems
  let ?B = "filter (\<lambda>r. r_tier r = t) rs" and ?R = "filter (\<lambda>r. r_tier r \<noteq> t) rs"
  have "\<forall>r \<in> set rs. t \<le> r_tier r" using Cons.prems(1,2) by (auto simp: less_imp_le)
  from ordered_split_tier [OF Cons.prems(3) this] have rs: "rs = ?B @ ?R" .
  have tier: "filter (\<lambda>r. r_tier r = u) ?R = filter (\<lambda>r. r_tier r = u) rs" if "u \<in> set ts" for u
    using that Cons.prems(1) by (auto simp: filter_filter intro: filter_cong)
  then have find: "find (\<lambda>t. settles (strongest (filter (\<lambda>r. r_tier r = t) ?R))) ts =
      find (\<lambda>t. settles (strongest (filter (\<lambda>r. r_tier r = t) rs))) ts"
    by (intro find_cong) auto
  have IH: "loop_result d (decide_loop ?R port q None []) =
    (case find (\<lambda>t. settles (strongest (filter (\<lambda>r. r_tier r = t) rs))) ts of
       None \<Rightarrow> if q = None \<and> ?R = [] \<and> d then AllowVia (bs_of_list [0]) else DenyAll
     | Some t \<Rightarrow> tier_decision (strongest (filter (\<lambda>r. r_tier r = t) rs)))"
    if "\<forall>r \<in> set ?R. q \<noteq> Some (r_tier r)" for q
  proof -
    have eq: "loop_result d (decide_loop ?R port q None []) =
      (case find (\<lambda>t. settles (strongest (filter (\<lambda>r. r_tier r = t) ?R))) ts of
         None \<Rightarrow> if q = None \<and> ?R = [] \<and> d then AllowVia (bs_of_list [0]) else DenyAll
       | Some t \<Rightarrow> tier_decision (strongest (filter (\<lambda>r. r_tier r = t) ?R)))"
      using Cons.prems that by (intro Cons.IH) (auto simp: sorted_wrt_filter list_all_iff)
    show ?thesis
    proof (cases "find (\<lambda>t. settles (strongest (filter (\<lambda>r. r_tier r = t) rs))) ts")
      case None
      then show ?thesis unfolding eq find by (simp del: filter_filter)
    next
      case (Some u)
      then show ?thesis unfolding eq find by (simp add: tier [OF find_member [OF Some]] del: filter_filter)
    qed
  qed
  show ?case
  proof (cases ?B)
    case Nil
    then have R: "?R = rs" using rs by simp
    have "\<not> settles (strongest ?B)" unfolding Nil by (simp add: settles_def strongest_def)
    with IH [of passed, unfolded R] prems(5) show ?thesis by simp
  next
    case (Cons r B)
    have "ordered ?B" "list_all rule_ok ?B" using prems(3,4) by (simp_all add: sorted_wrt_filter list_all_iff)
    moreover have "\<forall>x \<in> set ?B. r_tier x = t \<and> port_in port x \<and> passed \<noteq> Some t" using prems(5) by auto
    ultimately have B: "ordered (r # B)" "list_all rule_ok (r # B)" "\<forall>x \<in> set B. r_tier x = r_tier r"
      "r_tier r = t" "port_in port r" "passed \<noteq> Some t" unfolding Cons by auto
    note str = strongest_ordered [OF B(1-3)]
    have rs': "rs = r # B @ ?R" using rs unfolding Cons by simp
    have step: "decide_loop rs port passed None [] = (case r_verdict r of
        Deny \<Rightarrow> Inl DenyAll
      | Pass \<Rightarrow> decide_loop (B @ ?R) port (Some t) None []
      | Allow \<Rightarrow> decide_loop (B @ ?R) port passed (Some r) [r_proxy_port r])"
      by (subst rs') (simp add: decide_loop_Cons B split: verdict.split)
    show ?thesis
    proof (cases "r_verdict r")
      case Allow
      have "decide_loop (B @ ?R) port passed (Some r) [r_proxy_port r] = Inr (passed, Some r,
          fold bs_insert (map r_proxy_port (filter (\<lambda>x. strength_key x = strength_key r) (B @ ?R))) [r_proxy_port r])"
        using prems(3-5) rs' by (intro decide_loop_winner) (metis list.set_intros(2))+
      moreover have "filter (\<lambda>x. strength_key x = strength_key r) ?R = []"
        using B(4) by (auto simp: filter_empty_conv strength_key_def tier_number_inj)
      ultimately show ?thesis
        unfolding step using Allow
        by (simp add: Cons settles_def str loop_result_def tier_decision_def bs_of_list_def)
    next
      case Deny
      then show ?thesis unfolding step by (simp add: Cons settles_def str loop_result_def tier_decision_def)
    next
      case Pass
      have "decide_loop (B @ ?R) port (Some t) None [] = decide_loop ?R port (Some t) None []"
        using B(3,4) by (intro decide_loop_skip) simp
      moreover have "\<not> settles (strongest ?B)" unfolding Cons str using Pass by (simp add: settles_def)
      moreover have "rs \<noteq> []" using rs' by force
      moreover have "\<forall>x \<in> set ?R. Some t \<noteq> Some (r_tier x)" by auto
      note IH [OF this]
      ultimately show ?thesis unfolding step using Pass by simp
    qed
  qed
qed

abbreviation all_tiers :: "tier list" where
  "all_tiers \<equiv> [Admin, Normal, Baseline, Default]"

definition policy_spec_default :: "bool \<Rightarrow> rule list \<Rightarrow> packet \<Rightarrow> decision" where
  "policy_spec_default default_allow rules p =
     (if default_allow \<and> \<not> list_ex (\<lambda>r. rule_matches r p) rules then AllowVia (bs_of_list [0])
      else policy_spec all_tiers rules p)"

lemma decide_ordered:
  assumes "ordered rs" and "list_all rule_ok rs"
  shows "decide rs port d =
    (case find (\<lambda>t. settles (strongest (filter (\<lambda>r. r_tier r = t \<and> port_in port r) rs))) all_tiers of
       None \<Rightarrow> if filter (port_in port) rs = [] \<and> d then AllowVia (bs_of_list [0]) else DenyAll
     | Some t \<Rightarrow> tier_decision (strongest (filter (\<lambda>r. r_tier r = t \<and> port_in port r) rs)))"
proof -
  let ?rs = "filter (port_in port) rs"
  have "decide rs port d = loop_result d (decide_loop ?rs port None None [])"
    by (subst decide_loop_filter [symmetric]) (simp add: decide_def loop_result_def)
  also have "\<dots> = (case find (\<lambda>t. settles (strongest (filter (\<lambda>r. r_tier r = t) ?rs))) all_tiers of
       None \<Rightarrow> if None = (None :: tier option) \<and> ?rs = [] \<and> d then AllowVia (bs_of_list [0]) else DenyAll
     | Some t \<Rightarrow> tier_decision (strongest (filter (\<lambda>r. r_tier r = t) ?rs)))"
  proof (rule decide_loop_tiers)
    show "sorted_wrt (<) all_tiers" by (simp add: less_tier_def)
    show "\<forall>r \<in> set ?rs. r_tier r \<in> set all_tiers" using tier.exhaust by auto
  qed (use assms in \<open>auto simp: sorted_wrt_filter list_all_iff\<close>)
  finally show ?thesis by (simp add: conj_commute)
qed

lemma candidates_ok:
  assumes "list_all rule_ok rules"
  shows "ordered (candidates rules i e q)" and "list_all rule_ok (candidates rules i e q)"
  using assms by (auto simp: candidates_def list_all_iff intro!: ordered_sort)

lemma decide_candidates:
  assumes ok: "list_all rule_ok rules"
    and i: "i = (if p_identity p \<in> set (rule_identities rules) then Some (p_identity p) else None)"
    and q: "q = (if p_protocol p \<in> set (rule_protocols rules) then Some (p_protocol p) else None)"
  shows "decide (candidates rules i (p_egress p) q) (p_port p) d = policy_spec_default d rules p"
proof -
  let ?cs = "candidates rules i (p_egress p) q"
  have ids: "p_identity p \<in> set (rule_identities rules) \<longleftrightarrow> (\<exists>r \<in> set rules. r_peer r = Identity (p_identity p))"
    by (auto simp: rule_identities_def map_filter_def split: peer.splits) force
  have m: "r \<in> set ?cs \<and> port_in (p_port p) r \<longleftrightarrow> r \<in> set rules \<and> rule_matches r p" for r
  proof (cases "r \<in> set rules")
    case True
    have "(case r_peer r of Any \<Rightarrow> True | Identity j \<Rightarrow> i = Some j) \<longleftrightarrow>
        r_peer r = Any \<or> r_peer r = Identity (p_identity p)"
      using True i ids by (auto split: peer.splits)
    moreover have "r_protocol r = 0 \<or> q = Some (r_protocol r) \<longleftrightarrow> r_protocol r = 0 \<or> r_protocol r = p_protocol p"
      using q imageI [OF True, of r_protocol] by (auto simp: rule_protocols_def)
    ultimately show ?thesis using True by (auto simp: candidates_def rule_matches_def)
  qed (simp add: candidates_def)
  have tiers: "set (filter (\<lambda>r. r_tier r = t \<and> port_in (p_port p) r) ?cs) = set (tier_matches rules p t)" for t
    using m by (auto simp: tier_matches_def)
  note cong = strongest_cong [OF tiers]
  have "filter (port_in (p_port p)) ?cs = [] \<longleftrightarrow> \<not> list_ex (\<lambda>r. rule_matches r p) rules"
    using m by (auto simp: filter_empty_conv list_ex_iff)
  then have "decide ?cs (p_port p) d =
    (case find (\<lambda>t. settles (strongest (tier_matches rules p t))) all_tiers of
       None \<Rightarrow> if \<not> list_ex (\<lambda>r. rule_matches r p) rules \<and> d then AllowVia (bs_of_list [0]) else DenyAll
     | Some t \<Rightarrow> tier_decision (strongest (filter (\<lambda>r. r_tier r = t \<and> port_in (p_port p) r) ?cs)))"
    unfolding decide_ordered [OF candidates_ok [OF ok]] cong(1) by (simp only:)
  moreover have "tier_decision (strongest (filter (\<lambda>r. r_tier r = t \<and> port_in (p_port p) r) ?cs)) =
      tier_decision (strongest (tier_matches rules p t))" if "settles (strongest (tier_matches rules p t))" for t
    using cong(2) [OF that] cong(3) [of t] by (simp add: tier_decision_def)
  moreover have "\<not> list_ex (\<lambda>r. rule_matches r p) rules \<Longrightarrow> find (\<lambda>t. settles (strongest (tier_matches rules p t))) all_tiers = None"
    by (auto simp: find_None_iff tier_matches_def list_ex_iff settles_def strongest_def filter_empty_conv)
  ultimately show ?thesis
    by (auto simp: policy_spec_default_def policy_spec_def tier_decision_def Let_def find_Some_iff split: option.splits)
qed

section \<open>Port intervals\<close>

lemma decide_cong:
  assumes "\<forall>r \<in> set rs. port_in a r = port_in b r"
  shows "decide rs a d = decide rs b d"
proof -
  have "decide_loop rs a passed winner ps = decide_loop rs b passed winner ps" for passed winner ps
    using assms
    by (induction rs arbitrary: passed winner ps) (simp_all add: decide_loop_Cons split: option.split verdict.split)
  then show ?thesis by (simp add: decide_def)
qed

text \<open>Intervals that follow each other from \<open>a\<close> up to, not including, \<open>b\<close>.\<close>

fun tiling :: "nat \<Rightarrow> interval list \<Rightarrow> nat \<Rightarrow> bool" where
  "tiling a [] b \<longleftrightarrow> a = b"
| "tiling a (iv # ivs) b \<longleftrightarrow> unat (iv_first iv) = a \<and> a \<le> unat (iv_last iv) \<and> tiling (unat (iv_last iv) + 1) ivs b"

definition right_on :: "rule list \<Rightarrow> bool \<Rightarrow> interval list \<Rightarrow> bool" where
  "right_on cs d ivs \<longleftrightarrow> (\<forall>iv \<in> set ivs. \<forall>p. iv_first iv \<le> p \<and> p \<le> iv_last iv \<longrightarrow> iv_decision iv = decide cs p d)"

lemma tiling_append: "tiling a (xs @ ys) c \<longleftrightarrow> (\<exists>b. tiling a xs b \<and> tiling b ys c)"
  by (induction xs arbitrary: a) auto

lemma push_interval_tiling:
  assumes "tiling a ivs (unat f)" and "f \<le> l"
  shows "tiling a (push_interval ivs f l d) (unat l + 1)"
proof (cases "ivs \<noteq> [] \<and> iv_decision (last ivs) = d")
  case True
  then obtain xs iv where ivs: "ivs = xs @ [iv]" by (metis append_butlast_last_id)
  with assms True show ?thesis
    by (auto simp: push_interval_def tiling_append word_le_nat_alt)
next
  case False
  with assms show ?thesis by (auto simp: push_interval_def tiling_append word_le_nat_alt)
qed

lemma push_interval_right:
  assumes "tiling a ivs (unat f)" and "right_on cs dflt ivs"
    and "\<And>p. f \<le> p \<Longrightarrow> p \<le> l \<Longrightarrow> d = decide cs p dflt"
  shows "right_on cs dflt (push_interval ivs f l d)"
proof (cases "ivs \<noteq> [] \<and> iv_decision (last ivs) = d")
  case True
  then obtain xs iv where ivs: "ivs = xs @ [iv]" by (metis append_butlast_last_id)
  then have f: "unat f = unat (iv_last iv) + 1" using assms(1) by (auto simp: tiling_append)
  have "d = decide cs p dflt" if "iv_first iv \<le> p" "p \<le> l" for p
  proof (cases "p \<le> iv_last iv")
    case True
    then show ?thesis using assms(2) that(1) ivs \<open>ivs \<noteq> [] \<and> iv_decision (last ivs) = d\<close> by (simp add: right_on_def)
  next
    case False
    then have "f \<le> p" using f by (simp add: word_le_nat_alt)
    then show ?thesis using assms(3) that(2) by blast
  qed
  then show ?thesis using assms(2) True ivs by (auto simp: push_interval_def right_on_def)
next
  case False
  with assms(2,3) show ?thesis by (auto simp: push_interval_def right_on_def)
qed

lemma tiling_lookup:
  assumes "tiling a ivs b" and "a \<le> unat port" and "unat port < b"
  shows "let i = partition_point (\<lambda>iv. iv_last iv < port) ivs
    in i < length ivs \<and> iv_first (ivs ! i) \<le> port \<and> port \<le> iv_last (ivs ! i)"
  using assms
proof (induction ivs arbitrary: a)
  case (Cons iv ivs)
  show ?case
  proof (cases "iv_last iv < port")
    case True
    then have "unat (iv_last iv) + 1 \<le> unat port" by (simp add: word_less_nat_alt)
    then show ?thesis
      using Cons.IH [of "unat (iv_last iv) + 1"] Cons.prems True by (simp add: partition_point_def Let_def)
  next
    case False
    then have "partition_point (\<lambda>iv. iv_last iv < port) (iv # ivs) = 0" by (simp add: partition_point_def)
    with False Cons.prems show ?thesis by (simp add: Let_def word_le_nat_alt not_less)
  qed
qed simp

abbreviation range_edges :: "rule \<Rightarrow> u32 set" where
  "range_edges r \<equiv> {ucast (pr_start (r_ports r)), saturating_add (ucast (pr_end (r_ports r))) 1}"

lemma unat_range_end: "unat (saturating_add (ucast (e :: u16)) 1 :: u32) = unat e + 1"
  using unat_bound [of e] by (simp add: unat_saturating_add)

lemma window_constant:
  assumes "\<forall>b \<in> range_edges r. b \<le> x \<or> y \<le> b" and "unat x \<le> unat (p :: u16)" and "unat p < unat y"
    and "unat (f :: u16) = unat (x :: u32)"
  shows "port_in p r = port_in f r"
proof -
  have s: "unat (pr_start (r_ports r)) \<le> unat x \<or> unat y \<le> unat (pr_start (r_ports r))"
    and e: "unat (pr_end (r_ports r)) + 1 \<le> unat x \<or> unat y \<le> unat (pr_end (r_ports r)) + 1"
    using assms(1) unat_range_end [of "pr_end (r_ports r)"] by (auto simp: word_le_nat_alt)
  have "pr_start (r_ports r) \<le> p \<longleftrightarrow> pr_start (r_ports r) \<le> f" using s assms(2-4) by (simp add: word_le_nat_alt) linarith
  moreover have "p \<le> pr_end (r_ports r) \<longleftrightarrow> f \<le> pr_end (r_ports r)" using e assms(2-4) by (simp add: word_le_nat_alt) linarith
  ultimately show ?thesis by (simp add: pr_contains_def)
qed

lemma build_intervals_correct:
  assumes "sorted_wrt (<) (x # es)" and "last (x # es) = 65536"
    and "\<forall>r \<in> set cs. \<forall>b \<in> range_edges r. b \<le> x \<or> b \<in> set es"
    and "tiling 0 ivs (unat x)" and "right_on cs d ivs"
  shows "\<exists>ivs'. build_intervals cs d (zip (x # es) es) ivs = Inr ivs' \<and> tiling 0 ivs' 65536 \<and> right_on cs d ivs'"
  using assms
proof (induction es arbitrary: x ivs)
  case (Cons y es)
  have "y \<le> last (y # es)" using Cons.prems(1) by (cases es rule: rev_cases) (auto simp: less_imp_le sorted_wrt_append)
  then have y: "unat x < unat y" "unat y \<le> 65536" using Cons.prems(1,2) by (auto simp: word_less_nat_alt word_le_nat_alt)
  define f l where "f = (ucast x :: u16)" and "l = (ucast (saturating_sub y 1) :: u16)"
  have f: "to_u16 x = Some f" "unat f = unat x"
    using y by (auto simp: to_u16_def f_def word_le_nat_alt unsigned_ucast_eq take_bit_nat_eq_self)
  have l: "to_u16 (saturating_sub y 1) = Some l" "unat l + 1 = unat y"
    using y by (auto simp: to_u16_def l_def word_le_nat_alt unat_saturating_sub unsigned_ucast_eq take_bit_nat_eq_self)
  have edges: "b \<le> x \<or> y \<le> b" if "r \<in> set cs" "b \<in> range_edges r" for r b
    using Cons.prems(1,3) that by (fastforce simp: less_imp_le)
  have const: "decide cs f d = decide cs p d" if "f \<le> p" "p \<le> l" for p
    using that f(2) l(2) edges by (intro decide_cong ballI window_constant [of _ x y, symmetric]) (auto simp: word_le_nat_alt)
  let ?ivs = "push_interval ivs f l (decide cs f d)"
  have fl: "f \<le> l" using f(2) l(2) y(1) by (simp add: word_le_nat_alt)
  have "\<exists>ivs'. build_intervals cs d (zip (y # es) es) ?ivs = Inr ivs' \<and> tiling 0 ivs' 65536 \<and> right_on cs d ivs'"
  proof (rule Cons.IH)
    show "sorted_wrt (<) (y # es)" "last (y # es) = 65536" using Cons.prems(1,2) by simp_all
    show "\<forall>r \<in> set cs. \<forall>b \<in> range_edges r. b \<le> y \<or> b \<in> set es"
      using Cons.prems(1,3) by (auto simp: less_imp_le) 
    show "tiling 0 ?ivs (unat y)"
      using push_interval_tiling [of 0 ivs f l] Cons.prems(4) f(2) l(2) fl by simp
    show "right_on cs d ?ivs"
      using push_interval_right [of 0 ivs f cs d l] Cons.prems(4,5) f(2) const by simp
  qed
  then show ?case using f(1) l(1) by simp
qed (simp)

lemma port_edges_fold:
  assumes "bs_ok es"
  shows "bs_ok (fold (\<lambda>r edges. let (first, last) = pr_bounds (r_ports r)
        in bs_insert (saturating_add (ucast last) 1) (bs_insert (ucast first) edges)) rs es)"
    and "set (fold (\<lambda>r edges. let (first, last) = pr_bounds (r_ports r)
        in bs_insert (saturating_add (ucast last) 1) (bs_insert (ucast first) edges)) rs es) =
      set es \<union> (\<Union>r \<in> set rs. range_edges r)"
  using assms by (induction rs arbitrary: es) (auto simp: pr_bounds_def bs_ok_insert)

lemma bucket_intervals_correct:
  "\<exists>ivs. bucket_intervals cs d = Inr ivs \<and> tiling 0 ivs 65536 \<and> right_on cs d ivs"
proof -
  have es: "bs_ok (port_edges cs)" "set (port_edges cs) = {0, 65536} \<union> (\<Union>r \<in> set cs. range_edges r)"
    unfolding port_edges_def by (simp_all only: port_edges_fold bs_of_list_ok bs_of_list_set) simp
  have top: "b \<le> 65536" if "b \<in> set (port_edges cs)" for b
  proof -
    have "unat (saturating_add (ucast (e :: u16)) 1 :: u32) \<le> 65536" for e
      using unat_range_end [of e] unat_bound [of e] by simp
    moreover have "unat (ucast (s :: u16) :: u32) \<le> 65536" for s using unat_bound [of s] by simp
    ultimately show ?thesis using that es(2) by (auto simp: word_le_nat_alt)
  qed
  obtain x es' where x: "port_edges cs = x # es'" using es(2) by (cases "port_edges cs") auto
  have "0 \<in> set (x # es')" using es(2) x by auto
  then have "x = 0" using es(1) x by (auto simp: word_less_nat_alt)
  have "last (x # es') = 65536"
  proof -
    have mem: "65536 \<in> set (x # es')" using es(2) x by auto
    have greatest: "b \<le> last (x # es')" if "b \<in> set (x # es')" for b
      using es(1) x that by (cases "x # es'" rule: rev_cases) (auto simp: sorted_wrt_append less_imp_le)
    have "last (x # es') \<in> set (x # es')" by (rule last_in_set) simp
    then have "last (x # es') \<le> 65536" using top x by simp
    then show ?thesis using greatest [OF mem] by (rule order_antisym)
  qed
  moreover have "\<forall>r \<in> set cs. \<forall>b \<in> range_edges r. b \<le> x \<or> b \<in> set es'"
  proof (intro ballI)
    fix r b assume "r \<in> set cs" and "b \<in> range_edges r"
    then have "b \<in> set (port_edges cs)" unfolding es(2) by blast
    then have "b \<in> set (x # es')" unfolding x .
    then show "b \<le> x \<or> b \<in> set es'" by auto
  qed
  ultimately have "\<exists>ivs. build_intervals cs d (zip (x # es') es') [] = Inr ivs \<and> tiling 0 ivs 65536 \<and> right_on cs d ivs"
    using es(1) x \<open>x = 0\<close> by (intro build_intervals_correct) (simp_all add: right_on_def)
  then show ?thesis using x by (simp add: bucket_intervals_def Let_def)
qed

lemma fill_buckets_correct:
  "\<exists>m'. fill_buckets rules d ks m = Inr m' \<and>
    (\<forall>k. if k \<in> set ks
      then \<exists>ivs. bt_get m' k = Some ivs \<and>
        bucket_intervals (candidates rules (bk_identity k) (bk_egress k) (bk_protocol k)) d = Inr ivs
      else bt_get m' k = bt_get m k)"
proof (induction ks arbitrary: m)
  case (Cons k ks)
  obtain ivs where "bucket_intervals (candidates rules (bk_identity k) (bk_egress k) (bk_protocol k)) d = Inr ivs"
    using bucket_intervals_correct by blast
  with Cons.IH [of "bt_insert k ivs m"] show ?case by (fastforce split: if_splits)
qed simp

lemma bucket_keys_mem:
  "Bucket i e q \<in> set (bucket_keys ids ps) \<longleftrightarrow> (i = None \<or> the i \<in> set ids) \<and> (q = None \<or> the q \<in> set ps)"
  by (cases i; cases q; cases e) (auto simp: bucket_keys_def)

lemma compile_with_default_lookup:
  assumes "plain_rules rules"
  obtains ms where "compile_with_default rules d = Inr ms"
    and "\<And>p. ms_lookup ms p = policy_spec_default d rules p"
proof -
  have ok: "list_all rule_ok rules" and auth: "\<not> list_ex (\<lambda>r. r_authentication r \<noteq> None) rules"
    using assms by (auto simp: plain_rules_def)
  then have valid: "validate_subject rules = Inr ()" using validate_subject_ok by blast
  let ?ks = "bucket_keys (rule_identities rules) (rule_protocols rules)"
  from fill_buckets_correct [of rules d ?ks "[]"] obtain m where m: "fill_buckets rules d ?ks [] = Inr m"
    and get: "\<And>k. k \<in> set ?ks \<Longrightarrow> \<exists>ivs. bt_get m k = Some ivs \<and>
      bucket_intervals (candidates rules (bk_identity k) (bk_egress k) (bk_protocol k)) d = Inr ivs" by force
  let ?ms = "\<lparr>ms_buckets = m, ms_identities = rule_identities rules, ms_protocols = rule_protocols rules\<rparr>"
  show thesis
  proof (rule that [of ?ms])
    show "compile_with_default rules d = Inr ?ms"
      using valid auth m by (simp add: compile_with_default_def Let_def)
    fix p :: packet
    define i q where "i = (if p_identity p \<in> set (rule_identities rules) then Some (p_identity p) else None)"
      and "q = (if p_protocol p \<in> set (rule_protocols rules) then Some (p_protocol p) else None)"
    then have "Bucket i (p_egress p) q \<in> set ?ks" by (simp add: bucket_keys_mem)
    from get [OF this] bucket_intervals_correct [of "candidates rules i (p_egress p) q" d]
    obtain ivs where ivs: "bt_get m (Bucket i (p_egress p) q) = Some ivs" "tiling 0 ivs 65536"
      "right_on (candidates rules i (p_egress p) q) d ivs" by auto
    let ?ix = "partition_point (\<lambda>iv. iv_last iv < p_port p) ivs"
    have "unat (p_port p) < 65536" using unat_bound [of "p_port p"] by simp
    then have ix: "?ix < length ivs" "iv_first (ivs ! ?ix) \<le> p_port p" "p_port p \<le> iv_last (ivs ! ?ix)"
      using tiling_lookup [OF ivs(2), of "p_port p"] by (simp_all add: Let_def)
    then have "iv_decision (ivs ! ?ix) = decide (candidates rules i (p_egress p) q) (p_port p) d"
      using ivs(3) nth_mem unfolding right_on_def by blast
    also have "\<dots> = policy_spec_default d rules p" by (rule decide_candidates [OF ok i_def q_def])
    finally show "ms_lookup ?ms p = policy_spec_default d rules p"
      using ivs(1) ix i_def q_def by (simp add: ms_lookup_def Let_def)
  qed
qed

lemma compile_lookup:
  assumes "plain_rules rules"
  shows "\<exists>ms. compile rules = Inr ms \<and> (\<forall>p. ms_lookup ms p = policy_spec all_tiers rules p)"
proof -
  from compile_with_default_lookup [OF assms, of False] obtain ms where
    "compile_with_default rules False = Inr ms" "\<And>p. ms_lookup ms p = policy_spec_default False rules p" by blast
  then show ?thesis by (simp add: compile_def policy_spec_default_def)
qed

lemma evaluate_plain: "plain_rules rules \<Longrightarrow> evaluate rules p = Inr (policy_spec all_tiers rules p)"
  unfolding evaluate_Inr by (simp add: plain_rules_def evaluate_tiers_spec del: evaluate_tiers.simps)

lemma compile_with_default_error:
  assumes "\<not> plain_rules rules"
  shows "\<exists>e. compile_with_default rules d = Inl e \<and> evaluate rules p = Inl e"
proof (cases "validate_subject rules")
  case (Inl e)
  then show ?thesis by (simp add: compile_with_default_def evaluate_def)
next
  case (Inr u)
  then have "list_ex (\<lambda>r. r_authentication r \<noteq> None) rules"
    using assms validate_subject_ok [of rules] by (simp add: plain_rules_def)
  then show ?thesis using Inr by (simp add: compile_with_default_def evaluate_def)
qed

text \<open>
  C1. The compiled index is equivalent to the evaluation of the source rules: compilation fails
  exactly when the evaluation does, with the same error, and otherwise every lookup returns the
  decision the evaluation returns.
\<close>

theorem compile_equivalent:
  "(case compile rules of Inl e \<Rightarrow> Inl e | Inr ms \<Rightarrow> Inr (ms_lookup ms p)) = evaluate rules p"
proof (cases "plain_rules rules")
  case True
  from compile_lookup [OF True] obtain ms where "compile rules = Inr ms" "ms_lookup ms p = policy_spec all_tiers rules p"
    by blast
  then show ?thesis using evaluate_plain [OF True] by simp
next
  case False
  from compile_with_default_error [OF this, of False p] show ?thesis by (auto simp: compile_def)
qed

section \<open>What any policy engine guarantees\<close>

text \<open>
  The interface the rest of the agent relies on: valid rules are decided as \<open>policy_spec\<close> says,
  others are refused. The evaluation and the compiled index are interpretations.
\<close>

locale policy_engine =
  fixes run :: "rule list \<Rightarrow> packet \<Rightarrow> policy_error + decision"
  assumes run_valid: "plain_rules rs \<Longrightarrow> run rs p = Inr (policy_spec all_tiers rs p)"
    and run_invalid: "\<not> plain_rules rs \<Longrightarrow> \<exists>e. run rs p = Inl e"
begin

lemma run_accepts: "(\<exists>d. run rs p = Inr d) \<longleftrightarrow> plain_rules rs"
  using run_valid [of rs p] run_invalid [of rs p] by (cases "plain_rules rs") auto

lemma run_same_matches:
  assumes "plain_rules rs" and "plain_rules rs'" and "\<And>r. rule_matches r p \<Longrightarrow> r \<in> set rs \<longleftrightarrow> r \<in> set rs'"
  shows "run rs p = run rs' p"
proof -
  have "set (tier_matches rs p t) = set (tier_matches rs' p t)" for t
    using assms(3) by (auto simp: tier_matches_def)
  note c = strongest_cong [OF this]
  have "policy_spec all_tiers rs p = policy_spec all_tiers rs' p"
    unfolding policy_spec_def c(1) using c(2,3) by (auto simp: Let_def find_Some_iff split: option.split)
  then show ?thesis using run_valid assms(1,2) by simp
qed

lemma run_order:
  assumes "set rs = set rs'" and "plain_rules rs"
  shows "run rs p = run rs' p"
  using assms by (intro run_same_matches) (simp_all add: plain_rules_def list_all_iff list_ex_iff)

lemma run_no_match: "plain_rules rs \<Longrightarrow> \<not> list_ex (\<lambda>r. rule_matches r p) rs \<Longrightarrow> run rs p = Inr DenyAll"
  using run_valid [of rs p] run_same_matches [of rs "[]" p] run_valid [of "[]" p]
  by (simp add: plain_rules_def list_ex_iff policy_spec_def tier_matches_def strongest_def settles_def)

end

interpretation oracle_engine: policy_engine evaluate
proof unfold_locales
  fix rs p
  show "plain_rules rs \<Longrightarrow> evaluate rs p = Inr (policy_spec all_tiers rs p)"
    by (rule evaluate_plain)
  show "\<not> plain_rules rs \<Longrightarrow> \<exists>e. evaluate rs p = Inl e"
    using compile_with_default_error by blast
qed

definition indexed :: "rule list \<Rightarrow> packet \<Rightarrow> policy_error + decision" where
  "indexed rules p = (case compile rules of Inl e \<Rightarrow> Inl e | Inr ms \<Rightarrow> Inr (ms_lookup ms p))"

interpretation index_engine: policy_engine indexed
proof unfold_locales
  fix rs p
  show "indexed rs p = Inr (policy_spec all_tiers rs p)" if "plain_rules rs"
    using compile_lookup [OF that] by (auto simp: indexed_def)
  show "\<exists>e. indexed rs p = Inl e" if "\<not> plain_rules rs"
    using compile_with_default_error [OF that, of False p] by (auto simp: indexed_def compile_def)
qed

text \<open>
  The order and repetition of rules do not matter to the compiled index, and without a
  matching rule it denies.
\<close>

theorem compile_order:
  assumes "set rules = set rules'" and "compile rules = Inr ms"
  shows "\<exists>ms'. compile rules' = Inr ms' \<and> ms_lookup ms' p = ms_lookup ms p \<and>
    (list_ex (\<lambda>r. rule_matches r p) rules \<or> ms_lookup ms p = DenyAll)"
proof -
  have run: "indexed rules p = Inr (ms_lookup ms p)" by (simp add: indexed_def assms(2))
  then have plain: "plain_rules rules" using index_engine.run_accepts by blast
  have "indexed rules' p = Inr (ms_lookup ms p)" using run index_engine.run_order [OF assms(1) plain, of p] by simp
  then show ?thesis
    using run index_engine.run_no_match [OF plain, of p] by (auto simp: indexed_def split: sum.splits)
qed


theorem compile_order_witness:
  "\<exists>ms ms'. compile lab_rules = Inr ms \<and> compile (rev lab_rules) = Inr ms' \<and>
     ms_lookup ms' lab_packet = ms_lookup ms lab_packet"
proof -
  have "plain_rules lab_rules"
    using lab_rules_valid by (simp add: plain_rules_def lab_rules_def lab_rule_def)
  then obtain ms where "compile lab_rules = Inr ms"
    using compile_lookup by blast
  then show ?thesis using compile_order [of lab_rules "rev lab_rules" ms lab_packet] by auto
qed

end
