(* ===== verification/LabelSelector.thy ===== *)
theory LabelSelector
  imports Prelude "HOL-Library.List_Lexorder" "HOL-Library.Char_ord"
begin

text \<open>
  Kubernetes label selectors, the type \<open>LabelSelector\<close> of \<open>crates/flowsdn-policy/src/k8s.rs\<close>:
  matching, conjunction and the rewriting of keys. Strings are lists of characters in byte order.
\<close>

section \<open>Selectors\<close>

type_synonym labels = "(string, string) btree_map"

datatype operator = In | NotIn | Exists | DoesNotExist

record requirement =
  rq_key :: string
  rq_operator :: operator
  rq_values :: "string btree_set"

record label_selector =
  ls_match_labels :: labels
  ls_match_expressions :: "requirement list"

definition ls_default :: label_selector where
  "ls_default = \<lparr>ls_match_labels = [], ls_match_expressions = []\<rparr>"

definition ls_is_empty :: "label_selector \<Rightarrow> bool" where
  "ls_is_empty s \<longleftrightarrow> ls_match_labels s = [] \<and> ls_match_expressions s = []"

definition ls_constrains :: "label_selector \<Rightarrow> string \<Rightarrow> bool" where
  "ls_constrains s key \<longleftrightarrow> bt_get (ls_match_labels s) key \<noteq> None \<or>
     list_ex (\<lambda>r. rq_key r = key) (ls_match_expressions s)"

text \<open>Collecting pairs into a map inserts them in turn.\<close>

definition bt_of_list :: "('k::linorder \<times> 'v) list \<Rightarrow> ('k, 'v) btree_map" where
  "bt_of_list kvs = fold (\<lambda>(k, v) m. bt_insert k v m) kvs []"

definition ls_rekey :: "label_selector \<Rightarrow> (string \<Rightarrow> string) \<Rightarrow> label_selector" where
  "ls_rekey s rename =
     \<lparr>ls_match_labels = bt_of_list (map (\<lambda>(k, v). (rename k, v)) (ls_match_labels s)),
      ls_match_expressions = map (\<lambda>r. r\<lparr>rq_key := rename (rq_key r)\<rparr>) (ls_match_expressions s)\<rparr>"

definition SOURCE :: string where
  "SOURCE = ''k8s''"

definition ls_sourced :: "label_selector \<Rightarrow> label_selector" where
  "ls_sourced s = ls_rekey s (\<lambda>k. SOURCE @ '':'' @ k)"

fun ls_and_labels :: "labels \<Rightarrow> label_selector \<Rightarrow> label_selector" where
  "ls_and_labels [] s = s"
| "ls_and_labels ((key, v) # kvs) s =
     (case bt_get (ls_match_labels s) key of
        Some existing \<Rightarrow>
          if existing \<noteq> v
          then ls_and_labels kvs (s\<lparr>ls_match_expressions := ls_match_expressions s @
                 [\<lparr>rq_key = key, rq_operator = In, rq_values = bs_of_list [v]\<rparr>]\<rparr>)
          else ls_and_labels kvs (s\<lparr>ls_match_labels := bt_insert key v (ls_match_labels s)\<rparr>)
      | None \<Rightarrow> ls_and_labels kvs (s\<lparr>ls_match_labels := bt_insert key v (ls_match_labels s)\<rparr>))"

definition ls_and :: "label_selector \<Rightarrow> label_selector \<Rightarrow> label_selector" where
  "ls_and s other =
     (let s' = ls_and_labels (ls_match_labels other) s
      in s'\<lparr>ls_match_expressions := ls_match_expressions s' @ ls_match_expressions other\<rparr>)"

definition rq_holds :: "labels \<Rightarrow> requirement \<Rightarrow> bool" where
  "rq_holds ls r =
     (let found = bt_get ls (rq_key r)
      in case rq_operator r of
           In \<Rightarrow> (case found of None \<Rightarrow> False | Some v \<Rightarrow> v \<in> set (rq_values r))
         | NotIn \<Rightarrow> (case found of None \<Rightarrow> True | Some v \<Rightarrow> v \<notin> set (rq_values r))
         | Exists \<Rightarrow> found \<noteq> None
         | DoesNotExist \<Rightarrow> found = None)"

definition ls_matches :: "label_selector \<Rightarrow> labels \<Rightarrow> bool" where
  "ls_matches s ls \<longleftrightarrow> list_all (\<lambda>(k, v). bt_get ls k = Some v) (ls_match_labels s) \<and>
     list_all (rq_holds ls) (ls_match_expressions s)"

text \<open>The cache key: requirements in order of their keys.\<close>

fun join :: "string \<Rightarrow> string list \<Rightarrow> string" where
  "join sep [] = []"
| "join sep [x] = x"
| "join sep (x # y # zs) = x @ sep @ join sep (y # zs)"

definition rq_text :: "requirement \<Rightarrow> string" where
  "rq_text r =
     (let vs = join '','' (rq_values r)
      in case rq_operator r of
           In \<Rightarrow> rq_key r @ '' in ('' @ vs @ '')''
         | NotIn \<Rightarrow> rq_key r @ '' notin ('' @ vs @ '')''
         | Exists \<Rightarrow> rq_key r
         | DoesNotExist \<Rightarrow> ''!'' @ rq_key r)"

definition pair_le :: "'a::linorder \<times> 'b::linorder \<Rightarrow> 'a \<times> 'b \<Rightarrow> bool" where
  "pair_le a b \<longleftrightarrow> fst a < fst b \<or> fst a = fst b \<and> snd a \<le> snd b"

definition ls_key :: "label_selector \<Rightarrow> string" where
  "ls_key s =
     (if ls_is_empty s then ''{}''
      else join '','' (map snd (sort_by pair_le
             (map (\<lambda>(k, v). (k, k @ ''='' @ v)) (ls_match_labels s) @
              map (\<lambda>r. (rq_key r, rq_text r)) (ls_match_expressions s)))))"

section \<open>Matching\<close>

lemma bt_ok_memb: "bt_ok m \<Longrightarrow> (k, v) \<in> set m \<longleftrightarrow> bt_get m k = Some v"
  by (simp add: bt_ok_distinct map_of_eq_Some_iff)

definition ls_ok :: "label_selector \<Rightarrow> bool" where
  "ls_ok s \<longleftrightarrow> bt_ok (ls_match_labels s)"

definition labels_hold :: "labels \<Rightarrow> labels \<Rightarrow> bool" where
  "labels_hold required ls \<longleftrightarrow> (\<forall>k v. bt_get required k = Some v \<longrightarrow> bt_get ls k = Some v)"

lemma ls_matches_alt:
  "ls_ok s \<Longrightarrow> ls_matches s ls \<longleftrightarrow> labels_hold (ls_match_labels s) ls \<and> list_all (rq_holds ls) (ls_match_expressions s)"
  by (auto simp: ls_matches_def ls_ok_def labels_hold_def list_all_iff bt_ok_memb)

lemma labels_hold_insert:
  "bt_get m k = None \<or> bt_get m k = Some v \<Longrightarrow>
    labels_hold (bt_insert k v m) ls \<longleftrightarrow> labels_hold m ls \<and> bt_get ls k = Some v"
  by (auto simp: labels_hold_def)

lemma ls_and_labels_matches:
  "ls_ok s \<Longrightarrow> ls_ok (ls_and_labels kvs s) \<and>
    (ls_matches (ls_and_labels kvs s) ls \<longleftrightarrow> ls_matches s ls \<and> list_all (\<lambda>(k, v). bt_get ls k = Some v) kvs)"
proof (induction kvs arbitrary: s)
  case (Cons kv kvs)
  obtain k v where kv: "kv = (k, v)" by force
  show ?case
  proof (cases "\<exists>w. bt_get (ls_match_labels s) k = Some w \<and> w \<noteq> v")
    case True
    then obtain w where w: "bt_get (ls_match_labels s) k = Some w" "w \<noteq> v" by blast
    let ?s = "s\<lparr>ls_match_expressions := ls_match_expressions s @ [\<lparr>rq_key = k, rq_operator = In, rq_values = bs_of_list [v]\<rparr>]\<rparr>"
    have ok: "ls_ok ?s" using Cons.prems by (simp add: ls_ok_def)
    have "ls_matches ?s ls \<longleftrightarrow> ls_matches s ls \<and> bt_get ls k = Some v"
      by (auto simp: ls_matches_def rq_holds_def Let_def split: option.splits)
    then show ?thesis using Cons.IH [OF ok] w kv by auto
  next
    case False
    let ?s = "s\<lparr>ls_match_labels := bt_insert k v (ls_match_labels s)\<rparr>"
    have ok: "ls_ok ?s" using Cons.prems by (simp add: ls_ok_def bt_ok_insert)
    have "bt_get (ls_match_labels s) k = None \<or> bt_get (ls_match_labels s) k = Some v"
      using False by (cases "bt_get (ls_match_labels s) k") auto
    then have "ls_matches ?s ls \<longleftrightarrow> ls_matches s ls \<and> bt_get ls k = Some v"
      using ls_matches_alt [OF ok] ls_matches_alt [OF Cons.prems] labels_hold_insert [of "ls_match_labels s" k v ls]
      by auto
    moreover have "ls_and_labels (kv # kvs) s = ls_and_labels kvs ?s"
      using False kv by (auto split: option.split)
    ultimately show ?thesis using Cons.IH [OF ok] kv by auto
  qed
qed simp

lemma ls_and_matches: "ls_ok a \<Longrightarrow> ls_matches (ls_and a b) ls \<longleftrightarrow> ls_matches a ls \<and> ls_matches b ls"
  using ls_and_labels_matches [of a "ls_match_labels b" ls] by (auto simp: ls_and_def Let_def ls_matches_def)

lemma ls_and_ok: "ls_ok a \<Longrightarrow> ls_ok (ls_and a b)"
  using ls_and_labels_matches [of a "ls_match_labels b"] by (simp add: ls_and_def Let_def ls_ok_def)

lemma bt_of_list_aux_ok: "bt_ok m \<Longrightarrow> bt_ok (fold (\<lambda>(k, v) m. bt_insert k v m) kvs m)"
proof (induction kvs arbitrary: m)
  case (Cons kv kvs)
  then show ?case by (cases kv) (simp add: bt_ok_insert)
qed simp

lemma bt_of_list_aux_get:
  "distinct (map fst kvs) \<Longrightarrow> bt_get (fold (\<lambda>(k, v) m. bt_insert k v m) kvs m) k =
    (case map_of kvs k of None \<Rightarrow> bt_get m k | Some v \<Rightarrow> Some v)"
proof (induction kvs arbitrary: m)
  case (Cons kv kvs)
  obtain a b where kv: "kv = (a, b)" by force
  with Cons.prems have "map_of kvs a = None" by (simp add: map_of_eq_None_iff)
  then show ?case using Cons.IH [of "bt_insert a b m"] Cons.prems kv by (simp split: option.split)
qed simp

lemma bt_of_list_ok [simp]: "bt_ok (bt_of_list kvs)"
  by (simp add: bt_of_list_def bt_of_list_aux_ok)

lemma bt_of_list_get: "distinct (map fst kvs) \<Longrightarrow> bt_get (bt_of_list kvs) k = map_of kvs k"
  by (simp add: bt_of_list_def bt_of_list_aux_get split: option.split)

lemma map_of_rekey: "inj f \<Longrightarrow> map_of (map (\<lambda>(k, v). (f k, v)) kvs) (f k) = map_of kvs k"
  by (induction kvs) (auto dest: injD)

lemma ls_rekey_matches:
  assumes "inj f" and "ls_ok s" and "\<And>k. bt_get ls' (f k) = bt_get ls k"
  shows "ls_ok (ls_rekey s f)" and "ls_matches (ls_rekey s f) ls' \<longleftrightarrow> ls_matches s ls"
proof -
  show ok: "ls_ok (ls_rekey s f)" by (simp add: ls_ok_def ls_rekey_def)
  let ?kvs = "map (\<lambda>(k, v). (f k, v)) (ls_match_labels s)"
  have "distinct (map fst ?kvs)"
  proof -
    have "map fst ?kvs = map f (map fst (ls_match_labels s))" by (simp add: case_prod_unfold)
    moreover have "distinct (map fst (ls_match_labels s))" using assms(2) by (simp add: ls_ok_def bt_ok_distinct)
    ultimately show ?thesis using assms(1) by (simp only: distinct_map) (blast intro: inj_on_subset)
  qed
  note get = bt_of_list_get [OF this]
  have "bt_get (bt_of_list ?kvs) k' = Some v \<longleftrightarrow> (\<exists>k. k' = f k \<and> bt_get (ls_match_labels s) k = Some v)" for k' v
  proof -
    have "map_of ?kvs k' = Some v \<Longrightarrow> \<exists>k. k' = f k" by (auto dest!: map_of_SomeD)
    then show ?thesis using map_of_rekey [OF assms(1), of "ls_match_labels s"] unfolding get by metis
  qed
  then have "labels_hold (bt_of_list ?kvs) ls' \<longleftrightarrow> labels_hold (ls_match_labels s) ls"
    unfolding labels_hold_def using assms(3) by (simp only:) metis
  moreover have "rq_holds ls' (r\<lparr>rq_key := f (rq_key r)\<rparr>) = rq_holds ls r" for r
    using assms(3) by (simp add: rq_holds_def Let_def split: operator.split option.split)
  ultimately show "ls_matches (ls_rekey s f) ls' \<longleftrightarrow> ls_matches s ls"
    unfolding ls_matches_alt [OF ok] ls_matches_alt [OF assms(2)]
    by (simp add: ls_rekey_def list_all_iff)
qed

text \<open>The identity labels of an endpoint: every key with the source prefix.\<close>

definition source_labels :: "labels \<Rightarrow> labels" where
  "source_labels ls = bt_of_list (map (\<lambda>(k, v). (SOURCE @ '':'' @ k, v)) ls)"

end
