(* ===== verification/Simulator.thy ===== *)
theory Simulator
  imports MapState LabelSelector
begin

text \<open>
  The subject and peer frontend, \<open>crates/flowsdn-policy/src/simulator.rs\<close>: direct evaluation of one
  flow over the selecting entries, and compilation of one subject over a snapshot of endpoints. The
  main result is that both give the same decision for every flow between the subject and an
  endpoint of the snapshot.
\<close>

section \<open>State and operations\<close>

datatype selector = SelNone | SelAny | SelLabels labels | SelKubernetes label_selector

record endpoint =
  ep_identity :: u32
  ep_labels :: labels
  ep_named_ports :: "(u8 \<times> string, u16) btree_map"

datatype port_spec = Numeric port_range | Named string

record entry =
  en_subject :: selector
  en_peers :: selector
  en_default_deny :: bool
  en_rule :: rule
  en_port :: port_spec

fun sel_matches :: "selector \<Rightarrow> endpoint \<Rightarrow> bool" where
  "sel_matches SelNone e = False"
| "sel_matches SelAny e = True"
| "sel_matches (SelLabels ls) e = list_all (\<lambda>(k, v). bt_get (ep_labels e) k = Some v) ls"
| "sel_matches (SelKubernetes s) e = ls_matches s (ep_labels e)"

definition resolve_port :: "entry \<Rightarrow> endpoint \<Rightarrow> policy_error + port_range option" where
  "resolve_port en dest =
     (case en_port en of
        Numeric rng \<Rightarrow> Inr (Some rng)
      | Named name \<Rightarrow>
          if \<not> (r_protocol (en_rule en) = 6 \<or> r_protocol (en_rule en) = 17) then Inl InvalidProtocol
          else (case bt_get (ep_named_ports dest) (r_protocol (en_rule en), name) of
                  None \<Rightarrow> Inr None
                | Some p \<Rightarrow>
                    if p = 0 then Inr None
                    else (case pr_from_api p None of Inl e \<Rightarrow> Inl e | Inr rng \<Rightarrow> Inr (Some rng))))"

definition selected_entries :: "entry list \<Rightarrow> endpoint \<Rightarrow> bool \<Rightarrow> entry list" where
  "selected_entries entries subject egress =
     filter (\<lambda>e. r_egress (en_rule e) = egress \<and> sel_matches (en_subject e) subject) entries"

text \<open>The loop of \<open>evaluate\<close> over the selected entries.\<close>

fun sim_matching :: "entry list \<Rightarrow> endpoint \<Rightarrow> endpoint \<Rightarrow> u8 \<Rightarrow> u16 \<Rightarrow> policy_error + rule list" where
  "sim_matching [] peer dest protocol port = Inr []"
| "sim_matching (en # es) peer dest protocol port =
     (if \<not> sel_matches (en_peers en) peer \<or> r_protocol (en_rule en) \<noteq> 0 \<and> r_protocol (en_rule en) \<noteq> protocol
      then sim_matching es peer dest protocol port
      else case resolve_port en dest of
             Inl e \<Rightarrow> Inl e
           | Inr None \<Rightarrow> sim_matching es peer dest protocol port
           | Inr (Some rng) \<Rightarrow>
               if \<not> pr_contains rng port then sim_matching es peer dest protocol port
               else map_sum id (\<lambda>rs. (en_rule en)\<lparr>r_peer := Any, r_ports := rng\<rparr> # rs)
                      (sim_matching es peer dest protocol port))"

definition sim_evaluate :: "entry list \<Rightarrow> endpoint \<Rightarrow> endpoint \<Rightarrow> bool \<Rightarrow> u8 \<Rightarrow> u16 \<Rightarrow> policy_error + decision" where
  "sim_evaluate entries source dest egress protocol port =
     (let (subject, peer) = (if egress then (source, dest) else (dest, source));
          selected = selected_entries entries subject egress
      in case validate_subject (map en_rule selected) of
           Inl e \<Rightarrow> Inl e
         | Inr _ \<Rightarrow>
             let default_deny = list_ex en_default_deny selected
             in case sim_matching selected peer dest protocol port of
                  Inl e \<Rightarrow> Inl e
                | Inr matching \<Rightarrow>
                    if matching = [] \<and> \<not> default_deny then Inr (AllowVia (bs_of_list [0]))
                    else evaluate matching
                           \<lparr>p_identity = ep_identity peer, p_egress = egress, p_protocol = protocol, p_port = port\<rparr>)"

record subject_map =
  sm_index :: map_state
  sm_egress :: bool

definition sm_lookup :: "subject_map \<Rightarrow> packet \<Rightarrow> decision" where
  "sm_lookup sm p = (if p_egress p \<noteq> sm_egress sm then DenyAll else ms_lookup (sm_index sm) p)"

text \<open>The inner loop of \<open>compile\<close> over the matching peers, and the outer one over the entries.\<close>

fun sim_peer_rules :: "entry \<Rightarrow> endpoint \<Rightarrow> bool \<Rightarrow> endpoint list \<Rightarrow> policy_error + rule list" where
  "sim_peer_rules en subject egress [] = Inr []"
| "sim_peer_rules en subject egress (peer # peers) =
     (case resolve_port en (if egress then peer else subject) of
        Inl e \<Rightarrow> Inl e
      | Inr None \<Rightarrow> sim_peer_rules en subject egress peers
      | Inr (Some port) \<Rightarrow>
          map_sum id (\<lambda>rs. (en_rule en)\<lparr>r_peer := Identity (ep_identity peer), r_ports := port\<rparr> # rs)
            (sim_peer_rules en subject egress peers))"

fun sim_rules :: "entry list \<Rightarrow> endpoint \<Rightarrow> endpoint list \<Rightarrow> bool \<Rightarrow> policy_error + rule list" where
  "sim_rules [] subject endpoints egress = Inr []"
| "sim_rules (en # es) subject endpoints egress =
     (case (en_peers en, en_port en) of
        (SelAny, Numeric p) \<Rightarrow>
          map_sum id (\<lambda>rs. (en_rule en)\<lparr>r_peer := Any, r_ports := p\<rparr> # rs) (sim_rules es subject endpoints egress)
      | _ \<Rightarrow>
          (case sim_peer_rules en subject egress (filter (sel_matches (en_peers en)) endpoints) of
             Inl e \<Rightarrow> Inl e
           | Inr rs \<Rightarrow> map_sum id (\<lambda>rs'. rs @ rs') (sim_rules es subject endpoints egress)))"

definition sim_compile :: "entry list \<Rightarrow> endpoint \<Rightarrow> endpoint list \<Rightarrow> bool \<Rightarrow> policy_error + subject_map" where
  "sim_compile entries subject endpoints egress =
     (if length (bs_of_list (map ep_identity endpoints)) \<noteq> length endpoints then Inl InvalidName
      else let selected = selected_entries entries subject egress
           in case validate_subject (map en_rule selected) of
                Inl e \<Rightarrow> Inl e
              | Inr _ \<Rightarrow>
                  (case sim_rules selected subject endpoints egress of
                     Inl e \<Rightarrow> Inl e
                   | Inr rules \<Rightarrow>
                       (case compile_with_default rules (\<not> list_ex en_default_deny selected) of
                          Inl e \<Rightarrow> Inl e
                        | Inr index \<Rightarrow> Inr \<lparr>sm_index = index, sm_egress = egress\<rparr>)))"

section \<open>Erasing the peer\<close>

definition erase :: "rule \<Rightarrow> rule" where
  "erase r = r\<lparr>r_peer := Any\<rparr>"

lemma erase_simps [simp]:
  "r_tier (erase r) = r_tier r" "r_priority (erase r) = r_priority r" "r_verdict (erase r) = r_verdict r"
  "r_proxy_port (erase r) = r_proxy_port r" "r_ports (erase r) = r_ports r" "r_protocol (erase r) = r_protocol r"
  "r_egress (erase r) = r_egress r" "r_peer (erase r) = Any" "r_authentication (erase r) = r_authentication r"
  "r_listener_priority (erase r) = r_listener_priority r"
  by (simp_all add: erase_def)

lemma erase_rank [simp]: "rank_number (erase r) = rank_number r"
  by (simp add: rank_number_def verdict_rank_def cong: verdict.case_cong)

lemma erase_as_strong [simp]: "as_strong (erase a) (erase b) = as_strong a b"
  by (simp add: as_strong_def)

lemma erase_ok [simp]: "rule_ok (erase r) = rule_ok r"
  by (simp only: rule_ok_def rule_validate_def erase_simps)

lemma strongest_erase: "strongest (map erase ms) = map erase (strongest ms)"
  by (simp add: strongest_def filter_map comp_def list_all_iff)

lemma policy_spec_erase:
  assumes "\<And>r. rule_matches r p \<Longrightarrow> r \<in> set ms \<Longrightarrow> \<exists>r' \<in> set rs. rule_matches r' p \<and> erase r' = erase r"
    and "\<And>r. rule_matches r p \<Longrightarrow> r \<in> set rs \<Longrightarrow> \<exists>r' \<in> set ms. rule_matches r' p \<and> erase r' = erase r"
  shows "policy_spec ts ms p = policy_spec ts rs p"
proof -
  have sub: "erase ` set (tier_matches as p t) \<subseteq> erase ` set (tier_matches bs p t)"
    if "\<And>r. rule_matches r p \<Longrightarrow> r \<in> set as \<Longrightarrow> \<exists>r' \<in> set bs. rule_matches r' p \<and> erase r' = erase r" for as bs t
  proof
    fix x assume "x \<in> erase ` set (tier_matches as p t)"
    then obtain r where r: "x = erase r" "r \<in> set as" "r_tier r = t" "rule_matches r p" by (auto simp: tier_matches_def)
    from that [OF r(4,2)] obtain r' where r': "r' \<in> set bs" "rule_matches r' p" "erase r' = erase r" by blast
    then have "r_tier r' = t" using r(3) by (metis erase_simps(1))
    then show "x \<in> erase ` set (tier_matches bs p t)" using r(1) r' by (force simp: tier_matches_def image_iff)
  qed
  have eq: "set (map erase (tier_matches ms p t)) = set (map erase (tier_matches rs p t))" for t
    unfolding set_map by (intro subset_antisym sub) (use assms in blast)+
  note c = strongest_cong [OF eq, unfolded strongest_erase]
  have set: "settles (map erase ws) = settles ws" for ws by (cases ws) (simp_all add: settles_def)
  have hd: "r_verdict (hd (map erase ws)) = r_verdict (hd ws)" if "settles ws" for ws
    using that by (cases ws) (simp_all add: settles_def)
  have pp: "map r_proxy_port (map erase ws) = map r_proxy_port ws" for ws by simp
  have same: "settles (strongest (tier_matches ms p t)) = settles (strongest (tier_matches rs p t))" for t
    using c(1) [of t] by (simp only: set)
  show ?thesis
  proof (cases "find (\<lambda>t. settles (strongest (tier_matches rs p t))) ts")
    case None
    then show ?thesis by (simp add: policy_spec_def same)
  next
    case (Some t)
    then have st: "settles (strongest (tier_matches rs p t))" by (auto simp: find_Some_iff)
    then have "r_verdict (hd (strongest (tier_matches ms p t))) = r_verdict (hd (strongest (tier_matches rs p t)))"
      using c(2) [of t] hd same set by metis
    then show ?thesis using Some c(3) [of t] unfolding pp by (simp add: policy_spec_def same)
  qed
qed

section \<open>The rules of both frontends\<close>

definition shortcut :: "entry \<Rightarrow> bool" where
  "shortcut en \<longleftrightarrow> (\<exists>p. en_peers en = SelAny \<and> en_port en = Numeric p)"

lemma sim_rules_Cons:
  "sim_rules (en # es) subject endpoints egress =
     (if shortcut en
      then map_sum id (\<lambda>rs. (en_rule en)\<lparr>r_peer := Any, r_ports := (case en_port en of Numeric p \<Rightarrow> p)\<rparr> # rs)
             (sim_rules es subject endpoints egress)
      else case sim_peer_rules en subject egress (filter (sel_matches (en_peers en)) endpoints) of
             Inl e \<Rightarrow> Inl e
           | Inr rs \<Rightarrow> map_sum id (\<lambda>rs'. rs @ rs') (sim_rules es subject endpoints egress))"
  by (auto simp: shortcut_def split: selector.split port_spec.split)

lemma map_sum_Inr: "map_sum id f x = Inr y \<longleftrightarrow> (\<exists>z. x = Inr z \<and> y = f z)"
  by (cases x) auto

definition flow_rule :: "endpoint \<Rightarrow> endpoint \<Rightarrow> u8 \<Rightarrow> u16 \<Rightarrow> entry \<Rightarrow> rule \<Rightarrow> bool" where
  "flow_rule peer dest protocol port en r \<longleftrightarrow> (\<exists>rng. sel_matches (en_peers en) peer \<and>
      (r_protocol (en_rule en) = 0 \<or> r_protocol (en_rule en) = protocol) \<and>
      resolve_port en dest = Inr (Some rng) \<and> pr_contains rng port \<and>
      r = (en_rule en)\<lparr>r_peer := Any, r_ports := rng\<rparr>)"

lemma sim_matching_set:
  "sim_matching es peer dest protocol port = Inr ms \<Longrightarrow>
    r \<in> set ms \<longleftrightarrow> (\<exists>en \<in> set es. flow_rule peer dest protocol port en r)"
proof (induction es arbitrary: ms)
  case (Cons en es)
  have "\<exists>z. sim_matching es peer dest protocol port = Inr z \<and>
      ((ms = z \<and> \<not> flow_rule peer dest protocol port en r) \<or>
       (\<exists>x. ms = x # z \<and> (flow_rule peer dest protocol port en r \<longleftrightarrow> r = x)))"
    using Cons.prems by (auto simp: flow_rule_def map_sum_Inr split: if_splits sum.splits option.splits)
  then show ?case using Cons.IH by auto
qed simp

lemma sim_matching_Inr:
  "\<forall>en \<in> set es. sel_matches (en_peers en) peer \<longrightarrow> (\<exists>x. resolve_port en dest = Inr x) \<Longrightarrow>
    \<exists>ms. sim_matching es peer dest protocol port = Inr ms"
proof (induction es)
  case (Cons en es)
  then obtain ms where "sim_matching es peer dest protocol port = Inr ms" by auto
  with Cons.prems show ?case by (auto split: sum.splits option.splits)
qed simp

definition peer_rule :: "endpoint \<Rightarrow> bool \<Rightarrow> entry \<Rightarrow> endpoint \<Rightarrow> rule \<Rightarrow> bool" where
  "peer_rule subject egress en peer r \<longleftrightarrow>
     (\<exists>rng. resolve_port en (if egress then peer else subject) = Inr (Some rng) \<and>
      r = (en_rule en)\<lparr>r_peer := Identity (ep_identity peer), r_ports := rng\<rparr>)"

lemma sim_peer_rules_set:
  "sim_peer_rules en subject egress ps = Inr rs \<Longrightarrow>
    (r \<in> set rs \<longleftrightarrow> (\<exists>peer \<in> set ps. peer_rule subject egress en peer r)) \<and>
    (\<forall>peer \<in> set ps. \<exists>x. resolve_port en (if egress then peer else subject) = Inr x)"
proof (induction ps arbitrary: rs)
  case (Cons p ps)
  have "\<exists>z. sim_peer_rules en subject egress ps = Inr z \<and>
      (\<exists>x. resolve_port en (if egress then p else subject) = Inr x) \<and>
      ((rs = z \<and> \<not> peer_rule subject egress en p r) \<or>
       (\<exists>x. rs = x # z \<and> (peer_rule subject egress en p r \<longleftrightarrow> r = x)))"
    using Cons.prems unfolding peer_rule_def
    by (cases "resolve_port en (if egress then p else subject)") (auto simp: map_sum_Inr split: option.splits)
  then show ?case using Cons.IH by auto
qed simp

definition compiled_rule :: "endpoint \<Rightarrow> endpoint list \<Rightarrow> bool \<Rightarrow> entry \<Rightarrow> rule \<Rightarrow> bool" where
  "compiled_rule subject endpoints egress en r \<longleftrightarrow>
     (if shortcut en then r = (en_rule en)\<lparr>r_peer := Any, r_ports := (case en_port en of Numeric p \<Rightarrow> p)\<rparr>
      else \<exists>peer \<in> set endpoints. sel_matches (en_peers en) peer \<and> peer_rule subject egress en peer r)"

definition resolvable :: "endpoint \<Rightarrow> endpoint list \<Rightarrow> bool \<Rightarrow> entry \<Rightarrow> bool" where
  "resolvable subject endpoints egress en \<longleftrightarrow> (\<forall>peer \<in> set endpoints. sel_matches (en_peers en) peer \<longrightarrow>
      (\<exists>x. resolve_port en (if egress then peer else subject) = Inr x))"

lemma sim_rules_set:
  "sim_rules es subject endpoints egress = Inr rs \<Longrightarrow>
    (r \<in> set rs \<longleftrightarrow> (\<exists>en \<in> set es. compiled_rule subject endpoints egress en r)) \<and>
    (\<forall>en \<in> set es. resolvable subject endpoints egress en)"
proof (induction es arbitrary: rs)
  case (Cons en es)
  have "\<exists>ps qs. rs = ps @ qs \<and> sim_rules es subject endpoints egress = Inr qs \<and>
      (r \<in> set ps \<longleftrightarrow> compiled_rule subject endpoints egress en r) \<and> resolvable subject endpoints egress en"
  proof (cases "shortcut en")
    case True
    then have "\<exists>x. resolve_port en e = Inr x" for e by (auto simp: shortcut_def resolve_port_def)
    then have res: "resolvable subject endpoints egress en" by (simp add: resolvable_def)
    let ?r = "(en_rule en)\<lparr>r_peer := Any, r_ports := (case en_port en of Numeric p \<Rightarrow> p)\<rparr>"
    from Cons.prems True obtain qs where "sim_rules es subject endpoints egress = Inr qs" "rs = [?r] @ qs"
      by (auto simp: sim_rules_Cons map_sum_Inr simp del: sim_rules.simps)
    with True res show ?thesis by (intro exI [of _ "[?r]"] exI [of _ qs]) (simp add: compiled_rule_def)
  next
    case False
    then obtain ps qs where ps: "sim_peer_rules en subject egress (filter (sel_matches (en_peers en)) endpoints) = Inr ps"
      and qs: "sim_rules es subject endpoints egress = Inr qs" "rs = ps @ qs"
      using Cons.prems by (auto simp: sim_rules_Cons map_sum_Inr simp del: sim_rules.simps split: sum.splits)
    have "resolvable subject endpoints egress en" using sim_peer_rules_set [OF ps] by (simp add: resolvable_def)
    moreover have "r \<in> set ps \<longleftrightarrow> compiled_rule subject endpoints egress en r"
      using sim_peer_rules_set [OF ps, of r] False by (auto simp: compiled_rule_def)
    ultimately show ?thesis using qs by blast
  qed
  then show ?case using Cons.IH by auto
qed simp

section \<open>Equivalence of the two frontends\<close>

abbreviation flow_packet :: "endpoint \<Rightarrow> bool \<Rightarrow> u8 \<Rightarrow> u16 \<Rightarrow> packet" where
  "flow_packet peer egress protocol port \<equiv>
     \<lparr>p_identity = ep_identity peer, p_egress = egress, p_protocol = protocol, p_port = port\<rparr>"

lemma rule_ok_peer: "rule_ok (r\<lparr>r_peer := a, r_ports := q\<rparr>) = rule_ok (r\<lparr>r_peer := b, r_ports := q\<rparr>)"
proof -
  have "erase (r\<lparr>r_peer := a, r_ports := q\<rparr>) = erase (r\<lparr>r_peer := b, r_ports := q\<rparr>)" by (simp add: erase_def)
  then show ?thesis by (metis erase_ok)
qed

lemma distinct_identities:
  assumes "length (bs_of_list (map ep_identity endpoints)) = length endpoints"
    and "a \<in> set endpoints" and "b \<in> set endpoints" and "ep_identity a = ep_identity b"
  shows "a = b"
proof -
  have "card (set (map ep_identity endpoints)) = length (map ep_identity endpoints)"
    using assms(1) bs_length [of "bs_of_list (map ep_identity endpoints)"] by simp
  then have "distinct (map ep_identity endpoints)" by (rule card_distinct)
  then show ?thesis using assms(2-4) by (auto simp: distinct_map inj_on_def)
qed

lemma frontends_same_rules:
  assumes rules: "sim_rules es subject endpoints egress = Inr rs"
    and ms: "sim_matching es peer (if egress then peer else subject) protocol port = Inr ms"
    and dist: "length (bs_of_list (map ep_identity endpoints)) = length endpoints"
    and peer: "peer \<in> set endpoints" and eg: "\<forall>en \<in> set es. r_egress (en_rule en) = egress"
  shows "r \<in> set ms \<Longrightarrow> rule_matches r (flow_packet peer egress protocol port) \<and>
      (\<exists>r' \<in> set rs. rule_matches r' (flow_packet peer egress protocol port) \<and> erase r' = r)"
    and "r \<in> set rs \<Longrightarrow> rule_matches r (flow_packet peer egress protocol port) \<Longrightarrow> erase r \<in> set ms"
proof -
  let ?dest = "if egress then peer else subject" and ?p = "flow_packet peer egress protocol port"
  note M = sim_matching_set [OF ms] and R = conjunct1 [OF sim_rules_set [OF rules]]
  {
    assume "r \<in> set ms"
    then obtain en rng where en: "en \<in> set es" "sel_matches (en_peers en) peer"
      "r_protocol (en_rule en) = 0 \<or> r_protocol (en_rule en) = protocol"
      "resolve_port en ?dest = Inr (Some rng)" "pr_contains rng port"
      and r: "r = (en_rule en)\<lparr>r_peer := Any, r_ports := rng\<rparr>" unfolding M flow_rule_def by blast
    have "rule_matches r ?p" using en eg r by (auto simp: rule_matches_def)
    moreover have "\<exists>r' \<in> set rs. rule_matches r' ?p \<and> erase r' = r"
    proof (cases "shortcut en")
      case True
      then have "rng = (case en_port en of Numeric p \<Rightarrow> p)" using en(4) by (auto simp: shortcut_def resolve_port_def)
      then have "r \<in> set rs" using en(1) True r unfolding R by (auto simp: compiled_rule_def)
      then show ?thesis using \<open>rule_matches r ?p\<close> r by (intro bexI [of _ r]) (simp_all add: erase_def)
    next
      case False
      let ?r = "(en_rule en)\<lparr>r_peer := Identity (ep_identity peer), r_ports := rng\<rparr>"
      have "?r \<in> set rs" unfolding R using en(1,2,4) False peer by (intro bexI [of _ en]) (auto simp: compiled_rule_def peer_rule_def)
      moreover have "rule_matches ?r ?p" using en eg by (auto simp: rule_matches_def)
      ultimately show ?thesis using r by (intro bexI [of _ ?r]) (simp_all add: erase_def)
    qed
    ultimately show "rule_matches r ?p \<and> (\<exists>r' \<in> set rs. rule_matches r' ?p \<and> erase r' = r)" by blast
  }
  assume r: "r \<in> set rs" "rule_matches r ?p"
  from r(1) obtain en where en: "en \<in> set es" and "compiled_rule subject endpoints egress en r" unfolding R by blast
  then consider (short) "shortcut en" "r = (en_rule en)\<lparr>r_peer := Any, r_ports := (case en_port en of Numeric p \<Rightarrow> p)\<rparr>"
    | (peer) e rng where "e \<in> set endpoints" "sel_matches (en_peers en) e"
        "resolve_port en (if egress then e else subject) = Inr (Some rng)"
        "r = (en_rule en)\<lparr>r_peer := Identity (ep_identity e), r_ports := rng\<rparr>" unfolding compiled_rule_def peer_rule_def
    by (cases "shortcut en") (simp_all only: if_True if_False, blast+)
  then show "erase r \<in> set ms"
  proof cases
    case short
    then have "resolve_port en ?dest = Inr (Some (r_ports r))" "sel_matches (en_peers en) peer"
      by (auto simp: shortcut_def resolve_port_def)
    then show ?thesis unfolding M flow_rule_def using en short r(2)
      by (intro bexI [of _ en] exI [of _ "r_ports r"]) (auto simp: rule_matches_def erase_def)
  next
    case peer
    have "e = peer" using peer(4) r(2) distinct_identities [OF dist peer(1) \<open>peer \<in> set endpoints\<close>]
      by (simp add: rule_matches_def)
    then show ?thesis unfolding M flow_rule_def using en peer r(2)
      by (intro bexI [of _ en] exI [of _ rng]) (auto simp: rule_matches_def erase_def)
  qed
qed

lemma plain_rules_erased:
  assumes "plain_rules rs" and "\<And>r. r \<in> set ms \<Longrightarrow> \<exists>r' \<in> set rs. erase r' = erase r"
  shows "plain_rules ms"
  unfolding plain_rules_def list_all_iff list_ex_iff
proof (intro conjI ballI notI)
  fix r assume "r \<in> set ms"
  from assms(2) [OF this] obtain r' where r': "r' \<in> set rs" "erase r' = erase r" by blast
  then show "rule_ok r" using assms(1) by (metis erase_ok list_all_iff plain_rules_def)
next
  assume "\<exists>r \<in> set ms. r_authentication r \<noteq> None"
  then obtain r where r: "r \<in> set ms" "r_authentication r \<noteq> None" by blast
  from assms(2) [OF r(1)] obtain r' where "r' \<in> set rs" "erase r' = erase r" by blast
  moreover from this r(2) have "r_authentication r' \<noteq> None" by (metis erase_simps(9))
  ultimately show False using assms(1) by (auto simp: plain_rules_def list_ex_iff)
qed

text \<open>
  C2. The two frontends agree: when a subject compiles over a snapshot of endpoints, the compiled
  map gives, for every flow between the subject and an endpoint of the snapshot, in either
  direction, the decision the direct evaluation of the entries gives, default allow included.
\<close>

theorem sim_compile_equivalent:
  assumes "sim_compile entries subject endpoints egress = Inr sm" and "peer \<in> set endpoints"
  shows "sim_evaluate entries (if egress then subject else peer) (if egress then peer else subject) egress protocol port =
    Inr (sm_lookup sm (flow_packet peer egress protocol port))"
proof -
  let ?es = "selected_entries entries subject egress" and ?p = "flow_packet peer egress protocol port"
  let ?dd = "list_ex en_default_deny ?es" and ?dest = "if egress then peer else subject"
  from assms(1) have dist: "length (bs_of_list (map ep_identity endpoints)) = length endpoints"
    by (auto simp: sim_compile_def split: if_splits)
  from assms(1) obtain rs ms where valid: "validate_subject (map en_rule ?es) = Inr ()"
    and rs: "sim_rules ?es subject endpoints egress = Inr rs"
    and index: "compile_with_default rs (\<not> ?dd) = Inr ms" and sm: "sm = \<lparr>sm_index = ms, sm_egress = egress\<rparr>"
    by (auto simp: sim_compile_def Let_def split: if_splits sum.splits)
  have plain: "plain_rules rs" using compile_with_default_error [of rs "\<not> ?dd"] index by force
  then have look: "ms_lookup ms ?p = policy_spec_default (\<not> ?dd) rs ?p"
    using compile_with_default_lookup [OF plain, of "\<not> ?dd"] index by (metis sum.inject(2))
  have "\<forall>en \<in> set ?es. sel_matches (en_peers en) peer \<longrightarrow> (\<exists>x. resolve_port en ?dest = Inr x)"
    using sim_rules_set [OF rs] assms(2) by (auto simp: resolvable_def)
  from sim_matching_Inr [OF this] obtain matching where
    matching: "sim_matching ?es peer ?dest protocol port = Inr matching" by blast
  have "\<forall>en \<in> set ?es. r_egress (en_rule en) = egress" by (simp add: selected_entries_def)
  note F = frontends_same_rules [OF rs matching dist assms(2) this]
  have spec: "policy_spec all_tiers matching ?p = policy_spec all_tiers rs ?p"
  proof (rule policy_spec_erase)
    fix r assume "rule_matches r ?p" and "r \<in> set matching"
    from F(1) [OF this(2)] obtain r' where r': "r' \<in> set rs" "rule_matches r' ?p" "erase r' = r" by blast
    have "erase r = r" using r'(3) by (auto simp: erase_def)
    then show "\<exists>r' \<in> set rs. rule_matches r' ?p \<and> erase r' = erase r" using r' by metis
  next
    fix r assume r: "rule_matches r ?p" "r \<in> set rs"
    have "erase (erase r) = erase r" by (simp add: erase_def)
    then show "\<exists>r' \<in> set matching. rule_matches r' ?p \<and> erase r' = erase r"
      using F(2) [OF r(2,1)] F(1) by blast
  qed
  have empty: "matching = [] \<longleftrightarrow> \<not> list_ex (\<lambda>r. rule_matches r ?p) rs"
    using F by (cases matching) (auto simp: list_ex_iff, blast+)
  have "plain_rules matching"
  proof (rule plain_rules_erased [OF plain])
    fix r assume "r \<in> set matching"
    from F(1) [OF this] obtain r' where r': "r' \<in> set rs" "erase r' = r" by blast
    moreover from this have "erase r = r" by (auto simp: erase_def)
    ultimately show "\<exists>r' \<in> set rs. erase r' = erase r" by metis
  qed
  then have "evaluate matching ?p = Inr (policy_spec all_tiers rs ?p)" using evaluate_plain spec by metis
  then show ?thesis
    using valid matching look sm empty
    by (cases egress) (auto simp: sim_evaluate_def Let_def sm_lookup_def policy_spec_default_def)
qed

section \<open>Seeds\<close>

text \<open>\<open>f64::from(u8)\<close>: exact, the exponent from the highest bit.\<close>

definition f64_of_u8 :: "u8 \<Rightarrow> f64" where
  "f64_of_u8 n =
     (if n = 0 then 0
      else let e = 7 - leading_zeros n
           in push_bit 52 (of_nat (1023 + e)) OR push_bit (52 - e) (ucast n AND mask e))"

definition seed_entry :: "u8 \<Rightarrow> u8 \<Rightarrow> policy_error + entry" where
  "seed_entry b priority =
     (let tier = (let t = priority AND 3 in if t = 0 then Admin else if t = 2 then Baseline else Normal);
          peers = (let k = b AND 3 in
             if k = 0 then SelAny
             else if k = 1 then SelLabels [(''name'', ''b'')]
             else if k = 2 then SelLabels [(''name'', ''c'')]
             else SelLabels [(''namespace'', ''default'')]);
          verdict = (let v = drop_bit 5 b AND 3 in if v = 0 then Allow else if v = 1 then Deny else Pass);
          k = drop_bit 2 b AND 7
      in map_sum id (\<lambda>ports.
           \<lparr>en_subject = SelLabels [(''name'', ''a'')], en_peers = peers, en_default_deny = True,
            en_rule = \<lparr>r_tier = tier, r_priority = f64_of_u8 (drop_bit 2 priority), r_verdict = verdict,
              r_egress = True, r_peer = Any, r_protocol = (if pr_is_any ports then 0 else 6), r_ports = ports,
              r_authentication = None, r_proxy_port = 0, r_listener_priority = 0\<rparr>,
            en_port = Numeric ports\<rparr>)
         (if k = 0 then Inr pr_any
          else if k = 1 then pr_from_api 4 (Some 7)
          else if k = 2 then pr_from_api 4 (Some 5)
          else if k = 3 then pr_from_api 6 (Some 7)
          else pr_from_api (ucast k) None))"

fun decode_seed :: "u8 list \<Rightarrow> policy_error + entry list" where
  "decode_seed (b # priority # bytes) =
     (case seed_entry b priority of
        Inl e \<Rightarrow> Inl e
      | Inr en \<Rightarrow> map_sum id (\<lambda>es. en # es) (decode_seed bytes))"
| "decode_seed _ = Inr []"

lemma seed_entry_ok: "\<exists>en. seed_entry b priority = Inr en"
  by (simp add: seed_entry_def Let_def pr_from_api_def)

lemma decode_seed_total: "\<exists>es. decode_seed bytes = Inr es \<and> length es = length bytes div 2"
proof (induction bytes rule: decode_seed.induct)
  case (1 b priority bytes)
  from seed_entry_ok [of b priority] obtain en where "seed_entry b priority = Inr en" by blast
  with 1 show ?case by auto
qed simp_all

section \<open>A concrete subject\<close>

definition lab_entry :: entry where
  "lab_entry = \<lparr>en_subject = SelAny, en_peers = SelLabels [(''app'', ''web'')], en_default_deny = True,
     en_rule = lab_rule, en_port = Named ''http''\<rparr>"

definition lab_subject :: endpoint where
  "lab_subject = \<lparr>ep_identity = 3, ep_labels = [], ep_named_ports = [((6, ''http''), 80)]\<rparr>"

definition lab_peer :: endpoint where
  "lab_peer = \<lparr>ep_identity = 7, ep_labels = [(''app'', ''web'')], ep_named_ports = []\<rparr>"

lemma lab_compile: "\<exists>sm. sim_compile [lab_entry] lab_subject [lab_peer] False = Inr sm"
proof -
  let ?r = "lab_rule\<lparr>r_peer := Identity 7, r_ports := \<lparr>pr_start = 80, pr_end = 80\<rparr>\<rparr>"
  have sel: "selected_entries [lab_entry] lab_subject False = [lab_entry]"
    by (simp add: selected_entries_def lab_entry_def lab_rule_def)
  have rules: "sim_rules [lab_entry] lab_subject [lab_peer] False = Inr [?r]"
    by (simp add: lab_entry_def lab_subject_def lab_peer_def resolve_port_def lab_rule_def pr_from_api_def)
  have valid: "validate_subject [lab_rule] = Inr ()"
    by (simp add: validate_subject_def oracle_eval)
  have "plain_rules [?r]" by (simp add: plain_rules_def oracle_eval)
  from compile_with_default_lookup [OF this, of False] obtain ms where "compile_with_default [?r] False = Inr ms" by blast
  then show ?thesis
    using sel rules valid
    by (simp add: sim_compile_def bs_of_list_def del: sim_rules.simps) (simp add: lab_entry_def)
qed

theorem sim_compile_equivalent_witness:
  "\<exists>sm. sim_compile [lab_entry] lab_subject [lab_peer] False = Inr sm \<and>
     sim_evaluate [lab_entry] lab_peer lab_subject False 6 80 = Inr (sm_lookup sm (flow_packet lab_peer False 6 80))"
proof -
  from lab_compile obtain sm where "sim_compile [lab_entry] lab_subject [lab_peer] False = Inr sm" by blast
  then show ?thesis using sim_compile_equivalent [of "[lab_entry]" lab_subject "[lab_peer]" False sm lab_peer 6 80] by simp
qed

end
