(* ===== verification/K8sPolicy.thy ===== *)
theory K8sPolicy
  imports Simulator
begin

text \<open>
  The Kubernetes NetworkPolicy importer, \<open>crates/flowsdn-policy/src/k8s.rs\<close>: parsing of label
  selectors, peers and ports, the translation to policy entries, and their lowering to the entries
  of the simulator. A JSON value has the variants of \<open>serde_json::Value\<close>; of a number only the
  result of \<open>as_u64\<close> is kept. Errors name the message and carry its subject.
\<close>

section \<open>JSON values and decimal numbers\<close>

datatype json =
    JNull
  | JBool bool
  | JNumber "u64 option"
  | JString string
  | JArray "json list"
  | JObject "(string \<times> json) list"

definition json_get :: "json \<Rightarrow> string \<Rightarrow> json option" where
  "json_get v key = (case v of JObject kvs \<Rightarrow> map_of kvs key | _ \<Rightarrow> None)"

definition json_str :: "json \<Rightarrow> string option" where
  "json_str v = (case v of JString s \<Rightarrow> Some s | _ \<Rightarrow> None)"

text \<open>\<open>value.get(key).filter(|v| !v.is_null())\<close>\<close>

definition present :: "json option \<Rightarrow> json option" where
  "present v = (case v of Some JNull \<Rightarrow> None | _ \<Rightarrow> v)"

definition get_str :: "json \<Rightarrow> string \<Rightarrow> string option" where
  "get_str v key = Option.bind (json_get v key) json_str"

text \<open>\<open>str::parse::<u16>\<close>: an optional plus sign, then digits, in range.\<close>

definition parse_u16 :: "string \<Rightarrow> u16 option" where
  "parse_u16 s =
     (let ds = (case s of c # cs \<Rightarrow> if c = CHR ''+'' then cs else s | [] \<Rightarrow> s)
      in if ds = [] \<or> \<not> list_all is_digit ds \<or> 65535 < digits_value ds then None
         else Some (of_nat (digits_value ds)))"

lemma plus_not_digit: "\<not> is_digit (CHR ''+'')"
  by (simp add: is_digit_def)

lemma parse_print_u16: "parse_u16 (print_nat (unat (p :: u16))) = Some p"
proof -
  note d = print_nat_digits [of "unat p"]
  obtain c cs where c: "print_nat (unat p) = c # cs" using d by (cases "print_nat (unat p)") auto
  then have "c \<noteq> CHR ''+''" using d plus_not_digit by auto
  moreover have "unat p \<le> 65535" using unat_bound [of p] by simp
  ultimately show ?thesis using d unfolding c by (simp add: parse_u16_def)
qed

section \<open>Parsing selectors\<close>

datatype import_error =
    SelectorNotObject
  | MatchLabelsNotObject
  | MatchLabelNotString string
  | ExpressionsNotList
  | ExpressionWithoutKey
  | UnknownOperator "string option"
  | ValuesNotList
  | ValuesNotStrings
  | ValuesMismatch string
  | NotList string
  | BlockWithoutCidr
  | ExceptNotStrings
  | UnsupportedProtocol string
  | InvalidPort json
  | InvalidEndPort json
  | WithoutMetadata
  | WithoutSpec
  | UnknownPolicyType "string option"

fun parse_labels :: "(string \<times> json) list \<Rightarrow> labels \<Rightarrow> import_error + labels" where
  "parse_labels [] m = Inr m"
| "parse_labels ((key, v) # kvs) m =
     (case json_str v of
        None \<Rightarrow> Inl (MatchLabelNotString key)
      | Some s \<Rightarrow> parse_labels kvs (bt_insert key s m))"

fun parse_values :: "json list \<Rightarrow> string btree_set \<Rightarrow> import_error + string btree_set" where
  "parse_values [] s = Inr s"
| "parse_values (item # items) s =
     (case json_str item of
        None \<Rightarrow> Inl ValuesNotStrings
      | Some x \<Rightarrow> parse_values items (bs_insert x s))"

definition parse_operator :: "string option \<Rightarrow> import_error + operator" where
  "parse_operator s =
     (if s = Some ''In'' then Inr In
      else if s = Some ''NotIn'' then Inr NotIn
      else if s = Some ''Exists'' then Inr Exists
      else if s = Some ''DoesNotExist'' then Inr DoesNotExist
      else Inl (UnknownOperator s))"

definition parse_requirement :: "json \<Rightarrow> import_error + requirement" where
  "parse_requirement expression =
     (case get_str expression ''key'' of
        None \<Rightarrow> Inl ExpressionWithoutKey
      | Some key \<Rightarrow>
          if key = [] then Inl ExpressionWithoutKey
          else case parse_operator (get_str expression ''operator'') of
                 Inl e \<Rightarrow> Inl e
               | Inr operator \<Rightarrow>
                   (case (case present (json_get expression ''values'') of
                            None \<Rightarrow> Inr []
                          | Some (JArray items) \<Rightarrow> parse_values items []
                          | Some _ \<Rightarrow> Inl ValuesNotList) of
                      Inl e \<Rightarrow> Inl e
                    | Inr vs \<Rightarrow>
                        if (operator = In \<or> operator = NotIn) = (vs = []) then Inl (ValuesMismatch key)
                        else Inr \<lparr>rq_key = key, rq_operator = operator, rq_values = vs\<rparr>))"

fun parse_requirements :: "json list \<Rightarrow> import_error + requirement list" where
  "parse_requirements [] = Inr []"
| "parse_requirements (x # xs) =
     (case parse_requirement x of
        Inl e \<Rightarrow> Inl e
      | Inr r \<Rightarrow> map_sum id (\<lambda>rs. r # rs) (parse_requirements xs))"

definition ls_parse :: "json option \<Rightarrow> import_error + label_selector" where
  "ls_parse v =
     (case present v of
        None \<Rightarrow> Inr ls_default
      | Some (JObject obj) \<Rightarrow>
          (case (case present (map_of obj ''matchLabels'') of
                   None \<Rightarrow> Inr []
                 | Some (JObject kvs) \<Rightarrow> parse_labels kvs []
                 | Some _ \<Rightarrow> Inl MatchLabelsNotObject) of
             Inl e \<Rightarrow> Inl e
           | Inr ls \<Rightarrow>
               (case (case present (map_of obj ''matchExpressions'') of
                        None \<Rightarrow> Inr []
                      | Some (JArray xs) \<Rightarrow> parse_requirements xs
                      | Some _ \<Rightarrow> Inl ExpressionsNotList) of
                  Inl e \<Rightarrow> Inl e
                | Inr rs \<Rightarrow> Inr \<lparr>ls_match_labels = ls, ls_match_expressions = rs\<rparr>))
      | Some _ \<Rightarrow> Inl SelectorNotObject)"

lemma parse_labels_ok: "bt_ok m \<Longrightarrow> parse_labels kvs m = Inr m' \<Longrightarrow> bt_ok m'"
  by (induction kvs m rule: parse_labels.induct) (auto simp: bt_ok_insert split: option.splits)

lemma ls_parse_ok: "ls_parse v = Inr s \<Longrightarrow> ls_ok s"
  by (auto simp: ls_parse_def ls_ok_def ls_default_def split: option.splits json.splits sum.splits
      dest: parse_labels_ok [OF bt_ok_Nil])

section \<open>Translation\<close>

definition POD_NAMESPACE :: string where
  "POD_NAMESPACE = ''io.kubernetes.pod.namespace''"

definition POLICY_CLUSTER :: string where
  "POLICY_CLUSTER = ''io.flowsdn.k8s.policy.cluster''"

definition NAMESPACE_LABELS :: string where
  "NAMESPACE_LABELS = ''io.flowsdn.k8s.namespace.labels''"

definition DERIVED_FROM :: string where
  "DERIVED_FROM = ''io.flowsdn.k8s.policy.derived-from''"

definition POLICY_NAME :: string where
  "POLICY_NAME = ''io.flowsdn.k8s.policy.name''"

definition POLICY_NAMESPACE :: string where
  "POLICY_NAMESPACE = ''io.flowsdn.k8s.policy.namespace''"

definition POLICY_UID :: string where
  "POLICY_UID = ''io.flowsdn.k8s.policy.uid''"

definition NAME_ANNOTATION :: string where
  "NAME_ANNOTATION = ''flowsdn.io/policy-name''"

datatype k8s_peer = PeerSelector label_selector | PeerCidr string "string list"

datatype protocol = Tcp | Udp | Sctp

fun protocol_number :: "protocol \<Rightarrow> u8" where
  "protocol_number Tcp = 6"
| "protocol_number Udp = 17"
| "protocol_number Sctp = 132"

record port_rule =
  po_protocol :: protocol
  po_port :: string
  po_end_port :: "u16 option"

record k8s_entry =
  ke_tier :: tier
  ke_priority :: f64
  ke_verdict :: verdict
  ke_ingress :: bool
  ke_subject :: label_selector
  ke_l3 :: "k8s_peer list option"
  ke_l4 :: "port_rule list option"
  ke_labels :: "string list"
  ke_default_deny :: bool

definition ke_is_marker :: "k8s_entry \<Rightarrow> bool" where
  "ke_is_marker e \<longleftrightarrow> ke_l3 e = Some []"

definition json_list :: "json option \<Rightarrow> string \<Rightarrow> import_error + json list" where
  "json_list v what =
     (case v of
        None \<Rightarrow> Inr []
      | Some JNull \<Rightarrow> Inr []
      | Some (JArray xs) \<Rightarrow> Inr xs
      | Some _ \<Rightarrow> Inl (NotList what))"

fun parse_except :: "json list \<Rightarrow> import_error + string list" where
  "parse_except [] = Inr []"
| "parse_except (x # xs) =
     (case json_str x of
        None \<Rightarrow> Inl ExceptNotStrings
      | Some c \<Rightarrow> map_sum id (\<lambda>cs. c # cs) (parse_except xs))"

definition namespace_exists :: label_selector where
  "namespace_exists = ls_default\<lparr>ls_match_expressions :=
     [\<lparr>rq_key = POD_NAMESPACE, rq_operator = Exists, rq_values = []\<rparr>]\<rparr>"

definition peer_block :: "json \<Rightarrow> import_error + k8s_peer" where
  "peer_block block =
     (case get_str block ''cidr'' of
        None \<Rightarrow> Inl BlockWithoutCidr
      | Some cidr \<Rightarrow>
          if cidr = [] then Inl BlockWithoutCidr
          else (case json_list (json_get block ''except'') ''ipBlock.except'' of
                  Inl e \<Rightarrow> Inl e
                | Inr items \<Rightarrow> map_sum id (PeerCidr cidr) (parse_except items)))"

definition peer_of :: "json \<Rightarrow> string \<Rightarrow> string option \<Rightarrow> import_error + k8s_peer" where
  "peer_of v namespace cluster =
     (case present (json_get v ''ipBlock'') of
        Some block \<Rightarrow> peer_block block
      | None \<Rightarrow>
          (case ls_parse (json_get v ''podSelector'') of
             Inl e \<Rightarrow> Inl e
           | Inr pods0 \<Rightarrow>
               let pods = (case cluster of
                     Some c \<Rightarrow>
                       if \<not> ls_constrains pods0 POLICY_CLUSTER
                       then pods0\<lparr>ls_match_labels := bt_insert POLICY_CLUSTER c (ls_match_labels pods0)\<rparr>
                       else pods0
                   | None \<Rightarrow> pods0)
               in (case present (json_get v ''namespaceSelector'') of
                     Some ns \<Rightarrow>
                       (case ls_parse (Some ns) of
                          Inl e \<Rightarrow> Inl e
                        | Inr namespaces \<Rightarrow>
                            Inr (PeerSelector (ls_sourced (ls_and
                              (if ls_is_empty namespaces then namespace_exists
                               else ls_rekey namespaces (\<lambda>k. NAMESPACE_LABELS @ ''.'' @ k)) pods))))
                   | None \<Rightarrow>
                       Inr (PeerSelector (ls_sourced
                         (pods\<lparr>ls_match_labels := bt_insert POD_NAMESPACE namespace (ls_match_labels pods)\<rparr>))))))"

definition json_u16 :: "json \<Rightarrow> u16 option" where
  "json_u16 v =
     (case v of
        JNumber (Some n) \<Rightarrow> if unat n < 65536 then Some (ucast n) else None
      | _ \<Rightarrow> None)"

definition parse_protocol :: "string option \<Rightarrow> import_error + protocol" where
  "parse_protocol s =
     (case s of
        None \<Rightarrow> Inr Tcp
      | Some p \<Rightarrow>
          if p = ''TCP'' then Inr Tcp
          else if p = ''UDP'' then Inr Udp
          else if p = ''SCTP'' then Inr Sctp
          else Inl (UnsupportedProtocol p))"

definition k8s_port :: "json \<Rightarrow> import_error + port_rule" where
  "k8s_port v =
     (case parse_protocol (get_str v ''protocol'') of
        Inl e \<Rightarrow> Inl e
      | Inr protocol \<Rightarrow>
          (case (case json_get v ''port'' of
                   None \<Rightarrow> Inr ''0''
                 | Some JNull \<Rightarrow> Inr ''0''
                 | Some (JNumber n) \<Rightarrow>
                     (case json_u16 (JNumber n) of
                        None \<Rightarrow> Inl (InvalidPort (JNumber n))
                      | Some p \<Rightarrow> Inr (print_nat (unat p)))
                 | Some (JString name) \<Rightarrow> if name \<noteq> [] then Inr name else Inl (InvalidPort (JString name))
                 | Some other \<Rightarrow> Inl (InvalidPort other)) of
             Inl e \<Rightarrow> Inl e
           | Inr port \<Rightarrow>
               (case (case json_get v ''endPort'' of
                        None \<Rightarrow> Inr None
                      | Some JNull \<Rightarrow> Inr None
                      | Some x \<Rightarrow> (case json_u16 x of None \<Rightarrow> Inl (InvalidEndPort x) | Some p \<Rightarrow> Inr (Some p))) of
                  Inl e \<Rightarrow> Inl e
                | Inr end_port \<Rightarrow>
                    Inr \<lparr>po_protocol = protocol, po_port = port, po_end_port = end_port\<rparr>)))"

fun parse_all :: "('a \<Rightarrow> 'e + 'b) \<Rightarrow> 'a list \<Rightarrow> 'e + 'b list" where
  "parse_all f [] = Inr []"
| "parse_all f (x # xs) = (case f x of Inl e \<Rightarrow> Inl e | Inr y \<Rightarrow> map_sum id (\<lambda>ys. y # ys) (parse_all f xs))"

text \<open>The effective policy types, \<open>(Ingress, Egress)\<close>.\<close>

fun parse_types :: "json list \<Rightarrow> bool \<Rightarrow> bool \<Rightarrow> import_error + (bool \<times> bool)" where
  "parse_types [] i e = Inr (i, e)"
| "parse_types (x # xs) i e =
     (case json_str x of
        Some t \<Rightarrow>
          if t = ''Ingress'' then parse_types xs True e
          else if t = ''Egress'' then parse_types xs i True
          else Inl (UnknownPolicyType (Some t))
      | None \<Rightarrow> Inl (UnknownPolicyType None))"

definition effective_types :: "json \<Rightarrow> import_error + (bool \<times> bool)" where
  "effective_types spec =
     (case json_list (json_get spec ''policyTypes'') ''policyTypes'' of
        Inl e \<Rightarrow> Inl e
      | Inr items \<Rightarrow>
          (case parse_types items False False of
             Inl e \<Rightarrow> Inl e
           | Inr (i, eg) \<Rightarrow>
               if \<not> i \<and> \<not> eg then Inr (True, present (json_get spec ''egress'') \<noteq> None) else Inr (i, eg)))"

definition new_entry :: "label_selector \<Rightarrow> string list \<Rightarrow> bool \<Rightarrow> k8s_peer list option \<Rightarrow> port_rule list option \<Rightarrow> k8s_entry" where
  "new_entry subject labels ingress l3 l4 =
     \<lparr>ke_tier = Normal, ke_priority = 0, ke_verdict = Allow, ke_ingress = ingress, ke_subject = subject,
      ke_l3 = l3, ke_l4 = l4, ke_labels = labels, ke_default_deny = True\<rparr>"

text \<open>The entries of one rule of a direction.\<close>

definition rule_entries :: "(bool \<Rightarrow> k8s_peer list option \<Rightarrow> port_rule list option \<Rightarrow> k8s_entry) \<Rightarrow> bool \<Rightarrow> string \<Rightarrow>
    string \<Rightarrow> string option \<Rightarrow> json \<Rightarrow> import_error + k8s_entry list" where
  "rule_entries mk ingress peers_key namespace cluster rule =
     (case json_list (json_get rule ''ports'') ''ports'' of
        Inl e \<Rightarrow> Inl e
      | Inr items \<Rightarrow>
          (case parse_all k8s_port items of
             Inl e \<Rightarrow> Inl e
           | Inr ports \<Rightarrow>
               let l4 = (if ports \<noteq> [] then Some ports else None)
               in (case json_list (json_get rule peers_key) peers_key of
                     Inl e \<Rightarrow> Inl e
                   | Inr peers \<Rightarrow>
                       if peers = [] then Inr [mk ingress None l4]
                       else map_sum id (map (\<lambda>p. mk ingress (Some [p]) l4))
                              (parse_all (\<lambda>v. peer_of v namespace cluster) peers))))"

definition direction_entries :: "(bool \<Rightarrow> k8s_peer list option \<Rightarrow> port_rule list option \<Rightarrow> k8s_entry) \<Rightarrow> bool \<Rightarrow> bool \<Rightarrow>
    string \<Rightarrow> string \<Rightarrow> string \<Rightarrow> string option \<Rightarrow> json \<Rightarrow> import_error + k8s_entry list" where
  "direction_entries mk enabled ingress rules_key peers_key namespace cluster spec =
     (if \<not> enabled then Inr []
      else case json_list (json_get spec rules_key) rules_key of
             Inl e \<Rightarrow> Inl e
           | Inr rules \<Rightarrow>
               (case parse_all (rule_entries mk ingress peers_key namespace cluster) rules of
                  Inl e \<Rightarrow> Inl e
                | Inr groups \<Rightarrow>
                    let es = concat groups in Inr (if es = [] then [mk ingress (Some []) None] else es)))"

definition text_of :: "json \<Rightarrow> string \<Rightarrow> string" where
  "text_of metadata key = (case get_str metadata key of None \<Rightarrow> [] | Some t \<Rightarrow> t)"

definition policy_namespace :: "json \<Rightarrow> string" where
  "policy_namespace metadata = (let t = text_of metadata ''namespace'' in if t = [] then ''default'' else t)"

definition policy_name :: "json \<Rightarrow> string" where
  "policy_name metadata =
     (case Option.bind (json_get metadata ''annotations'') (\<lambda>a. get_str a NAME_ANNOTATION) of
        None \<Rightarrow> text_of metadata ''name''
      | Some n \<Rightarrow> n)"

definition policy_labels :: "json \<Rightarrow> string list" where
  "policy_labels metadata =
     sort_by (\<le>)
       [SOURCE @ '':'' @ DERIVED_FROM @ ''=NetworkPolicy'',
        SOURCE @ '':'' @ POLICY_NAME @ ''='' @ policy_name metadata,
        SOURCE @ '':'' @ POLICY_NAMESPACE @ ''='' @ policy_namespace metadata,
        SOURCE @ '':'' @ POLICY_UID @ ''='' @ text_of metadata ''uid'']"

definition network_policy :: "json \<Rightarrow> string option \<Rightarrow> import_error + k8s_entry list" where
  "network_policy obj cluster =
     (case json_get obj ''metadata'' of
        None \<Rightarrow> Inl WithoutMetadata
      | Some metadata \<Rightarrow>
          (case json_get obj ''spec'' of
             None \<Rightarrow> Inl WithoutSpec
           | Some spec \<Rightarrow>
               (case ls_parse (json_get spec ''podSelector'') of
                  Inl e \<Rightarrow> Inl e
                | Inr pods \<Rightarrow>
                    let namespace = policy_namespace metadata;
                        subject = ls_sourced (pods\<lparr>ls_match_labels := bt_insert POD_NAMESPACE namespace (ls_match_labels pods)\<rparr>);
                        mk = new_entry subject (policy_labels metadata)
                    in (case effective_types spec of
                          Inl e \<Rightarrow> Inl e
                        | Inr (i, eg) \<Rightarrow>
                            (case direction_entries mk i True ''ingress'' ''from'' namespace cluster spec of
                               Inl e \<Rightarrow> Inl e
                             | Inr ins \<Rightarrow>
                                 map_sum id (\<lambda>outs. ins @ outs)
                                   (direction_entries mk eg False ''egress'' ''to'' namespace cluster spec))))))"

section \<open>Lowering\<close>

record unsupported =
  un_labels :: "string list"
  un_peer :: k8s_peer
  un_why :: string

fun lower_peer :: "k8s_peer \<Rightarrow> selector" where
  "lower_peer (PeerSelector s) = SelKubernetes s"
| "lower_peer (PeerCidr c x) = SelNone"

definition lower_peers :: "k8s_entry \<Rightarrow> selector list" where
  "lower_peers e =
     (case ke_l3 e of
        None \<Rightarrow> [SelAny]
      | Some [] \<Rightarrow> [SelNone]
      | Some ps \<Rightarrow> map lower_peer ps)"

fun is_cidr :: "k8s_peer \<Rightarrow> bool" where
  "is_cidr (PeerCidr c x) = True"
| "is_cidr (PeerSelector s) = False"

definition lower_unsupported :: "k8s_entry \<Rightarrow> unsupported list" where
  "lower_unsupported e =
     (case ke_l3 e of
        None \<Rightarrow> []
      | Some ps \<Rightarrow>
          map (\<lambda>p. \<lparr>un_labels = ke_labels e, un_peer = p, un_why = ''ipBlock peers need CIDR identities''\<rparr>)
            (filter is_cidr ps))"

definition lower_port :: "port_rule \<Rightarrow> policy_error + (u8 \<times> port_spec)" where
  "lower_port r =
     (case parse_u16 (po_port r) of
        Some n \<Rightarrow>
          if n = 0 \<and> po_end_port r = None then Inr (protocol_number (po_protocol r), Numeric pr_any)
          else map_sum id (\<lambda>x. (protocol_number (po_protocol r), Numeric x)) (pr_from_api n (po_end_port r))
      | None \<Rightarrow> Inr (protocol_number (po_protocol r), Named (po_port r)))"

definition lower_ports :: "k8s_entry \<Rightarrow> policy_error + (u8 \<times> port_spec) list" where
  "lower_ports e =
     (case ke_l4 e of
        None \<Rightarrow> Inr [(0, Numeric pr_any)]
      | Some rs \<Rightarrow> parse_all lower_port rs)"

definition lowered :: "k8s_entry \<Rightarrow> selector \<Rightarrow> u8 \<times> port_spec \<Rightarrow> entry" where
  "lowered e sel pp =
     \<lparr>en_subject = SelKubernetes (ke_subject e), en_peers = sel, en_default_deny = ke_default_deny e,
      en_rule = \<lparr>r_tier = ke_tier e, r_priority = ke_priority e, r_verdict = ke_verdict e,
        r_egress = (\<not> ke_ingress e), r_peer = Any, r_protocol = fst pp, r_ports = pr_any,
        r_authentication = None, r_proxy_port = 0, r_listener_priority = 0\<rparr>,
      en_port = snd pp\<rparr>"

definition lower_entry :: "k8s_entry \<Rightarrow> policy_error + (entry list \<times> unsupported list)" where
  "lower_entry e =
     map_sum id (\<lambda>ports. (concat (map (\<lambda>sel. map (lowered e sel) ports) (lower_peers e)), lower_unsupported e))
       (lower_ports e)"

definition lower :: "k8s_entry list \<Rightarrow> policy_error + (entry list \<times> unsupported list)" where
  "lower es = map_sum id (\<lambda>xs. (concat (map fst xs), concat (map snd xs))) (parse_all lower_entry es)"

section \<open>What an imported policy allows\<close>

lemma parse_all_Inr: "parse_all f xs = Inr ys \<longleftrightarrow> list_all2 (\<lambda>x y. f x = Inr y) xs ys"
  by (induction xs arbitrary: ys)
     (auto simp: list_all2_Cons1 map_sum_Inr split: sum.splits)

lemma list_all2_left: "list_all2 P xs ys \<Longrightarrow> x \<in> set xs \<Longrightarrow> \<exists>y \<in> set ys. P x y"
  by (induction rule: list_all2_induct) auto

lemma list_all2_right: "list_all2 P xs ys \<Longrightarrow> y \<in> set ys \<Longrightarrow> \<exists>x \<in> set xs. P x y"
  by (induction rule: list_all2_induct) auto

text \<open>A peer and a port, as an entry names them.\<close>

definition admits_peer :: "k8s_entry \<Rightarrow> endpoint \<Rightarrow> bool" where
  "admits_peer e peer \<longleftrightarrow> (case ke_l3 e of
     None \<Rightarrow> True
   | Some ps \<Rightarrow> \<exists>s. PeerSelector s \<in> set ps \<and> ls_matches s (ep_labels peer))"

definition admits_rule :: "port_rule \<Rightarrow> endpoint \<Rightarrow> u8 \<Rightarrow> u16 \<Rightarrow> bool" where
  "admits_rule r dest protocol port \<longleftrightarrow> protocol_number (po_protocol r) = protocol \<and>
     (case parse_u16 (po_port r) of
        Some n \<Rightarrow>
          (case po_end_port r of
             None \<Rightarrow> n = 0 \<or> port = n
           | Some e \<Rightarrow> n \<le> port \<and> port \<le> e)
      | None \<Rightarrow> port \<noteq> 0 \<and> bt_get (ep_named_ports dest) (protocol, po_port r) = Some port)"

definition admits_port :: "k8s_entry \<Rightarrow> endpoint \<Rightarrow> u8 \<Rightarrow> u16 \<Rightarrow> bool" where
  "admits_port e dest protocol port \<longleftrightarrow> (case ke_l4 e of
     None \<Rightarrow> True
   | Some rs \<Rightarrow> \<exists>r \<in> set rs. admits_rule r dest protocol port)"

text \<open>The entries the importer makes: normal tier, priority zero, allow.\<close>

definition imported :: "k8s_entry \<Rightarrow> bool" where
  "imported e \<longleftrightarrow> ke_tier e = Normal \<and> ke_priority e = 0 \<and> ke_verdict e = Allow \<and> ke_default_deny e \<and>
     ke_l4 e \<noteq> Some []"

lemma new_entry_imported [simp]: "imported (new_entry s l i l3 l4) \<longleftrightarrow> l4 \<noteq> Some []"
  by (simp add: imported_def new_entry_def)

lemma pr_any_contains [simp]: "pr_contains pr_any p"
  by (simp add: pr_contains_def pr_any_def word_coorder.extremum)

lemma lower_port_admits:
  assumes "lower_port r = Inr pp" and "en = lowered e sel pp" and "resolve_port en dest = Inr x"
  shows "(fst pp = 0 \<or> fst pp = protocol) \<and> (\<exists>rng. x = Some rng \<and> pr_contains rng port) \<longleftrightarrow>
    admits_rule r dest protocol port"
proof -
  have nz: "protocol_number p \<noteq> 0" for p by (cases p) simp_all
  show ?thesis
  proof (cases "parse_u16 (po_port r)")
    case None
    then show ?thesis using assms nz
      by (auto simp: lower_port_def admits_rule_def lowered_def resolve_port_def pr_from_api_def pr_contains_def
          split: if_splits option.splits)
  next
    case (Some n)
    then show ?thesis using assms nz
      by (auto simp: lower_port_def admits_rule_def lowered_def resolve_port_def pr_from_api_def pr_contains_def
          pr_any_def word_coorder.extremum map_sum_Inr split: if_splits option.splits sum.splits)
  qed
qed

lemma lower_ports_nonempty: "imported e \<Longrightarrow> lower_ports e = Inr pps \<Longrightarrow> pps \<noteq> []"
  by (auto simp: lower_ports_def imported_def parse_all_Inr split: option.splits)

lemma lower_peers_nonempty: "lower_peers e \<noteq> []"
  by (auto simp: lower_peers_def split: option.splits list.splits)

lemma lower_peers_admits: "(\<exists>sel \<in> set (lower_peers e). sel_matches sel peer) \<longleftrightarrow> admits_peer e peer"
proof (cases "ke_l3 e")
  case (Some ps)
  have "(\<exists>p \<in> set ps. sel_matches (lower_peer p) peer) \<longleftrightarrow> (\<exists>s. PeerSelector s \<in> set ps \<and> ls_matches s (ep_labels peer))"
  proof
    assume "\<exists>p \<in> set ps. sel_matches (lower_peer p) peer"
    then obtain p where "p \<in> set ps" "sel_matches (lower_peer p) peer" by blast
    then show "\<exists>s. PeerSelector s \<in> set ps \<and> ls_matches s (ep_labels peer)" by - (cases p, auto)
  qed force
  moreover have "(\<exists>sel \<in> set (lower_peers e). sel_matches sel peer) \<longleftrightarrow> (\<exists>p \<in> set ps. sel_matches (lower_peer p) peer)"
    using Some by (cases ps) (simp_all add: lower_peers_def)
  ultimately show ?thesis using Some by (simp add: admits_peer_def)
qed (simp add: lower_peers_def admits_peer_def)

lemma lower_set:
  assumes "lower es = Inr (out, uns)"
  shows "en \<in> set out \<longleftrightarrow> (\<exists>e \<in> set es. \<exists>pps. lower_ports e = Inr pps \<and>
    (\<exists>sel \<in> set (lower_peers e). \<exists>pp \<in> set pps. en = lowered e sel pp))"
    and "e \<in> set es \<Longrightarrow> \<exists>pps. lower_ports e = Inr pps"
proof -
  from assms obtain xs where xs: "list_all2 (\<lambda>e x. lower_entry e = Inr x) es xs" and out: "out = concat (map fst xs)"
    by (auto simp: lower_def map_sum_Inr parse_all_Inr)
  have inr: "\<exists>pps. lower_ports e = Inr pps" if "lower_entry e = Inr x" for e x
    using that by (auto simp: lower_entry_def map_sum_Inr)
  then show "e \<in> set es \<Longrightarrow> \<exists>pps. lower_ports e = Inr pps"
    using list_all2_left [OF xs] by blast
  have "en \<in> set out \<longleftrightarrow> (\<exists>e \<in> set es. \<exists>x. lower_entry e = Inr x \<and> en \<in> set (fst x))"
    unfolding out using xs by (induction es xs rule: list_all2_induct) auto
  moreover have "(\<exists>x. lower_entry e = Inr x \<and> en \<in> set (fst x)) \<longleftrightarrow> (\<exists>pps. lower_ports e = Inr pps \<and>
    (\<exists>sel \<in> set (lower_peers e). \<exists>pp \<in> set pps. en = lowered e sel pp))" for e
    by (cases "lower_ports e") (auto simp: lower_entry_def)
  ultimately show "en \<in> set out \<longleftrightarrow> (\<exists>e \<in> set es. \<exists>pps. lower_ports e = Inr pps \<and>
    (\<exists>sel \<in> set (lower_peers e). \<exists>pp \<in> set pps. en = lowered e sel pp))" by simp
qed

lemma sim_matching_resolves:
  "sim_matching es peer dest protocol port = Inr ms \<Longrightarrow> en \<in> set es \<Longrightarrow> sel_matches (en_peers en) peer \<Longrightarrow>
    r_protocol (en_rule en) = 0 \<or> r_protocol (en_rule en) = protocol \<Longrightarrow> \<exists>x. resolve_port en dest = Inr x"
proof (induction es arbitrary: ms)
  case (Cons a es)
  show ?case
  proof (cases "en = a")
    case True
    then show ?thesis using Cons.prems(1,3,4) by (auto split: if_splits sum.splits)
  next
    case False
    have "\<exists>z. sim_matching es peer dest protocol port = Inr z"
      using Cons.prems(1) by (auto simp: map_sum_Inr split: if_splits sum.splits option.splits)
    then show ?thesis using Cons.IH Cons.prems False by auto
  qed
qed simp

lemma lowered_ports_admit:
  assumes "lower_ports e = Inr pps" and "sel_matches sel peer"
    and "\<And>pp. pp \<in> set pps \<Longrightarrow> fst pp = 0 \<or> fst pp = protocol \<Longrightarrow> \<exists>x. resolve_port (lowered e sel pp) dest = Inr x"
  shows "(\<exists>pp \<in> set pps. \<exists>r. flow_rule peer dest protocol port (lowered e sel pp) r) \<longleftrightarrow> admits_port e dest protocol port"
proof -
  have flow: "(\<exists>r. flow_rule peer dest protocol port (lowered e sel pp) r) \<longleftrightarrow> (fst pp = 0 \<or> fst pp = protocol) \<and>
      (\<exists>rng. resolve_port (lowered e sel pp) dest = Inr (Some rng) \<and> pr_contains rng port)" for pp
    using assms(2) by (auto simp: flow_rule_def lowered_def)
  show ?thesis
  proof (cases "ke_l4 e")
    case None
    then show ?thesis using assms(1) unfolding flow
      by (auto simp: lower_ports_def admits_port_def resolve_port_def lowered_def)
  next
    case (Some rs)
    have pps: "list_all2 (\<lambda>r pp. lower_port r = Inr pp) rs pps"
      using assms(1) Some by (simp add: lower_ports_def parse_all_Inr)
    have one: "(\<exists>r. flow_rule peer dest protocol port (lowered e sel pp) r) \<longleftrightarrow> admits_rule q dest protocol port"
      if "lower_port q = Inr pp" "pp \<in> set pps" for q pp
    proof (cases "fst pp = 0 \<or> fst pp = protocol")
      case True
      from assms(3) [OF that(2) True] obtain x where x: "resolve_port (lowered e sel pp) dest = Inr x" by blast
      show ?thesis unfolding flow lower_port_admits [OF that(1) refl x, of protocol port, symmetric] using x by auto
    next
      case False
      then show ?thesis unfolding flow using that(1)
        by (auto simp: lower_port_def admits_rule_def map_sum_Inr split: option.splits if_splits)
    qed
    then show ?thesis using Some list_all2_left [OF pps] list_all2_right [OF pps]
      by (fastforce simp: admits_port_def)
  qed
qed

text \<open>The entries of a direction that select a subject.\<close>

definition selects :: "k8s_entry \<Rightarrow> endpoint \<Rightarrow> bool \<Rightarrow> bool" where
  "selects e subject egress \<longleftrightarrow> ke_ingress e = (\<not> egress) \<and> ls_matches (ke_subject e) (ep_labels subject)"

lemma lowered_simps [simp]:
  "r_egress (en_rule (lowered e sel pp)) = (\<not> ke_ingress e)"
  "sel_matches (en_subject (lowered e sel pp)) subject = ls_matches (ke_subject e) (ep_labels subject)"
  by (simp_all add: lowered_def)

lemma uniform_decision:
  assumes "\<forall>r \<in> set rs. r_tier r = Normal \<and> r_priority r = 0 \<and> r_verdict r = Allow \<and> r_proxy_port r = 0 \<and> rule_matches r p"
    and "evaluate rs p = Inr d"
  shows "d = (if rs = [] then DenyAll else AllowVia [0])"
proof -
  have d: "d = policy_spec all_tiers rs p"
    using assms(2) evaluate_Inr [of rs p d] evaluate_plain [of rs p] by (metis sum.inject(2))
  have tiers: "tier_matches rs p t = (if t = Normal then rs else [])" for t
    using assms(1) by (auto simp: tier_matches_def filter_empty_conv filter_id_conv)
  have "as_strong a b" if "a \<in> set rs" "b \<in> set rs" for a b
    using assms(1) that by (auto simp: as_strong_def rank_number_def verdict_rank_def)
  then have str: "strongest rs = rs" by (auto simp: strongest_def filter_id_conv list_all_iff)
  have "set (map r_proxy_port rs) = set [0]" if "rs \<noteq> []" using assms(1) that by (cases rs) auto
  then have ports: "rs \<noteq> [] \<Longrightarrow> bs_of_list (map r_proxy_port rs) = [0]"
    using bs_of_list_cong [of "map r_proxy_port rs" "[0]"] by (simp add: bs_of_list_def)
  have no: "\<not> settles (strongest [])" by (simp add: settles_def strongest_def)
  show ?thesis
  proof (cases "rs = []")
    case True
    then show ?thesis by (simp add: d policy_spec_def tier_matches_def no)
  next
    case False
    then have "r_verdict (hd rs) = Allow" using assms(1) by simp
    then show ?thesis using False by (simp add: d policy_spec_def tiers no str ports settles_def [of rs])
  qed
qed

lemma imported_decision:
  assumes low: "lower es = Inr (out, uns)" and imp: "\<forall>e \<in> set es. imported e"
    and ev: "sim_evaluate out (if egress then subject else peer) (if egress then peer else subject) egress protocol port = Inr d"
  shows "d = (if (\<exists>e \<in> set es. selects e subject egress) \<and>
      \<not> (\<exists>e \<in> set es. selects e subject egress \<and> admits_peer e peer \<and>
          admits_port e (if egress then peer else subject) protocol port)
    then DenyAll else AllowVia [0])"
proof -
  let ?dest = "if egress then peer else subject" and ?p = "flow_packet peer egress protocol port"
  let ?sel = "selected_entries out subject egress"
  note L = lower_set(1) [OF low]
  have mem: "en \<in> set ?sel \<longleftrightarrow> (\<exists>e \<in> set es. selects e subject egress \<and> (\<exists>pps. lower_ports e = Inr pps \<and>
      (\<exists>sel \<in> set (lower_peers e). \<exists>pp \<in> set pps. en = lowered e sel pp)))" for en
    unfolding selected_entries_def set_filter mem_Collect_eq L by (auto simp: selects_def) blast+
  have "en_default_deny en" if "en \<in> set ?sel" for en
    using that imp unfolding mem by (auto simp: lowered_def imported_def)
  then have dd: "list_ex en_default_deny ?sel \<longleftrightarrow> ?sel \<noteq> []" by (cases ?sel) (auto simp: list_ex_iff)
  have ne: "?sel \<noteq> [] \<longleftrightarrow> (\<exists>e \<in> set es. selects e subject egress)"
  proof
    assume "\<exists>e \<in> set es. selects e subject egress"
    then obtain e where e: "e \<in> set es" "selects e subject egress" by blast
    obtain pps where pps: "lower_ports e = Inr pps" using lower_set(2) [OF low e(1)] by blast
    then have "hd pps \<in> set pps" "hd (lower_peers e) \<in> set (lower_peers e)"
      using lower_ports_nonempty imp e(1) lower_peers_nonempty by auto
    then have "lowered e (hd (lower_peers e)) (hd pps) \<in> set ?sel" unfolding mem using e pps by blast
    then show "?sel \<noteq> []" by auto
  next
    assume "?sel \<noteq> []"
    then show "\<exists>e \<in> set es. selects e subject egress" using mem by (metis hd_in_set)
  qed
  from ev obtain ms where ms: "sim_matching ?sel peer ?dest protocol port = Inr ms"
    and d: "if ms = [] \<and> ?sel = [] then d = AllowVia [0] else evaluate ms ?p = Inr d"
    unfolding sim_evaluate_def using dd
    by (cases egress) (auto simp: Let_def bs_of_list_def split: sum.splits if_splits)
  have "\<forall>r \<in> set ms. r_tier r = Normal \<and> r_priority r = 0 \<and> r_verdict r = Allow \<and> r_proxy_port r = 0 \<and> rule_matches r ?p"
  proof
    fix r assume "r \<in> set ms"
    then obtain en where en: "en \<in> set ?sel" "flow_rule peer ?dest protocol port en r"
      unfolding sim_matching_set [OF ms] by blast
    then obtain e sel pp where "e \<in> set es" "en = lowered e sel pp" "selects e subject egress" unfolding mem by blast
    then show "r_tier r = Normal \<and> r_priority r = 0 \<and> r_verdict r = Allow \<and> r_proxy_port r = 0 \<and> rule_matches r ?p"
      using en(2) imp by (auto simp: flow_rule_def lowered_def imported_def rule_matches_def selects_def)
  qed
  note uniform = uniform_decision [OF this]
  have "ms \<noteq> [] \<longleftrightarrow> (\<exists>e \<in> set es. selects e subject egress \<and> admits_peer e peer \<and> admits_port e ?dest protocol port)"
  proof -
    have "ms \<noteq> [] \<longleftrightarrow> (\<exists>r. r \<in> set ms)" by (cases ms) auto
    also have "\<dots> \<longleftrightarrow> (\<exists>e \<in> set es. selects e subject egress \<and> (\<exists>pps. lower_ports e = Inr pps \<and>
        (\<exists>sel \<in> set (lower_peers e). \<exists>pp \<in> set pps. \<exists>r. flow_rule peer ?dest protocol port (lowered e sel pp) r)))"
      unfolding sim_matching_set [OF ms] Bex_def mem by blast
    also have "\<dots> \<longleftrightarrow> (\<exists>e \<in> set es. selects e subject egress \<and> admits_peer e peer \<and> admits_port e ?dest protocol port)"
    proof (intro bex_cong refl conj_cong)
      fix e assume e: "e \<in> set es" "selects e subject egress"
      obtain pps where pps: "lower_ports e = Inr pps" using lower_set(2) [OF low e(1)] by blast
      have "(\<exists>pp \<in> set pps. \<exists>r. flow_rule peer ?dest protocol port (lowered e sel pp) r) \<longleftrightarrow>
          sel_matches sel peer \<and> admits_port e ?dest protocol port" if sel: "sel \<in> set (lower_peers e)" for sel
      proof (cases "sel_matches sel peer")
        case True
        have "\<exists>x. resolve_port (lowered e sel pp) ?dest = Inr x" if "pp \<in> set pps" "fst pp = 0 \<or> fst pp = protocol" for pp
        proof (rule sim_matching_resolves [OF ms])
          show "lowered e sel pp \<in> set ?sel" unfolding mem using e pps sel that(1) by blast
        qed (use True that(2) in \<open>simp_all add: lowered_def\<close>)
        from lowered_ports_admit [OF pps True this] True show ?thesis by blast
      qed (simp add: flow_rule_def lowered_def)
      then show "(\<exists>pps. lower_ports e = Inr pps \<and> (\<exists>sel \<in> set (lower_peers e). \<exists>pp \<in> set pps.
            \<exists>r. flow_rule peer ?dest protocol port (lowered e sel pp) r)) \<longleftrightarrow>
          admits_peer e peer \<and> admits_port e ?dest protocol port"
        unfolding lower_peers_admits [symmetric] using pps by auto
    qed
    finally show ?thesis .
  qed
  then show ?thesis using d ne uniform by (auto split: if_splits)
qed

section \<open>What the importer makes of an object\<close>

definition made_by :: "label_selector \<Rightarrow> string list \<Rightarrow> bool \<Rightarrow> k8s_entry list \<Rightarrow> bool" where
  "made_by subject labels ingress es \<longleftrightarrow>
     (\<forall>e \<in> set es. imported e \<and> ke_subject e = subject \<and> ke_labels e = labels \<and> ke_ingress e = ingress)"

lemma new_entry_simps [simp]: "ke_subject (new_entry s l i l3 l4) = s" "ke_labels (new_entry s l i l3 l4) = l"
  "ke_ingress (new_entry s l i l3 l4) = i"
  by (simp_all add: new_entry_def)

lemma rule_entries_made:
  "rule_entries (new_entry subject labels) ingress k ns cl rule = Inr es \<Longrightarrow> made_by subject labels ingress es"
  by (auto simp: rule_entries_def made_by_def Let_def map_sum_Inr split: sum.splits if_splits)

lemma direction_entries_made:
  assumes "direction_entries (new_entry subject labels) enabled ingress rk k ns cl spec = Inr es"
  shows "made_by subject labels ingress es" and "es \<noteq> [] \<longleftrightarrow> enabled"
proof -
  show "es \<noteq> [] \<longleftrightarrow> enabled" using assms by (auto simp: direction_entries_def Let_def split: if_splits sum.splits)
  show "made_by subject labels ingress es"
  proof (cases enabled)
    case True
    with assms obtain rules groups where
      "list_all2 (\<lambda>r g. rule_entries (new_entry subject labels) ingress k ns cl r = Inr g) rules groups"
      and es: "es = (if concat groups = [] then [new_entry subject labels ingress (Some []) None] else concat groups)"
      by (auto simp: direction_entries_def Let_def parse_all_Inr split: sum.splits)
    then have "\<forall>g \<in> set groups. made_by subject labels ingress g"
      using list_all2_right rule_entries_made by fast
    then show ?thesis unfolding es by (auto simp: made_by_def)
  qed (use assms in \<open>simp add: direction_entries_def made_by_def\<close>)
qed

lemma network_policy_shape:
  assumes "network_policy obj cluster = Inr es"
  obtains metadata spec pods subject i eg ins outs where
    "json_get obj ''metadata'' = Some metadata" "json_get obj ''spec'' = Some spec"
    "ls_parse (json_get spec ''podSelector'') = Inr pods"
    "subject = ls_sourced (pods\<lparr>ls_match_labels := bt_insert POD_NAMESPACE (policy_namespace metadata) (ls_match_labels pods)\<rparr>)"
    "effective_types spec = Inr (i, eg)" "es = ins @ outs"
    "made_by subject (policy_labels metadata) True ins" "ins \<noteq> [] \<longleftrightarrow> i"
    "made_by subject (policy_labels metadata) False outs" "outs \<noteq> [] \<longleftrightarrow> eg"
proof -
  let ?sub = "\<lambda>metadata pods. ls_sourced (pods\<lparr>ls_match_labels :=
    bt_insert POD_NAMESPACE (policy_namespace metadata) (ls_match_labels pods)\<rparr>)"
  from assms obtain metadata spec pods i eg ins outs where
    s: "json_get obj ''metadata'' = Some metadata" "json_get obj ''spec'' = Some spec"
      "ls_parse (json_get spec ''podSelector'') = Inr pods" "effective_types spec = Inr (i, eg)"
    and ins: "direction_entries (new_entry (?sub metadata pods) (policy_labels metadata)) i True ''ingress'' ''from''
        (policy_namespace metadata) cluster spec = Inr ins"
    and outs: "direction_entries (new_entry (?sub metadata pods) (policy_labels metadata)) eg False ''egress'' ''to''
        (policy_namespace metadata) cluster spec = Inr outs" and es: "es = ins @ outs"
    by (auto simp: network_policy_def Let_def map_sum_Inr split: option.splits sum.splits)
  show thesis
    by (rule that [OF s(1-3) refl s(4) es direction_entries_made [OF ins] direction_entries_made [OF outs]])
qed

lemma network_policy_imported: "network_policy obj cluster = Inr es \<Longrightarrow> \<forall>e \<in> set es. imported e"
  by (erule network_policy_shape) (auto simp: made_by_def)

lemma source_labels_get: "bt_ok ls \<Longrightarrow> bt_get (source_labels ls) (SOURCE @ '':'' @ k) = bt_get ls k"
proof -
  assume ok: "bt_ok ls"
  let ?f = "\<lambda>k. SOURCE @ '':'' @ k"
  have inj: "inj ?f" by (simp add: inj_def)
  have "map fst (map (\<lambda>(k, v). (?f k, v)) ls) = map ?f (map fst ls)" by (simp add: case_prod_unfold)
  then have "distinct (map fst (map (\<lambda>(k, v). (?f k, v)) ls))"
    using bt_ok_distinct [OF ok] inj by (simp only: distinct_map) (blast intro: inj_on_subset)
  from bt_of_list_get [OF this] show ?thesis using map_of_rekey [OF inj] by (simp add: source_labels_def)
qed

lemma sourced_matches: "ls_ok s \<Longrightarrow> bt_ok ls \<Longrightarrow> ls_matches (ls_sourced s) (source_labels ls) = ls_matches s ls"
  unfolding ls_sourced_def by (rule ls_rekey_matches(2)) (simp add: inj_def, assumption, rule source_labels_get)


text \<open>
  A policy isolates exactly its directions and never leaves its namespace: the import has
  an ingress entry exactly when ingress is an effective type, an egress entry exactly when egress
  is, and its entries select only pods of the policy's namespace that its pod selector selects.
\<close>

theorem network_policy_scope:
  assumes "network_policy obj cluster = Inr es"
  shows "\<exists>metadata spec pods i eg. json_get obj ''metadata'' = Some metadata \<and> json_get obj ''spec'' = Some spec \<and>
    ls_parse (json_get spec ''podSelector'') = Inr pods \<and> effective_types spec = Inr (i, eg) \<and>
    ((\<exists>e \<in> set es. ke_ingress e) \<longleftrightarrow> i) \<and> ((\<exists>e \<in> set es. \<not> ke_ingress e) \<longleftrightarrow> eg) \<and>
    (\<forall>e \<in> set es. \<forall>ls. bt_ok ls \<and> ls_matches (ke_subject e) (source_labels ls) \<longrightarrow>
       bt_get ls POD_NAMESPACE = Some (policy_namespace metadata) \<and>
       (\<forall>k v. k \<noteq> POD_NAMESPACE \<and> bt_get (ls_match_labels pods) k = Some v \<longrightarrow> bt_get ls k = Some v) \<and>
       list_all (rq_holds ls) (ls_match_expressions pods))"
proof -
  from network_policy_shape [OF assms] obtain metadata spec pods subject i eg ins outs where
    s: "json_get obj ''metadata'' = Some metadata" "json_get obj ''spec'' = Some spec"
    "ls_parse (json_get spec ''podSelector'') = Inr pods"
    "subject = ls_sourced (pods\<lparr>ls_match_labels := bt_insert POD_NAMESPACE (policy_namespace metadata) (ls_match_labels pods)\<rparr>)"
    "effective_types spec = Inr (i, eg)" "es = ins @ outs"
    "made_by subject (policy_labels metadata) True ins" "ins \<noteq> [] \<longleftrightarrow> i"
    "made_by subject (policy_labels metadata) False outs" "outs \<noteq> [] \<longleftrightarrow> eg" by blast
  have entries: "\<forall>e \<in> set es. ke_subject e = subject" "\<forall>e \<in> set ins. ke_ingress e" "\<forall>e \<in> set outs. \<not> ke_ingress e"
    using s(6,7,9) by (auto simp: made_by_def)
  let ?pods = "pods\<lparr>ls_match_labels := bt_insert POD_NAMESPACE (policy_namespace metadata) (ls_match_labels pods)\<rparr>"
  have ok: "ls_ok ?pods" using ls_parse_ok [OF s(3)] by (simp add: ls_ok_def bt_ok_insert)
  have "bt_get ls POD_NAMESPACE = Some (policy_namespace metadata) \<and>
       (\<forall>k v. k \<noteq> POD_NAMESPACE \<and> bt_get (ls_match_labels pods) k = Some v \<longrightarrow> bt_get ls k = Some v) \<and>
       list_all (rq_holds ls) (ls_match_expressions pods)"
    if "bt_ok ls" "ls_matches subject (source_labels ls)" for ls
  proof -
    have "ls_matches ?pods ls" using that sourced_matches [OF ok] s(4) by simp
    then show ?thesis unfolding ls_matches_alt [OF ok] by (auto simp: labels_hold_def)
  qed
  moreover have "(\<exists>e \<in> set es. ke_ingress e) \<longleftrightarrow> i" using entries s(6,8) by (cases ins) auto
  moreover have "(\<exists>e \<in> set es. \<not> ke_ingress e) \<longleftrightarrow> eg" using entries s(6,10) by (cases outs) auto
  ultimately have "((\<exists>e \<in> set es. ke_ingress e) \<longleftrightarrow> i) \<and> ((\<exists>e \<in> set es. \<not> ke_ingress e) \<longleftrightarrow> eg) \<and>
    (\<forall>e \<in> set es. \<forall>ls. bt_ok ls \<and> ls_matches (ke_subject e) (source_labels ls) \<longrightarrow>
       bt_get ls POD_NAMESPACE = Some (policy_namespace metadata) \<and>
       (\<forall>k v. k \<noteq> POD_NAMESPACE \<and> bt_get (ls_match_labels pods) k = Some v \<longrightarrow> bt_get ls k = Some v) \<and>
       list_all (rq_holds ls) (ls_match_expressions pods))" using entries(1) by simp
  then show ?thesis using s(1-3,5)
    by (intro exI [of _ metadata] exI [of _ spec] exI [of _ pods] exI [of _ i] exI [of _ eg]) simp
qed

section \<open>A concrete policy\<close>

definition lab_policy :: json where
  "lab_policy = JObject [(''metadata'', JObject []), (''spec'', JObject [])]"

definition lab_pod :: endpoint where
  "lab_pod = \<lparr>ep_identity = 3, ep_labels = source_labels [(POD_NAMESPACE, ''default'')], ep_named_ports = []\<rparr>"

definition lab_marker :: k8s_entry where
  "lab_marker = new_entry (ls_sourced \<lparr>ls_match_labels = [(POD_NAMESPACE, ''default'')], ls_match_expressions = []\<rparr>)
     (policy_labels (JObject [])) True (Some []) None"

lemma lab_policy_import: "network_policy lab_policy None = Inr [lab_marker]"
  by (simp add: network_policy_def lab_policy_def json_get_def ls_parse_def present_def ls_default_def effective_types_def
      json_list_def direction_entries_def policy_namespace_def text_of_def get_str_def lab_marker_def)

lemma lab_marker_selects: "selects lab_marker lab_pod False"
proof -
  let ?s = "\<lparr>ls_match_labels = [(POD_NAMESPACE, ''default'')], ls_match_expressions = []\<rparr>"
  have "ls_matches (ls_sourced ?s) (source_labels [(POD_NAMESPACE, ''default'')])"
    by (subst sourced_matches) (simp_all add: ls_ok_def bt_ok_def ls_matches_def)
  then show ?thesis by (simp add: selects_def lab_marker_def lab_pod_def)
qed

lemma lab_marker_lower: "lower [lab_marker] = Inr ([lowered lab_marker SelNone (0, Numeric pr_any)], [])"
  by (simp add: lower_def lower_entry_def lower_ports_def lower_peers_def lower_unsupported_def lab_marker_def new_entry_def)

lemma lab_marker_evaluates:
  "sim_evaluate [lowered lab_marker SelNone (0, Numeric pr_any)] lab_peer lab_pod False 6 80 = Inr DenyAll"
proof -
  let ?en = "lowered lab_marker SelNone (0, Numeric pr_any)"
  have "selected_entries [?en] lab_pod False = [?en]"
    using lab_marker_selects by (simp add: selected_entries_def selects_def)
  moreover have "validate_subject [en_rule ?en] = Inr ()"
    by (simp add: validate_subject_def lowered_def lab_marker_def new_entry_def oracle_eval)
  moreover have "sim_matching [?en] lab_peer lab_pod 6 80 = Inr []" by (simp add: lowered_def)
  moreover have "en_default_deny ?en" by (simp add: lowered_def lab_marker_def new_entry_def)
  moreover have "evaluate [] p = Inr DenyAll" for p by (simp add: evaluate_def validate_subject_def)
  ultimately show ?thesis by (simp add: sim_evaluate_def Let_def)
qed


theorem network_policy_scope_witness:
  "network_policy lab_policy None = Inr [lab_marker] \<and> (\<exists>e \<in> set [lab_marker]. ke_ingress e)"
  using network_policy_scope [OF lab_policy_import] lab_policy_import by (auto simp: lab_marker_def)

end
