(* ===== verification/Bytes.thy ===== *)
theory Bytes
  imports Prelude "HOL-Library.Monad_Syntax"
begin

text \<open>
  Byte arrays and the fixed-size codecs of the map ABI: the conversions \<open>to_le_bytes\<close>,
  \<open>from_le_bytes\<close> and their big-endian twins, the field access \<open>put\<close> and \<open>take\<close> of
  \<open>flowsdn-bpf-abi/src/lib.rs\<close> with their panics as \<open>None\<close>, and the contract of the trait
  \<open>MapBytes\<close> as the locale \<open>map_bytes\<close>: a lossless codec between the well-formed values of a
  struct and the arrays of its size. A \<open>[u8; N]\<close> is a list of bytes of length \<open>N\<close>.
\<close>

named_theorems codec "evaluation of the byte codecs"

section \<open>Integers as bytes\<close>

fun nat_le :: "nat \<Rightarrow> nat \<Rightarrow> u8 list" where
  "nat_le 0 x = []"
| "nat_le (Suc n) x = of_nat (x mod 256) # nat_le n (x div 256)"

fun le_nat :: "u8 list \<Rightarrow> nat" where
  "le_nat [] = 0"
| "le_nat (b # bs) = unat b + 256 * le_nat bs"

definition to_le_bytes :: "'a::len word \<Rightarrow> u8 list" where
  "to_le_bytes w = nat_le (LENGTH('a) div 8) (unat w)"

definition from_le_bytes :: "u8 list \<Rightarrow> 'a::len word" where
  "from_le_bytes bs = of_nat (le_nat bs)"

definition to_be_bytes :: "'a::len word \<Rightarrow> u8 list" where
  "to_be_bytes w = rev (to_le_bytes w)"

definition from_be_bytes :: "u8 list \<Rightarrow> 'a::len word" where
  "from_be_bytes bs = from_le_bytes (rev bs)"

lemma length_nat_le [simp]: "length (nat_le n x) = n"
  by (induction n x rule: nat_le.induct) simp_all

lemma le_nat_nat_le: "le_nat (nat_le n x) = x mod 256 ^ n"
proof (induction n x rule: nat_le.induct)
  case (2 n x)
  have "unat (of_nat (x mod 256) :: u8) = x mod 256"
    by (simp add: unat_of_nat)
  then show ?case
    using 2 by (simp add: mod_mult2_eq)
qed simp

lemma nat_le_snoc: "nat_le (Suc n) x = nat_le n x @ [of_nat (x div 256 ^ n mod 256)]"
  by (induction n x rule: nat_le.induct) (simp_all add: div_mult2_eq)

lemma le_nat_bound: "le_nat bs < 256 ^ length bs"
proof (induction bs)
  case (Cons b bs)
  have "unat b < 256"
    using unat_bound [of b] by simp
  then show ?case
    using Cons by simp
qed simp

lemma nat_le_le_nat: "nat_le (length bs) (le_nat bs) = bs"
proof (induction bs)
  case (Cons b bs)
  have "unat b < 256"
    using unat_bound [of b] by simp
  then show ?case
    using Cons by simp
qed simp

lemma length_to_le_bytes [codec, simp]: "length (to_le_bytes (w :: 'a::len word)) = LENGTH('a) div 8"
  by (simp add: to_le_bytes_def)

lemma length_to_be_bytes [codec, simp]: "length (to_be_bytes (w :: 'a::len word)) = LENGTH('a) div 8"
  by (simp add: to_be_bytes_def)

lemma pow_256: "256 ^ n = (2 :: nat) ^ (8 * n)"
  by (simp add: power_mult)

lemma from_to_le_bytes [codec, simp]:
  assumes "8 dvd LENGTH('a)"
  shows "from_le_bytes (to_le_bytes (w :: 'a::len word)) = w"
proof -
  have "(256 :: nat) ^ (LENGTH('a) div 8) = 2 ^ LENGTH('a)"
    using assms by (simp add: pow_256)
  then show ?thesis
    by (simp add: from_le_bytes_def to_le_bytes_def le_nat_nat_le)
qed

lemma to_from_le_bytes [codec, simp]:
  assumes "8 * length bs = LENGTH('a)"
  shows "to_le_bytes (from_le_bytes bs :: 'a::len word) = bs"
proof -
  have "length bs = LENGTH('a) div 8"
    using assms by linarith
  moreover have "unat (of_nat (le_nat bs) :: 'a word) = le_nat bs"
    using le_nat_bound [of bs] assms by (simp add: unat_of_nat pow_256)
  ultimately show ?thesis
    using nat_le_le_nat [of bs] by (simp add: from_le_bytes_def to_le_bytes_def)
qed

lemma from_to_be_bytes [codec, simp]:
  "8 dvd LENGTH('a) \<Longrightarrow> from_be_bytes (to_be_bytes (w :: 'a::len word)) = w"
  by (simp add: from_be_bytes_def to_be_bytes_def)

lemma to_from_be_bytes [codec, simp]:
  "8 * length bs = LENGTH('a) \<Longrightarrow> to_be_bytes (from_be_bytes bs :: 'a::len word) = bs"
  by (simp add: from_be_bytes_def to_be_bytes_def)

lemma dvd_LENGTH [simp]:
  "8 dvd LENGTH(8)" "8 dvd LENGTH(16)" "8 dvd LENGTH(32)" "8 dvd LENGTH(64)" "8 dvd LENGTH(128)"
  by simp_all

lemma be16_bytes: "to_be_bytes (v :: u16) = [of_nat (unat v div 256 mod 256), of_nat (unat v mod 256)]"
proof -
  have "nat_le 2 x = [of_nat (x mod 256), of_nat (x div 256 mod 256)]" for x
    by (simp only: numeral_2_eq_2 nat_le.simps)
  then show ?thesis
    by (simp add: to_be_bytes_def to_le_bytes_def)
qed

section \<open>Field access\<close>

text \<open>Both accesses panic outside the array.\<close>

definition put_bytes :: "u8 list \<Rightarrow> nat \<Rightarrow> u8 list \<Rightarrow> u8 list option" where
  "put_bytes out offset bytes =
     (if offset + length bytes \<le> length out
      then Some (take offset out @ bytes @ drop (offset + length bytes) out) else None)"

definition take_bytes :: "nat \<Rightarrow> u8 list \<Rightarrow> nat \<Rightarrow> u8 list option" where
  "take_bytes m input offset =
     (if offset + m \<le> length input then Some (take m (drop offset input)) else None)"

text \<open>The idiom \<open>take::<1, N>(&b, i)[0]\<close>.\<close>

definition byte_at :: "u8 list \<Rightarrow> nat \<Rightarrow> u8 option" where
  "byte_at input offset = map_option (\<lambda>bs. bs ! 0) (take_bytes 1 input offset)"

lemma byte_at_eq: "byte_at bs i = (if i < length bs then Some (bs ! i) else None)"
  by (simp add: byte_at_def take_bytes_def)

section \<open>Lossless codecs\<close>

definition lossless :: "nat \<Rightarrow> ('a \<Rightarrow> bool) \<Rightarrow> ('a \<Rightarrow> u8 list option) \<Rightarrow> (u8 list \<Rightarrow> 'a option) \<Rightarrow> bool" where
  "lossless n ok enc dec \<longleftrightarrow>
     (\<forall>x. ok x \<longrightarrow> (\<exists>bs. enc x = Some bs \<and> length bs = n \<and> dec bs = Some x)) \<and>
     (\<forall>bs. length bs = n \<longrightarrow> (\<exists>x. dec bs = Some x \<and> ok x \<and> enc x = Some bs))"

locale map_bytes =
  fixes n :: nat
    and ok :: "'a \<Rightarrow> bool"
    and enc :: "'a \<Rightarrow> u8 list option"
    and dec :: "u8 list \<Rightarrow> 'a option"
  assumes enc_dec: "ok x \<Longrightarrow> \<exists>bs. enc x = Some bs \<and> length bs = n \<and> dec bs = Some x"
    and dec_enc: "length bs = n \<Longrightarrow> \<exists>x. dec bs = Some x \<and> ok x \<and> enc x = Some bs"
begin

lemma lossless_codec: "lossless n ok enc dec"
  using enc_dec dec_enc by (simp add: lossless_def)

lemma enc_length: "ok x \<Longrightarrow> enc x = Some bs \<Longrightarrow> length bs = n"
  using enc_dec by force

lemma dec_enc_eq: "ok x \<Longrightarrow> enc x = Some bs \<Longrightarrow> dec bs = Some x"
  using enc_dec by force

lemma dec_of_enc: "ok x \<Longrightarrow> Option.bind (enc x) dec = Some x"
  using enc_dec by force

lemma enc_of_dec: "length bs = n \<Longrightarrow> Option.bind (dec bs) enc = Some bs"
  using dec_enc by force

lemma enc_inj: "inj_on enc {x. ok x}"
  by (rule inj_onI) (metis dec_of_enc mem_Collect_eq option.inject)

lemma dec_inj: "inj_on dec {bs. length bs = n}"
  by (rule inj_onI) (metis enc_of_dec mem_Collect_eq option.inject)

end

section \<open>Evaluation\<close>

text \<open>
  An encoder fills a zeroed array from the front. Encoding what was decoded from \<open>bs\<close> keeps the
  written part equal to a prefix of \<open>bs\<close>.
\<close>

lemma put_first_slice [codec]:
  "m \<le> k \<Longrightarrow> m \<le> length bs \<Longrightarrow>
   put_bytes (replicate k 0) 0 (take m bs) = Some (take m bs @ replicate (k - m) 0)"
  by (simp add: put_bytes_def)

lemma put_next_slice [codec]:
  "i + m \<le> length bs \<Longrightarrow> m \<le> k \<Longrightarrow>
   put_bytes (take i bs @ replicate k 0) i (take m (drop i bs)) = Some (take (i + m) bs @ replicate (k - m) 0)"
  by (simp add: put_bytes_def take_add)

lemma put_last_slice [codec]:
  "length bs = i + k \<Longrightarrow> put_bytes (take i bs @ replicate k 0) i (drop i bs) = Some bs"
  by (simp add: put_bytes_def)

lemma put_last_byte [codec]:
  "length bs = Suc i \<Longrightarrow> put_bytes (take i bs @ [0]) i (drop i bs) = Some bs"
  by (simp add: put_bytes_def)

lemma put_only_slice [codec]: "length bs = k \<Longrightarrow> put_bytes (replicate k 0) 0 bs = Some bs"
  by (simp add: put_bytes_def)

lemma slice_1: "i < length bs \<Longrightarrow> [bs ! i] = take 1 (drop i bs)"
  by (simp add: take_Suc_conv_app_nth hd_drop_conv_nth take_Suc)

lemma slice_2: "Suc i < length bs \<Longrightarrow> [bs ! i, bs ! Suc i] = take 2 (drop i bs)"
  by (simp add: numeral_eq_Suc take_Suc_conv_app_nth)

lemma slice_3: "i + 2 < length bs \<Longrightarrow> [bs ! i, bs ! Suc i, bs ! (i + 2)] = take 3 (drop i bs)"
  by (simp add: numeral_eq_Suc take_Suc_conv_app_nth)

lemma slice_4: "i + 3 < length bs \<Longrightarrow> [bs ! i, bs ! Suc i, bs ! (i + 2), bs ! (i + 3)] = take 4 (drop i bs)"
  by (simp add: numeral_eq_Suc take_Suc_conv_app_nth)

lemma put_1_byte [codec]: "i < length bs \<Longrightarrow> put_bytes out i [bs ! i] = put_bytes out i (take 1 (drop i bs))"
  by (simp only: slice_1)

lemma put_2_bytes [codec]:
  "j = Suc i \<Longrightarrow> j < length bs \<Longrightarrow> put_bytes out i [bs ! i, bs ! j] = put_bytes out i (take 2 (drop i bs))"
  by (simp only: slice_2)

lemma put_3_bytes [codec]:
  "j = Suc i \<Longrightarrow> k = i + 2 \<Longrightarrow> k < length bs \<Longrightarrow>
   put_bytes out i [bs ! i, bs ! j, bs ! k] = put_bytes out i (take 3 (drop i bs))"
  by (simp only: slice_3)

lemma put_4_bytes [codec]:
  "j = Suc i \<Longrightarrow> k = i + 2 \<Longrightarrow> l = i + 3 \<Longrightarrow> l < length bs \<Longrightarrow>
   put_bytes out i [bs ! i, bs ! j, bs ! k, bs ! l] = put_bytes out i (take 4 (drop i bs))"
  by (simp only: slice_4)

lemmas decoding = byte_at_eq take_bytes_def
lemmas encoding = put_bytes_def byte_at_eq take_bytes_def nth_append

end
