(* ===== verification/Numeric.thy ===== *)
theory Numeric
  imports Bytes
begin

text \<open>
  Numeric security identities, \<open>flowsdn-identity/src/numeric.rs\<close>: the scopes of a 32-bit identity,
  the reserved numbers, the 24-bit wire form and the ClusterMesh encoding that splits the global
  identities between clusters. A \<open>NumericIdentity\<close> is its number, \<open>ni_ok\<close> what its constructor checks.
\<close>

section \<open>Identities\<close>

datatype scope = ScopeGlobal | ScopeLocal | ScopeRemoteNode

datatype identity_error =
    ExceedsU32 | UnsupportedScope | EmptyScopedIdentity | InvalidScopeIndex | ScopedIdentityOnWire
  | InvalidClusterLimit | InvalidClusterId | ClusterUnset | MarkCollision
  | ScopedIdentityHasNoGlobalCluster | OutsideAllocationRange

type_synonym numeric_identity = u32

definition WIRE_MAX :: u32 where
  "WIRE_MAX = 0x00ffffff"

definition FIRST_ALLOCATED_GLOBAL :: u32 where
  "FIRST_ALLOCATED_GLOBAL = 256"

definition ni_new :: "u32 \<Rightarrow> identity_error + numeric_identity" where
  "ni_new v =
     (let scope = drop_bit 24 v in
      if scope = 0 then Inr v
      else if scope = 1 \<or> scope = 2 then
        if v AND WIRE_MAX \<noteq> 0 then Inr v else Inl EmptyScopedIdentity
      else Inl UnsupportedScope)"

definition ni_scope :: "numeric_identity \<Rightarrow> scope" where
  "ni_scope i =
     (let scope = drop_bit 24 i in
      if scope = 0 then ScopeGlobal else if scope = 1 then ScopeLocal else ScopeRemoteNode)"

definition ni_scoped :: "u32 \<Rightarrow> u32 \<Rightarrow> identity_error + numeric_identity" where
  "ni_scoped index scope =
     (if index = 0 then Inl EmptyScopedIdentity
      else if WIRE_MAX < index then Inl InvalidScopeIndex
      else Inr (scope OR index))"

definition ni_local :: "u32 \<Rightarrow> identity_error + numeric_identity" where
  "ni_local index = ni_scoped index 0x01000000"

definition ni_remote_node :: "u32 \<Rightarrow> identity_error + numeric_identity" where
  "ni_remote_node index = ni_scoped index 0x02000000"

definition ni_from_le_bytes :: "u8 list \<Rightarrow> identity_error + numeric_identity" where
  "ni_from_le_bytes bytes = ni_new (from_le_bytes bytes)"

definition ni_to_le_bytes :: "numeric_identity \<Rightarrow> u8 list" where
  "ni_to_le_bytes i = to_le_bytes i"

definition ni_from_be_bytes :: "u8 list \<Rightarrow> identity_error + numeric_identity" where
  "ni_from_be_bytes bytes = ni_new (from_be_bytes bytes)"

definition ni_to_be_bytes :: "numeric_identity \<Rightarrow> u8 list" where
  "ni_to_be_bytes i = to_be_bytes i"

definition ni_is_cidr :: "numeric_identity \<Rightarrow> bool" where
  "ni_is_cidr i \<longleftrightarrow> ni_scope i = ScopeLocal"

definition ni_is_world :: "numeric_identity \<Rightarrow> bool" where
  "ni_is_world i \<longleftrightarrow> i = 2 \<or> i = 9 \<or> i = 10 \<or> ni_is_cidr i"

definition ni_try_from_u64 :: "u64 \<Rightarrow> identity_error + numeric_identity" where
  "ni_try_from_u64 v = (if 2 ^ 32 \<le> unat v then Inl ExceedsU32 else ni_new (ucast v))"

section \<open>Reserved identities\<close>

datatype reserved_identity =
    RUnknown | RHost | RWorld | RUnmanaged | RHealth | RInit | RRemoteNode | RKubeApiserver | RIngress
  | RWorldIpv4 | RWorldIpv6 | RAggregateCluster | RAggregateClusterMesh | RAggregateWorld
  | RAggregateRemoteNode

text \<open>The table of the macro \<open>reserved\<close>: variant, number and name.\<close>

definition reserved_table :: "(reserved_identity \<times> u32 \<times> string) list" where
  "reserved_table =
     [(RUnknown, 0, ''unknown''), (RHost, 1, ''host''), (RWorld, 2, ''world''),
      (RUnmanaged, 3, ''unmanaged''), (RHealth, 4, ''health''), (RInit, 5, ''init''),
      (RRemoteNode, 6, ''remote-node''), (RKubeApiserver, 7, ''kube-apiserver''),
      (RIngress, 8, ''ingress''), (RWorldIpv4, 9, ''world-ipv4''), (RWorldIpv6, 10, ''world-ipv6''),
      (RAggregateCluster, 11, ''aggregate-cluster''),
      (RAggregateClusterMesh, 12, ''aggregate-cluster-mesh''),
      (RAggregateWorld, 13, ''aggregate-world''), (RAggregateRemoteNode, 14, ''aggregate-remote-node'')]"

fun ri_numeric :: "reserved_identity \<Rightarrow> numeric_identity" where
  "ri_numeric RUnknown = 0"
| "ri_numeric RHost = 1"
| "ri_numeric RWorld = 2"
| "ri_numeric RUnmanaged = 3"
| "ri_numeric RHealth = 4"
| "ri_numeric RInit = 5"
| "ri_numeric RRemoteNode = 6"
| "ri_numeric RKubeApiserver = 7"
| "ri_numeric RIngress = 8"
| "ri_numeric RWorldIpv4 = 9"
| "ri_numeric RWorldIpv6 = 10"
| "ri_numeric RAggregateCluster = 11"
| "ri_numeric RAggregateClusterMesh = 12"
| "ri_numeric RAggregateWorld = 13"
| "ri_numeric RAggregateRemoteNode = 14"

definition ri_from_number :: "u32 \<Rightarrow> reserved_identity option" where
  "ri_from_number number = map_option fst (find (\<lambda>(_, n, _). n = number) reserved_table)"

definition ri_from_name :: "string \<Rightarrow> reserved_identity option" where
  "ri_from_name name = map_option fst (find (\<lambda>(_, _, t). t = name) reserved_table)"

definition ri_name :: "reserved_identity \<Rightarrow> string" where
  "ri_name r = (case find (\<lambda>(v, _, _). v = r) reserved_table of Some (_, _, t) \<Rightarrow> t | None \<Rightarrow> [])"

datatype identity_class =
    ClassReserved reserved_identity | ClassUnallocatedReserved | ClassDeprecatedReserved
  | ClassWellKnown | ClassUserReserved | ClassGlobal | ClassLocal | ClassRemoteNode

definition ni_class :: "numeric_identity \<Rightarrow> identity_class" where
  "ni_class i =
     (case ni_scope i of
        ScopeLocal \<Rightarrow> ClassLocal
      | ScopeRemoteNode \<Rightarrow> ClassRemoteNode
      | ScopeGlobal \<Rightarrow>
          (case ri_from_number i of
             Some r \<Rightarrow> ClassReserved r
           | None \<Rightarrow>
               if i = 100 \<or> i = 101 \<or> 107 \<le> i \<and> i \<le> 109 \<or> i = 115 then ClassDeprecatedReserved
               else if 102 \<le> i \<and> i \<le> 106 \<or> 110 \<le> i \<and> i \<le> 114 then ClassWellKnown
               else if 128 \<le> i \<and> i \<le> 255 then ClassUserReserved
               else if 256 \<le> i then ClassGlobal
               else ClassUnallocatedReserved))"

definition ALL_AGGREGATES :: "reserved_identity list" where
  "ALL_AGGREGATES = [RUnknown, RAggregateRemoteNode, RAggregateWorld, RAggregateCluster, RAggregateClusterMesh]"

section \<open>The wire form\<close>

datatype ip_family = FamilyV4 | FamilyV6

type_synonym wire_identity = u32

definition ni_tunnel_id :: "numeric_identity \<Rightarrow> identity_error + wire_identity" where
  "ni_tunnel_id i =
     (if WIRE_MAX < i then Inl ScopedIdentityOnWire
      else Inr (if i = 9 \<or> i = 10 then 2 else i))"

definition wi_new :: "numeric_identity \<Rightarrow> identity_error + wire_identity" where
  "wi_new i = (if WIRE_MAX < i then Inl ScopedIdentityOnWire else Inr i)"

definition wi_to_be_bytes :: "wire_identity \<Rightarrow> u8 list" where
  "wi_to_be_bytes w = tl (to_be_bytes w)"

definition wi_from_be_bytes :: "u8 list \<Rightarrow> wire_identity" where
  "wi_from_be_bytes bytes = from_be_bytes (0 # bytes)"

definition wi_received :: "wire_identity \<Rightarrow> ip_family \<Rightarrow> bool \<Rightarrow> numeric_identity" where
  "wi_received w family dual_stack =
     (if w = 2 \<and> dual_stack then (case family of FamilyV4 \<Rightarrow> 9 | FamilyV6 \<Rightarrow> 10) else w)"

section \<open>Cluster encoding\<close>

record allocation_range =
  ar_min :: numeric_identity
  ar_max :: numeric_identity

definition ar_contains :: "allocation_range \<Rightarrow> numeric_identity \<Rightarrow> bool" where
  "ar_contains r i \<longleftrightarrow> ar_min r \<le> i \<and> i \<le> ar_max r"

record cluster_encoding =
  ce_max_clusters :: u16
  ce_shift :: nat

definition ce_new :: "u16 \<Rightarrow> identity_error + cluster_encoding" where
  "ce_new max_clusters =
     (if max_clusters = 255 then Inr \<lparr>ce_max_clusters = max_clusters, ce_shift = 16\<rparr>
      else if max_clusters = 511 then Inr \<lparr>ce_max_clusters = max_clusters, ce_shift = 15\<rparr>
      else Inl InvalidClusterLimit)"

definition ce_index_mask :: "cluster_encoding \<Rightarrow> u32" where
  "ce_index_mask e = (if ce_shift e = 16 then 0xffff else 0x7fff)"

definition ce_validate_cluster :: "cluster_encoding \<Rightarrow> u16 \<Rightarrow> identity_error + unit" where
  "ce_validate_cluster e cluster = (if ce_max_clusters e < cluster then Inl InvalidClusterId else Inr ())"

definition ce_validate_meshing :: "cluster_encoding \<Rightarrow> u16 \<Rightarrow> bool \<Rightarrow> identity_error + unit" where
  "ce_validate_meshing e cluster mark_sensitive =
     (case ce_validate_cluster e cluster of
        Inl err \<Rightarrow> Inl err
      | Inr _ \<Rightarrow>
          if cluster = 0 then Inl ClusterUnset
          else if mark_sensitive \<and> cluster AND 0x80 \<noteq> 0 then Inl MarkCollision
          else Inr ())"

definition ce_allocation_range :: "cluster_encoding \<Rightarrow> u16 \<Rightarrow> identity_error + allocation_range" where
  "ce_allocation_range e cluster =
     (case ce_validate_cluster e cluster of
        Inl err \<Rightarrow> Inl err
      | Inr _ \<Rightarrow>
          (let prefix = push_bit (ce_shift e) (ucast cluster) in
           Inr \<lparr>ar_min = (if cluster = 0 then FIRST_ALLOCATED_GLOBAL else prefix),
                ar_max = prefix OR ce_index_mask e\<rparr>))"

definition ce_global :: "cluster_encoding \<Rightarrow> u16 \<Rightarrow> u32 \<Rightarrow> identity_error + numeric_identity" where
  "ce_global e cluster index =
     (case ce_allocation_range e cluster of
        Inl err \<Rightarrow> Inl err
      | Inr rng \<Rightarrow>
          if ce_index_mask e < index then Inl OutsideAllocationRange
          else let identity = push_bit (ce_shift e) (ucast cluster) OR index in
            if ar_contains rng identity then Inr identity else Inl OutsideAllocationRange)"

text \<open>The conversion to \<open>u16\<close> would panic on a larger number; \<open>None\<close> is that panic.\<close>

definition ce_global_cluster_id :: "cluster_encoding \<Rightarrow> numeric_identity \<Rightarrow> (identity_error + u16) option" where
  "ce_global_cluster_id e identity =
     (if ni_scope identity \<noteq> ScopeGlobal then Some (Inl ScopedIdentityHasNoGlobalCluster)
      else let n = drop_bit (ce_shift e) identity AND ucast (ce_max_clusters e) in
        if unat n < 2 ^ 16 then Some (Inr (ucast n)) else None)"

definition ce_validate_remote_allocated :: "cluster_encoding \<Rightarrow> u16 \<Rightarrow> numeric_identity \<Rightarrow> identity_error + unit" where
  "ce_validate_remote_allocated e cluster identity =
     (case ce_validate_meshing e cluster False of
        Inl err \<Rightarrow> Inl err
      | Inr _ \<Rightarrow>
          (case ce_allocation_range e cluster of
             Inl err \<Rightarrow> Inl err
           | Inr rng \<Rightarrow>
               if ar_contains rng identity then Inr () else Inl OutsideAllocationRange))"

definition ce_validate_remote_ipcache :: "cluster_encoding \<Rightarrow> u16 \<Rightarrow> numeric_identity \<Rightarrow> identity_error + unit" where
  "ce_validate_remote_ipcache e cluster identity =
     (case ce_validate_meshing e cluster False of
        Inl err \<Rightarrow> Inl err
      | Inr _ \<Rightarrow>
          if identity < FIRST_ALLOCATED_GLOBAL then Inr ()
          else
            (case ce_allocation_range e cluster of
               Inl err \<Rightarrow> Inl err
             | Inr rng \<Rightarrow>
                 if ar_contains rng identity then Inr () else Inl OutsideAllocationRange))"

text \<open>The outer \<open>None\<close> stands for the panics of the two \<open>expect\<close> calls it reaches.\<close>

definition ce_aggregate_for :: "cluster_encoding \<Rightarrow> numeric_identity \<Rightarrow> u16 \<Rightarrow> (identity_error + reserved_identity) option" where
  "ce_aggregate_for e identity local_cluster =
     (case ce_validate_cluster e local_cluster of
        Inl err \<Rightarrow> Some (Inl err)
      | Inr _ \<Rightarrow>
          if identity = 0 \<or> 11 \<le> identity \<and> identity \<le> 14 then map_option Inr (ri_from_number identity)
          else
            (case ni_scope identity of
               ScopeLocal \<Rightarrow> Some (Inr RAggregateWorld)
             | ScopeRemoteNode \<Rightarrow> Some (Inr RAggregateRemoteNode)
             | ScopeGlobal \<Rightarrow>
                 if identity < 100 then Some (Inr RUnknown)
                 else
                   (case ce_global_cluster_id e identity of
                      None \<Rightarrow> None
                    | Some (Inl err) \<Rightarrow> Some (Inl err)
                    | Some (Inr c) \<Rightarrow>
                        Some (Inr (if c = local_cluster then RAggregateCluster else RAggregateClusterMesh)))))"

section \<open>Scopes and reserved numbers\<close>

lemma WIRE_MAX_nat: "unat WIRE_MAX = 2 ^ 24 - 1"
  by (simp add: WIRE_MAX_def)

lemma scope_global [simp]: "ni_scope i = ScopeGlobal \<longleftrightarrow> i \<le> WIRE_MAX"
proof -
  have "drop_bit 24 i = 0 \<longleftrightarrow> unat i div 2 ^ 24 = 0"
    by (simp add: word_unat_eq_iff unat_drop_bit)
  then show ?thesis
    by (auto simp: ni_scope_def Let_def word_le_nat_alt WIRE_MAX_nat div_eq_0_iff)
qed

lemma global_valid: "i \<le> WIRE_MAX \<Longrightarrow> ni_new i = Inr i"
  using scope_global [of i] by (auto simp: ni_scope_def ni_new_def Let_def split: if_splits)

lemma ri_name_eq: "ri_name r = (case r of
    RUnknown \<Rightarrow> ''unknown'' | RHost \<Rightarrow> ''host'' | RWorld \<Rightarrow> ''world'' | RUnmanaged \<Rightarrow> ''unmanaged''
  | RHealth \<Rightarrow> ''health'' | RInit \<Rightarrow> ''init'' | RRemoteNode \<Rightarrow> ''remote-node''
  | RKubeApiserver \<Rightarrow> ''kube-apiserver'' | RIngress \<Rightarrow> ''ingress'' | RWorldIpv4 \<Rightarrow> ''world-ipv4''
  | RWorldIpv6 \<Rightarrow> ''world-ipv6'' | RAggregateCluster \<Rightarrow> ''aggregate-cluster''
  | RAggregateClusterMesh \<Rightarrow> ''aggregate-cluster-mesh'' | RAggregateWorld \<Rightarrow> ''aggregate-world''
  | RAggregateRemoteNode \<Rightarrow> ''aggregate-remote-node'')"
  by (cases r) (simp_all add: ri_name_def reserved_table_def)

lemma reserved_table_rows: "(v, n, t) \<in> set reserved_table \<Longrightarrow> n = ri_numeric v \<and> t = ri_name v"
  by (cases v) (simp_all add: reserved_table_def ri_name_eq)

lemma ri_from_number_spec: "ri_from_number n = Some r \<longleftrightarrow> n = ri_numeric r"
proof
  assume "ri_from_number n = Some r"
  then show "n = ri_numeric r"
    by (auto simp: ri_from_number_def find_Some_iff dest!: nth_mem reserved_table_rows)
next
  assume "n = ri_numeric r"
  then show "ri_from_number n = Some r"
    by (cases r) (simp_all add: ri_from_number_def reserved_table_def)
qed

lemma ri_from_name_spec: "ri_from_name t = Some r \<longleftrightarrow> t = ri_name r"
proof
  assume "ri_from_name t = Some r"
  then show "t = ri_name r"
    by (auto simp: ri_from_name_def find_Some_iff dest!: nth_mem reserved_table_rows)
next
  assume "t = ri_name r"
  then show "ri_from_name t = Some r"
    by (cases r) (simp_all add: ri_from_name_def reserved_table_def ri_name_eq)
qed

section \<open>The split of the global identities\<close>

lemma ce_new_cases:
  assumes "ce_new m = Inr e"
  obtains "e = \<lparr>ce_max_clusters = 255, ce_shift = 16\<rparr>" | "e = \<lparr>ce_max_clusters = 511, ce_shift = 15\<rparr>"
  using assms by (auto simp: ce_new_def split: if_splits)

lemma unat_prefix_or:
  assumes "unat c * 2 ^ n + 2 ^ n \<le> 2 ^ 32" and "unat i < 2 ^ n"
  shows "unat (push_bit n (ucast (c :: u16)) OR i :: u32) = unat c * 2 ^ n + unat i"
proof -
  have p: "unat (push_bit n (ucast c) :: u32) = unat c * 2 ^ n"
    using assms unat_push_bit_of_nat [of "unat c" n, where 'a = 32] by simp
  then have "push_bit n (ucast c) OR i = push_bit n (ucast c) + i"
    using assms by (intro or_aligned_add [of n]) simp_all
  moreover have "unat (push_bit n (ucast c) :: u32) + unat i < 2 ^ LENGTH(32)"
    using assms unfolding p by simp
  ultimately show ?thesis
    using p by (simp add: unat_add_no_wrap)
qed

lemma cluster_number:
  assumes "i \<le> WIRE_MAX" and "ce_new m = Inr e"
  shows "\<exists>c. ce_global_cluster_id e i = Some (Inr c) \<and> unat c = unat i div 2 ^ ce_shift e \<and> c \<le> ce_max_clusters e"
proof -
  define n where "n = drop_bit (ce_shift e) i"
  have n: "unat n = unat i div 2 ^ ce_shift e"
    by (simp only: n_def unat_drop_bit)
  have i: "unat i < 2 ^ 24"
    using assms(1) by (simp add: word_le_nat_alt WIRE_MAX_nat)
  have b: "unat n < 2 ^ (24 - ce_shift e)"
    using i n by (cases rule: ce_new_cases [OF assms(2)]) (simp_all add: less_mult_imp_div_less)
  have k: "(ucast (ce_max_clusters e) :: u32) = mask (24 - ce_shift e)"
    by (cases rule: ce_new_cases [OF assms(2)]) (simp_all add: mask_eq_exp_minus_1)
  have "n AND ucast (ce_max_clusters e) = n"
    unfolding k using b by (simp add: word_unat_eq_iff unsigned_take_bit_eq take_bit_nat_eq_self flip: take_bit_eq_mask)
  moreover have "unat n < 2 ^ 16"
    using b by (cases rule: ce_new_cases [OF assms(2)]) simp_all
  moreover have "unat (ucast n :: u16) = unat n"
    using \<open>unat n < 2 ^ 16\<close> by (simp add: unsigned_ucast_eq take_bit_nat_eq_self)
  moreover have "unat n \<le> unat (ce_max_clusters e)"
    using b by (cases rule: ce_new_cases [OF assms(2)]) simp_all
  ultimately show ?thesis
    using assms(1) n by (simp add: ce_global_cluster_id_def Let_def word_le_nat_alt flip: n_def)
qed

lemma range_contains:
  assumes "ce_new m = Inr e" and "c \<le> ce_max_clusters e"
  shows "\<exists>r. ce_allocation_range e c = Inr r \<and>
    (\<forall>i. ar_contains r i \<longleftrightarrow> 256 \<le> i \<and> unat i div 2 ^ ce_shift e = unat c)"
proof -
  let ?s = "ce_shift e"
  have c: "unat c * 2 ^ ?s + 2 ^ ?s \<le> 2 ^ 32"
    using assms(2) by (cases rule: ce_new_cases [OF assms(1)]) (simp_all add: word_le_nat_alt)
  have m: "unat (ce_index_mask e) = 2 ^ ?s - 1" and s: "256 \<le> (2 :: nat) ^ ?s"
    by (cases rule: ce_new_cases [OF assms(1)]; simp add: ce_index_mask_def)+
  have p: "unat (push_bit ?s (ucast c) :: u32) = unat c * 2 ^ ?s"
    using unat_prefix_or [of c ?s 0] c by simp
  have q: "unat (push_bit ?s (ucast c) OR ce_index_mask e) = unat c * 2 ^ ?s + (2 ^ ?s - 1)"
    using unat_prefix_or [of c ?s "ce_index_mask e"] c by (simp add: m)
  have d: "unat i div 2 ^ ?s = unat c \<longleftrightarrow> unat c * 2 ^ ?s \<le> unat i \<and> unat i \<le> unat c * 2 ^ ?s + (2 ^ ?s - 1)" for i :: u32
    using s by (auto simp: div_eq_iff_between)
  have z: "c \<noteq> 0 \<Longrightarrow> 256 \<le> unat c * 2 ^ ?s"
    using s mult_le_mono [of 1 "unat c" 256 "2 ^ ?s"] by (simp add: unat_gt_0 Suc_leI)
  show ?thesis
    using assms(2) z
    by (auto simp: ce_allocation_range_def ce_validate_cluster_def Let_def ar_contains_def word_le_nat_alt word_less_nat_alt p q d
        FIRST_ALLOCATED_GLOBAL_def)
qed

lemma ce_global_spec:
  assumes "ce_new m = Inr e"
  shows "ce_global e c i = Inr d \<longleftrightarrow>
    c \<le> ce_max_clusters e \<and> i \<le> ce_index_mask e \<and> 256 \<le> d \<and> unat d = unat c * 2 ^ ce_shift e + unat i"
proof (cases "c \<le> ce_max_clusters e \<and> i \<le> ce_index_mask e")
  case True
  let ?s = "ce_shift e"
  let ?d = "push_bit ?s (ucast c) OR i"
  have c: "unat c * 2 ^ ?s + 2 ^ ?s \<le> 2 ^ 32" and i: "unat i < 2 ^ ?s"
    using True by (cases rule: ce_new_cases [OF assms]; simp add: word_le_nat_alt ce_index_mask_def)+
  obtain r where r: "ce_allocation_range e c = Inr r"
      "\<And>i. ar_contains r i \<longleftrightarrow> 256 \<le> i \<and> unat i div 2 ^ ?s = unat c"
    using range_contains [OF assms, of c] True by blast
  have d: "unat ?d = unat c * 2 ^ ?s + unat i"
    by (rule unat_prefix_or [OF c i])
  then have "ce_global e c i = (if 256 \<le> ?d then Inr ?d else Inl OutsideAllocationRange)"
    using True r i by (auto simp: ce_global_def Let_def)
  then show ?thesis
    using True d by (auto simp: word_unat_eq_iff word_le_nat_alt)
next
  case False
  then show ?thesis
    by (auto simp: ce_global_def ce_allocation_range_def ce_validate_cluster_def Let_def not_le split: sum.splits if_splits)
qed

lemma index_of_global:
  assumes "ce_new m = Inr e"
  shows "unat (d AND ce_index_mask e) = unat d mod 2 ^ ce_shift e"
proof -
  have "ce_index_mask e = mask (ce_shift e)"
    by (cases rule: ce_new_cases [OF assms]) (simp_all add: ce_index_mask_def mask_eq_exp_minus_1)
  then show ?thesis
    by (simp only: take_bit_eq_mask [symmetric] unsigned_take_bit_eq) (simp only: take_bit_eq_mod)
qed

lemma encoded_iff:
  assumes "ce_new m = Inr e"
  shows "(\<exists>i. ce_global e c i = Inr d) \<longleftrightarrow> c \<le> ce_max_clusters e \<and> 256 \<le> d \<and> unat d div 2 ^ ce_shift e = unat c"
    (is "?l \<longleftrightarrow> ?r")
proof
  assume ?l
  then obtain i where "c \<le> ce_max_clusters e" "256 \<le> d" "i \<le> ce_index_mask e"
      "unat d = unat c * 2 ^ ce_shift e + unat i"
    using ce_global_spec [OF assms] by blast
  then show ?r
    by (cases rule: ce_new_cases [OF assms]) (simp_all add: ce_index_mask_def word_le_nat_alt)
next
  assume ?r
  then have "unat d = unat c * 2 ^ ce_shift e + unat (d AND ce_index_mask e)"
    by (simp only: index_of_global [OF assms]) (metis div_mult_mod_eq)
  moreover have "d AND ce_index_mask e \<le> ce_index_mask e"
    by (rule word_and_le1)
  ultimately have "ce_global e c (d AND ce_index_mask e) = Inr d"
    using \<open>?r\<close> ce_global_spec [OF assms] by blast
  then show ?l ..
qed

lemma cluster_bound:
  assumes "ce_new m = Inr e" and "c \<le> ce_max_clusters e" and "unat d div 2 ^ ce_shift e = unat c"
  shows "d \<le> WIRE_MAX"
proof -
  have "unat d div 2 ^ ce_shift e < 2 ^ (24 - ce_shift e)"
    using assms(2,3) by (cases rule: ce_new_cases [OF assms(1)]) (simp_all add: word_le_nat_alt)
  then have "unat d < 2 ^ 24"
    by (cases rule: ce_new_cases [OF assms(1)]) (simp_all add: div_less_iff_less_mult)
  then show ?thesis
    by (simp add: word_le_nat_alt WIRE_MAX_nat)
qed

lemma remote_allocated_iff:
  assumes "ce_new m = Inr e"
  shows "ce_validate_remote_allocated e c d = Inr () \<longleftrightarrow>
    c \<noteq> 0 \<and> c \<le> ce_max_clusters e \<and> 256 \<le> d \<and> unat d div 2 ^ ce_shift e = unat c"
proof (cases "c \<le> ce_max_clusters e")
  case True
  from range_contains [OF assms True] obtain r where r: "ce_allocation_range e c = Inr r \<and>
      (\<forall>i. ar_contains r i \<longleftrightarrow> 256 \<le> i \<and> unat i div 2 ^ ce_shift e = unat c)" ..
  show ?thesis
  proof (cases "c = 0")
    case False
    moreover have "\<not> ce_max_clusters e < c"
      using True by simp
    ultimately show ?thesis
      using True r by (simp add: ce_validate_remote_allocated_def ce_validate_meshing_def ce_validate_cluster_def)
  qed (simp add: ce_validate_remote_allocated_def ce_validate_meshing_def ce_validate_cluster_def split: sum.split)
next
  case False
  then show ?thesis
    by (simp add: ce_validate_remote_allocated_def ce_validate_meshing_def ce_validate_cluster_def not_le)
qed

text \<open>
  C37. The cluster encodings split the global identities: exactly the numbers from 256 to the
  largest 24-bit number are encoded by some cluster and index, the cluster and the index are read
  back from the number, and a remote cluster may announce an allocated identity exactly when the
  number carries its own nonzero cluster.
\<close>

theorem cluster_split:
  assumes "ce_new m = Inr e"
  shows "((\<exists>c i. ce_global e c i = Inr d) \<longleftrightarrow> 256 \<le> d \<and> ni_scope d = ScopeGlobal) \<and>
    (\<forall>c i. ce_global e c i = Inr d \<longrightarrow>
       ce_global_cluster_id e d = Some (Inr c) \<and> d AND ce_index_mask e = i \<and> ni_new d = Inr d) \<and>
    (\<forall>c. ce_validate_remote_allocated e c d = Inr () \<longleftrightarrow> c \<noteq> 0 \<and> (\<exists>i. ce_global e c i = Inr d))"
proof (intro conjI allI impI)
  show "(\<exists>c i. ce_global e c i = Inr d) \<longleftrightarrow> 256 \<le> d \<and> ni_scope d = ScopeGlobal"
    using encoded_iff [OF assms] cluster_bound [OF assms] cluster_number [OF _ assms, of d]
    by (metis scope_global)
next
  fix c i
  assume g: "ce_global e c i = Inr d"
  then have *: "c \<le> ce_max_clusters e" "256 \<le> d" "unat d div 2 ^ ce_shift e = unat c"
    using encoded_iff [OF assms, of c d] by blast+
  then have w: "d \<le> WIRE_MAX"
    using cluster_bound [OF assms] by blast
  then show "ce_global_cluster_id e d = Some (Inr c)" and "ni_new d = Inr d"
    using cluster_number [OF w assms] *(3) global_valid by (auto simp: word_unat_eq_iff)
  have "unat d = unat c * 2 ^ ce_shift e + unat i"
    using g ce_global_spec [OF assms] by blast
  then have "unat i = unat d mod 2 ^ ce_shift e"
    using *(3) by (metis add_left_cancel div_mult_mod_eq)
  then show "d AND ce_index_mask e = i"
    using index_of_global [OF assms] by (simp add: word_unat_eq_iff)
next
  fix c
  show "ce_validate_remote_allocated e c d = Inr () \<longleftrightarrow> c \<noteq> 0 \<and> (\<exists>i. ce_global e c i = Inr d)"
    using encoded_iff [OF assms, of c d] remote_allocated_iff [OF assms, of c d] by blast
qed

theorem cluster_split_witness:
  "ce_new 511 = Inr \<lparr>ce_max_clusters = 511, ce_shift = 15\<rparr> \<and>
   ce_global \<lparr>ce_max_clusters = 511, ce_shift = 15\<rparr> 3 7 = Inr 98311 \<and>
   ce_global_cluster_id \<lparr>ce_max_clusters = 511, ce_shift = 15\<rparr> 98311 = Some (Inr 3)"
proof -
  have e: "ce_new 511 = Inr \<lparr>ce_max_clusters = 511, ce_shift = 15\<rparr>"
    by (simp add: ce_new_def)
  have g: "ce_global \<lparr>ce_max_clusters = 511, ce_shift = 15\<rparr> 3 7 = Inr 98311"
    by (simp add: ce_global_def ce_allocation_range_def ce_validate_cluster_def ce_index_mask_def ar_contains_def
        push_bit_eq_mult Let_def)
  show ?thesis
    using cluster_split [OF e, of 98311] e g by blast
qed

lemma aggregate_numbers: "11 \<le> d \<and> d \<le> 14 \<Longrightarrow> d = 11 \<or> d = 12 \<or> d = 13 \<or> d = 14" for d :: u32
proof -
  assume "11 \<le> d \<and> d \<le> 14"
  then have "11 \<le> unat d" "unat d \<le> 14"
    by (simp_all add: word_le_nat_alt)
  then have "unat d = 11 \<or> unat d = 12 \<or> unat d = 13 \<or> unat d = 14"
    by linarith
  then show ?thesis
    by (simp add: word_unat_eq_iff)
qed

lemma aggregate_fix:
  "c \<le> ce_max_clusters e \<Longrightarrow> r \<in> set ALL_AGGREGATES \<Longrightarrow> ce_aggregate_for e (ri_numeric r) c = Some (Inr r)"
  using ri_from_number_spec [of "ri_numeric r" r]
  by (auto simp: ALL_AGGREGATES_def ce_aggregate_for_def ce_validate_cluster_def not_less)

lemma aggregate_ex:
  assumes "ce_new m = Inr e" and "c \<le> ce_max_clusters e"
  shows "\<exists>r \<in> set ALL_AGGREGATES. ce_aggregate_for e d c = Some (Inr r)"
proof (cases "d = 0 \<or> 11 \<le> d \<and> d \<le> 14")
  case True
  then have "d \<in> {0, 11, 12, 13, 14}"
    using aggregate_numbers by blast
  then have "d \<in> ri_numeric ` set ALL_AGGREGATES"
    by (auto simp: ALL_AGGREGATES_def)
  then show ?thesis
    using aggregate_fix [OF assms(2)] by blast
next
  case False
  have n: "\<not> ce_max_clusters e < c"
    using assms(2) by simp
  show ?thesis
  proof (cases "d \<le> WIRE_MAX")
    case True
    from cluster_number [OF this assms(1)] obtain k where "ce_global_cluster_id e d = Some (Inr k)"
      by blast
    moreover have "ni_scope d = ScopeGlobal"
      using True by simp
    ultimately show ?thesis
      using False n by (auto simp: ce_aggregate_for_def ce_validate_cluster_def ALL_AGGREGATES_def simp del: scope_global)
  next
    case w: False
    then have "ni_scope d = ScopeLocal \<or> ni_scope d = ScopeRemoteNode"
      by (metis scope.exhaust scope_global)
    then show ?thesis
      using False n by (auto simp: ce_aggregate_for_def ce_validate_cluster_def ALL_AGGREGATES_def simp del: scope_global)
  qed
qed

text \<open>
  Every identity of an encoding has an aggregate for every valid local cluster: the
  computation neither fails nor panics, its result is one of the aggregate identities, and an
  aggregate identity is its own aggregate.
\<close>

theorem aggregate_total:
  assumes "ce_new m = Inr e" and "c \<le> ce_max_clusters e"
  shows "\<exists>r \<in> set ALL_AGGREGATES. ce_aggregate_for e d c = Some (Inr r) \<and>
    ce_aggregate_for e (ri_numeric r) c = Some (Inr r)"
  using aggregate_ex [OF assms] aggregate_fix [OF assms(2)] by blast

theorem aggregate_total_witness:
  "\<exists>r \<in> set ALL_AGGREGATES.
     ce_aggregate_for \<lparr>ce_max_clusters = 255, ce_shift = 16\<rparr> 300 7 = Some (Inr r)"
  using aggregate_total [of 255 "\<lparr>ce_max_clusters = 255, ce_shift = 16\<rparr>" 7 300] by (auto simp: ce_new_def)

lemma wire_top_byte: "w \<le> WIRE_MAX \<Longrightarrow> \<exists>t. to_be_bytes w = 0 # t \<and> length t = 3"
proof -
  assume "w \<le> WIRE_MAX"
  then have "unat w div 256 ^ 3 = 0"
    by (simp add: word_le_nat_alt WIRE_MAX_nat)
  then have "nat_le (Suc 3) (unat w) = nat_le 3 (unat w) @ [0]"
    unfolding nat_le_snoc by simp
  then show ?thesis
    by (simp add: to_be_bytes_def to_le_bytes_def)
qed

text \<open>
  An identity travels in a tunnel exactly when it is global: its three bytes decode to the
  number that was sent, and the receiver gets the same identity back, up to the world identities,
  which a dual-stack receiver splits by the family of the packet.
\<close>

theorem tunnel_round_trip:
  "case ni_tunnel_id i of
     Inl err \<Rightarrow> err = ScopedIdentityOnWire \<and> ni_scope i \<noteq> ScopeGlobal
   | Inr w \<Rightarrow> ni_scope i = ScopeGlobal \<and> length (wi_to_be_bytes w) = 3 \<and>
       wi_received (wi_from_be_bytes (wi_to_be_bytes w)) family dual =
         (if i \<in> {2, 9, 10} then if dual then (case family of FamilyV4 \<Rightarrow> 9 | FamilyV6 \<Rightarrow> 10) else 2 else i)"
proof -
  show ?thesis
  proof (cases "i \<le> WIRE_MAX")
    case True
    define w where "w = (if i = 9 \<or> i = 10 then 2 else i)"
    have "w \<le> WIRE_MAX"
      using True by (simp add: w_def WIRE_MAX_def)
    then obtain t where t: "to_be_bytes w = 0 # t" "length t = 3"
      using wire_top_byte by blast
    then have "wi_from_be_bytes (wi_to_be_bytes w) = w"
      using from_to_be_bytes [of w] by (simp add: wi_from_be_bytes_def wi_to_be_bytes_def)
    then show ?thesis
      using True t by (auto simp: ni_tunnel_id_def wi_to_be_bytes_def wi_received_def w_def not_less split: ip_family.split)
  next
    case False
    then show ?thesis
      by (simp add: ni_tunnel_id_def not_le)
  qed
qed

end
