(* ===== verification/AbiCommon.thy ===== *)
theory AbiCommon
  imports Bytes
begin

text \<open>
  Shared layouts of \<open>flowsdn-bpf-abi/src/lib.rs\<close>: network-order fields, connection tuples,
  longest-prefix keys, the ipcache key and its value, each with its codec and an interpretation
  of the contract \<open>map_bytes\<close>.
\<close>

section \<open>Network-order fields\<close>

text \<open>\<open>Be16\<close> and \<open>Be32\<close> wrap the bytes of a network-order integer.\<close>

definition be16_new :: "u16 \<Rightarrow> u8 list" where
  "be16_new v = to_be_bytes v"

definition be16_get :: "u8 list \<Rightarrow> u16" where
  "be16_get b = from_be_bytes b"

definition be32_new :: "u32 \<Rightarrow> u8 list" where
  "be32_new v = to_be_bytes v"

definition be32_get :: "u8 list \<Rightarrow> u32" where
  "be32_get b = from_be_bytes b"

lemma length_be_new [codec, simp]: "length (be16_new v) = 2" "length (be32_new w) = 4"
  by (simp_all add: be16_new_def be32_new_def)

lemma be_get_new [codec, simp]: "be16_get (be16_new v) = v" "be32_get (be32_new w) = w"
  by (simp_all add: be16_get_def be16_new_def be32_get_def be32_new_def)

lemma be_new_get [codec]:
  "length b = 2 \<Longrightarrow> be16_new (be16_get b) = b" "length c = 4 \<Longrightarrow> be32_new (be32_get c) = c"
  by (simp_all add: be16_get_def be16_new_def be32_get_def be32_new_def)

section \<open>Connection tuples\<close>

record ipv4_ct_tuple =
  ct4_daddr :: "u8 list"
  ct4_saddr :: "u8 list"
  ct4_dport :: "u8 list"
  ct4_sport :: "u8 list"
  ct4_nexthdr :: u8
  ct4_flags :: u8

definition ipv4_ct_tuple_ok :: "ipv4_ct_tuple \<Rightarrow> bool" where
  "ipv4_ct_tuple_ok v \<longleftrightarrow> length (ct4_daddr v) = 4 \<and> length (ct4_saddr v) = 4 \<and> length (ct4_dport v) = 2 \<and> length (ct4_sport v) = 2"

definition ipv4_ct_tuple_to_bytes :: "ipv4_ct_tuple \<Rightarrow> u8 list option" where
  "ipv4_ct_tuple_to_bytes v = do {
     out \<leftarrow> put_bytes (replicate 14 0) 0 (ct4_daddr v);
     out \<leftarrow> put_bytes out 4 (ct4_saddr v);
     out \<leftarrow> put_bytes out 8 (ct4_dport v);
     out \<leftarrow> put_bytes out 10 (ct4_sport v);
     out \<leftarrow> put_bytes out 12 [ct4_nexthdr v, ct4_flags v];
     Some out }"

definition ipv4_ct_tuple_from_bytes :: "u8 list \<Rightarrow> ipv4_ct_tuple option" where
  "ipv4_ct_tuple_from_bytes b = do {
     daddr \<leftarrow> take_bytes 4 b 0;
     saddr \<leftarrow> take_bytes 4 b 4;
     dport \<leftarrow> take_bytes 2 b 8;
     sport \<leftarrow> take_bytes 2 b 10;
     nexthdr \<leftarrow> byte_at b 12;
     flags \<leftarrow> byte_at b 13;
     Some \<lparr>ct4_daddr = daddr, ct4_saddr = saddr, ct4_dport = dport, ct4_sport = sport,
       ct4_nexthdr = nexthdr, ct4_flags = flags\<rparr> }"

lemmas ipv4_ct_tuple_codec = ipv4_ct_tuple_ok_def ipv4_ct_tuple_to_bytes_def ipv4_ct_tuple_from_bytes_def

interpretation ipv4_ct_tuple: map_bytes 14 ipv4_ct_tuple_ok ipv4_ct_tuple_to_bytes ipv4_ct_tuple_from_bytes
  by (unfold_locales, simp add: ipv4_ct_tuple_codec encoding, simp add: ipv4_ct_tuple_codec decoding codec)

record ipv6_ct_tuple =
  ct6_daddr :: "u8 list"
  ct6_saddr :: "u8 list"
  ct6_dport :: "u8 list"
  ct6_sport :: "u8 list"
  ct6_nexthdr :: u8
  ct6_flags :: u8

definition ipv6_ct_tuple_ok :: "ipv6_ct_tuple \<Rightarrow> bool" where
  "ipv6_ct_tuple_ok v \<longleftrightarrow> length (ct6_daddr v) = 16 \<and> length (ct6_saddr v) = 16 \<and> length (ct6_dport v) = 2 \<and> length (ct6_sport v) = 2"

definition ipv6_ct_tuple_to_bytes :: "ipv6_ct_tuple \<Rightarrow> u8 list option" where
  "ipv6_ct_tuple_to_bytes v = do {
     out \<leftarrow> put_bytes (replicate 38 0) 0 (ct6_daddr v);
     out \<leftarrow> put_bytes out 16 (ct6_saddr v);
     out \<leftarrow> put_bytes out 32 (ct6_dport v);
     out \<leftarrow> put_bytes out 34 (ct6_sport v);
     out \<leftarrow> put_bytes out 36 [ct6_nexthdr v, ct6_flags v];
     Some out }"

definition ipv6_ct_tuple_from_bytes :: "u8 list \<Rightarrow> ipv6_ct_tuple option" where
  "ipv6_ct_tuple_from_bytes b = do {
     daddr \<leftarrow> take_bytes 16 b 0;
     saddr \<leftarrow> take_bytes 16 b 16;
     dport \<leftarrow> take_bytes 2 b 32;
     sport \<leftarrow> take_bytes 2 b 34;
     nexthdr \<leftarrow> byte_at b 36;
     flags \<leftarrow> byte_at b 37;
     Some \<lparr>ct6_daddr = daddr, ct6_saddr = saddr, ct6_dport = dport, ct6_sport = sport,
       ct6_nexthdr = nexthdr, ct6_flags = flags\<rparr> }"

lemmas ipv6_ct_tuple_codec = ipv6_ct_tuple_ok_def ipv6_ct_tuple_to_bytes_def ipv6_ct_tuple_from_bytes_def

interpretation ipv6_ct_tuple: map_bytes 38 ipv6_ct_tuple_ok ipv6_ct_tuple_to_bytes ipv6_ct_tuple_from_bytes
  by (unfold_locales, simp add: ipv6_ct_tuple_codec encoding, simp add: ipv6_ct_tuple_codec decoding codec)

section \<open>Longest-prefix keys\<close>

text \<open>The macro \<open>lpm_key\<close>; \<open>sz\<close>, \<open>addr\<close> and \<open>bits\<close> are its literals.\<close>

datatype invalid_prefix = InvalidPrefix

record lpm_key =
  lpm_prefixlen :: u32
  lpm_address :: "u8 list"

definition lpm_key_ok :: "nat \<Rightarrow> lpm_key \<Rightarrow> bool" where
  "lpm_key_ok addr v \<longleftrightarrow> length (lpm_address v) = addr"

definition lpm_key_new :: "u32 \<Rightarrow> u8 list \<Rightarrow> u32 \<Rightarrow> invalid_prefix + lpm_key" where
  "lpm_key_new bits address prefixlen =
     (if bits < prefixlen then Inl InvalidPrefix
      else Inr \<lparr>lpm_prefixlen = prefixlen, lpm_address = address\<rparr>)"

definition lpm_key_to_bytes :: "nat \<Rightarrow> lpm_key \<Rightarrow> u8 list option" where
  "lpm_key_to_bytes sz v = do {
     out \<leftarrow> put_bytes (replicate sz 0) 0 (to_le_bytes (lpm_prefixlen v));
     out \<leftarrow> put_bytes out 4 (lpm_address v);
     Some out }"

definition lpm_key_from_bytes :: "nat \<Rightarrow> u8 list \<Rightarrow> lpm_key option" where
  "lpm_key_from_bytes addr b = do {
     prefixlen \<leftarrow> take_bytes 4 b 0;
     address \<leftarrow> take_bytes addr b 4;
     Some \<lparr>lpm_prefixlen = from_le_bytes prefixlen, lpm_address = address\<rparr> }"

lemmas lpm_key_codec = lpm_key_ok_def lpm_key_to_bytes_def lpm_key_from_bytes_def

interpretation lpm_v4: map_bytes 8 "lpm_key_ok 4" "lpm_key_to_bytes 8" "lpm_key_from_bytes 4"
  by (unfold_locales, simp add: lpm_key_codec encoding, simp add: lpm_key_codec decoding codec)

interpretation lpm_v6: map_bytes 20 "lpm_key_ok 16" "lpm_key_to_bytes 20" "lpm_key_from_bytes 16"
  by (unfold_locales, simp add: lpm_key_codec encoding, simp add: lpm_key_codec decoding codec)

section \<open>The ipcache\<close>

record ip_cache_key =
  ipc_prefixlen :: u32
  ipc_cluster_id :: u16
  ipc_pad :: u8
  ipc_family :: u8
  ipc_address :: "u8 list"

definition ip_cache_key_ok :: "ip_cache_key \<Rightarrow> bool" where
  "ip_cache_key_ok v \<longleftrightarrow> length (ipc_address v) = 16"

definition ip_cache_key_to_bytes :: "ip_cache_key \<Rightarrow> u8 list option" where
  "ip_cache_key_to_bytes v = do {
     out \<leftarrow> put_bytes (replicate 24 0) 0 (to_le_bytes (ipc_prefixlen v));
     out \<leftarrow> put_bytes out 4 (to_le_bytes (ipc_cluster_id v));
     out \<leftarrow> put_bytes out 6 [ipc_pad v, ipc_family v];
     out \<leftarrow> put_bytes out 8 (ipc_address v);
     Some out }"

definition ip_cache_key_from_bytes :: "u8 list \<Rightarrow> ip_cache_key option" where
  "ip_cache_key_from_bytes b = do {
     prefixlen \<leftarrow> take_bytes 4 b 0;
     cluster_id \<leftarrow> take_bytes 2 b 4;
     pad \<leftarrow> byte_at b 6;
     family \<leftarrow> byte_at b 7;
     address \<leftarrow> take_bytes 16 b 8;
     Some \<lparr>ipc_prefixlen = from_le_bytes prefixlen, ipc_cluster_id = from_le_bytes cluster_id,
       ipc_pad = pad, ipc_family = family, ipc_address = address\<rparr> }"

lemmas ip_cache_key_codec = ip_cache_key_ok_def ip_cache_key_to_bytes_def ip_cache_key_from_bytes_def

interpretation ip_cache_key: map_bytes 24 ip_cache_key_ok ip_cache_key_to_bytes ip_cache_key_from_bytes
  by (unfold_locales, simp add: ip_cache_key_codec encoding, simp add: ip_cache_key_codec decoding codec)

definition FAMILY_V4 :: u8 where
  "FAMILY_V4 = 1"

definition FAMILY_V6 :: u8 where
  "FAMILY_V6 = 2"

definition ip_cache_make :: "u8 list \<Rightarrow> u32 \<Rightarrow> u16 \<Rightarrow> u8 \<Rightarrow> invalid_prefix + ip_cache_key" where
  "ip_cache_make address bits cluster_id family =
     (case checked_add 32 bits of
        None \<Rightarrow> Inl InvalidPrefix
      | Some prefixlen \<Rightarrow> Inr \<lparr>ipc_prefixlen = prefixlen, ipc_cluster_id = cluster_id, ipc_pad = 0,
          ipc_family = family, ipc_address = address\<rparr>)"

text \<open>An IPv4 address is put at the front of sixteen zero bytes; the outer \<open>None\<close> is the panic of \<open>put\<close>.\<close>

definition ip_cache_v4 :: "u8 list \<Rightarrow> u32 \<Rightarrow> u16 \<Rightarrow> (invalid_prefix + ip_cache_key) option" where
  "ip_cache_v4 address bits cluster_id =
     (if 32 < bits then Some (Inl InvalidPrefix)
      else do {
        full \<leftarrow> put_bytes (replicate 16 0) 0 address;
        Some (ip_cache_make full bits cluster_id FAMILY_V4) })"

definition ip_cache_v6 :: "u8 list \<Rightarrow> u32 \<Rightarrow> u16 \<Rightarrow> invalid_prefix + ip_cache_key" where
  "ip_cache_v6 address bits cluster_id =
     (if 128 < bits then Inl InvalidPrefix else ip_cache_make address bits cluster_id FAMILY_V6)"

record remote_endpoint_info =
  rei_sec_identity :: u32
  rei_tunnel_endpoint :: "u8 list"
  rei_pad :: u16
  rei_key :: u8
  rei_flags :: u8

definition remote_endpoint_info_ok :: "remote_endpoint_info \<Rightarrow> bool" where
  "remote_endpoint_info_ok v \<longleftrightarrow> length (rei_tunnel_endpoint v) = 16"

definition remote_endpoint_info_to_bytes :: "remote_endpoint_info \<Rightarrow> u8 list option" where
  "remote_endpoint_info_to_bytes v = do {
     out \<leftarrow> put_bytes (replicate 24 0) 0 (to_le_bytes (rei_sec_identity v));
     out \<leftarrow> put_bytes out 4 (rei_tunnel_endpoint v);
     out \<leftarrow> put_bytes out 20 (to_le_bytes (rei_pad v));
     out \<leftarrow> put_bytes out 22 [rei_key v, rei_flags v];
     Some out }"

definition remote_endpoint_info_from_bytes :: "u8 list \<Rightarrow> remote_endpoint_info option" where
  "remote_endpoint_info_from_bytes b = do {
     sec_identity \<leftarrow> take_bytes 4 b 0;
     tunnel_endpoint \<leftarrow> take_bytes 16 b 4;
     pad \<leftarrow> take_bytes 2 b 20;
     key \<leftarrow> byte_at b 22;
     flags \<leftarrow> byte_at b 23;
     Some \<lparr>rei_sec_identity = from_le_bytes sec_identity, rei_tunnel_endpoint = tunnel_endpoint,
       rei_pad = from_le_bytes pad, rei_key = key, rei_flags = flags\<rparr> }"

lemmas remote_endpoint_info_codec = remote_endpoint_info_ok_def remote_endpoint_info_to_bytes_def remote_endpoint_info_from_bytes_def

interpretation remote_endpoint_info: map_bytes 24 remote_endpoint_info_ok remote_endpoint_info_to_bytes remote_endpoint_info_from_bytes
  by (unfold_locales, simp add: remote_endpoint_info_codec encoding, simp add: remote_endpoint_info_codec decoding codec)

text \<open>
  The shared keys and values of the datapath maps have lossless codecs: encoding never panics and gives
  the fixed size, every array of that size decodes, and the two directions undo each other.
\<close>

theorem common_codecs:
  "lossless 14 ipv4_ct_tuple_ok ipv4_ct_tuple_to_bytes ipv4_ct_tuple_from_bytes \<and>
   lossless 38 ipv6_ct_tuple_ok ipv6_ct_tuple_to_bytes ipv6_ct_tuple_from_bytes \<and>
   lossless 8 (lpm_key_ok 4) (lpm_key_to_bytes 8) (lpm_key_from_bytes 4) \<and>
   lossless 20 (lpm_key_ok 16) (lpm_key_to_bytes 20) (lpm_key_from_bytes 16) \<and>
   lossless 24 ip_cache_key_ok ip_cache_key_to_bytes ip_cache_key_from_bytes \<and>
   lossless 24 remote_endpoint_info_ok remote_endpoint_info_to_bytes remote_endpoint_info_from_bytes"
  by (intro conjI) (rule ipv4_ct_tuple.lossless_codec ipv6_ct_tuple.lossless_codec lpm_v4.lossless_codec lpm_v6.lossless_codec ip_cache_key.lossless_codec remote_endpoint_info.lossless_codec)+

lemma ip_cache_v4_spec:
  "length a = 4 \<Longrightarrow> ip_cache_v4 a bits c =
     Some (if 32 < bits then Inl InvalidPrefix
           else Inr \<lparr>ipc_prefixlen = 32 + bits, ipc_cluster_id = c, ipc_pad = 0, ipc_family = FAMILY_V4,
                     ipc_address = a @ replicate 12 0\<rparr>)"
  by (auto simp: ip_cache_v4_def ip_cache_make_def put_bytes_def checked_add_def word_less_nat_alt not_less)

lemma ip_cache_v6_spec:
  "ip_cache_v6 a bits c =
     (if 128 < bits then Inl InvalidPrefix
      else Inr \<lparr>ipc_prefixlen = 32 + bits, ipc_cluster_id = c, ipc_pad = 0, ipc_family = FAMILY_V6,
                ipc_address = a\<rparr>)"
  by (auto simp: ip_cache_v6_def ip_cache_make_def checked_add_def word_less_nat_alt not_less)

end
