(* ===== verification/AbiPolicy.thy ===== *)
theory AbiPolicy
  imports AbiCommon
begin

text \<open>
  Policy map keys, values and counters of \<open>flowsdn-bpf-abi/src/policy.rs\<close>.
\<close>

section \<open>Keys and values\<close>

record policy_key =
  pk_prefixlen :: u32
  pk_sec_label :: u32
  pk_egress :: u8
  pk_protocol :: u8
  pk_dport :: "u8 list"

definition policy_key_ok :: "policy_key \<Rightarrow> bool" where
  "policy_key_ok v \<longleftrightarrow> length (pk_dport v) = 2"

definition policy_key_to_bytes :: "policy_key \<Rightarrow> u8 list option" where
  "policy_key_to_bytes v = do {
     out \<leftarrow> put_bytes (replicate 12 0) 0 (to_le_bytes (pk_prefixlen v));
     out \<leftarrow> put_bytes out 4 (to_le_bytes (pk_sec_label v));
     out \<leftarrow> put_bytes out 8 [pk_egress v, pk_protocol v];
     out \<leftarrow> put_bytes out 10 (pk_dport v);
     Some out }"

definition policy_key_from_bytes :: "u8 list \<Rightarrow> policy_key option" where
  "policy_key_from_bytes b = do {
     prefixlen \<leftarrow> take_bytes 4 b 0;
     sec_label \<leftarrow> take_bytes 4 b 4;
     egress \<leftarrow> byte_at b 8;
     protocol \<leftarrow> byte_at b 9;
     dport \<leftarrow> take_bytes 2 b 10;
     Some \<lparr>pk_prefixlen = from_le_bytes prefixlen, pk_sec_label = from_le_bytes sec_label,
       pk_egress = egress, pk_protocol = protocol, pk_dport = dport\<rparr> }"

lemmas policy_key_codec = policy_key_ok_def policy_key_to_bytes_def policy_key_from_bytes_def

interpretation policy_key: map_bytes 12 policy_key_ok policy_key_to_bytes policy_key_from_bytes
  by (unfold_locales, simp add: policy_key_codec encoding, simp add: policy_key_codec decoding codec)

record policy_entry =
  pe_proxy_port :: "u8 list"
  pe_flags :: u8
  pe_auth :: u8
  pe_precedence :: u32
  pe_cookie :: u32

definition policy_entry_ok :: "policy_entry \<Rightarrow> bool" where
  "policy_entry_ok v \<longleftrightarrow> length (pe_proxy_port v) = 2"

definition policy_entry_to_bytes :: "policy_entry \<Rightarrow> u8 list option" where
  "policy_entry_to_bytes v = do {
     out \<leftarrow> put_bytes (replicate 12 0) 0 (pe_proxy_port v);
     out \<leftarrow> put_bytes out 2 [pe_flags v, pe_auth v];
     out \<leftarrow> put_bytes out 4 (to_le_bytes (pe_precedence v));
     out \<leftarrow> put_bytes out 8 (to_le_bytes (pe_cookie v));
     Some out }"

definition policy_entry_from_bytes :: "u8 list \<Rightarrow> policy_entry option" where
  "policy_entry_from_bytes b = do {
     proxy_port \<leftarrow> take_bytes 2 b 0;
     flags \<leftarrow> byte_at b 2;
     auth \<leftarrow> byte_at b 3;
     precedence \<leftarrow> take_bytes 4 b 4;
     cookie \<leftarrow> take_bytes 4 b 8;
     Some \<lparr>pe_proxy_port = proxy_port, pe_flags = flags, pe_auth = auth,
       pe_precedence = from_le_bytes precedence, pe_cookie = from_le_bytes cookie\<rparr> }"

lemmas policy_entry_codec = policy_entry_ok_def policy_entry_to_bytes_def policy_entry_from_bytes_def

interpretation policy_entry: map_bytes 12 policy_entry_ok policy_entry_to_bytes policy_entry_from_bytes
  by (unfold_locales, simp add: policy_entry_codec encoding, simp add: policy_entry_codec decoding codec)

record policy_stats_key =
  psk_endpoint_id :: u16
  psk_pad1 :: u8
  psk_prefix_len :: u8
  psk_sec_label :: u32
  psk_egress :: u8
  psk_protocol :: u8
  psk_dport :: "u8 list"

definition policy_stats_key_ok :: "policy_stats_key \<Rightarrow> bool" where
  "policy_stats_key_ok v \<longleftrightarrow> length (psk_dport v) = 2"

definition policy_stats_key_to_bytes :: "policy_stats_key \<Rightarrow> u8 list option" where
  "policy_stats_key_to_bytes v = do {
     out \<leftarrow> put_bytes (replicate 12 0) 0 (to_le_bytes (psk_endpoint_id v));
     out \<leftarrow> put_bytes out 2 [psk_pad1 v, psk_prefix_len v];
     out \<leftarrow> put_bytes out 4 (to_le_bytes (psk_sec_label v));
     out \<leftarrow> put_bytes out 8 [psk_egress v, psk_protocol v];
     out \<leftarrow> put_bytes out 10 (psk_dport v);
     Some out }"

definition policy_stats_key_from_bytes :: "u8 list \<Rightarrow> policy_stats_key option" where
  "policy_stats_key_from_bytes b = do {
     endpoint_id \<leftarrow> take_bytes 2 b 0;
     pad1 \<leftarrow> byte_at b 2;
     prefix_len \<leftarrow> byte_at b 3;
     sec_label \<leftarrow> take_bytes 4 b 4;
     egress \<leftarrow> byte_at b 8;
     protocol \<leftarrow> byte_at b 9;
     dport \<leftarrow> take_bytes 2 b 10;
     Some \<lparr>psk_endpoint_id = from_le_bytes endpoint_id, psk_pad1 = pad1,
       psk_prefix_len = prefix_len, psk_sec_label = from_le_bytes sec_label, psk_egress = egress,
       psk_protocol = protocol, psk_dport = dport\<rparr> }"

lemmas policy_stats_key_codec = policy_stats_key_ok_def policy_stats_key_to_bytes_def policy_stats_key_from_bytes_def

interpretation policy_stats_key: map_bytes 12 policy_stats_key_ok policy_stats_key_to_bytes policy_stats_key_from_bytes
  by (unfold_locales, simp add: policy_stats_key_codec encoding, simp add: policy_stats_key_codec decoding codec)

record policy_stats_value =
  psv_packets :: u64
  psv_bytes :: u64

definition policy_stats_value_ok :: "policy_stats_value \<Rightarrow> bool" where
  "policy_stats_value_ok v \<longleftrightarrow> True"

definition policy_stats_value_to_bytes :: "policy_stats_value \<Rightarrow> u8 list option" where
  "policy_stats_value_to_bytes v = do {
     out \<leftarrow> put_bytes (replicate 16 0) 0 (to_le_bytes (psv_packets v));
     out \<leftarrow> put_bytes out 8 (to_le_bytes (psv_bytes v));
     Some out }"

definition policy_stats_value_from_bytes :: "u8 list \<Rightarrow> policy_stats_value option" where
  "policy_stats_value_from_bytes b = do {
     packets \<leftarrow> take_bytes 8 b 0;
     bytes \<leftarrow> take_bytes 8 b 8;
     Some \<lparr>psv_packets = from_le_bytes packets, psv_bytes = from_le_bytes bytes\<rparr> }"

lemmas policy_stats_value_codec = policy_stats_value_ok_def policy_stats_value_to_bytes_def policy_stats_value_from_bytes_def

interpretation policy_stats_value: map_bytes 16 policy_stats_value_ok policy_stats_value_to_bytes policy_stats_value_from_bytes
  by (unfold_locales, simp add: policy_stats_value_codec encoding, simp add: policy_stats_value_codec decoding codec)

record endpoint_policy_key =
  epk_prefixlen :: u32
  epk_endpoint :: u32
  epk_sec_label :: u32
  epk_egress :: u8
  epk_protocol :: u8
  epk_dport :: "u8 list"

definition endpoint_policy_key_ok :: "endpoint_policy_key \<Rightarrow> bool" where
  "endpoint_policy_key_ok v \<longleftrightarrow> length (epk_dport v) = 2"

definition endpoint_policy_key_to_bytes :: "endpoint_policy_key \<Rightarrow> u8 list option" where
  "endpoint_policy_key_to_bytes v = do {
     out \<leftarrow> put_bytes (replicate 16 0) 0 (to_le_bytes (epk_prefixlen v));
     out \<leftarrow> put_bytes out 4 (to_le_bytes (epk_endpoint v));
     out \<leftarrow> put_bytes out 8 (to_le_bytes (epk_sec_label v));
     out \<leftarrow> put_bytes out 12 [epk_egress v, epk_protocol v];
     out \<leftarrow> put_bytes out 14 (epk_dport v);
     Some out }"

definition endpoint_policy_key_from_bytes :: "u8 list \<Rightarrow> endpoint_policy_key option" where
  "endpoint_policy_key_from_bytes b = do {
     prefixlen \<leftarrow> take_bytes 4 b 0;
     endpoint \<leftarrow> take_bytes 4 b 4;
     sec_label \<leftarrow> take_bytes 4 b 8;
     egress \<leftarrow> byte_at b 12;
     protocol \<leftarrow> byte_at b 13;
     dport \<leftarrow> take_bytes 2 b 14;
     Some \<lparr>epk_prefixlen = from_le_bytes prefixlen, epk_endpoint = from_le_bytes endpoint,
       epk_sec_label = from_le_bytes sec_label, epk_egress = egress, epk_protocol = protocol,
       epk_dport = dport\<rparr> }"

lemmas endpoint_policy_key_codec = endpoint_policy_key_ok_def endpoint_policy_key_to_bytes_def endpoint_policy_key_from_bytes_def

interpretation endpoint_policy_key: map_bytes 16 endpoint_policy_key_ok endpoint_policy_key_to_bytes endpoint_policy_key_from_bytes
  by (unfold_locales, simp add: endpoint_policy_key_codec encoding, simp add: endpoint_policy_key_codec decoding codec)

record policy_verdict_key =
  pvk_endpoint :: u32
  pvk_dport :: "u8 list"
  pvk_protocol :: u8
  pvk_egress :: u8
  pvk_verdict :: u8
  pvk_pad :: "u8 list"

definition policy_verdict_key_ok :: "policy_verdict_key \<Rightarrow> bool" where
  "policy_verdict_key_ok v \<longleftrightarrow> length (pvk_dport v) = 2 \<and> length (pvk_pad v) = 3"

definition policy_verdict_key_to_bytes :: "policy_verdict_key \<Rightarrow> u8 list option" where
  "policy_verdict_key_to_bytes v = do {
     out \<leftarrow> put_bytes (replicate 12 0) 0 (to_le_bytes (pvk_endpoint v));
     out \<leftarrow> put_bytes out 4 (pvk_dport v);
     out \<leftarrow> put_bytes out 6 [pvk_protocol v, pvk_egress v, pvk_verdict v];
     out \<leftarrow> put_bytes out 9 (pvk_pad v);
     Some out }"

definition policy_verdict_key_from_bytes :: "u8 list \<Rightarrow> policy_verdict_key option" where
  "policy_verdict_key_from_bytes b = do {
     endpoint \<leftarrow> take_bytes 4 b 0;
     dport \<leftarrow> take_bytes 2 b 4;
     protocol \<leftarrow> byte_at b 6;
     egress \<leftarrow> byte_at b 7;
     verdict \<leftarrow> byte_at b 8;
     pad \<leftarrow> take_bytes 3 b 9;
     Some \<lparr>pvk_endpoint = from_le_bytes endpoint, pvk_dport = dport, pvk_protocol = protocol,
       pvk_egress = egress, pvk_verdict = verdict, pvk_pad = pad\<rparr> }"

lemmas policy_verdict_key_codec = policy_verdict_key_ok_def policy_verdict_key_to_bytes_def policy_verdict_key_from_bytes_def

interpretation policy_verdict_key: map_bytes 12 policy_verdict_key_ok policy_verdict_key_to_bytes policy_verdict_key_from_bytes
  by (unfold_locales, simp add: policy_verdict_key_codec encoding, simp add: policy_verdict_key_codec decoding codec)

record policy_endpoint =
  pep_endpoint :: u32
  pep_flags :: u32

definition policy_endpoint_ok :: "policy_endpoint \<Rightarrow> bool" where
  "policy_endpoint_ok v \<longleftrightarrow> True"

definition policy_endpoint_to_bytes :: "policy_endpoint \<Rightarrow> u8 list option" where
  "policy_endpoint_to_bytes v = do {
     out \<leftarrow> put_bytes (replicate 8 0) 0 (to_le_bytes (pep_endpoint v));
     out \<leftarrow> put_bytes out 4 (to_le_bytes (pep_flags v));
     Some out }"

definition policy_endpoint_from_bytes :: "u8 list \<Rightarrow> policy_endpoint option" where
  "policy_endpoint_from_bytes b = do {
     endpoint \<leftarrow> take_bytes 4 b 0;
     flags \<leftarrow> take_bytes 4 b 4;
     Some \<lparr>pep_endpoint = from_le_bytes endpoint, pep_flags = from_le_bytes flags\<rparr> }"

lemmas policy_endpoint_codec = policy_endpoint_ok_def policy_endpoint_to_bytes_def policy_endpoint_from_bytes_def

interpretation policy_endpoint: map_bytes 8 policy_endpoint_ok policy_endpoint_to_bytes policy_endpoint_from_bytes
  by (unfold_locales, simp add: policy_endpoint_codec encoding, simp add: policy_endpoint_codec decoding codec)

record policy_ct_key =
  pck_saddr :: "u8 list"
  pck_daddr :: "u8 list"
  pck_sport :: "u8 list"
  pck_dport :: "u8 list"
  pck_protocol :: u8
  pck_family :: u8
  pck_egress :: u8
  pck_pad :: u8

definition policy_ct_key_ok :: "policy_ct_key \<Rightarrow> bool" where
  "policy_ct_key_ok v \<longleftrightarrow> length (pck_saddr v) = 16 \<and> length (pck_daddr v) = 16 \<and> length (pck_sport v) = 2 \<and> length (pck_dport v) = 2"

definition policy_ct_key_to_bytes :: "policy_ct_key \<Rightarrow> u8 list option" where
  "policy_ct_key_to_bytes v = do {
     out \<leftarrow> put_bytes (replicate 40 0) 0 (pck_saddr v);
     out \<leftarrow> put_bytes out 16 (pck_daddr v);
     out \<leftarrow> put_bytes out 32 (pck_sport v);
     out \<leftarrow> put_bytes out 34 (pck_dport v);
     out \<leftarrow> put_bytes out 36 [pck_protocol v, pck_family v, pck_egress v, pck_pad v];
     Some out }"

definition policy_ct_key_from_bytes :: "u8 list \<Rightarrow> policy_ct_key option" where
  "policy_ct_key_from_bytes b = do {
     saddr \<leftarrow> take_bytes 16 b 0;
     daddr \<leftarrow> take_bytes 16 b 16;
     sport \<leftarrow> take_bytes 2 b 32;
     dport \<leftarrow> take_bytes 2 b 34;
     protocol \<leftarrow> byte_at b 36;
     family \<leftarrow> byte_at b 37;
     egress \<leftarrow> byte_at b 38;
     pad \<leftarrow> byte_at b 39;
     Some \<lparr>pck_saddr = saddr, pck_daddr = daddr, pck_sport = sport, pck_dport = dport,
       pck_protocol = protocol, pck_family = family, pck_egress = egress, pck_pad = pad\<rparr> }"

lemmas policy_ct_key_codec = policy_ct_key_ok_def policy_ct_key_to_bytes_def policy_ct_key_from_bytes_def

interpretation policy_ct_key: map_bytes 40 policy_ct_key_ok policy_ct_key_to_bytes policy_ct_key_from_bytes
  by (unfold_locales, simp add: policy_ct_key_codec encoding, simp add: policy_ct_key_codec decoding codec)

record policy_ct_value =
  pcv_expires :: u64
  pcv_flags :: u32
  pcv_pad :: u32

definition policy_ct_value_ok :: "policy_ct_value \<Rightarrow> bool" where
  "policy_ct_value_ok v \<longleftrightarrow> True"

definition policy_ct_value_to_bytes :: "policy_ct_value \<Rightarrow> u8 list option" where
  "policy_ct_value_to_bytes v = do {
     out \<leftarrow> put_bytes (replicate 16 0) 0 (to_le_bytes (pcv_expires v));
     out \<leftarrow> put_bytes out 8 (to_le_bytes (pcv_flags v));
     out \<leftarrow> put_bytes out 12 (to_le_bytes (pcv_pad v));
     Some out }"

definition policy_ct_value_from_bytes :: "u8 list \<Rightarrow> policy_ct_value option" where
  "policy_ct_value_from_bytes b = do {
     expires \<leftarrow> take_bytes 8 b 0;
     flags \<leftarrow> take_bytes 4 b 8;
     pad \<leftarrow> take_bytes 4 b 12;
     Some \<lparr>pcv_expires = from_le_bytes expires, pcv_flags = from_le_bytes flags,
       pcv_pad = from_le_bytes pad\<rparr> }"

lemmas policy_ct_value_codec = policy_ct_value_ok_def policy_ct_value_to_bytes_def policy_ct_value_from_bytes_def

interpretation policy_ct_value: map_bytes 16 policy_ct_value_ok policy_ct_value_to_bytes policy_ct_value_from_bytes
  by (unfold_locales, simp add: policy_ct_value_codec encoding, simp add: policy_ct_value_codec decoding codec)

section \<open>Construction\<close>

definition policy_key_new :: "u32 \<Rightarrow> bool \<Rightarrow> u8 \<Rightarrow> u16 \<Rightarrow> u8 \<Rightarrow> invalid_prefix + policy_key" where
  "policy_key_new identity egress protocol port port_prefix =
     (if 16 < port_prefix \<or> protocol = 0 \<and> (port_prefix \<noteq> 0 \<or> port \<noteq> 0) then Inl InvalidPrefix
      else
        (let prefixlen = if protocol = 0 then 40 else saturating_add 48 (ucast port_prefix);
             mask = shl_or_zero (- 1) (unat (saturating_sub 16 port_prefix)) in
         Inr \<lparr>pk_prefixlen = prefixlen, pk_sec_label = identity, pk_egress = of_bool egress,
              pk_protocol = protocol, pk_dport = be16_new (port AND mask)\<rparr>))"

datatype invalid_policy_fields = InvalidPolicyFields

definition policy_entry_new ::
  "u16 \<Rightarrow> bool \<Rightarrow> u8 \<Rightarrow> u8 \<Rightarrow> bool \<Rightarrow> u32 \<Rightarrow> u32 \<Rightarrow> invalid_policy_fields + policy_entry" where
  "policy_entry_new proxy_port deny lpm_prefix_length auth_type explicit_auth precedence cookie =
     (if \<not> (lpm_prefix_length = 0 \<or> 8 \<le> lpm_prefix_length \<and> lpm_prefix_length \<le> 24) \<or> 127 < auth_type
      then Inl InvalidPolicyFields
      else Inr \<lparr>pe_proxy_port = be16_new proxy_port,
                pe_flags = of_bool deny OR push_bit 3 lpm_prefix_length,
                pe_auth = auth_type OR push_bit 7 (of_bool explicit_auth),
                pe_precedence = precedence, pe_cookie = cookie\<rparr>)"

definition pe_denies :: "policy_entry \<Rightarrow> bool" where
  "pe_denies e \<longleftrightarrow> pe_flags e AND 1 \<noteq> 0"

definition pe_lpm_prefix_length :: "policy_entry \<Rightarrow> u8" where
  "pe_lpm_prefix_length e = drop_bit 3 (pe_flags e)"

definition pe_auth_type :: "policy_entry \<Rightarrow> u8" where
  "pe_auth_type e = pe_auth e AND 0x7f"

definition pe_has_explicit_auth_type :: "policy_entry \<Rightarrow> bool" where
  "pe_has_explicit_auth_type e \<longleftrightarrow> pe_auth e AND 0x80 \<noteq> 0"

definition epk_for_endpoint :: "u32 \<Rightarrow> policy_key \<Rightarrow> endpoint_policy_key" where
  "epk_for_endpoint endpoint key =
     \<lparr>epk_prefixlen = saturating_add (pk_prefixlen key) 32, epk_endpoint = endpoint,
      epk_sec_label = pk_sec_label key, epk_egress = pk_egress key, epk_protocol = pk_protocol key,
      epk_dport = pk_dport key\<rparr>"

definition epk_new :: "u16 \<Rightarrow> policy_key \<Rightarrow> endpoint_policy_key" where
  "epk_new endpoint key = epk_for_endpoint (ucast endpoint) key"

definition epk_policy_key :: "endpoint_policy_key \<Rightarrow> policy_key" where
  "epk_policy_key e =
     \<lparr>pk_prefixlen = saturating_sub (epk_prefixlen e) 32, pk_sec_label = epk_sec_label e,
      pk_egress = epk_egress e, pk_protocol = epk_protocol e, pk_dport = epk_dport e\<rparr>"

definition HOST_ENDPOINT :: u32 where
  "HOST_ENDPOINT = 0x10000"

text \<open>
  C38. The keys, values and counters of the policy maps have lossless codecs.
\<close>

theorem policy_codecs:
  "lossless 12 policy_key_ok policy_key_to_bytes policy_key_from_bytes \<and>
   lossless 12 policy_entry_ok policy_entry_to_bytes policy_entry_from_bytes \<and>
   lossless 12 policy_stats_key_ok policy_stats_key_to_bytes policy_stats_key_from_bytes \<and>
   lossless 16 policy_stats_value_ok policy_stats_value_to_bytes policy_stats_value_from_bytes \<and>
   lossless 16 endpoint_policy_key_ok endpoint_policy_key_to_bytes endpoint_policy_key_from_bytes \<and>
   lossless 12 policy_verdict_key_ok policy_verdict_key_to_bytes policy_verdict_key_from_bytes \<and>
   lossless 8 policy_endpoint_ok policy_endpoint_to_bytes policy_endpoint_from_bytes \<and>
   lossless 40 policy_ct_key_ok policy_ct_key_to_bytes policy_ct_key_from_bytes \<and>
   lossless 16 policy_ct_value_ok policy_ct_value_to_bytes policy_ct_value_from_bytes"
  by (intro conjI) (rule policy_key.lossless_codec policy_entry.lossless_codec policy_stats_key.lossless_codec policy_stats_value.lossless_codec endpoint_policy_key.lossless_codec policy_verdict_key.lossless_codec policy_endpoint.lossless_codec policy_ct_key.lossless_codec policy_ct_value.lossless_codec)+

section \<open>Fields\<close>

lemma flags_deny: "(of_bool d OR push_bit 3 l :: u8) AND 1 \<noteq> 0 \<longleftrightarrow> d"
  by (simp add: and_one_eq mod_2_eq_odd even_or_iff)

lemma flags_length: "unat l < 32 \<Longrightarrow> drop_bit 3 (of_bool d OR push_bit 3 l :: u8) = l"
proof (rule bit_word_eqI)
  fix i
  assume "unat l < 32" and "i < LENGTH(8)"
  then show "bit (drop_bit 3 (of_bool d OR push_bit 3 l :: u8)) i = bit l i"
    using bit_small [of l 5 i] by (auto simp: bit_simps)
qed

lemma auth_low: "unat a < 128 \<Longrightarrow> (a OR push_bit 7 (of_bool x) :: u8) AND 0x7f = a"
proof -
  assume "unat a < 128"
  have m: "(0x7f :: u8) = mask 7"
    by (simp add: mask_eq_exp_minus_1)
  have "take_bit 7 (push_bit 7 (of_bool x) :: u8) = 0"
    by (simp only: take_bit_push_bit) simp
  then show ?thesis
    using take_bit_small [of a 7] \<open>unat a < 128\<close> by (simp only: m take_bit_eq_mask [symmetric] take_bit_or) simp
qed

lemma auth_high: "unat a < 128 \<Longrightarrow> (a OR push_bit 7 (of_bool x) :: u8) AND 0x80 \<noteq> 0 \<longleftrightarrow> x"
proof -
  assume "unat a < 128"
  then have "\<not> bit a 7"
    using bit_small [of a 7 7] by auto
  moreover have "(0x80 :: u8) = 2 ^ 7"
    by simp
  ultimately show ?thesis
    by (simp only: and_exp_eq_0_iff_not_bit) (simp add: bit_simps)
qed

text \<open>
  A policy entry is built exactly from a prefix length of zero or 8 to 24 and a seven-bit
  authentication type, and every accessor reads back what the entry was built from.
\<close>

theorem policy_entry_fields:
  "case policy_entry_new proxy deny len auth ex prec cookie of
     Inl _ \<Rightarrow> len \<noteq> 0 \<and> (len < 8 \<or> 24 < len) \<or> 127 < auth
   | Inr e \<Rightarrow> (len = 0 \<or> 8 \<le> len \<and> len \<le> 24) \<and> auth \<le> 127 \<and> policy_entry_ok e \<and>
       be16_get (pe_proxy_port e) = proxy \<and> pe_denies e = deny \<and> pe_lpm_prefix_length e = len \<and>
       pe_auth_type e = auth \<and> pe_has_explicit_auth_type e = ex \<and> pe_precedence e = prec \<and> pe_cookie e = cookie"
proof (cases "(len = 0 \<or> 8 \<le> len \<and> len \<le> 24) \<and> auth \<le> 127")
  case True
  then have "unat len < 32" "unat auth < 128"
    by (auto simp: word_le_nat_alt)
  then show ?thesis
    using True flags_deny flags_length auth_low auth_high
    by (simp add: policy_entry_new_def policy_entry_ok_def pe_denies_def pe_lpm_prefix_length_def
        pe_auth_type_def pe_has_explicit_auth_type_def not_less)
next
  case False
  then show ?thesis
    by (auto simp: policy_entry_new_def not_le)
qed

end
