(* ===== verification/AbiLb.thy ===== *)
theory AbiLb
  imports AbiCommon
begin

text \<open>
  Load-balancer map layouts of \<open>flowsdn-bpf-abi/src/lb.rs\<close>.
\<close>

record lb4_key =
  l4k_address :: "u8 list"
  l4k_dport :: "u8 list"
  l4k_backend_slot :: u16
  l4k_proto :: u8
  l4k_scope :: u8
  l4k_pad :: "u8 list"

definition lb4_key_ok :: "lb4_key \<Rightarrow> bool" where
  "lb4_key_ok v \<longleftrightarrow> length (l4k_address v) = 4 \<and> length (l4k_dport v) = 2 \<and> length (l4k_pad v) = 2"

definition lb4_key_to_bytes :: "lb4_key \<Rightarrow> u8 list option" where
  "lb4_key_to_bytes v = do {
     out \<leftarrow> put_bytes (replicate 12 0) 0 (l4k_address v);
     out \<leftarrow> put_bytes out 4 (l4k_dport v);
     out \<leftarrow> put_bytes out 6 (to_le_bytes (l4k_backend_slot v));
     out \<leftarrow> put_bytes out 8 [l4k_proto v];
     out \<leftarrow> put_bytes out 9 [l4k_scope v];
     out \<leftarrow> put_bytes out 10 (l4k_pad v);
     Some out }"

definition lb4_key_from_bytes :: "u8 list \<Rightarrow> lb4_key option" where
  "lb4_key_from_bytes b = do {
     address \<leftarrow> take_bytes 4 b 0;
     dport \<leftarrow> take_bytes 2 b 4;
     backend_slot \<leftarrow> take_bytes 2 b 6;
     proto \<leftarrow> byte_at b 8;
     scope \<leftarrow> byte_at b 9;
     pad \<leftarrow> take_bytes 2 b 10;
     Some \<lparr>l4k_address = address, l4k_dport = dport, l4k_backend_slot = from_le_bytes backend_slot,
       l4k_proto = proto, l4k_scope = scope, l4k_pad = pad\<rparr> }"

lemmas lb4_key_codec = lb4_key_ok_def lb4_key_to_bytes_def lb4_key_from_bytes_def

interpretation lb4_key: map_bytes 12 lb4_key_ok lb4_key_to_bytes lb4_key_from_bytes
  by (unfold_locales, simp add: lb4_key_codec encoding, simp add: lb4_key_codec decoding codec)

record lb6_key =
  l6k_address :: "u8 list"
  l6k_dport :: "u8 list"
  l6k_backend_slot :: u16
  l6k_proto :: u8
  l6k_scope :: u8
  l6k_pad :: "u8 list"

definition lb6_key_ok :: "lb6_key \<Rightarrow> bool" where
  "lb6_key_ok v \<longleftrightarrow> length (l6k_address v) = 16 \<and> length (l6k_dport v) = 2 \<and> length (l6k_pad v) = 2"

definition lb6_key_to_bytes :: "lb6_key \<Rightarrow> u8 list option" where
  "lb6_key_to_bytes v = do {
     out \<leftarrow> put_bytes (replicate 24 0) 0 (l6k_address v);
     out \<leftarrow> put_bytes out 16 (l6k_dport v);
     out \<leftarrow> put_bytes out 18 (to_le_bytes (l6k_backend_slot v));
     out \<leftarrow> put_bytes out 20 [l6k_proto v];
     out \<leftarrow> put_bytes out 21 [l6k_scope v];
     out \<leftarrow> put_bytes out 22 (l6k_pad v);
     Some out }"

definition lb6_key_from_bytes :: "u8 list \<Rightarrow> lb6_key option" where
  "lb6_key_from_bytes b = do {
     address \<leftarrow> take_bytes 16 b 0;
     dport \<leftarrow> take_bytes 2 b 16;
     backend_slot \<leftarrow> take_bytes 2 b 18;
     proto \<leftarrow> byte_at b 20;
     scope \<leftarrow> byte_at b 21;
     pad \<leftarrow> take_bytes 2 b 22;
     Some \<lparr>l6k_address = address, l6k_dport = dport, l6k_backend_slot = from_le_bytes backend_slot,
       l6k_proto = proto, l6k_scope = scope, l6k_pad = pad\<rparr> }"

lemmas lb6_key_codec = lb6_key_ok_def lb6_key_to_bytes_def lb6_key_from_bytes_def

interpretation lb6_key: map_bytes 24 lb6_key_ok lb6_key_to_bytes lb6_key_from_bytes
  by (unfold_locales, simp add: lb6_key_codec encoding, simp add: lb6_key_codec decoding codec)

record lb_service =
  lbs_union_raw :: u32
  lbs_count :: u16
  lbs_rev_nat_index :: u16
  lbs_flags :: u8
  lbs_flags2 :: u8
  lbs_qcount :: u16

definition lb_service_ok :: "lb_service \<Rightarrow> bool" where
  "lb_service_ok v \<longleftrightarrow> True"

definition lb_service_to_bytes :: "lb_service \<Rightarrow> u8 list option" where
  "lb_service_to_bytes v = do {
     out \<leftarrow> put_bytes (replicate 12 0) 0 (to_le_bytes (lbs_union_raw v));
     out \<leftarrow> put_bytes out 4 (to_le_bytes (lbs_count v));
     out \<leftarrow> put_bytes out 6 (to_le_bytes (lbs_rev_nat_index v));
     out \<leftarrow> put_bytes out 8 [lbs_flags v];
     out \<leftarrow> put_bytes out 9 [lbs_flags2 v];
     out \<leftarrow> put_bytes out 10 (to_le_bytes (lbs_qcount v));
     Some out }"

definition lb_service_from_bytes :: "u8 list \<Rightarrow> lb_service option" where
  "lb_service_from_bytes b = do {
     union_raw \<leftarrow> take_bytes 4 b 0;
     count \<leftarrow> take_bytes 2 b 4;
     rev_nat_index \<leftarrow> take_bytes 2 b 6;
     flags \<leftarrow> byte_at b 8;
     flags2 \<leftarrow> byte_at b 9;
     qcount \<leftarrow> take_bytes 2 b 10;
     Some \<lparr>lbs_union_raw = from_le_bytes union_raw, lbs_count = from_le_bytes count,
       lbs_rev_nat_index = from_le_bytes rev_nat_index, lbs_flags = flags, lbs_flags2 = flags2,
       lbs_qcount = from_le_bytes qcount\<rparr> }"

lemmas lb_service_codec = lb_service_ok_def lb_service_to_bytes_def lb_service_from_bytes_def

interpretation lb_service: map_bytes 12 lb_service_ok lb_service_to_bytes lb_service_from_bytes
  by (unfold_locales, simp add: lb_service_codec encoding, simp add: lb_service_codec decoding codec)

record lb4_backend =
  l4b_address :: "u8 list"
  l4b_port :: "u8 list"
  l4b_proto :: u8
  l4b_flags :: u8
  l4b_cluster_id :: u16
  l4b_zone :: u8
  l4b_pad :: u8

definition lb4_backend_ok :: "lb4_backend \<Rightarrow> bool" where
  "lb4_backend_ok v \<longleftrightarrow> length (l4b_address v) = 4 \<and> length (l4b_port v) = 2"

definition lb4_backend_to_bytes :: "lb4_backend \<Rightarrow> u8 list option" where
  "lb4_backend_to_bytes v = do {
     out \<leftarrow> put_bytes (replicate 12 0) 0 (l4b_address v);
     out \<leftarrow> put_bytes out 4 (l4b_port v);
     out \<leftarrow> put_bytes out 6 [l4b_proto v];
     out \<leftarrow> put_bytes out 7 [l4b_flags v];
     out \<leftarrow> put_bytes out 8 (to_le_bytes (l4b_cluster_id v));
     out \<leftarrow> put_bytes out 10 [l4b_zone v];
     out \<leftarrow> put_bytes out 11 [l4b_pad v];
     Some out }"

definition lb4_backend_from_bytes :: "u8 list \<Rightarrow> lb4_backend option" where
  "lb4_backend_from_bytes b = do {
     address \<leftarrow> take_bytes 4 b 0;
     port \<leftarrow> take_bytes 2 b 4;
     proto \<leftarrow> byte_at b 6;
     flags \<leftarrow> byte_at b 7;
     cluster_id \<leftarrow> take_bytes 2 b 8;
     zone \<leftarrow> byte_at b 10;
     pad \<leftarrow> byte_at b 11;
     Some \<lparr>l4b_address = address, l4b_port = port, l4b_proto = proto, l4b_flags = flags,
       l4b_cluster_id = from_le_bytes cluster_id, l4b_zone = zone, l4b_pad = pad\<rparr> }"

lemmas lb4_backend_codec = lb4_backend_ok_def lb4_backend_to_bytes_def lb4_backend_from_bytes_def

interpretation lb4_backend: map_bytes 12 lb4_backend_ok lb4_backend_to_bytes lb4_backend_from_bytes
  by (unfold_locales, simp add: lb4_backend_codec encoding, simp add: lb4_backend_codec decoding codec)

record lb6_backend =
  l6b_address :: "u8 list"
  l6b_port :: "u8 list"
  l6b_proto :: u8
  l6b_flags :: u8
  l6b_cluster_id :: u16
  l6b_zone :: u8
  l6b_pad :: u8

definition lb6_backend_ok :: "lb6_backend \<Rightarrow> bool" where
  "lb6_backend_ok v \<longleftrightarrow> length (l6b_address v) = 16 \<and> length (l6b_port v) = 2"

definition lb6_backend_to_bytes :: "lb6_backend \<Rightarrow> u8 list option" where
  "lb6_backend_to_bytes v = do {
     out \<leftarrow> put_bytes (replicate 24 0) 0 (l6b_address v);
     out \<leftarrow> put_bytes out 16 (l6b_port v);
     out \<leftarrow> put_bytes out 18 [l6b_proto v];
     out \<leftarrow> put_bytes out 19 [l6b_flags v];
     out \<leftarrow> put_bytes out 20 (to_le_bytes (l6b_cluster_id v));
     out \<leftarrow> put_bytes out 22 [l6b_zone v];
     out \<leftarrow> put_bytes out 23 [l6b_pad v];
     Some out }"

definition lb6_backend_from_bytes :: "u8 list \<Rightarrow> lb6_backend option" where
  "lb6_backend_from_bytes b = do {
     address \<leftarrow> take_bytes 16 b 0;
     port \<leftarrow> take_bytes 2 b 16;
     proto \<leftarrow> byte_at b 18;
     flags \<leftarrow> byte_at b 19;
     cluster_id \<leftarrow> take_bytes 2 b 20;
     zone \<leftarrow> byte_at b 22;
     pad \<leftarrow> byte_at b 23;
     Some \<lparr>l6b_address = address, l6b_port = port, l6b_proto = proto, l6b_flags = flags,
       l6b_cluster_id = from_le_bytes cluster_id, l6b_zone = zone, l6b_pad = pad\<rparr> }"

lemmas lb6_backend_codec = lb6_backend_ok_def lb6_backend_to_bytes_def lb6_backend_from_bytes_def

interpretation lb6_backend: map_bytes 24 lb6_backend_ok lb6_backend_to_bytes lb6_backend_from_bytes
  by (unfold_locales, simp add: lb6_backend_codec encoding, simp add: lb6_backend_codec decoding codec)

record lb4_reverse_nat =
  l4r_address :: "u8 list"
  l4r_port :: "u8 list"

definition lb4_reverse_nat_ok :: "lb4_reverse_nat \<Rightarrow> bool" where
  "lb4_reverse_nat_ok v \<longleftrightarrow> length (l4r_address v) = 4 \<and> length (l4r_port v) = 2"

definition lb4_reverse_nat_to_bytes :: "lb4_reverse_nat \<Rightarrow> u8 list option" where
  "lb4_reverse_nat_to_bytes v = do {
     out \<leftarrow> put_bytes (replicate 6 0) 0 (l4r_address v);
     out \<leftarrow> put_bytes out 4 (l4r_port v);
     Some out }"

definition lb4_reverse_nat_from_bytes :: "u8 list \<Rightarrow> lb4_reverse_nat option" where
  "lb4_reverse_nat_from_bytes b = do {
     address \<leftarrow> take_bytes 4 b 0;
     port \<leftarrow> take_bytes 2 b 4;
     Some \<lparr>l4r_address = address, l4r_port = port\<rparr> }"

lemmas lb4_reverse_nat_codec = lb4_reverse_nat_ok_def lb4_reverse_nat_to_bytes_def lb4_reverse_nat_from_bytes_def

interpretation lb4_reverse_nat: map_bytes 6 lb4_reverse_nat_ok lb4_reverse_nat_to_bytes lb4_reverse_nat_from_bytes
  by (unfold_locales, simp add: lb4_reverse_nat_codec encoding, simp add: lb4_reverse_nat_codec decoding codec)

record lb6_reverse_nat =
  l6r_address :: "u8 list"
  l6r_port :: "u8 list"

definition lb6_reverse_nat_ok :: "lb6_reverse_nat \<Rightarrow> bool" where
  "lb6_reverse_nat_ok v \<longleftrightarrow> length (l6r_address v) = 16 \<and> length (l6r_port v) = 2"

definition lb6_reverse_nat_to_bytes :: "lb6_reverse_nat \<Rightarrow> u8 list option" where
  "lb6_reverse_nat_to_bytes v = do {
     out \<leftarrow> put_bytes (replicate 18 0) 0 (l6r_address v);
     out \<leftarrow> put_bytes out 16 (l6r_port v);
     Some out }"

definition lb6_reverse_nat_from_bytes :: "u8 list \<Rightarrow> lb6_reverse_nat option" where
  "lb6_reverse_nat_from_bytes b = do {
     address \<leftarrow> take_bytes 16 b 0;
     port \<leftarrow> take_bytes 2 b 16;
     Some \<lparr>l6r_address = address, l6r_port = port\<rparr> }"

lemmas lb6_reverse_nat_codec = lb6_reverse_nat_ok_def lb6_reverse_nat_to_bytes_def lb6_reverse_nat_from_bytes_def

interpretation lb6_reverse_nat: map_bytes 18 lb6_reverse_nat_ok lb6_reverse_nat_to_bytes lb6_reverse_nat_from_bytes
  by (unfold_locales, simp add: lb6_reverse_nat_codec encoding, simp add: lb6_reverse_nat_codec decoding codec)

record lb4_src_range_key =
  l4s_prefixlen :: u32
  l4s_rev_nat_id :: u16
  l4s_pad :: u16
  l4s_address :: "u8 list"

definition lb4_src_range_key_ok :: "lb4_src_range_key \<Rightarrow> bool" where
  "lb4_src_range_key_ok v \<longleftrightarrow> length (l4s_address v) = 4"

definition lb4_src_range_key_to_bytes :: "lb4_src_range_key \<Rightarrow> u8 list option" where
  "lb4_src_range_key_to_bytes v = do {
     out \<leftarrow> put_bytes (replicate 12 0) 0 (to_le_bytes (l4s_prefixlen v));
     out \<leftarrow> put_bytes out 4 (to_le_bytes (l4s_rev_nat_id v));
     out \<leftarrow> put_bytes out 6 (to_le_bytes (l4s_pad v));
     out \<leftarrow> put_bytes out 8 (l4s_address v);
     Some out }"

definition lb4_src_range_key_from_bytes :: "u8 list \<Rightarrow> lb4_src_range_key option" where
  "lb4_src_range_key_from_bytes b = do {
     prefixlen \<leftarrow> take_bytes 4 b 0;
     rev_nat_id \<leftarrow> take_bytes 2 b 4;
     pad \<leftarrow> take_bytes 2 b 6;
     address \<leftarrow> take_bytes 4 b 8;
     Some \<lparr>l4s_prefixlen = from_le_bytes prefixlen, l4s_rev_nat_id = from_le_bytes rev_nat_id,
       l4s_pad = from_le_bytes pad, l4s_address = address\<rparr> }"

lemmas lb4_src_range_key_codec = lb4_src_range_key_ok_def lb4_src_range_key_to_bytes_def lb4_src_range_key_from_bytes_def

interpretation lb4_src_range_key: map_bytes 12 lb4_src_range_key_ok lb4_src_range_key_to_bytes lb4_src_range_key_from_bytes
  by (unfold_locales, simp add: lb4_src_range_key_codec encoding, simp add: lb4_src_range_key_codec decoding codec)

record lb6_src_range_key =
  l6s_prefixlen :: u32
  l6s_rev_nat_id :: u16
  l6s_pad :: u16
  l6s_address :: "u8 list"

definition lb6_src_range_key_ok :: "lb6_src_range_key \<Rightarrow> bool" where
  "lb6_src_range_key_ok v \<longleftrightarrow> length (l6s_address v) = 16"

definition lb6_src_range_key_to_bytes :: "lb6_src_range_key \<Rightarrow> u8 list option" where
  "lb6_src_range_key_to_bytes v = do {
     out \<leftarrow> put_bytes (replicate 24 0) 0 (to_le_bytes (l6s_prefixlen v));
     out \<leftarrow> put_bytes out 4 (to_le_bytes (l6s_rev_nat_id v));
     out \<leftarrow> put_bytes out 6 (to_le_bytes (l6s_pad v));
     out \<leftarrow> put_bytes out 8 (l6s_address v);
     Some out }"

definition lb6_src_range_key_from_bytes :: "u8 list \<Rightarrow> lb6_src_range_key option" where
  "lb6_src_range_key_from_bytes b = do {
     prefixlen \<leftarrow> take_bytes 4 b 0;
     rev_nat_id \<leftarrow> take_bytes 2 b 4;
     pad \<leftarrow> take_bytes 2 b 6;
     address \<leftarrow> take_bytes 16 b 8;
     Some \<lparr>l6s_prefixlen = from_le_bytes prefixlen, l6s_rev_nat_id = from_le_bytes rev_nat_id,
       l6s_pad = from_le_bytes pad, l6s_address = address\<rparr> }"

lemmas lb6_src_range_key_codec = lb6_src_range_key_ok_def lb6_src_range_key_to_bytes_def lb6_src_range_key_from_bytes_def

interpretation lb6_src_range_key: map_bytes 24 lb6_src_range_key_ok lb6_src_range_key_to_bytes lb6_src_range_key_from_bytes
  by (unfold_locales, simp add: lb6_src_range_key_codec encoding, simp add: lb6_src_range_key_codec decoding codec)

record ipv4_revnat_tuple =
  r4t_cookie :: u64
  r4t_address :: "u8 list"
  r4t_port :: "u8 list"
  r4t_pad :: u16

definition ipv4_revnat_tuple_ok :: "ipv4_revnat_tuple \<Rightarrow> bool" where
  "ipv4_revnat_tuple_ok v \<longleftrightarrow> length (r4t_address v) = 4 \<and> length (r4t_port v) = 2"

definition ipv4_revnat_tuple_to_bytes :: "ipv4_revnat_tuple \<Rightarrow> u8 list option" where
  "ipv4_revnat_tuple_to_bytes v = do {
     out \<leftarrow> put_bytes (replicate 16 0) 0 (to_le_bytes (r4t_cookie v));
     out \<leftarrow> put_bytes out 8 (r4t_address v);
     out \<leftarrow> put_bytes out 12 (r4t_port v);
     out \<leftarrow> put_bytes out 14 (to_le_bytes (r4t_pad v));
     Some out }"

definition ipv4_revnat_tuple_from_bytes :: "u8 list \<Rightarrow> ipv4_revnat_tuple option" where
  "ipv4_revnat_tuple_from_bytes b = do {
     cookie \<leftarrow> take_bytes 8 b 0;
     address \<leftarrow> take_bytes 4 b 8;
     port \<leftarrow> take_bytes 2 b 12;
     pad \<leftarrow> take_bytes 2 b 14;
     Some \<lparr>r4t_cookie = from_le_bytes cookie, r4t_address = address, r4t_port = port,
       r4t_pad = from_le_bytes pad\<rparr> }"

lemmas ipv4_revnat_tuple_codec = ipv4_revnat_tuple_ok_def ipv4_revnat_tuple_to_bytes_def ipv4_revnat_tuple_from_bytes_def

interpretation ipv4_revnat_tuple: map_bytes 16 ipv4_revnat_tuple_ok ipv4_revnat_tuple_to_bytes ipv4_revnat_tuple_from_bytes
  by (unfold_locales, simp add: ipv4_revnat_tuple_codec encoding, simp add: ipv4_revnat_tuple_codec decoding codec)

record ipv4_revnat_entry =
  r4e_address :: "u8 list"
  r4e_port :: "u8 list"
  r4e_rev_nat_index :: u16

definition ipv4_revnat_entry_ok :: "ipv4_revnat_entry \<Rightarrow> bool" where
  "ipv4_revnat_entry_ok v \<longleftrightarrow> length (r4e_address v) = 4 \<and> length (r4e_port v) = 2"

definition ipv4_revnat_entry_to_bytes :: "ipv4_revnat_entry \<Rightarrow> u8 list option" where
  "ipv4_revnat_entry_to_bytes v = do {
     out \<leftarrow> put_bytes (replicate 8 0) 0 (r4e_address v);
     out \<leftarrow> put_bytes out 4 (r4e_port v);
     out \<leftarrow> put_bytes out 6 (to_le_bytes (r4e_rev_nat_index v));
     Some out }"

definition ipv4_revnat_entry_from_bytes :: "u8 list \<Rightarrow> ipv4_revnat_entry option" where
  "ipv4_revnat_entry_from_bytes b = do {
     address \<leftarrow> take_bytes 4 b 0;
     port \<leftarrow> take_bytes 2 b 4;
     rev_nat_index \<leftarrow> take_bytes 2 b 6;
     Some \<lparr>r4e_address = address, r4e_port = port,
       r4e_rev_nat_index = from_le_bytes rev_nat_index\<rparr> }"

lemmas ipv4_revnat_entry_codec = ipv4_revnat_entry_ok_def ipv4_revnat_entry_to_bytes_def ipv4_revnat_entry_from_bytes_def

interpretation ipv4_revnat_entry: map_bytes 8 ipv4_revnat_entry_ok ipv4_revnat_entry_to_bytes ipv4_revnat_entry_from_bytes
  by (unfold_locales, simp add: ipv4_revnat_entry_codec encoding, simp add: ipv4_revnat_entry_codec decoding codec)

record ipv6_revnat_tuple =
  r6t_cookie :: u64
  r6t_address :: "u8 list"
  r6t_port :: "u8 list"
  r6t_pad :: u16
  r6t_pad2 :: u32

definition ipv6_revnat_tuple_ok :: "ipv6_revnat_tuple \<Rightarrow> bool" where
  "ipv6_revnat_tuple_ok v \<longleftrightarrow> length (r6t_address v) = 16 \<and> length (r6t_port v) = 2"

definition ipv6_revnat_tuple_to_bytes :: "ipv6_revnat_tuple \<Rightarrow> u8 list option" where
  "ipv6_revnat_tuple_to_bytes v = do {
     out \<leftarrow> put_bytes (replicate 32 0) 0 (to_le_bytes (r6t_cookie v));
     out \<leftarrow> put_bytes out 8 (r6t_address v);
     out \<leftarrow> put_bytes out 24 (r6t_port v);
     out \<leftarrow> put_bytes out 26 (to_le_bytes (r6t_pad v));
     out \<leftarrow> put_bytes out 28 (to_le_bytes (r6t_pad2 v));
     Some out }"

definition ipv6_revnat_tuple_from_bytes :: "u8 list \<Rightarrow> ipv6_revnat_tuple option" where
  "ipv6_revnat_tuple_from_bytes b = do {
     cookie \<leftarrow> take_bytes 8 b 0;
     address \<leftarrow> take_bytes 16 b 8;
     port \<leftarrow> take_bytes 2 b 24;
     pad \<leftarrow> take_bytes 2 b 26;
     pad2 \<leftarrow> take_bytes 4 b 28;
     Some \<lparr>r6t_cookie = from_le_bytes cookie, r6t_address = address, r6t_port = port,
       r6t_pad = from_le_bytes pad, r6t_pad2 = from_le_bytes pad2\<rparr> }"

lemmas ipv6_revnat_tuple_codec = ipv6_revnat_tuple_ok_def ipv6_revnat_tuple_to_bytes_def ipv6_revnat_tuple_from_bytes_def

interpretation ipv6_revnat_tuple: map_bytes 32 ipv6_revnat_tuple_ok ipv6_revnat_tuple_to_bytes ipv6_revnat_tuple_from_bytes
  by (unfold_locales, simp add: ipv6_revnat_tuple_codec encoding, simp add: ipv6_revnat_tuple_codec decoding codec)

record ipv6_revnat_entry =
  r6e_address :: "u8 list"
  r6e_port :: "u8 list"
  r6e_rev_nat_index :: u16

definition ipv6_revnat_entry_ok :: "ipv6_revnat_entry \<Rightarrow> bool" where
  "ipv6_revnat_entry_ok v \<longleftrightarrow> length (r6e_address v) = 16 \<and> length (r6e_port v) = 2"

definition ipv6_revnat_entry_to_bytes :: "ipv6_revnat_entry \<Rightarrow> u8 list option" where
  "ipv6_revnat_entry_to_bytes v = do {
     out \<leftarrow> put_bytes (replicate 20 0) 0 (r6e_address v);
     out \<leftarrow> put_bytes out 16 (r6e_port v);
     out \<leftarrow> put_bytes out 18 (to_le_bytes (r6e_rev_nat_index v));
     Some out }"

definition ipv6_revnat_entry_from_bytes :: "u8 list \<Rightarrow> ipv6_revnat_entry option" where
  "ipv6_revnat_entry_from_bytes b = do {
     address \<leftarrow> take_bytes 16 b 0;
     port \<leftarrow> take_bytes 2 b 16;
     rev_nat_index \<leftarrow> take_bytes 2 b 18;
     Some \<lparr>r6e_address = address, r6e_port = port,
       r6e_rev_nat_index = from_le_bytes rev_nat_index\<rparr> }"

lemmas ipv6_revnat_entry_codec = ipv6_revnat_entry_ok_def ipv6_revnat_entry_to_bytes_def ipv6_revnat_entry_from_bytes_def

interpretation ipv6_revnat_entry: map_bytes 20 ipv6_revnat_entry_ok ipv6_revnat_entry_to_bytes ipv6_revnat_entry_from_bytes
  by (unfold_locales, simp add: ipv6_revnat_entry_codec encoding, simp add: ipv6_revnat_entry_codec decoding codec)

record lb_act_key =
  lak_svc_id :: u16
  lak_zone :: u8
  lak_pad :: u8

definition lb_act_key_ok :: "lb_act_key \<Rightarrow> bool" where
  "lb_act_key_ok v \<longleftrightarrow> True"

definition lb_act_key_to_bytes :: "lb_act_key \<Rightarrow> u8 list option" where
  "lb_act_key_to_bytes v = do {
     out \<leftarrow> put_bytes (replicate 4 0) 0 (to_le_bytes (lak_svc_id v));
     out \<leftarrow> put_bytes out 2 [lak_zone v];
     out \<leftarrow> put_bytes out 3 [lak_pad v];
     Some out }"

definition lb_act_key_from_bytes :: "u8 list \<Rightarrow> lb_act_key option" where
  "lb_act_key_from_bytes b = do {
     svc_id \<leftarrow> take_bytes 2 b 0;
     zone \<leftarrow> byte_at b 2;
     pad \<leftarrow> byte_at b 3;
     Some \<lparr>lak_svc_id = from_le_bytes svc_id, lak_zone = zone, lak_pad = pad\<rparr> }"

lemmas lb_act_key_codec = lb_act_key_ok_def lb_act_key_to_bytes_def lb_act_key_from_bytes_def

interpretation lb_act_key: map_bytes 4 lb_act_key_ok lb_act_key_to_bytes lb_act_key_from_bytes
  by (unfold_locales, simp add: lb_act_key_codec encoding, simp add: lb_act_key_codec decoding codec)

record lb_act_value =
  lav_opened :: u32
  lav_closed :: u32

definition lb_act_value_ok :: "lb_act_value \<Rightarrow> bool" where
  "lb_act_value_ok v \<longleftrightarrow> True"

definition lb_act_value_to_bytes :: "lb_act_value \<Rightarrow> u8 list option" where
  "lb_act_value_to_bytes v = do {
     out \<leftarrow> put_bytes (replicate 8 0) 0 (to_le_bytes (lav_opened v));
     out \<leftarrow> put_bytes out 4 (to_le_bytes (lav_closed v));
     Some out }"

definition lb_act_value_from_bytes :: "u8 list \<Rightarrow> lb_act_value option" where
  "lb_act_value_from_bytes b = do {
     opened \<leftarrow> take_bytes 4 b 0;
     closed \<leftarrow> take_bytes 4 b 4;
     Some \<lparr>lav_opened = from_le_bytes opened, lav_closed = from_le_bytes closed\<rparr> }"

lemmas lb_act_value_codec = lb_act_value_ok_def lb_act_value_to_bytes_def lb_act_value_from_bytes_def

interpretation lb_act_value: map_bytes 8 lb_act_value_ok lb_act_value_to_bytes lb_act_value_from_bytes
  by (unfold_locales, simp add: lb_act_value_codec encoding, simp add: lb_act_value_codec decoding codec)

section \<open>Services and source ranges\<close>

datatype algorithm = AlgorithmRandom | AlgorithmMaglev

fun algorithm_byte :: "algorithm \<Rightarrow> u8" where
  "algorithm_byte AlgorithmRandom = 1"
| "algorithm_byte AlgorithmMaglev = 2"

datatype invalid_affinity_timeout = InvalidAffinityTimeout

definition lbs_affinity_seconds :: "lb_service \<Rightarrow> u32" where
  "lbs_affinity_seconds s = lbs_union_raw s AND 0x00ffffff"

definition lbs_algorithm_code :: "lb_service \<Rightarrow> u8" where
  "lbs_algorithm_code s = to_be_bytes (lbs_union_raw s) ! 0"

definition lbs_set_affinity :: "algorithm \<Rightarrow> u32 \<Rightarrow> lb_service \<Rightarrow> invalid_affinity_timeout + lb_service" where
  "lbs_set_affinity algorithm seconds s =
     (if 0x00ffffff < seconds then Inl InvalidAffinityTimeout
      else Inr (s\<lparr>lbs_union_raw := push_bit 24 (ucast (algorithm_byte algorithm)) OR seconds\<rparr>))"

definition lbs_backend_id :: "lb_service \<Rightarrow> u32" where
  "lbs_backend_id s = lbs_union_raw s"

definition lbs_service_flags :: "lb_service \<Rightarrow> u16" where
  "lbs_service_flags s = from_le_bytes [lbs_flags s, lbs_flags2 s]"

definition lbs_set_service_flags :: "u16 \<Rightarrow> lb_service \<Rightarrow> lb_service" where
  "lbs_set_service_flags flags s =
     s\<lparr>lbs_flags := to_le_bytes flags ! 0, lbs_flags2 := to_le_bytes flags ! 1\<rparr>"

definition l4s_new :: "u8 list \<Rightarrow> u32 \<Rightarrow> u16 \<Rightarrow> invalid_prefix + lb4_src_range_key" where
  "l4s_new address bits rev_nat_id =
     (if 32 < bits then Inl InvalidPrefix
      else case checked_add 32 bits of
             None \<Rightarrow> Inl InvalidPrefix
           | Some prefixlen \<Rightarrow> Inr \<lparr>l4s_prefixlen = prefixlen, l4s_rev_nat_id = rev_nat_id, l4s_pad = 0,
                                  l4s_address = address\<rparr>)"

definition l6s_new :: "u8 list \<Rightarrow> u32 \<Rightarrow> u16 \<Rightarrow> invalid_prefix + lb6_src_range_key" where
  "l6s_new address bits rev_nat_id =
     (if 128 < bits then Inl InvalidPrefix
      else case checked_add 32 bits of
             None \<Rightarrow> Inl InvalidPrefix
           | Some prefixlen \<Rightarrow> Inr \<lparr>l6s_prefixlen = prefixlen, l6s_rev_nat_id = rev_nat_id, l6s_pad = 0,
                                  l6s_address = address\<rparr>)"

text \<open>
  C39. The keys and values of the load-balancer maps have lossless codecs.
\<close>

theorem lb_codecs:
  "lossless 12 lb4_key_ok lb4_key_to_bytes lb4_key_from_bytes \<and>
   lossless 24 lb6_key_ok lb6_key_to_bytes lb6_key_from_bytes \<and>
   lossless 12 lb_service_ok lb_service_to_bytes lb_service_from_bytes \<and>
   lossless 12 lb4_backend_ok lb4_backend_to_bytes lb4_backend_from_bytes \<and>
   lossless 24 lb6_backend_ok lb6_backend_to_bytes lb6_backend_from_bytes \<and>
   lossless 6 lb4_reverse_nat_ok lb4_reverse_nat_to_bytes lb4_reverse_nat_from_bytes \<and>
   lossless 18 lb6_reverse_nat_ok lb6_reverse_nat_to_bytes lb6_reverse_nat_from_bytes \<and>
   lossless 12 lb4_src_range_key_ok lb4_src_range_key_to_bytes lb4_src_range_key_from_bytes \<and>
   lossless 24 lb6_src_range_key_ok lb6_src_range_key_to_bytes lb6_src_range_key_from_bytes \<and>
   lossless 16 ipv4_revnat_tuple_ok ipv4_revnat_tuple_to_bytes ipv4_revnat_tuple_from_bytes \<and>
   lossless 8 ipv4_revnat_entry_ok ipv4_revnat_entry_to_bytes ipv4_revnat_entry_from_bytes \<and>
   lossless 32 ipv6_revnat_tuple_ok ipv6_revnat_tuple_to_bytes ipv6_revnat_tuple_from_bytes \<and>
   lossless 20 ipv6_revnat_entry_ok ipv6_revnat_entry_to_bytes ipv6_revnat_entry_from_bytes \<and>
   lossless 4 lb_act_key_ok lb_act_key_to_bytes lb_act_key_from_bytes \<and>
   lossless 8 lb_act_value_ok lb_act_value_to_bytes lb_act_value_from_bytes"
  by (intro conjI) (rule lb4_key.lossless_codec lb6_key.lossless_codec lb_service.lossless_codec lb4_backend.lossless_codec lb6_backend.lossless_codec lb4_reverse_nat.lossless_codec lb6_reverse_nat.lossless_codec lb4_src_range_key.lossless_codec lb6_src_range_key.lossless_codec ipv4_revnat_tuple.lossless_codec ipv4_revnat_entry.lossless_codec ipv6_revnat_tuple.lossless_codec ipv6_revnat_entry.lossless_codec lb_act_key.lossless_codec lb_act_value.lossless_codec)+

lemma service_flags_round_trip:
  "lbs_service_flags (lbs_set_service_flags f s) = f"
  "lbs_union_raw (lbs_set_service_flags f s) = lbs_union_raw s"
proof -
  have "length (to_le_bytes f) = 2"
    by simp
  then have "[to_le_bytes f ! 0, to_le_bytes f ! 1] = to_le_bytes f"
    by (simp only: One_nat_def numeral_2_eq_2 length_Suc_conv) auto
  then show "lbs_service_flags (lbs_set_service_flags f s) = f"
    by (simp add: lbs_service_flags_def lbs_set_service_flags_def)
qed (simp add: lbs_set_service_flags_def)

lemma src_range_spec:
  "l4s_new a bits r = (if 32 < bits then Inl InvalidPrefix
     else Inr \<lparr>l4s_prefixlen = 32 + bits, l4s_rev_nat_id = r, l4s_pad = 0, l4s_address = a\<rparr>)"
  "l6s_new a bits r = (if 128 < bits then Inl InvalidPrefix
     else Inr \<lparr>l6s_prefixlen = 32 + bits, l6s_rev_nat_id = r, l6s_pad = 0, l6s_address = a\<rparr>)"
  by (auto simp: l4s_new_def l6s_new_def checked_add_def word_less_nat_alt not_less)

end
