(* ===== verification/AbiAffinity.thy ===== *)
theory AbiAffinity
  imports AbiCommon
begin

text \<open>
  Session affinity and skip-LB layouts of \<open>flowsdn-bpf-abi/src/affinity.rs\<close>.
\<close>

record lb4_affinity_key =
  a4k_client_id :: "u8 list"
  a4k_rev_nat_id :: u16
  a4k_flags :: u8
  a4k_pad1 :: u8
  a4k_pad2 :: u32

definition lb4_affinity_key_ok :: "lb4_affinity_key \<Rightarrow> bool" where
  "lb4_affinity_key_ok v \<longleftrightarrow> length (a4k_client_id v) = 8"

definition lb4_affinity_key_to_bytes :: "lb4_affinity_key \<Rightarrow> u8 list option" where
  "lb4_affinity_key_to_bytes v = do {
     out \<leftarrow> put_bytes (replicate 16 0) 0 (a4k_client_id v);
     out \<leftarrow> put_bytes out 8 (to_le_bytes (a4k_rev_nat_id v));
     out \<leftarrow> put_bytes out 10 [a4k_flags v];
     out \<leftarrow> put_bytes out 11 [a4k_pad1 v];
     out \<leftarrow> put_bytes out 12 (to_le_bytes (a4k_pad2 v));
     Some out }"

definition lb4_affinity_key_from_bytes :: "u8 list \<Rightarrow> lb4_affinity_key option" where
  "lb4_affinity_key_from_bytes b = do {
     client_id \<leftarrow> take_bytes 8 b 0;
     rev_nat_id \<leftarrow> take_bytes 2 b 8;
     flags \<leftarrow> byte_at b 10;
     pad1 \<leftarrow> byte_at b 11;
     pad2 \<leftarrow> take_bytes 4 b 12;
     Some \<lparr>a4k_client_id = client_id, a4k_rev_nat_id = from_le_bytes rev_nat_id, a4k_flags = flags,
       a4k_pad1 = pad1, a4k_pad2 = from_le_bytes pad2\<rparr> }"

lemmas lb4_affinity_key_codec = lb4_affinity_key_ok_def lb4_affinity_key_to_bytes_def lb4_affinity_key_from_bytes_def

interpretation lb4_affinity_key: map_bytes 16 lb4_affinity_key_ok lb4_affinity_key_to_bytes lb4_affinity_key_from_bytes
  by (unfold_locales, simp add: lb4_affinity_key_codec encoding, simp add: lb4_affinity_key_codec decoding codec)

record lb6_affinity_key =
  a6k_client_id :: "u8 list"
  a6k_rev_nat_id :: u16
  a6k_flags :: u8
  a6k_pad1 :: u8
  a6k_pad2 :: u32

definition lb6_affinity_key_ok :: "lb6_affinity_key \<Rightarrow> bool" where
  "lb6_affinity_key_ok v \<longleftrightarrow> length (a6k_client_id v) = 16"

definition lb6_affinity_key_to_bytes :: "lb6_affinity_key \<Rightarrow> u8 list option" where
  "lb6_affinity_key_to_bytes v = do {
     out \<leftarrow> put_bytes (replicate 24 0) 0 (a6k_client_id v);
     out \<leftarrow> put_bytes out 16 (to_le_bytes (a6k_rev_nat_id v));
     out \<leftarrow> put_bytes out 18 [a6k_flags v];
     out \<leftarrow> put_bytes out 19 [a6k_pad1 v];
     out \<leftarrow> put_bytes out 20 (to_le_bytes (a6k_pad2 v));
     Some out }"

definition lb6_affinity_key_from_bytes :: "u8 list \<Rightarrow> lb6_affinity_key option" where
  "lb6_affinity_key_from_bytes b = do {
     client_id \<leftarrow> take_bytes 16 b 0;
     rev_nat_id \<leftarrow> take_bytes 2 b 16;
     flags \<leftarrow> byte_at b 18;
     pad1 \<leftarrow> byte_at b 19;
     pad2 \<leftarrow> take_bytes 4 b 20;
     Some \<lparr>a6k_client_id = client_id, a6k_rev_nat_id = from_le_bytes rev_nat_id, a6k_flags = flags,
       a6k_pad1 = pad1, a6k_pad2 = from_le_bytes pad2\<rparr> }"

lemmas lb6_affinity_key_codec = lb6_affinity_key_ok_def lb6_affinity_key_to_bytes_def lb6_affinity_key_from_bytes_def

interpretation lb6_affinity_key: map_bytes 24 lb6_affinity_key_ok lb6_affinity_key_to_bytes lb6_affinity_key_from_bytes
  by (unfold_locales, simp add: lb6_affinity_key_codec encoding, simp add: lb6_affinity_key_codec decoding codec)

record lb_affinity_val =
  afv_last_used :: u64
  afv_backend_id :: u32
  afv_pad :: u32

definition lb_affinity_val_ok :: "lb_affinity_val \<Rightarrow> bool" where
  "lb_affinity_val_ok v \<longleftrightarrow> True"

definition lb_affinity_val_to_bytes :: "lb_affinity_val \<Rightarrow> u8 list option" where
  "lb_affinity_val_to_bytes v = do {
     out \<leftarrow> put_bytes (replicate 16 0) 0 (to_le_bytes (afv_last_used v));
     out \<leftarrow> put_bytes out 8 (to_le_bytes (afv_backend_id v));
     out \<leftarrow> put_bytes out 12 (to_le_bytes (afv_pad v));
     Some out }"

definition lb_affinity_val_from_bytes :: "u8 list \<Rightarrow> lb_affinity_val option" where
  "lb_affinity_val_from_bytes b = do {
     last_used \<leftarrow> take_bytes 8 b 0;
     backend_id \<leftarrow> take_bytes 4 b 8;
     pad \<leftarrow> take_bytes 4 b 12;
     Some \<lparr>afv_last_used = from_le_bytes last_used, afv_backend_id = from_le_bytes backend_id,
       afv_pad = from_le_bytes pad\<rparr> }"

lemmas lb_affinity_val_codec = lb_affinity_val_ok_def lb_affinity_val_to_bytes_def lb_affinity_val_from_bytes_def

interpretation lb_affinity_val: map_bytes 16 lb_affinity_val_ok lb_affinity_val_to_bytes lb_affinity_val_from_bytes
  by (unfold_locales, simp add: lb_affinity_val_codec encoding, simp add: lb_affinity_val_codec decoding codec)

record lb_affinity_match =
  afm_backend_id :: u32
  afm_rev_nat_id :: u16
  afm_pad :: u16

definition lb_affinity_match_ok :: "lb_affinity_match \<Rightarrow> bool" where
  "lb_affinity_match_ok v \<longleftrightarrow> True"

definition lb_affinity_match_to_bytes :: "lb_affinity_match \<Rightarrow> u8 list option" where
  "lb_affinity_match_to_bytes v = do {
     out \<leftarrow> put_bytes (replicate 8 0) 0 (to_le_bytes (afm_backend_id v));
     out \<leftarrow> put_bytes out 4 (to_le_bytes (afm_rev_nat_id v));
     out \<leftarrow> put_bytes out 6 (to_le_bytes (afm_pad v));
     Some out }"

definition lb_affinity_match_from_bytes :: "u8 list \<Rightarrow> lb_affinity_match option" where
  "lb_affinity_match_from_bytes b = do {
     backend_id \<leftarrow> take_bytes 4 b 0;
     rev_nat_id \<leftarrow> take_bytes 2 b 4;
     pad \<leftarrow> take_bytes 2 b 6;
     Some \<lparr>afm_backend_id = from_le_bytes backend_id, afm_rev_nat_id = from_le_bytes rev_nat_id,
       afm_pad = from_le_bytes pad\<rparr> }"

lemmas lb_affinity_match_codec = lb_affinity_match_ok_def lb_affinity_match_to_bytes_def lb_affinity_match_from_bytes_def

interpretation lb_affinity_match: map_bytes 8 lb_affinity_match_ok lb_affinity_match_to_bytes lb_affinity_match_from_bytes
  by (unfold_locales, simp add: lb_affinity_match_codec encoding, simp add: lb_affinity_match_codec decoding codec)

record skip_lb4_key =
  s4k_netns_cookie :: u64
  s4k_address :: u32
  s4k_port :: u16
  s4k_pad :: u16

definition skip_lb4_key_ok :: "skip_lb4_key \<Rightarrow> bool" where
  "skip_lb4_key_ok v \<longleftrightarrow> True"

definition skip_lb4_key_to_bytes :: "skip_lb4_key \<Rightarrow> u8 list option" where
  "skip_lb4_key_to_bytes v = do {
     out \<leftarrow> put_bytes (replicate 16 0) 0 (to_le_bytes (s4k_netns_cookie v));
     out \<leftarrow> put_bytes out 8 (to_le_bytes (s4k_address v));
     out \<leftarrow> put_bytes out 12 (to_le_bytes (s4k_port v));
     out \<leftarrow> put_bytes out 14 (to_le_bytes (s4k_pad v));
     Some out }"

definition skip_lb4_key_from_bytes :: "u8 list \<Rightarrow> skip_lb4_key option" where
  "skip_lb4_key_from_bytes b = do {
     netns_cookie \<leftarrow> take_bytes 8 b 0;
     address \<leftarrow> take_bytes 4 b 8;
     port \<leftarrow> take_bytes 2 b 12;
     pad \<leftarrow> take_bytes 2 b 14;
     Some \<lparr>s4k_netns_cookie = from_le_bytes netns_cookie, s4k_address = from_le_bytes address,
       s4k_port = from_le_bytes port, s4k_pad = from_le_bytes pad\<rparr> }"

lemmas skip_lb4_key_codec = skip_lb4_key_ok_def skip_lb4_key_to_bytes_def skip_lb4_key_from_bytes_def

interpretation skip_lb4_key: map_bytes 16 skip_lb4_key_ok skip_lb4_key_to_bytes skip_lb4_key_from_bytes
  by (unfold_locales, simp add: skip_lb4_key_codec encoding, simp add: skip_lb4_key_codec decoding codec)

record skip_lb6_key =
  s6k_netns_cookie :: u64
  s6k_address :: "u8 list"
  s6k_pad :: u32
  s6k_port :: u16
  s6k_pad2 :: u16

definition skip_lb6_key_ok :: "skip_lb6_key \<Rightarrow> bool" where
  "skip_lb6_key_ok v \<longleftrightarrow> length (s6k_address v) = 16"

definition skip_lb6_key_to_bytes :: "skip_lb6_key \<Rightarrow> u8 list option" where
  "skip_lb6_key_to_bytes v = do {
     out \<leftarrow> put_bytes (replicate 32 0) 0 (to_le_bytes (s6k_netns_cookie v));
     out \<leftarrow> put_bytes out 8 (s6k_address v);
     out \<leftarrow> put_bytes out 24 (to_le_bytes (s6k_pad v));
     out \<leftarrow> put_bytes out 28 (to_le_bytes (s6k_port v));
     out \<leftarrow> put_bytes out 30 (to_le_bytes (s6k_pad2 v));
     Some out }"

definition skip_lb6_key_from_bytes :: "u8 list \<Rightarrow> skip_lb6_key option" where
  "skip_lb6_key_from_bytes b = do {
     netns_cookie \<leftarrow> take_bytes 8 b 0;
     address \<leftarrow> take_bytes 16 b 8;
     pad \<leftarrow> take_bytes 4 b 24;
     port \<leftarrow> take_bytes 2 b 28;
     pad2 \<leftarrow> take_bytes 2 b 30;
     Some \<lparr>s6k_netns_cookie = from_le_bytes netns_cookie, s6k_address = address,
       s6k_pad = from_le_bytes pad, s6k_port = from_le_bytes port, s6k_pad2 = from_le_bytes pad2\<rparr> }"

lemmas skip_lb6_key_codec = skip_lb6_key_ok_def skip_lb6_key_to_bytes_def skip_lb6_key_from_bytes_def

interpretation skip_lb6_key: map_bytes 32 skip_lb6_key_ok skip_lb6_key_to_bytes skip_lb6_key_from_bytes
  by (unfold_locales, simp add: skip_lb6_key_codec encoding, simp add: skip_lb6_key_codec decoding codec)

section \<open>Cookies and addresses\<close>

definition NETNS_COOKIE :: u8 where
  "NETNS_COOKIE = 1"

definition a4k_with_cookie :: "u64 \<Rightarrow> u16 \<Rightarrow> lb4_affinity_key" where
  "a4k_with_cookie cookie rev_nat_id =
     \<lparr>a4k_client_id = to_le_bytes cookie, a4k_rev_nat_id = rev_nat_id, a4k_flags = NETNS_COOKIE,
      a4k_pad1 = 0, a4k_pad2 = 0\<rparr>"

definition a4k_cookie :: "lb4_affinity_key \<Rightarrow> u64" where
  "a4k_cookie k = from_le_bytes (a4k_client_id k)"

definition a4k_uses_netns_cookie :: "lb4_affinity_key \<Rightarrow> bool" where
  "a4k_uses_netns_cookie k \<longleftrightarrow> a4k_flags k AND NETNS_COOKIE \<noteq> 0"

definition a4k_set_netns_cookie :: "bool \<Rightarrow> lb4_affinity_key \<Rightarrow> lb4_affinity_key" where
  "a4k_set_netns_cookie enabled k =
     k\<lparr>a4k_flags := (a4k_flags k AND NOT NETNS_COOKIE) OR of_bool enabled\<rparr>"

text \<open>\<open>None\<close> is the panic of \<open>put\<close> and \<open>take\<close>.\<close>

definition a6k_with_cookie :: "u64 \<Rightarrow> u16 \<Rightarrow> lb6_affinity_key option" where
  "a6k_with_cookie cookie rev_nat_id = do {
     client_id \<leftarrow> put_bytes (replicate 16 0) 0 (to_le_bytes cookie);
     Some \<lparr>a6k_client_id = client_id, a6k_rev_nat_id = rev_nat_id, a6k_flags = NETNS_COOKIE,
           a6k_pad1 = 0, a6k_pad2 = 0\<rparr> }"

definition a6k_with_address :: "u8 list \<Rightarrow> u16 \<Rightarrow> lb6_affinity_key" where
  "a6k_with_address address rev_nat_id =
     \<lparr>a6k_client_id = address, a6k_rev_nat_id = rev_nat_id, a6k_flags = 0, a6k_pad1 = 0, a6k_pad2 = 0\<rparr>"

definition a6k_cookie :: "lb6_affinity_key \<Rightarrow> u64 option" where
  "a6k_cookie k = map_option from_le_bytes (take_bytes 8 (a6k_client_id k) 0)"

definition a6k_uses_netns_cookie :: "lb6_affinity_key \<Rightarrow> bool" where
  "a6k_uses_netns_cookie k \<longleftrightarrow> a6k_flags k AND NETNS_COOKIE \<noteq> 0"

definition a6k_set_netns_cookie :: "bool \<Rightarrow> lb6_affinity_key \<Rightarrow> lb6_affinity_key" where
  "a6k_set_netns_cookie enabled k =
     k\<lparr>a6k_flags := (a6k_flags k AND NOT NETNS_COOKIE) OR of_bool enabled\<rparr>"

text \<open>
  The session-affinity and skip-LB keys and values have lossless codecs.
\<close>

theorem affinity_codecs:
  "lossless 16 lb4_affinity_key_ok lb4_affinity_key_to_bytes lb4_affinity_key_from_bytes \<and>
   lossless 24 lb6_affinity_key_ok lb6_affinity_key_to_bytes lb6_affinity_key_from_bytes \<and>
   lossless 16 lb_affinity_val_ok lb_affinity_val_to_bytes lb_affinity_val_from_bytes \<and>
   lossless 8 lb_affinity_match_ok lb_affinity_match_to_bytes lb_affinity_match_from_bytes \<and>
   lossless 16 skip_lb4_key_ok skip_lb4_key_to_bytes skip_lb4_key_from_bytes \<and>
   lossless 32 skip_lb6_key_ok skip_lb6_key_to_bytes skip_lb6_key_from_bytes"
  by (intro conjI) (rule lb4_affinity_key.lossless_codec lb6_affinity_key.lossless_codec lb_affinity_val.lossless_codec lb_affinity_match.lossless_codec skip_lb4_key.lossless_codec skip_lb6_key.lossless_codec)+

lemma cookie_flag: "((f AND NOT 1) OR of_bool b) AND 1 \<noteq> 0 \<longleftrightarrow> b" for f :: u8
  by (simp add: and_one_eq mod_2_eq_odd even_or_iff even_and_iff)

lemma cookie_keys:
  "a4k_cookie (a4k_with_cookie c r) = c"
  "a4k_uses_netns_cookie (a4k_with_cookie c r)"
  "a4k_uses_netns_cookie (a4k_set_netns_cookie b k) = b"
  "a6k_uses_netns_cookie (a6k_set_netns_cookie b k6) = b"
  "Option.bind (a6k_with_cookie c r) a6k_cookie = Some c"
  "\<not> a6k_uses_netns_cookie (a6k_with_address a r)"
  using cookie_flag
  by (simp_all add: a4k_cookie_def a4k_with_cookie_def a4k_uses_netns_cookie_def a4k_set_netns_cookie_def
      a6k_uses_netns_cookie_def a6k_set_netns_cookie_def a6k_with_cookie_def a6k_cookie_def a6k_with_address_def
      NETNS_COOKIE_def put_bytes_def take_bytes_def)

end
