(* ===== verification/AbiEndpoint.thy ===== *)
theory AbiEndpoint
  imports AbiCommon
begin

text \<open>
  Endpoint, node and subnet layouts of \<open>flowsdn-bpf-abi/src/endpoint.rs\<close>.
\<close>

record endpoint_key =
  epkey_address :: "u8 list"
  epkey_family :: u8
  epkey_key :: u8
  epkey_cluster_id :: u16

definition endpoint_key_ok :: "endpoint_key \<Rightarrow> bool" where
  "endpoint_key_ok v \<longleftrightarrow> length (epkey_address v) = 16"

definition endpoint_key_to_bytes :: "endpoint_key \<Rightarrow> u8 list option" where
  "endpoint_key_to_bytes v = do {
     out \<leftarrow> put_bytes (replicate 20 0) 0 (epkey_address v);
     out \<leftarrow> put_bytes out 16 [epkey_family v];
     out \<leftarrow> put_bytes out 17 [epkey_key v];
     out \<leftarrow> put_bytes out 18 (to_le_bytes (epkey_cluster_id v));
     Some out }"

definition endpoint_key_from_bytes :: "u8 list \<Rightarrow> endpoint_key option" where
  "endpoint_key_from_bytes b = do {
     address \<leftarrow> take_bytes 16 b 0;
     family \<leftarrow> byte_at b 16;
     key \<leftarrow> byte_at b 17;
     cluster_id \<leftarrow> take_bytes 2 b 18;
     Some \<lparr>epkey_address = address, epkey_family = family, epkey_key = key,
       epkey_cluster_id = from_le_bytes cluster_id\<rparr> }"

lemmas endpoint_key_codec = endpoint_key_ok_def endpoint_key_to_bytes_def endpoint_key_from_bytes_def

interpretation endpoint_key: map_bytes 20 endpoint_key_ok endpoint_key_to_bytes endpoint_key_from_bytes
  by (unfold_locales, simp add: endpoint_key_codec encoding, simp add: endpoint_key_codec decoding codec)

record node_key =
  ndk_pad1 :: u16
  ndk_pad2 :: u8
  ndk_family :: u8
  ndk_address :: "u8 list"

definition node_key_ok :: "node_key \<Rightarrow> bool" where
  "node_key_ok v \<longleftrightarrow> length (ndk_address v) = 16"

definition node_key_to_bytes :: "node_key \<Rightarrow> u8 list option" where
  "node_key_to_bytes v = do {
     out \<leftarrow> put_bytes (replicate 20 0) 0 (to_le_bytes (ndk_pad1 v));
     out \<leftarrow> put_bytes out 2 [ndk_pad2 v];
     out \<leftarrow> put_bytes out 3 [ndk_family v];
     out \<leftarrow> put_bytes out 4 (ndk_address v);
     Some out }"

definition node_key_from_bytes :: "u8 list \<Rightarrow> node_key option" where
  "node_key_from_bytes b = do {
     pad1 \<leftarrow> take_bytes 2 b 0;
     pad2 \<leftarrow> byte_at b 2;
     family \<leftarrow> byte_at b 3;
     address \<leftarrow> take_bytes 16 b 4;
     Some \<lparr>ndk_pad1 = from_le_bytes pad1, ndk_pad2 = pad2, ndk_family = family,
       ndk_address = address\<rparr> }"

lemmas node_key_codec = node_key_ok_def node_key_to_bytes_def node_key_from_bytes_def

interpretation node_key: map_bytes 20 node_key_ok node_key_to_bytes node_key_from_bytes
  by (unfold_locales, simp add: node_key_codec encoding, simp add: node_key_codec decoding codec)

record node_value =
  ndv_id :: u16
  ndv_spi :: u8
  ndv_pad :: u8

definition node_value_ok :: "node_value \<Rightarrow> bool" where
  "node_value_ok v \<longleftrightarrow> True"

definition node_value_to_bytes :: "node_value \<Rightarrow> u8 list option" where
  "node_value_to_bytes v = do {
     out \<leftarrow> put_bytes (replicate 4 0) 0 (to_le_bytes (ndv_id v));
     out \<leftarrow> put_bytes out 2 [ndv_spi v];
     out \<leftarrow> put_bytes out 3 [ndv_pad v];
     Some out }"

definition node_value_from_bytes :: "u8 list \<Rightarrow> node_value option" where
  "node_value_from_bytes b = do {
     id \<leftarrow> take_bytes 2 b 0;
     spi \<leftarrow> byte_at b 2;
     pad \<leftarrow> byte_at b 3;
     Some \<lparr>ndv_id = from_le_bytes id, ndv_spi = spi, ndv_pad = pad\<rparr> }"

lemmas node_value_codec = node_value_ok_def node_value_to_bytes_def node_value_from_bytes_def

interpretation node_value: map_bytes 4 node_value_ok node_value_to_bytes node_value_from_bytes
  by (unfold_locales, simp add: node_value_codec encoding, simp add: node_value_codec decoding codec)

record subnet_key =
  snk_prefixlen :: u32
  snk_pad0 :: u16
  snk_pad1 :: u8
  snk_family :: u8
  snk_address :: "u8 list"

definition subnet_key_ok :: "subnet_key \<Rightarrow> bool" where
  "subnet_key_ok v \<longleftrightarrow> length (snk_address v) = 16"

definition subnet_key_to_bytes :: "subnet_key \<Rightarrow> u8 list option" where
  "subnet_key_to_bytes v = do {
     out \<leftarrow> put_bytes (replicate 24 0) 0 (to_le_bytes (snk_prefixlen v));
     out \<leftarrow> put_bytes out 4 (to_le_bytes (snk_pad0 v));
     out \<leftarrow> put_bytes out 6 [snk_pad1 v];
     out \<leftarrow> put_bytes out 7 [snk_family v];
     out \<leftarrow> put_bytes out 8 (snk_address v);
     Some out }"

definition subnet_key_from_bytes :: "u8 list \<Rightarrow> subnet_key option" where
  "subnet_key_from_bytes b = do {
     prefixlen \<leftarrow> take_bytes 4 b 0;
     pad0 \<leftarrow> take_bytes 2 b 4;
     pad1 \<leftarrow> byte_at b 6;
     family \<leftarrow> byte_at b 7;
     address \<leftarrow> take_bytes 16 b 8;
     Some \<lparr>snk_prefixlen = from_le_bytes prefixlen, snk_pad0 = from_le_bytes pad0, snk_pad1 = pad1,
       snk_family = family, snk_address = address\<rparr> }"

lemmas subnet_key_codec = subnet_key_ok_def subnet_key_to_bytes_def subnet_key_from_bytes_def

interpretation subnet_key: map_bytes 24 subnet_key_ok subnet_key_to_bytes subnet_key_from_bytes
  by (unfold_locales, simp add: subnet_key_codec encoding, simp add: subnet_key_codec decoding codec)

record subnet_value =
  snv_identity :: u32

definition subnet_value_ok :: "subnet_value \<Rightarrow> bool" where
  "subnet_value_ok v \<longleftrightarrow> True"

definition subnet_value_to_bytes :: "subnet_value \<Rightarrow> u8 list option" where
  "subnet_value_to_bytes v = do {
     out \<leftarrow> put_bytes (replicate 4 0) 0 (to_le_bytes (snv_identity v));
     Some out }"

definition subnet_value_from_bytes :: "u8 list \<Rightarrow> subnet_value option" where
  "subnet_value_from_bytes b = do {
     identity \<leftarrow> take_bytes 4 b 0;
     Some \<lparr>snv_identity = from_le_bytes identity\<rparr> }"

lemmas subnet_value_codec = subnet_value_ok_def subnet_value_to_bytes_def subnet_value_from_bytes_def

interpretation subnet_value: map_bytes 4 subnet_value_ok subnet_value_to_bytes subnet_value_from_bytes
  by (unfold_locales, simp add: subnet_value_codec encoding, simp add: subnet_value_codec decoding codec)

record endpoint_info =
  epi_ifindex :: u32
  epi_unused :: u16
  epi_lxc_id :: u16
  epi_flags :: u32
  epi_rt_info :: u32
  epi_mac :: u64
  epi_node_mac :: u64
  epi_sec_id :: u32
  epi_parent_ifindex :: u32
  epi_pad :: "u32 list"

definition endpoint_info_ok :: "endpoint_info \<Rightarrow> bool" where
  "endpoint_info_ok v \<longleftrightarrow> length (epi_pad v) = 2"

definition endpoint_info_to_bytes :: "endpoint_info \<Rightarrow> u8 list option" where
  "endpoint_info_to_bytes v = do {
     out \<leftarrow> put_bytes (replicate 48 0) 0 (to_le_bytes (epi_ifindex v));
     out \<leftarrow> put_bytes out 4 (to_le_bytes (epi_unused v));
     out \<leftarrow> put_bytes out 6 (to_le_bytes (epi_lxc_id v));
     out \<leftarrow> put_bytes out 8 (to_le_bytes (epi_flags v));
     out \<leftarrow> put_bytes out 12 (to_le_bytes (epi_rt_info v));
     out \<leftarrow> put_bytes out 16 (to_le_bytes (epi_mac v));
     out \<leftarrow> put_bytes out 24 (to_le_bytes (epi_node_mac v));
     out \<leftarrow> put_bytes out 32 (to_le_bytes (epi_sec_id v));
     out \<leftarrow> put_bytes out 36 (to_le_bytes (epi_parent_ifindex v));
     out \<leftarrow> put_bytes out 40 (to_le_bytes (epi_pad v ! 0));
     out \<leftarrow> put_bytes out 44 (to_le_bytes (epi_pad v ! 1));
     Some out }"

definition endpoint_info_from_bytes :: "u8 list \<Rightarrow> endpoint_info option" where
  "endpoint_info_from_bytes b = do {
     ifindex \<leftarrow> take_bytes 4 b 0;
     unused \<leftarrow> take_bytes 2 b 4;
     lxc_id \<leftarrow> take_bytes 2 b 6;
     flags \<leftarrow> take_bytes 4 b 8;
     rt_info \<leftarrow> take_bytes 4 b 12;
     mac \<leftarrow> take_bytes 8 b 16;
     node_mac \<leftarrow> take_bytes 8 b 24;
     sec_id \<leftarrow> take_bytes 4 b 32;
     parent_ifindex \<leftarrow> take_bytes 4 b 36;
     first \<leftarrow> take_bytes 4 b 40;
     second \<leftarrow> take_bytes 4 b 44;
     Some \<lparr>epi_ifindex = from_le_bytes ifindex, epi_unused = from_le_bytes unused,
       epi_lxc_id = from_le_bytes lxc_id, epi_flags = from_le_bytes flags, epi_rt_info = from_le_bytes rt_info,
       epi_mac = from_le_bytes mac, epi_node_mac = from_le_bytes node_mac, epi_sec_id = from_le_bytes sec_id,
       epi_parent_ifindex = from_le_bytes parent_ifindex,
       epi_pad = [from_le_bytes first, from_le_bytes second]\<rparr> }"

lemmas endpoint_info_codec = endpoint_info_ok_def endpoint_info_to_bytes_def endpoint_info_from_bytes_def

lemma two_elements: "length xs = 2 \<Longrightarrow> [xs ! 0, xs ! Suc 0] = xs"
  by (auto simp: numeral_2_eq_2 length_Suc_conv)

interpretation endpoint_info: map_bytes 48 endpoint_info_ok endpoint_info_to_bytes endpoint_info_from_bytes
  by (unfold_locales, simp add: endpoint_info_codec encoding two_elements, simp add: endpoint_info_codec decoding codec)

section \<open>Construction\<close>

definition epkey_v4 :: "u8 list \<Rightarrow> u8 \<Rightarrow> u16 \<Rightarrow> endpoint_key option" where
  "epkey_v4 address key cluster_id = do {
     full \<leftarrow> put_bytes (replicate 16 0) 0 address;
     Some \<lparr>epkey_address = full, epkey_family = FAMILY_V4, epkey_key = key, epkey_cluster_id = cluster_id\<rparr> }"

definition epkey_v6 :: "u8 list \<Rightarrow> u8 \<Rightarrow> u16 \<Rightarrow> endpoint_key" where
  "epkey_v6 address key cluster_id =
     \<lparr>epkey_address = address, epkey_family = FAMILY_V6, epkey_key = key, epkey_cluster_id = cluster_id\<rparr>"

definition ndk_v4 :: "u8 list \<Rightarrow> node_key option" where
  "ndk_v4 address = do {
     full \<leftarrow> put_bytes (replicate 16 0) 0 address;
     Some \<lparr>ndk_pad1 = 0, ndk_pad2 = 0, ndk_family = FAMILY_V4, ndk_address = full\<rparr> }"

definition ndk_v6 :: "u8 list \<Rightarrow> node_key" where
  "ndk_v6 address = \<lparr>ndk_pad1 = 0, ndk_pad2 = 0, ndk_family = FAMILY_V6, ndk_address = address\<rparr>"

definition snk_v4 :: "u8 list \<Rightarrow> u32 \<Rightarrow> (invalid_prefix + subnet_key) option" where
  "snk_v4 address bits =
     (if 32 < bits then Some (Inl InvalidPrefix)
      else do {
        full \<leftarrow> put_bytes (replicate 16 0) 0 address;
        Some (case checked_add 32 bits of
                None \<Rightarrow> Inl InvalidPrefix
              | Some prefixlen \<Rightarrow> Inr \<lparr>snk_prefixlen = prefixlen, snk_pad0 = 0, snk_pad1 = 0,
                  snk_family = FAMILY_V4, snk_address = full\<rparr>) })"

definition snk_v6 :: "u8 list \<Rightarrow> u32 \<Rightarrow> invalid_prefix + subnet_key" where
  "snk_v6 address bits =
     (if 128 < bits then Inl InvalidPrefix
      else case checked_add 32 bits of
             None \<Rightarrow> Inl InvalidPrefix
           | Some prefixlen \<Rightarrow> Inr \<lparr>snk_prefixlen = prefixlen, snk_pad0 = 0, snk_pad1 = 0,
               snk_family = FAMILY_V6, snk_address = address\<rparr>)"

text \<open>
  The endpoint, node and subnet keys and values have lossless codecs.
\<close>

theorem endpoint_codecs:
  "lossless 20 endpoint_key_ok endpoint_key_to_bytes endpoint_key_from_bytes \<and>
   lossless 48 endpoint_info_ok endpoint_info_to_bytes endpoint_info_from_bytes \<and>
   lossless 20 node_key_ok node_key_to_bytes node_key_from_bytes \<and>
   lossless 4 node_value_ok node_value_to_bytes node_value_from_bytes \<and>
   lossless 24 subnet_key_ok subnet_key_to_bytes subnet_key_from_bytes \<and>
   lossless 4 subnet_value_ok subnet_value_to_bytes subnet_value_from_bytes"
  by (intro conjI) (rule endpoint_key.lossless_codec endpoint_info.lossless_codec node_key.lossless_codec node_value.lossless_codec subnet_key.lossless_codec subnet_value.lossless_codec)+

lemma endpoint_keys_disjoint:
  "length a = 4 \<Longrightarrow> epkey_v4 a k c \<noteq> Some (epkey_v6 b k' c')"
  "length a = 4 \<Longrightarrow> ndk_v4 a \<noteq> Some (ndk_v6 b)"
  by (auto simp: epkey_v4_def epkey_v6_def ndk_v4_def ndk_v6_def put_bytes_def FAMILY_V4_def FAMILY_V6_def)

end
