(* ===== verification/AbiCt.thy ===== *)
theory AbiCt
  imports AbiCommon
begin

text \<open>
  Conntrack and NAT values of \<open>flowsdn-bpf-abi/src/ct.rs\<close>.
\<close>

record ct_entry =
  cte_nat_addr_or_service :: "u8 list"
  cte_packets :: u64
  cte_bytes :: u64
  cte_lifetime :: u32
  cte_flags :: u16
  cte_rev_nat_index :: u16
  cte_nat_port :: "u8 list"
  cte_tx_flags_seen :: u8
  cte_rx_flags_seen :: u8
  cte_src_sec_id :: u32
  cte_last_tx_report :: u32
  cte_last_rx_report :: u32

definition ct_entry_ok :: "ct_entry \<Rightarrow> bool" where
  "ct_entry_ok v \<longleftrightarrow> length (cte_nat_addr_or_service v) = 16 \<and> length (cte_nat_port v) = 2"

definition ct_entry_to_bytes :: "ct_entry \<Rightarrow> u8 list option" where
  "ct_entry_to_bytes v = do {
     out \<leftarrow> put_bytes (replicate 56 0) 0 (cte_nat_addr_or_service v);
     out \<leftarrow> put_bytes out 16 (to_le_bytes (cte_packets v));
     out \<leftarrow> put_bytes out 24 (to_le_bytes (cte_bytes v));
     out \<leftarrow> put_bytes out 32 (to_le_bytes (cte_lifetime v));
     out \<leftarrow> put_bytes out 36 (to_le_bytes (cte_flags v));
     out \<leftarrow> put_bytes out 38 (to_le_bytes (cte_rev_nat_index v));
     out \<leftarrow> put_bytes out 40 (cte_nat_port v);
     out \<leftarrow> put_bytes out 42 [cte_tx_flags_seen v, cte_rx_flags_seen v];
     out \<leftarrow> put_bytes out 44 (to_le_bytes (cte_src_sec_id v));
     out \<leftarrow> put_bytes out 48 (to_le_bytes (cte_last_tx_report v));
     out \<leftarrow> put_bytes out 52 (to_le_bytes (cte_last_rx_report v));
     Some out }"

definition ct_entry_from_bytes :: "u8 list \<Rightarrow> ct_entry option" where
  "ct_entry_from_bytes b = do {
     nat_addr_or_service \<leftarrow> take_bytes 16 b 0;
     packets \<leftarrow> take_bytes 8 b 16;
     bytes \<leftarrow> take_bytes 8 b 24;
     lifetime \<leftarrow> take_bytes 4 b 32;
     flags \<leftarrow> take_bytes 2 b 36;
     rev_nat_index \<leftarrow> take_bytes 2 b 38;
     nat_port \<leftarrow> take_bytes 2 b 40;
     tx_flags_seen \<leftarrow> byte_at b 42;
     rx_flags_seen \<leftarrow> byte_at b 43;
     src_sec_id \<leftarrow> take_bytes 4 b 44;
     last_tx_report \<leftarrow> take_bytes 4 b 48;
     last_rx_report \<leftarrow> take_bytes 4 b 52;
     Some \<lparr>cte_nat_addr_or_service = nat_addr_or_service, cte_packets = from_le_bytes packets,
       cte_bytes = from_le_bytes bytes, cte_lifetime = from_le_bytes lifetime,
       cte_flags = from_le_bytes flags, cte_rev_nat_index = from_le_bytes rev_nat_index,
       cte_nat_port = nat_port, cte_tx_flags_seen = tx_flags_seen, cte_rx_flags_seen = rx_flags_seen,
       cte_src_sec_id = from_le_bytes src_sec_id, cte_last_tx_report = from_le_bytes last_tx_report,
       cte_last_rx_report = from_le_bytes last_rx_report\<rparr> }"

lemmas ct_entry_codec = ct_entry_ok_def ct_entry_to_bytes_def ct_entry_from_bytes_def

interpretation ct_entry: map_bytes 56 ct_entry_ok ct_entry_to_bytes ct_entry_from_bytes
  by (unfold_locales, simp add: ct_entry_codec encoding, simp add: ct_entry_codec decoding codec)

record nat_entry =
  nat_created :: u64
  nat_needs_ct :: u64
  nat_pad1 :: u64
  nat_pad2 :: u64

definition nat_entry_ok :: "nat_entry \<Rightarrow> bool" where
  "nat_entry_ok v \<longleftrightarrow> True"

definition nat_entry_to_bytes :: "nat_entry \<Rightarrow> u8 list option" where
  "nat_entry_to_bytes v = do {
     out \<leftarrow> put_bytes (replicate 32 0) 0 (to_le_bytes (nat_created v));
     out \<leftarrow> put_bytes out 8 (to_le_bytes (nat_needs_ct v));
     out \<leftarrow> put_bytes out 16 (to_le_bytes (nat_pad1 v));
     out \<leftarrow> put_bytes out 24 (to_le_bytes (nat_pad2 v));
     Some out }"

definition nat_entry_from_bytes :: "u8 list \<Rightarrow> nat_entry option" where
  "nat_entry_from_bytes b = do {
     created \<leftarrow> take_bytes 8 b 0;
     needs_ct \<leftarrow> take_bytes 8 b 8;
     pad1 \<leftarrow> take_bytes 8 b 16;
     pad2 \<leftarrow> take_bytes 8 b 24;
     Some \<lparr>nat_created = from_le_bytes created, nat_needs_ct = from_le_bytes needs_ct,
       nat_pad1 = from_le_bytes pad1, nat_pad2 = from_le_bytes pad2\<rparr> }"

lemmas nat_entry_codec = nat_entry_ok_def nat_entry_to_bytes_def nat_entry_from_bytes_def

interpretation nat_entry: map_bytes 32 nat_entry_ok nat_entry_to_bytes nat_entry_from_bytes
  by (unfold_locales, simp add: nat_entry_codec encoding, simp add: nat_entry_codec decoding codec)

record ipv4_nat_entry =
  n4e_common :: nat_entry
  n4e_address :: "u8 list"
  n4e_port :: "u8 list"
  n4e_pad :: "u8 list"

definition ipv4_nat_entry_ok :: "ipv4_nat_entry \<Rightarrow> bool" where
  "ipv4_nat_entry_ok v \<longleftrightarrow> length (n4e_address v) = 4 \<and> length (n4e_port v) = 2 \<and> length (n4e_pad v) = 2"

definition ipv4_nat_entry_to_bytes :: "ipv4_nat_entry \<Rightarrow> u8 list option" where
  "ipv4_nat_entry_to_bytes v = do {
     common \<leftarrow> nat_entry_to_bytes (n4e_common v);
     out \<leftarrow> put_bytes (replicate 40 0) 0 common;
     out \<leftarrow> put_bytes out 32 (n4e_address v);
     out \<leftarrow> put_bytes out 36 (n4e_port v);
     out \<leftarrow> put_bytes out 38 (n4e_pad v);
     Some out }"

definition ipv4_nat_entry_from_bytes :: "u8 list \<Rightarrow> ipv4_nat_entry option" where
  "ipv4_nat_entry_from_bytes b = do {
     common \<leftarrow> take_bytes 32 b 0;
     common \<leftarrow> nat_entry_from_bytes common;
     address \<leftarrow> take_bytes 4 b 32;
     port \<leftarrow> take_bytes 2 b 36;
     pad \<leftarrow> take_bytes 2 b 38;
     Some \<lparr>n4e_common = common, n4e_address = address, n4e_port = port, n4e_pad = pad\<rparr> }"

lemmas ipv4_nat_entry_codec = ipv4_nat_entry_ok_def ipv4_nat_entry_to_bytes_def ipv4_nat_entry_from_bytes_def

interpretation ipv4_nat_entry: map_bytes 40 ipv4_nat_entry_ok ipv4_nat_entry_to_bytes ipv4_nat_entry_from_bytes
proof
  fix x :: ipv4_nat_entry
  obtain cs where "nat_entry_to_bytes (n4e_common x) = Some cs" "length cs = 32"
      "nat_entry_from_bytes cs = Some (n4e_common x)"
    using nat_entry.enc_dec [of "n4e_common x"] by (auto simp: nat_entry_ok_def)
  then show "ipv4_nat_entry_ok x \<Longrightarrow> \<exists>bs. ipv4_nat_entry_to_bytes x = Some bs \<and> length bs = 40 \<and> ipv4_nat_entry_from_bytes bs = Some x"
    by (simp add: ipv4_nat_entry_codec encoding)
next
  fix bs :: "u8 list"
  assume n: "length bs = 40"
  obtain c where "nat_entry_from_bytes (take 32 bs) = Some c" "nat_entry_to_bytes c = Some (take 32 bs)"
    using nat_entry.dec_enc [of "take 32 bs"] n by auto
  with n show "\<exists>x. ipv4_nat_entry_from_bytes bs = Some x \<and> ipv4_nat_entry_ok x \<and> ipv4_nat_entry_to_bytes x = Some bs"
    by (simp add: ipv4_nat_entry_codec decoding codec)
qed

record ipv6_nat_entry =
  n6e_common :: nat_entry
  n6e_address :: "u8 list"
  n6e_port :: "u8 list"
  n6e_pad :: "u8 list"

definition ipv6_nat_entry_ok :: "ipv6_nat_entry \<Rightarrow> bool" where
  "ipv6_nat_entry_ok v \<longleftrightarrow> length (n6e_address v) = 16 \<and> length (n6e_port v) = 2 \<and> length (n6e_pad v) = 6"

definition ipv6_nat_entry_to_bytes :: "ipv6_nat_entry \<Rightarrow> u8 list option" where
  "ipv6_nat_entry_to_bytes v = do {
     common \<leftarrow> nat_entry_to_bytes (n6e_common v);
     out \<leftarrow> put_bytes (replicate 56 0) 0 common;
     out \<leftarrow> put_bytes out 32 (n6e_address v);
     out \<leftarrow> put_bytes out 48 (n6e_port v);
     out \<leftarrow> put_bytes out 50 (n6e_pad v);
     Some out }"

definition ipv6_nat_entry_from_bytes :: "u8 list \<Rightarrow> ipv6_nat_entry option" where
  "ipv6_nat_entry_from_bytes b = do {
     common \<leftarrow> take_bytes 32 b 0;
     common \<leftarrow> nat_entry_from_bytes common;
     address \<leftarrow> take_bytes 16 b 32;
     port \<leftarrow> take_bytes 2 b 48;
     pad \<leftarrow> take_bytes 6 b 50;
     Some \<lparr>n6e_common = common, n6e_address = address, n6e_port = port, n6e_pad = pad\<rparr> }"

lemmas ipv6_nat_entry_codec = ipv6_nat_entry_ok_def ipv6_nat_entry_to_bytes_def ipv6_nat_entry_from_bytes_def

interpretation ipv6_nat_entry: map_bytes 56 ipv6_nat_entry_ok ipv6_nat_entry_to_bytes ipv6_nat_entry_from_bytes
proof
  fix x :: ipv6_nat_entry
  obtain cs where "nat_entry_to_bytes (n6e_common x) = Some cs" "length cs = 32"
      "nat_entry_from_bytes cs = Some (n6e_common x)"
    using nat_entry.enc_dec [of "n6e_common x"] by (auto simp: nat_entry_ok_def)
  then show "ipv6_nat_entry_ok x \<Longrightarrow> \<exists>bs. ipv6_nat_entry_to_bytes x = Some bs \<and> length bs = 56 \<and> ipv6_nat_entry_from_bytes bs = Some x"
    by (simp add: ipv6_nat_entry_codec encoding)
next
  fix bs :: "u8 list"
  assume n: "length bs = 56"
  obtain c where "nat_entry_from_bytes (take 32 bs) = Some c" "nat_entry_to_bytes c = Some (take 32 bs)"
    using nat_entry.dec_enc [of "take 32 bs"] n by auto
  with n show "\<exists>x. ipv6_nat_entry_from_bytes bs = Some x \<and> ipv6_nat_entry_ok x \<and> ipv6_nat_entry_to_bytes x = Some bs"
    by (simp add: ipv6_nat_entry_codec decoding codec)
qed


section \<open>Unions and flags\<close>

definition cte_service_backend_raw :: "ct_entry \<Rightarrow> u64 option" where
  "cte_service_backend_raw e = map_option from_le_bytes (take_bytes 8 (cte_nat_addr_or_service e) 8)"

definition cte_set_service_backend :: "u32 \<Rightarrow> ct_entry \<Rightarrow> ct_entry option" where
  "cte_set_service_backend backend_id e = do {
     union \<leftarrow> put_bytes (replicate 16 0) 8 (to_le_bytes (ucast backend_id :: u64));
     Some (e\<lparr>cte_nat_addr_or_service := union\<rparr>) }"

definition nat_requires_conntrack :: "nat_entry \<Rightarrow> bool" where
  "nat_requires_conntrack e \<longleftrightarrow> nat_needs_ct e AND 1 \<noteq> 0"

definition nat_set_requires_conntrack :: "bool \<Rightarrow> nat_entry \<Rightarrow> nat_entry" where
  "nat_set_requires_conntrack required e =
     e\<lparr>nat_needs_ct := (nat_needs_ct e AND NOT 1) OR of_bool required\<rparr>"

text \<open>
  The connection-tracking and address-translation values have lossless codecs.
\<close>

theorem ct_codecs:
  "lossless 56 ct_entry_ok ct_entry_to_bytes ct_entry_from_bytes \<and>
   lossless 32 nat_entry_ok nat_entry_to_bytes nat_entry_from_bytes \<and>
   lossless 40 ipv4_nat_entry_ok ipv4_nat_entry_to_bytes ipv4_nat_entry_from_bytes \<and>
   lossless 56 ipv6_nat_entry_ok ipv6_nat_entry_to_bytes ipv6_nat_entry_from_bytes"
  by (intro conjI) (rule ct_entry.lossless_codec nat_entry.lossless_codec ipv4_nat_entry.lossless_codec ipv6_nat_entry.lossless_codec)+

lemma service_backend_round_trip:
  "Option.bind (cte_set_service_backend b e) cte_service_backend_raw = Some (ucast b)"
  by (simp add: cte_set_service_backend_def cte_service_backend_raw_def put_bytes_def take_bytes_def)

lemma low_bit_other:
  "bit (x AND - 2) (Suc n) = bit x (Suc n)" "bit (x AND - 2 OR 1) (Suc n) = bit x (Suc n)" for x :: u64
proof -
  have "(- 2 :: u64) = NOT 1"
    by simp
  then show "bit (x AND - 2) (Suc n) = bit x (Suc n)" "bit (x AND - 2 OR 1) (Suc n) = bit x (Suc n)"
    by (auto simp only: bit_or_iff bit_and_iff bit_not_iff bit_1_iff possible_bit_word dest: bit_imp_le_length)
qed

lemma conntrack_flag:
  "nat_requires_conntrack (nat_set_requires_conntrack b e) = b"
  "drop_bit 1 (nat_needs_ct (nat_set_requires_conntrack b e)) = drop_bit 1 (nat_needs_ct e)"
proof -
  show "nat_requires_conntrack (nat_set_requires_conntrack b e) = b"
    by (simp add: nat_requires_conntrack_def nat_set_requires_conntrack_def and_one_eq mod_2_eq_odd even_or_iff
        even_and_iff)
  have "bit (nat_needs_ct (nat_set_requires_conntrack b e)) (Suc n) = bit (nat_needs_ct e) (Suc n)" for n
    by (simp add: nat_set_requires_conntrack_def low_bit_other)
  then show "drop_bit 1 (nat_needs_ct (nat_set_requires_conntrack b e)) = drop_bit 1 (nat_needs_ct e)"
    by (intro bit_word_eqI) (simp only: bit_drop_bit_eq o_def plus_1_eq_Suc)
qed

end
