(* ===== verification/Tunnel.thy ===== *)
theory Tunnel
  imports AbiPolicy
begin

text \<open>
  Overlay headers of \<open>flowsdn-bpf-abi/src/tunnel.rs\<close>: the identity carried by VXLAN and Geneve, the
  two base headers and the direct-server-return options. A decoder rejects what an encoder cannot
  produce: the locale \<open>wire_header\<close> is that contract. \<open>None\<close> is a panic of \<open>put\<close> or \<open>take\<close>.
\<close>

section \<open>Identities\<close>

datatype wire_error = WireLength | IdentityTooWide | HostIdentity | WireReserved | WireUnsupported

datatype tunnel_family = TunnelV4 | TunnelV6

type_synonym tunnel_identity = u32

definition ti_from_wire :: "u32 \<Rightarrow> wire_error + tunnel_identity" where
  "ti_from_wire identity =
     (if 0x00ffffff < identity then Inl IdentityTooWide
      else if identity = 1 then Inl HostIdentity
      else Inr identity)"

definition ti_for_encapsulation :: "u32 \<Rightarrow> wire_error + tunnel_identity" where
  "ti_for_encapsulation identity =
     ti_from_wire (if identity = 1 then 6 else if identity = 9 \<or> identity = 10 then 2 else identity)"

definition ti_for_decapsulation :: "tunnel_identity \<Rightarrow> tunnel_family \<Rightarrow> bool \<Rightarrow> u32" where
  "ti_for_decapsulation i family dual_stack =
     (if i = 2 \<and> dual_stack then (case family of TunnelV4 \<Rightarrow> 9 | TunnelV6 \<Rightarrow> 10) else i)"

definition ti_word :: "tunnel_identity \<Rightarrow> u8 list" where
  "ti_word i = to_be_bytes (push_bit 8 i)"

definition ti_decode :: "u8 list \<Rightarrow> wire_error + tunnel_identity" where
  "ti_decode word = (if word ! 3 \<noteq> 0 then Inl WireReserved else ti_from_wire (drop_bit 8 (from_be_bytes word)))"

definition ti_ok :: "tunnel_identity \<Rightarrow> bool" where
  "ti_ok i \<longleftrightarrow> i \<le> 0x00ffffff \<and> i \<noteq> 1"

section \<open>Headers\<close>

definition ETHERNET_PROTOCOL :: u16 where
  "ETHERNET_PROTOCOL = 0x6558"

definition DSR_CLASS :: u16 where
  "DSR_CLASS = 0x014b"

definition DSR_TYPE :: u8 where
  "DSR_TYPE = 0x81"

record vxlan_header =
  vx_identity :: tunnel_identity

definition vx_to_bytes :: "vxlan_header \<Rightarrow> u8 list option" where
  "vx_to_bytes h = do {
     bytes \<leftarrow> put_bytes (replicate 8 0) 0 [8, 0, 0, 0];
     bytes \<leftarrow> put_bytes bytes 4 (ti_word (vx_identity h));
     Some bytes }"

definition vx_from_bytes :: "u8 list \<Rightarrow> (wire_error + vxlan_header) option" where
  "vx_from_bytes bytes = do {
     flags \<leftarrow> take_bytes 4 bytes 0;
     if flags \<noteq> [8, 0, 0, 0] then Some (Inl WireUnsupported)
     else do {
       word \<leftarrow> take_bytes 4 bytes 4;
       Some (case ti_decode word of Inl e \<Rightarrow> Inl e | Inr i \<Rightarrow> Inr \<lparr>vx_identity = i\<rparr>) } }"

record geneve_header =
  gn_identity :: tunnel_identity
  gn_option_words :: u8
  gn_critical :: bool

definition gn_new :: "tunnel_identity \<Rightarrow> u8 \<Rightarrow> bool \<Rightarrow> wire_error + geneve_header" where
  "gn_new identity option_words critical =
     (if 63 < option_words then Inl WireLength
      else Inr \<lparr>gn_identity = identity, gn_option_words = option_words, gn_critical = critical\<rparr>)"

definition gn_to_bytes :: "geneve_header \<Rightarrow> u8 list option" where
  "gn_to_bytes h = do {
     bytes \<leftarrow> put_bytes (replicate 8 0) 0 [gn_option_words h, push_bit 6 (of_bool (gn_critical h))];
     bytes \<leftarrow> put_bytes bytes 2 (to_be_bytes ETHERNET_PROTOCOL);
     bytes \<leftarrow> put_bytes bytes 4 (ti_word (gn_identity h));
     Some bytes }"

definition gn_from_bytes :: "u8 list \<Rightarrow> (wire_error + geneve_header) option" where
  "gn_from_bytes bytes = do {
     first \<leftarrow> take_bytes 2 bytes 0;
     protocol \<leftarrow> take_bytes 2 bytes 2;
     word \<leftarrow> take_bytes 4 bytes 4;
     let version_length = first ! 0; flags = first ! 1 in
     if version_length AND 0xc0 \<noteq> 0 \<or> flags AND 0x80 \<noteq> 0 \<or> from_be_bytes protocol \<noteq> ETHERNET_PROTOCOL
     then Some (Inl WireUnsupported)
     else if flags AND 0x3f \<noteq> 0 then Some (Inl WireReserved)
     else Some (case ti_decode word of
                  Inl e \<Rightarrow> Inl e
                | Inr i \<Rightarrow> gn_new i version_length (flags AND 0x40 \<noteq> 0)) }"

definition validate_option :: "u8 list \<Rightarrow> u8 \<Rightarrow> u8 list \<Rightarrow> wire_error + unit" where
  "validate_option header words padding =
     (if from_be_bytes [header ! 0, header ! 1] \<noteq> DSR_CLASS \<or> header ! 2 \<noteq> DSR_TYPE then Inl WireUnsupported
      else if header ! 3 AND 0xe0 \<noteq> 0 \<or> padding \<noteq> [0, 0] then Inl WireReserved
      else if header ! 3 \<noteq> words then Inl WireLength
      else Inr ())"

record dsr_ipv4 =
  dsr4_address :: "u8 list"
  dsr4_port :: u16

definition dsr4_to_bytes :: "dsr_ipv4 \<Rightarrow> u8 list option" where
  "dsr4_to_bytes h = do {
     bytes \<leftarrow> put_bytes (replicate 12 0) 0 [0x01, 0x4b, DSR_TYPE, 2];
     bytes \<leftarrow> put_bytes bytes 4 (dsr4_address h);
     bytes \<leftarrow> put_bytes bytes 8 (to_be_bytes (dsr4_port h));
     Some bytes }"

definition dsr4_from_bytes :: "u8 list \<Rightarrow> (wire_error + dsr_ipv4) option" where
  "dsr4_from_bytes bytes = do {
     header \<leftarrow> take_bytes 4 bytes 0;
     padding \<leftarrow> take_bytes 2 bytes 10;
     case validate_option header 2 padding of
       Inl e \<Rightarrow> Some (Inl e)
     | Inr _ \<Rightarrow> do {
         address \<leftarrow> take_bytes 4 bytes 4;
         port \<leftarrow> take_bytes 2 bytes 8;
         Some (Inr \<lparr>dsr4_address = address, dsr4_port = from_be_bytes port\<rparr>) } }"

record dsr_ipv6 =
  dsr6_address :: "u8 list"
  dsr6_port :: u16

definition dsr6_to_bytes :: "dsr_ipv6 \<Rightarrow> u8 list option" where
  "dsr6_to_bytes h = do {
     bytes \<leftarrow> put_bytes (replicate 24 0) 0 [0x01, 0x4b, DSR_TYPE, 5];
     bytes \<leftarrow> put_bytes bytes 4 (dsr6_address h);
     bytes \<leftarrow> put_bytes bytes 20 (to_be_bytes (dsr6_port h));
     Some bytes }"

definition dsr6_from_bytes :: "u8 list \<Rightarrow> (wire_error + dsr_ipv6) option" where
  "dsr6_from_bytes bytes = do {
     header \<leftarrow> take_bytes 4 bytes 0;
     padding \<leftarrow> take_bytes 2 bytes 22;
     case validate_option header 5 padding of
       Inl e \<Rightarrow> Some (Inl e)
     | Inr _ \<Rightarrow> do {
         address \<leftarrow> take_bytes 16 bytes 4;
         port \<leftarrow> take_bytes 2 bytes 20;
         Some (Inr \<lparr>dsr6_address = address, dsr6_port = from_be_bytes port\<rparr>) } }"

section \<open>Strict codecs\<close>

definition strict_codec :: "nat \<Rightarrow> ('a \<Rightarrow> bool) \<Rightarrow> ('a \<Rightarrow> u8 list option) \<Rightarrow> (u8 list \<Rightarrow> ('e + 'a) option) \<Rightarrow> bool" where
  "strict_codec n ok enc dec \<longleftrightarrow>
     (\<forall>x. ok x \<longrightarrow> (\<exists>bs. enc x = Some bs \<and> length bs = n \<and> dec bs = Some (Inr x))) \<and>
     (\<forall>bs. length bs = n \<longrightarrow> dec bs \<noteq> None) \<and>
     (\<forall>bs x. length bs = n \<longrightarrow> dec bs = Some (Inr x) \<longrightarrow> ok x \<and> enc x = Some bs)"

locale wire_header =
  fixes n :: nat
    and ok :: "'a \<Rightarrow> bool"
    and enc :: "'a \<Rightarrow> u8 list option"
    and dec :: "u8 list \<Rightarrow> ('e + 'a) option"
  assumes dec_enc: "ok x \<Longrightarrow> \<exists>bs. enc x = Some bs \<and> length bs = n \<and> dec bs = Some (Inr x)"
    and dec_total: "length bs = n \<Longrightarrow> \<exists>r. dec bs = Some r"
    and enc_dec: "length bs = n \<Longrightarrow> dec bs = Some (Inr x) \<Longrightarrow> ok x \<and> enc x = Some bs"
begin

lemma strict: "strict_codec n ok enc dec"
  using dec_enc dec_total enc_dec by (auto simp: strict_codec_def)

lemma accepted_unique: "length bs = n \<Longrightarrow> length cs = n \<Longrightarrow> dec bs = Some (Inr x) \<Longrightarrow> dec cs = Some (Inr x) \<Longrightarrow> bs = cs"
  using enc_dec by (metis option.inject)

end

lemma ti_word_length [simp]: "length (ti_word i) = 4"
  by (simp add: ti_word_def)

lemma le_nat_mod: "bs \<noteq> [] \<Longrightarrow> le_nat bs mod 256 = unat (hd bs)"
  using unat_bound [where 'a = 8] by (cases bs) auto

lemma nat_le_hd: "0 < n \<Longrightarrow> hd (nat_le n x) = of_nat (x mod 256)"
  by (cases n) simp_all

lemma unat_shift8: "i \<le> 0x00ffffff \<Longrightarrow> unat (push_bit 8 i :: u32) = unat i * 256"
  using unat_push_bit_of_nat [of "unat i" 8, where 'a = 32] by (simp add: word_le_nat_alt)

lemma last_nth_3: "length w = 4 \<Longrightarrow> w ! 3 = hd (rev w)"
  by (auto simp: hd_rev last_conv_nth length_0_conv [symmetric] simp del: length_0_conv)

lemma ti_decode_word: "ti_ok i \<Longrightarrow> ti_decode (ti_word i) = Inr i"
proof -
  assume ok: "ti_ok i"
  then have u: "unat (push_bit 8 i) = unat i * 256"
    by (simp add: ti_ok_def unat_shift8)
  have "ti_word i ! 3 = 0"
    using nat_le_hd [of 4 "unat i * 256"] by (simp add: last_nth_3) (simp add: ti_word_def to_be_bytes_def to_le_bytes_def u)
  moreover have "drop_bit 8 (push_bit 8 i) = i"
    by (simp add: word_unat_eq_iff unat_drop_bit u)
  ultimately show ?thesis
    using ok by (simp add: ti_decode_def ti_word_def ti_from_wire_def ti_ok_def not_less)
qed

lemma ti_word_decode:
  assumes "length w = 4" and "ti_decode w = Inr i"
  shows "ti_ok i \<and> ti_word i = w"
proof -
  define v :: u32 where "v = from_be_bytes w"
  have "w ! 3 = 0" and f: "ti_from_wire (drop_bit 8 v) = Inr i"
    using assms(2) by (simp_all add: ti_decode_def v_def split: if_splits)
  then have i: "i = drop_bit 8 v" and ok: "ti_ok i"
    by (auto simp: ti_from_wire_def ti_ok_def not_less split: if_splits)
  have "le_nat (rev w) < 2 ^ 32"
    using le_nat_bound [of "rev w"] assms(1) by simp
  then have v: "unat v = le_nat (rev w)"
    by (simp add: v_def from_be_bytes_def from_le_bytes_def unat_of_nat)
  moreover have "w \<noteq> []"
    using assms(1) by auto
  ultimately have "unat v mod 256 = 0"
    using le_nat_mod [of "rev w"] \<open>w ! 3 = 0\<close> assms(1) by (auto simp: last_nth_3)
  moreover have "unat i = unat v div 256"
    using unat_drop_bit [of 8 v] by (simp add: i)
  ultimately have "unat (push_bit 8 i) = unat v"
    using ok unat_shift8 [of i] by (auto simp: ti_ok_def)
  then have "push_bit 8 i = v"
    by (simp add: word_unat_eq_iff)
  then show ?thesis
    using ok assms(1) by (simp add: ti_word_def v_def)
qed

lemma geneve_flags:
  fixes f :: u8
  assumes "f AND 0x80 = 0" and "f AND 0x3f = 0"
  shows "push_bit 6 (of_bool (f AND 0x40 \<noteq> 0)) = f"
proof (rule bit_word_eqI)
  have m: "(0x3f :: u8) = mask 6" "(0x80 :: u8) = 2 ^ 7" "(0x40 :: u8) = 2 ^ 6"
    by (simp_all add: mask_eq_exp_minus_1)
  have low: "\<not> bit f i" if "i < 6" for i
  proof -
    have "bit (f AND mask 6) i = bit f i"
      using that by (simp add: bit_simps)
    then show ?thesis
      using assms(2) by (simp add: m)
  qed
  fix i
  assume "i < LENGTH(8)"
  then consider "i < 6" | "i = 6" | "i = 7"
    by fastforce
  then show "bit (push_bit 6 (of_bool (f AND 0x40 \<noteq> 0)) :: u8) i = bit f i"
    using assms low unfolding m and_exp_eq_0_iff_not_bit by cases (auto simp: bit_simps)
qed

definition vx_ok :: "vxlan_header \<Rightarrow> bool" where
  "vx_ok h \<longleftrightarrow> ti_ok (vx_identity h)"

definition gn_ok :: "geneve_header \<Rightarrow> bool" where
  "gn_ok h \<longleftrightarrow> ti_ok (gn_identity h) \<and> gn_option_words h \<le> 63"

definition dsr4_ok :: "dsr_ipv4 \<Rightarrow> bool" where
  "dsr4_ok h \<longleftrightarrow> length (dsr4_address h) = 4"

definition dsr6_ok :: "dsr_ipv6 \<Rightarrow> bool" where
  "dsr6_ok h \<longleftrightarrow> length (dsr6_address h) = 16"

lemma split_prefix: "take n bs = pre \<Longrightarrow> bs = pre @ drop n bs"
  by (metis append_take_drop_id)

interpretation vxlan: wire_header 8 vx_ok vx_to_bytes vx_from_bytes
proof
  fix x
  show "vx_ok x \<Longrightarrow> \<exists>bs. vx_to_bytes x = Some bs \<and> length bs = 8 \<and> vx_from_bytes bs = Some (Inr x)"
    by (simp add: vx_ok_def vx_to_bytes_def vx_from_bytes_def encoding ti_decode_word)
next
  fix bs :: "u8 list" and x
  assume n: "length bs = 8"
  then show "\<exists>r. vx_from_bytes bs = Some r"
    by (simp add: vx_from_bytes_def take_bytes_def)
  assume "vx_from_bytes bs = Some (Inr x)"
  with n have "take 4 bs = [8, 0, 0, 0]" and "ti_decode (drop 4 bs) = Inr (vx_identity x)"
    by (auto simp: vx_from_bytes_def take_bytes_def split: if_splits sum.splits)
  then show "vx_ok x \<and> vx_to_bytes x = Some bs"
    using ti_word_decode [of "drop 4 bs"] split_prefix [of 4 bs] n
    by (simp add: vx_ok_def vx_to_bytes_def put_bytes_def)
qed

lemma version_byte: "v AND 0xc0 = 0 \<longleftrightarrow> v \<le> 63" for v :: u8
proof -
  have "(0xc0 :: u8) = NOT (mask 6)"
    by (simp add: mask_eq_exp_minus_1)
  then have "v AND 0xc0 = 0 \<longleftrightarrow> unat (v AND NOT (mask 6)) = 0"
    by (simp only: unat_eq_zero)
  also have "\<dots> \<longleftrightarrow> unat v div 2 ^ 6 * 2 ^ 6 = 0"
    by (simp only: unat_and_not_mask)
  also have "\<dots> \<longleftrightarrow> unat v < 64"
    by (simp add: div_eq_0_iff)
  finally show ?thesis
    by (auto simp: word_le_nat_alt)
qed

lemma ethernet_bytes: "to_be_bytes ETHERNET_PROTOCOL = [0x65, 0x58]"
  by (simp add: be16_bytes ETHERNET_PROTOCOL_def)

lemma dsr_class_bytes: "to_be_bytes DSR_CLASS = [0x01, 0x4b]"
  by (simp add: be16_bytes DSR_CLASS_def)

lemma replicate_2: "replicate 2 x = [x, x]"
  by (simp add: numeral_2_eq_2)

lemma split_slices:
  "bs = take 4 bs @ take m (drop 4 bs) @ take k (drop (4 + m) bs) @ drop (4 + m + k) bs"
  by (metis add.commute append_take_drop_id drop_drop)

lemma validate_option_header:
  "w AND 0xe0 = 0 \<Longrightarrow> validate_option [0x01, 0x4b, DSR_TYPE, w] w [0, 0] = Inr ()"
proof -
  have "from_be_bytes [0x01, 0x4b] = DSR_CLASS"
    using dsr_class_bytes from_to_be_bytes [of DSR_CLASS] by simp
  then show "w AND 0xe0 = 0 \<Longrightarrow> ?thesis"
    by (simp add: validate_option_def)
qed

lemma validate_option_ok:
  assumes "length h = 4" and "validate_option h w p = Inr ()"
  shows "h = [0x01, 0x4b, DSR_TYPE, w] \<and> p = [0, 0]"
proof -
  obtain a b c d where h: "h = [a, b, c, d]"
    using assms(1) by (auto simp: numeral_eq_Suc length_Suc_conv)
  with assms(2) have v: "from_be_bytes [a, b] = DSR_CLASS" "c = DSR_TYPE" "d = w" "p = [0, 0]"
    by (auto simp: validate_option_def numeral_eq_Suc split: if_splits)
  have "[a, b] = to_be_bytes DSR_CLASS"
    using to_from_be_bytes [of "[a, b]", where 'a = 16] v(1) by simp
  then show ?thesis
    using h v by (simp add: dsr_class_bytes)
qed

interpretation dsr4: wire_header 12 dsr4_ok dsr4_to_bytes dsr4_from_bytes
proof
  fix x
  show "dsr4_ok x \<Longrightarrow> \<exists>bs. dsr4_to_bytes x = Some bs \<and> length bs = 12 \<and> dsr4_from_bytes bs = Some (Inr x)"
    by (simp add: dsr4_ok_def dsr4_to_bytes_def dsr4_from_bytes_def encoding validate_option_header replicate_2)
next
  fix bs :: "u8 list" and x
  assume n: "length bs = 12"
  then show "\<exists>r. dsr4_from_bytes bs = Some r"
    by (simp add: dsr4_from_bytes_def take_bytes_def split: sum.split)
  assume "dsr4_from_bytes bs = Some (Inr x)"
  with n have v: "validate_option (take 4 bs) 2 (drop 10 bs) = Inr ()"
    and x: "x = \<lparr>dsr4_address = take 4 (drop 4 bs), dsr4_port = from_be_bytes (take 2 (drop 8 bs))\<rparr>"
    by (auto simp: dsr4_from_bytes_def take_bytes_def split: sum.splits)
  from validate_option_ok [OF _ v] n have h: "take 4 bs = [0x01, 0x4b, DSR_TYPE, 2]" "drop 10 bs = [0, 0]"
    by simp_all
  have "bs = take 4 bs @ take 4 (drop 4 bs) @ take 2 (drop 8 bs) @ drop 10 bs"
    using split_slices [of bs 4 2] by simp
  then show "dsr4_ok x \<and> dsr4_to_bytes x = Some bs"
    using n h by (simp add: x dsr4_ok_def dsr4_to_bytes_def put_bytes_def replicate_2)
qed

interpretation dsr6: wire_header 24 dsr6_ok dsr6_to_bytes dsr6_from_bytes
proof
  fix x
  show "dsr6_ok x \<Longrightarrow> \<exists>bs. dsr6_to_bytes x = Some bs \<and> length bs = 24 \<and> dsr6_from_bytes bs = Some (Inr x)"
    by (simp add: dsr6_ok_def dsr6_to_bytes_def dsr6_from_bytes_def encoding validate_option_header replicate_2)
next
  fix bs :: "u8 list" and x
  assume n: "length bs = 24"
  then show "\<exists>r. dsr6_from_bytes bs = Some r"
    by (simp add: dsr6_from_bytes_def take_bytes_def split: sum.split)
  assume "dsr6_from_bytes bs = Some (Inr x)"
  with n have v: "validate_option (take 4 bs) 5 (drop 22 bs) = Inr ()"
    and x: "x = \<lparr>dsr6_address = take 16 (drop 4 bs), dsr6_port = from_be_bytes (take 2 (drop 20 bs))\<rparr>"
    by (auto simp: dsr6_from_bytes_def take_bytes_def split: sum.splits)
  from validate_option_ok [OF _ v] n have h: "take 4 bs = [0x01, 0x4b, DSR_TYPE, 5]" "drop 22 bs = [0, 0]"
    by simp_all
  have "bs = take 4 bs @ take 16 (drop 4 bs) @ take 2 (drop 20 bs) @ drop 22 bs"
    using split_slices [of bs 16 2] by simp
  then show "dsr6_ok x \<and> dsr6_to_bytes x = Some bs"
    using n h by (simp add: x dsr6_ok_def dsr6_to_bytes_def put_bytes_def replicate_2)
qed

lemma critical_flags:
  "(push_bit 6 (of_bool c) :: u8) AND 0x80 = 0" "(push_bit 6 (of_bool c) :: u8) AND 0x3f = 0"
  "(push_bit 6 (of_bool c) :: u8) AND 0x40 \<noteq> 0 \<longleftrightarrow> c"
  by (cases c; simp)+

interpretation geneve: wire_header 8 gn_ok gn_to_bytes gn_from_bytes
proof
  fix x
  have "from_be_bytes [0x65, 0x58] = ETHERNET_PROTOCOL"
    using ethernet_bytes from_to_be_bytes [of ETHERNET_PROTOCOL] by simp
  moreover have "gn_ok x \<Longrightarrow> gn_new (gn_identity x) (gn_option_words x) (gn_critical x) = Inr x"
    by (simp add: gn_ok_def gn_new_def not_less)
  ultimately show "gn_ok x \<Longrightarrow> \<exists>bs. gn_to_bytes x = Some bs \<and> length bs = 8 \<and> gn_from_bytes bs = Some (Inr x)"
    using critical_flags [of "gn_critical x"] version_byte [of "gn_option_words x"]
    by (simp add: gn_to_bytes_def gn_from_bytes_def encoding ti_decode_word ethernet_bytes gn_ok_def Let_def)
next
  fix bs :: "u8 list" and x
  assume n: "length bs = 8"
  then show "\<exists>r. gn_from_bytes bs = Some r"
    by (simp add: gn_from_bytes_def take_bytes_def Let_def)
  assume "gn_from_bytes bs = Some (Inr x)"
  with n obtain i where d: "ti_decode (drop 4 bs) = Inr i" and p: "from_be_bytes (take 2 (drop 2 bs)) = ETHERNET_PROTOCOL"
    and f: "bs ! 0 AND 0xc0 = 0" "bs ! 1 AND 0x80 = 0" "bs ! 1 AND 0x3f = 0"
    and g: "gn_new i (bs ! 0) (bs ! 1 AND 0x40 \<noteq> 0) = Inr x"
    by (auto simp: gn_from_bytes_def take_bytes_def Let_def split: if_splits sum.splits)
  from g have x: "x = \<lparr>gn_identity = i, gn_option_words = bs ! 0, gn_critical = (bs ! 1 AND 0x40 \<noteq> 0)\<rparr>"
    by (simp add: gn_new_def split: if_splits)
  have w: "ti_ok i" "ti_word i = drop 4 bs"
    using ti_word_decode [OF _ d] n by simp_all
  have e: "to_be_bytes ETHERNET_PROTOCOL = take 2 (drop 2 bs)"
    using to_from_be_bytes [of "take 2 (drop 2 bs)", where 'a = 16] n p by simp
  show "gn_ok x \<and> gn_to_bytes x = Some bs"
    using n w f e geneve_flags [OF f(2,3)] version_byte [of "bs ! 0"]
    by (simp add: x gn_ok_def gn_to_bytes_def codec)
qed

text \<open>
  C40. The overlay codecs are strict: a header of valid fields encodes without panic to its fixed
  size and decodes to itself, every array of that size is decoded or refused without panic, and an
  accepted array is exactly the encoding of the header it decodes to.
\<close>

theorem wire_headers:
  "strict_codec 8 vx_ok vx_to_bytes vx_from_bytes \<and> strict_codec 8 gn_ok gn_to_bytes gn_from_bytes \<and>
   strict_codec 12 dsr4_ok dsr4_to_bytes dsr4_from_bytes \<and> strict_codec 24 dsr6_ok dsr6_to_bytes dsr6_from_bytes"
  by (intro conjI vxlan.strict geneve.strict dsr4.strict dsr6.strict)

text \<open>Encapsulation never announces the host identity, and the receiver recovers the sender's
  identity up to the host and world rewrites.\<close>

lemma encapsulation_spec:
  "ti_for_encapsulation i =
     (if 0x00ffffff < i then Inl IdentityTooWide
      else Inr (if i = 1 then 6 else if i = 9 \<or> i = 10 then 2 else i))"
  by (auto simp: ti_for_encapsulation_def ti_from_wire_def)

end
