(* ===== verification/KernelMap.thy ===== *)
theory KernelMap
  imports Oracle Numeric AbiPolicy
begin

text \<open>
  The kernel policy map of one endpoint, \<open>flowsdn-policy/src/kernel_map.rs\<close>: which records are
  canonical, the brute-force reading of a packet's verdict (\<open>scan\<close>), the indexed reading
  (\<open>Index\<close>), the inheritance of authentication requirements and the pruning of entries that an
  aggregate identity repeats. The error strings are a datatype; \<open>None\<close> is a panic inside the
  identity arithmetic.
\<close>

section \<open>Records\<close>

datatype km_error =
    KmInvalidIdentity | KmInvalidCluster | KmInvalidKeyIdentity | KmKeyPrefix | KmNoncanonical
  | KmPass | KmNoncanonicalDeny | KmRedirect | KmDenyPrecedence | KmDuplicate | KmPrefix | KmCovering

record km_record =
  km_key :: policy_key
  km_entry :: policy_entry
  km_origin :: string

datatype outcome = Miss | OutDeny | OutAllow (out_proxy: u16) (out_authentication: u8) (out_cookie: u32)

record km_context =
  cx_encoding :: cluster_encoding
  cx_local_cluster :: u16

definition cx_aggregate :: "km_context \<Rightarrow> u32 \<Rightarrow> (km_error + u32) option" where
  "cx_aggregate c identity =
     (case ni_new identity of
        Inl _ \<Rightarrow> Some (Inl KmInvalidIdentity)
      | Inr i \<Rightarrow>
          map_option (\<lambda>r. case r of Inl _ \<Rightarrow> Inl KmInvalidCluster | Inr a \<Rightarrow> Inr (ri_numeric a))
            (ce_aggregate_for (cx_encoding c) i (cx_local_cluster c)))"

definition key_port_prefix :: "policy_key \<Rightarrow> km_error + u8" where
  "key_port_prefix k =
     (if pk_protocol k = 0 then Inr 0
      else case checked_sub (pk_prefixlen k) 48 of
             None \<Rightarrow> Inl KmKeyPrefix
           | Some p \<Rightarrow> if unat p < 2 ^ 8 then Inr (ucast p) else Inl KmKeyPrefix)"

definition km_canonical :: "km_record \<Rightarrow> km_error + unit" where
  "km_canonical r =
     (let k = km_key r; v = km_entry r in
      case ni_new (pk_sec_label k) of
        Inl _ \<Rightarrow> Inl KmInvalidKeyIdentity
      | Inr _ \<Rightarrow>
          (case key_port_prefix k of
             Inl e \<Rightarrow> Inl e
           | Inr prefix \<Rightarrow>
               (case policy_key_new (pk_sec_label k) (pk_egress k = 1) (pk_protocol k) (be16_get (pk_dport k)) prefix of
                  Inl _ \<Rightarrow> Inl KmKeyPrefix
                | Inr reconstructed \<Rightarrow>
                    if 1 < pk_egress k \<or> reconstructed \<noteq> k \<or>
                       ucast (pe_lpm_prefix_length v) \<noteq> saturating_sub (pk_prefixlen k) 40 \<or>
                       pe_flags v AND 6 \<noteq> 0
                    then Inl KmNoncanonical
                    else if pe_precedence v AND 255 = 0 then Inl KmPass
                    else if pe_denies v \<and>
                       (pe_auth v \<noteq> 0 \<or> be16_get (pe_proxy_port v) \<noteq> 0 \<or> pe_precedence v AND 255 \<noteq> 255)
                    then Inl KmNoncanonicalDeny
                    else if \<not> pe_denies v \<and>
                       ((pe_precedence v AND 255 = 1) \<noteq> (be16_get (pe_proxy_port v) = 0))
                    then Inl KmRedirect
                    else if \<not> pe_denies v \<and> pe_precedence v AND 255 = 255 then Inl KmDenyPrecedence
                    else Inr ())))"

definition port_mask :: "u32 \<Rightarrow> u16" where
  "port_mask bits = shl_or_zero (- 1) (unat (saturating_sub 16 bits))"

definition km_matches :: "km_record \<Rightarrow> packet \<Rightarrow> u32 \<Rightarrow> bool" where
  "km_matches r p identity =
     (let k = km_key r in
      if pk_sec_label k \<noteq> identity \<or> pk_egress k \<noteq> of_bool (p_egress p) then False
      else if pk_protocol k = 0 then True
      else if pk_protocol k \<noteq> p_protocol p then False
      else p_port p AND port_mask (saturating_sub (pk_prefixlen k) 48) = be16_get (pk_dport k))"

section \<open>The scan\<close>

text \<open>\<open>Iterator::max_by_key\<close>, which keeps the last of equal maxima.\<close>

fun max_by_key :: "('a \<Rightarrow> 'b::linorder) \<Rightarrow> 'a list \<Rightarrow> 'a option" where
  "max_by_key f [] = None"
| "max_by_key f (x # xs) =
     (case max_by_key f xs of None \<Rightarrow> Some x | Some y \<Rightarrow> if f y < f x then Some x else Some y)"

fun scan_validate :: "km_record list \<Rightarrow> km_record list \<Rightarrow> km_error + unit" where
  "scan_validate before [] = Inr ()"
| "scan_validate before (r # rs) =
     (case km_canonical r of
        Inl e \<Rightarrow> Inl e
      | Inr _ \<Rightarrow> if list_ex (\<lambda>q. km_key q = km_key r) before then Inl KmDuplicate
                 else scan_validate (before @ [r]) rs)"

definition scan_best :: "km_record list \<Rightarrow> packet \<Rightarrow> u32 \<Rightarrow> km_record option" where
  "scan_best records p identity =
     max_by_key (\<lambda>r. pk_prefixlen (km_key r)) (filter (\<lambda>r. km_matches r p identity) records)"

definition U32_MAX :: u32 where
  "U32_MAX = - 1"

fun scan_choose :: "km_record option \<Rightarrow> km_record option \<Rightarrow> (km_record \<times> km_record option) option" where
  "scan_choose (Some s) (Some a) =
     (if pe_precedence (km_entry s) \<noteq> U32_MAX \<and>
         (pe_precedence (km_entry s) < pe_precedence (km_entry a) \<or>
          pe_precedence (km_entry a) = pe_precedence (km_entry s) \<and>
          pk_prefixlen (km_key s) < pk_prefixlen (km_key a))
      then Some (a, Some s)
      else Some (s, if pe_precedence (km_entry s) = U32_MAX then None else Some a))"
| "scan_choose (Some s) None = Some (s, None)"
| "scan_choose None (Some a) = Some (a, None)"
| "scan_choose None None = None"

definition scan_verdict :: "km_record \<Rightarrow> km_record option \<Rightarrow> outcome" where
  "scan_verdict chosen alternate =
     (let e = km_entry chosen in
      if pe_denies e then OutDeny
      else OutAllow (be16_get (pe_proxy_port e))
        (if pe_has_explicit_auth_type e then pe_auth_type e
         else case alternate of
                None \<Rightarrow> pe_auth_type e
              | Some r \<Rightarrow>
                  if pe_precedence (km_entry r) = pe_precedence e
                  then max (pe_auth_type e) (pe_auth_type (km_entry r))
                  else pe_auth_type e)
        (pe_cookie e))"

definition scan_outcome :: "km_record list \<Rightarrow> packet \<Rightarrow> u32 \<Rightarrow> outcome" where
  "scan_outcome records p aggregate =
     (let exact = scan_best records p (p_identity p);
          other = (if aggregate = p_identity p then None else scan_best records p aggregate);
          other = (if exact = None \<and> other = None \<and> aggregate \<noteq> 0
                   then scan_best records p 0 else other) in
      case scan_choose exact other of
        None \<Rightarrow> Miss
      | Some (chosen, alternate) \<Rightarrow> scan_verdict chosen alternate)"

definition km_scan :: "km_record list \<Rightarrow> km_context \<Rightarrow> packet \<Rightarrow> (km_error + outcome) option" where
  "km_scan records context p =
     (case scan_validate [] records of
        Inl e \<Rightarrow> Some (Inl e)
      | Inr _ \<Rightarrow>
          (case cx_aggregate context (p_identity p) of
             None \<Rightarrow> None
           | Some (Inl e) \<Rightarrow> Some (Inl e)
           | Some (Inr aggregate) \<Rightarrow> Some (Inr (scan_outcome records p aggregate))))"

section \<open>The index\<close>

type_synonym index_key = "u32 \<times> bool \<times> u8 \<times> u8 \<times> u16"
type_synonym km_index = "(index_key, policy_entry) btree_map"

definition km_index_key :: "policy_key \<Rightarrow> u8 \<Rightarrow> index_key" where
  "km_index_key k prefix = (pk_sec_label k, pk_egress k = 1, pk_protocol k, prefix, be16_get (pk_dport k))"

fun index_loop :: "km_index \<Rightarrow> km_record list \<Rightarrow> km_error + km_index" where
  "index_loop entries [] = Inr entries"
| "index_loop entries (r # rs) =
     (case km_canonical r of
        Inl e \<Rightarrow> Inl e
      | Inr _ \<Rightarrow>
          (let p = saturating_sub (pk_prefixlen (km_key r)) 48 in
           if 2 ^ 8 \<le> unat p then Inl KmPrefix
           else let k = km_index_key (km_key r) (ucast p) in
             if bt_get entries k \<noteq> None then Inl KmDuplicate
             else index_loop (bt_insert k (km_entry r) entries) rs))"

definition index_new :: "km_record list \<Rightarrow> km_error + km_index" where
  "index_new records = index_loop [] records"

fun find_bits :: "km_index \<Rightarrow> u32 \<Rightarrow> packet \<Rightarrow> u8 list \<Rightarrow> policy_entry option" where
  "find_bits entries identity p [] = None"
| "find_bits entries identity p (bits # rest) =
     (let mask = shl_or_zero (- 1) (unat (saturating_sub 16 bits)) in
      case bt_get entries (identity, p_egress p, p_protocol p, bits, p_port p AND mask) of
        Some e \<Rightarrow> Some e
      | None \<Rightarrow> find_bits entries identity p rest)"

definition prefix_bits :: "u8 list" where
  "prefix_bits = map of_nat (rev [0..<17])"

definition index_find :: "km_index \<Rightarrow> u32 \<Rightarrow> packet \<Rightarrow> policy_entry option" where
  "index_find entries identity p =
     (case (if p_protocol p \<noteq> 0 then find_bits entries identity p prefix_bits else None) of
        Some e \<Rightarrow> Some e
      | None \<Rightarrow> bt_get entries (identity, p_egress p, 0, 0, 0))"

definition candidate_key :: "policy_entry \<times> bool \<Rightarrow> u32 \<times> u8 \<times> bool" where
  "candidate_key c = (pe_precedence (fst c), pe_lpm_prefix_length (fst c), snd c)"

definition index_verdict :: "(policy_entry \<times> bool) list \<Rightarrow> outcome" where
  "index_verdict candidates =
     (let sorted = sort_by (\<lambda>a b. candidate_key a \<le> candidate_key b) candidates in
      if sorted = [] then Miss
      else let chosen = fst (last sorted) in
        if pe_denies chosen then OutDeny
        else OutAllow (be16_get (pe_proxy_port chosen))
          (if pe_has_explicit_auth_type chosen then pe_auth_type chosen
           else case max_by_key (\<lambda>a. a) (map (\<lambda>c. pe_auth_type (fst c))
                        (filter (\<lambda>c. pe_precedence (fst c) = pe_precedence chosen) sorted)) of
                  None \<Rightarrow> 0 | Some a \<Rightarrow> a)
          (pe_cookie chosen))"

definition index_lookup :: "km_index \<Rightarrow> km_context \<Rightarrow> packet \<Rightarrow> (km_error + outcome) option" where
  "index_lookup entries context p =
     (case cx_aggregate context (p_identity p) of
        None \<Rightarrow> None
      | Some (Inl e) \<Rightarrow> Some (Inl e)
      | Some (Inr agg) \<Rightarrow>
          (let specific = index_find entries (p_identity p) p;
               aggregate = (if agg \<noteq> p_identity p then index_find entries agg p else None);
               candidates = (case aggregate of None \<Rightarrow> [] | Some e \<Rightarrow> [(e, False)]) @
                            (case specific of None \<Rightarrow> [] | Some e \<Rightarrow> [(e, True)]);
               candidates = (if candidates = [] \<and> agg \<noteq> 0
                             then (case index_find entries 0 p of None \<Rightarrow> [] | Some e \<Rightarrow> [(e, False)])
                             else candidates) in
           Some (Inr (index_verdict candidates))))"

section \<open>Preparation\<close>

definition km_covers :: "km_record \<Rightarrow> km_record \<Rightarrow> bool" where
  "km_covers parent child \<longleftrightarrow>
     pk_prefixlen (km_key parent) < pk_prefixlen (km_key child) \<and>
     km_matches parent
       \<lparr>p_identity = pk_sec_label (km_key child), p_egress = (pk_egress (km_key child) = 1),
        p_protocol = pk_protocol (km_key child), p_port = be16_get (pk_dport (km_key child))\<rparr>
       (pk_sec_label (km_key child))"

definition inherit_target :: "km_record list \<Rightarrow> km_record \<Rightarrow> km_error + km_record" where
  "inherit_target records target =
     (if pe_denies (km_entry target) then Inr target
      else
        let parents = filter (\<lambda>p. km_covers p target) records in
        if list_ex (\<lambda>p. pe_precedence (km_entry target) < pe_precedence (km_entry p)) parents then Inl KmCovering
        else if pe_has_explicit_auth_type (km_entry target) then Inr target
        else
          case max_by_key (\<lambda>p. pk_prefixlen (km_key p))
                 (filter (\<lambda>p. \<not> pe_denies (km_entry p) \<and> pe_has_explicit_auth_type (km_entry p) \<and>
                    pe_precedence (km_entry target) AND NOT 255 \<le> pe_precedence (km_entry p) AND NOT 255) parents) of
            None \<Rightarrow> Inr target
          | Some parent \<Rightarrow>
              Inr (target\<lparr>km_entry := (km_entry target)\<lparr>pe_auth := pe_auth_type (km_entry parent)\<rparr>\<rparr>))"

fun inherit_loop :: "km_record list \<Rightarrow> km_record list \<Rightarrow> km_error + km_record list" where
  "inherit_loop records [] = Inr []"
| "inherit_loop records (t # ts) =
     (case inherit_target records t of
        Inl e \<Rightarrow> Inl e
      | Inr t' \<Rightarrow> (case inherit_loop records ts of Inl e \<Rightarrow> Inl e | Inr ts' \<Rightarrow> Inr (t' # ts')))"

definition inherit_auth :: "km_record list \<Rightarrow> km_error + km_record list" where
  "inherit_auth records =
     (case index_new records of Inl e \<Rightarrow> Inl e | Inr _ \<Rightarrow> inherit_loop records records)"

definition bucket_count :: "km_record list \<Rightarrow> u32 \<Rightarrow> u8 \<Rightarrow> nat" where
  "bucket_count records label egress =
     length (filter (\<lambda>r. pk_sec_label (km_key r) = label \<and> pk_egress (km_key r) = egress) records)"

definition prunable :: "km_record list \<Rightarrow> u32 \<Rightarrow> km_record \<Rightarrow> bool" where
  "prunable records agg r \<longleftrightarrow>
     bucket_count records (pk_sec_label (km_key r)) (pk_egress (km_key r)) = 1 \<and>
     bucket_count records agg (pk_egress (km_key r)) = 1 \<and>
     agg \<noteq> pk_sec_label (km_key r) \<and>
     list_ex (\<lambda>q. km_key q = (km_key r)\<lparr>pk_sec_label := agg\<rparr> \<and> km_entry q = km_entry r \<and> km_origin q = km_origin r)
       records"

fun prune_loop :: "km_record list \<Rightarrow> km_context \<Rightarrow> km_record list \<Rightarrow> (km_error + km_record list) option" where
  "prune_loop records context [] = Some (Inr [])"
| "prune_loop records context (r # rs) =
     (case cx_aggregate context (pk_sec_label (km_key r)) of
        None \<Rightarrow> None
      | Some (Inl e) \<Rightarrow> Some (Inl e)
      | Some (Inr agg) \<Rightarrow>
          (case prune_loop records context rs of
             Some (Inr rest) \<Rightarrow> Some (Inr (if prunable records agg r then rest else r # rest))
           | failed \<Rightarrow> failed))"

definition prune_aggregate_duplicates ::
  "km_record list \<Rightarrow> km_context \<Rightarrow> (km_error + km_record list) option" where
  "prune_aggregate_duplicates records context =
     (case index_new records of Inl e \<Rightarrow> Some (Inl e) | Inr _ \<Rightarrow> prune_loop records context records)"

section \<open>Canonical records\<close>

lemma max_by_key_None [simp]: "max_by_key f xs = None \<longleftrightarrow> xs = []"
  by (cases xs) (auto split: option.splits)

lemma max_by_key_mem: "max_by_key f xs = Some x \<Longrightarrow> x \<in> set xs"
  by (induction xs arbitrary: x) (auto split: option.splits if_splits)

lemma max_by_key_ge: "max_by_key f xs = Some x \<Longrightarrow> y \<in> set xs \<Longrightarrow> f y \<le> f x"
  by (induction xs arbitrary: x) (auto split: option.splits if_splits)

lemma max_by_key_unique:
  assumes "x \<in> set xs" and "\<And>y. y \<in> set xs \<Longrightarrow> y \<noteq> x \<Longrightarrow> f y < f x"
  shows "max_by_key f xs = Some x"
proof (cases "max_by_key f xs")
  case (Some y)
  then show ?thesis
    using max_by_key_mem [OF Some] max_by_key_ge [OF Some assms(1)] assms(2) [of y] by force
qed (use assms(1) in auto)

definition km_bits :: "km_record \<Rightarrow> u8" where
  "km_bits r = ucast (saturating_sub (pk_prefixlen (km_key r)) 48)"

definition km_tuple :: "km_record \<Rightarrow> index_key" where
  "km_tuple r = km_index_key (km_key r) (km_bits r)"

abbreviation canonical :: "km_record \<Rightarrow> bool" where
  "canonical r \<equiv> km_canonical r = Inr ()"

lemma key_shape:
  assumes "policy_key_new i eg pr port pre = Inr k"
  shows "unat pre \<le> 16" "pr = 0 \<Longrightarrow> pre = 0" "pr = 0 \<Longrightarrow> port = 0"
    "unat (pk_prefixlen k) = (if pr = 0 then 40 else 48 + unat pre)"
    "be16_get (pk_dport k) = port AND shl_or_zero (- 1) (unat (saturating_sub 16 pre))"
    "pk_egress k = of_bool eg"
proof -
  have pre: "unat pre \<le> 16"
    using assms by (auto simp: policy_key_new_def word_less_nat_alt split: if_splits)
  then have "unat (saturating_add 48 (ucast pre) :: u32) = 48 + unat pre"
    by (simp add: unat_saturating_add)
  then show "unat (pk_prefixlen k) = (if pr = 0 then 40 else 48 + unat pre)"
    using assms by (auto simp: policy_key_new_def Let_def split: if_splits)
  show "unat pre \<le> 16" "pr = 0 \<Longrightarrow> pre = 0" "pr = 0 \<Longrightarrow> port = 0" "pk_egress k = of_bool eg"
    "be16_get (pk_dport k) = port AND shl_or_zero (- 1) (unat (saturating_sub 16 pre))"
    using assms pre by (auto simp: policy_key_new_def Let_def split: if_splits)
qed

lemma canonicalD:
  assumes "canonical r"
  obtains pre where "key_port_prefix (km_key r) = Inr pre"
    "policy_key_new (pk_sec_label (km_key r)) (pk_egress (km_key r) = 1) (pk_protocol (km_key r))
       (be16_get (pk_dport (km_key r))) pre = Inr (km_key r)"
    "ucast (pe_lpm_prefix_length (km_entry r)) = saturating_sub (pk_prefixlen (km_key r)) 40"
    "pe_denies (km_entry r) \<or> pe_precedence (km_entry r) AND 255 \<noteq> 255"
  using assms by (auto simp: km_canonical_def Let_def split: sum.splits if_splits)

lemma canonical_bits:
  assumes "canonical r"
  shows "policy_key_new (pk_sec_label (km_key r)) (pk_egress (km_key r) = 1) (pk_protocol (km_key r))
       (be16_get (pk_dport (km_key r))) (km_bits r) = Inr (km_key r)"
    and "unat (saturating_sub (pk_prefixlen (km_key r)) 48) = unat (km_bits r)"
proof -
  obtain pre where pre: "key_port_prefix (km_key r) = Inr pre"
      "policy_key_new (pk_sec_label (km_key r)) (pk_egress (km_key r) = 1) (pk_protocol (km_key r))
       (be16_get (pk_dport (km_key r))) pre = Inr (km_key r)"
    using assms by (rule canonicalD)
  note shape = key_shape [OF pre(2)]
  have u: "unat (saturating_sub (pk_prefixlen (km_key r)) 48) = unat pre"
    using shape(2,4) by (simp add: unat_saturating_sub)
  then have "km_bits r = pre"
    using shape(1) by (simp add: km_bits_def word_unat_eq_iff unsigned_ucast_eq take_bit_nat_eq_self)
  then show "policy_key_new (pk_sec_label (km_key r)) (pk_egress (km_key r) = 1) (pk_protocol (km_key r))
       (be16_get (pk_dport (km_key r))) (km_bits r) = Inr (km_key r)"
    and "unat (saturating_sub (pk_prefixlen (km_key r)) 48) = unat (km_bits r)"
    using pre(2) u by simp_all
qed

lemmas canonical_shape = key_shape [OF canonical_bits(1)]

lemma km_tuple_inj: "canonical r \<Longrightarrow> canonical q \<Longrightarrow> km_tuple r = km_tuple q \<longleftrightarrow> km_key r = km_key q"
  using canonical_bits(1) [of r] canonical_bits(1) [of q]
  by (auto simp: km_tuple_def km_index_key_def km_bits_def)

lemma canonical_lpm:
  assumes "canonical r"
  shows "unat (pe_lpm_prefix_length (km_entry r)) = unat (pk_prefixlen (km_key r)) - 40"
proof -
  have "ucast (pe_lpm_prefix_length (km_entry r)) = saturating_sub (pk_prefixlen (km_key r)) 40"
    using assms by (rule canonicalD)
  then have "unat (ucast (pe_lpm_prefix_length (km_entry r)) :: u32) = unat (saturating_sub (pk_prefixlen (km_key r)) 40)"
    by simp
  then show ?thesis
    by (simp add: unat_saturating_sub)
qed

lemma canonical_top:
  assumes "canonical r" and "pe_precedence (km_entry r) = U32_MAX"
  shows "pe_denies (km_entry r)"
proof -
  have "pe_denies (km_entry r) \<or> pe_precedence (km_entry r) AND 255 \<noteq> 255"
    using assms(1) by (rule canonicalD)
  then show ?thesis
    using assms(2) by (simp add: U32_MAX_def)
qed

section \<open>Finding the longest prefix\<close>

text \<open>The index keys a lookup tries, longest prefix first.\<close>

definition probes :: "u32 \<Rightarrow> packet \<Rightarrow> index_key list" where
  "probes identity p =
     (if p_protocol p \<noteq> 0
      then map (\<lambda>b. (identity, p_egress p, p_protocol p, b, p_port p AND shl_or_zero (- 1) (unat (saturating_sub 16 b))))
             prefix_bits
      else []) @ [(identity, p_egress p, 0, 0, 0)]"

fun probe_length :: "index_key \<Rightarrow> nat" where
  "probe_length (i, eg, pr, b, port) = (if pr = 0 then 40 else 48 + unat b)"

fun first_hit :: "(index_key \<Rightarrow> policy_entry option) \<Rightarrow> index_key list \<Rightarrow> policy_entry option" where
  "first_hit m [] = None"
| "first_hit m (t # ts) = (case m t of Some e \<Rightarrow> Some e | None \<Rightarrow> first_hit m ts)"

lemma first_hit_append: "first_hit m (xs @ ys) = (case first_hit m xs of Some e \<Rightarrow> Some e | None \<Rightarrow> first_hit m ys)"
  by (induction xs) (auto split: option.split)

lemma index_find_probes: "index_find ix i p = first_hit (bt_get ix) (probes i p)"
proof -
  have "find_bits ix i p bs = first_hit (bt_get ix)
     (map (\<lambda>b. (i, p_egress p, p_protocol p, b, p_port p AND shl_or_zero (- 1) (unat (saturating_sub 16 b)))) bs)" for bs
    by (induction bs) (auto simp: Let_def split: option.split)
  then show ?thesis
    by (auto simp: index_find_def probes_def first_hit_append split: option.split)
qed

lemma unat_small_bits: "n < 17 \<Longrightarrow> unat (of_nat n :: u8) = n"
  by (simp add: unat_of_nat)

lemma probes_sorted: "sorted_wrt (\<lambda>s t. probe_length t < probe_length s) (probes i p)"
proof -
  have "sorted_wrt (\<lambda>s t. probe_length t < probe_length s)
     (map (\<lambda>b. (i, eg, pr, b, f b)) prefix_bits)" if "pr \<noteq> 0" for eg pr and f :: "u8 \<Rightarrow> u16"
  proof -
    have "sorted_wrt (\<lambda>m n. n < m) (rev [0..<17])"
      by (simp add: sorted_wrt_rev)
    then show ?thesis
      using that by (auto simp: prefix_bits_def sorted_wrt_map unat_small_bits elim!: sorted_wrt_mono_rel [rotated])
  qed
  then show ?thesis
    by (auto simp: probes_def sorted_wrt_append)
qed

lemma probe_length_tuple: "canonical r \<Longrightarrow> probe_length (km_tuple r) = unat (pk_prefixlen (km_key r))"
  using canonical_shape(4) [of r] by (simp add: km_tuple_def km_index_key_def)

lemma matches_probes:
  assumes "canonical r"
  shows "km_matches r p i \<longleftrightarrow> km_tuple r \<in> set (probes i p)"
proof -
  note shape = canonical_shape [OF assms]
  have eg: "pk_egress (km_key r) = of_bool (p_egress p) \<longleftrightarrow> (pk_egress (km_key r) = 1) = p_egress p"
    using shape(6) by (cases "pk_egress (km_key r) = 1") (auto simp: of_bool_def)
  have mask: "port_mask (saturating_sub (pk_prefixlen (km_key r)) 48) =
      shl_or_zero (- 1) (unat (saturating_sub 16 (km_bits r)))"
    using canonical_bits(2) [OF assms] by (simp add: port_mask_def unat_saturating_sub)
  have bits: "km_bits r \<in> set prefix_bits"
    using shape(1) by (auto simp: prefix_bits_def intro!: image_eqI [of _ _ "unat (km_bits r)"])
  show ?thesis
  proof (cases "pk_protocol (km_key r) = 0")
    case True
    then show ?thesis
      using shape(2,3) eg by (auto simp: km_matches_def Let_def km_tuple_def km_index_key_def probes_def)
  next
    case False
    then have "km_tuple r \<in> set (probes i p) \<longleftrightarrow>
        pk_sec_label (km_key r) = i \<and> (pk_egress (km_key r) = 1) = p_egress p \<and>
        pk_protocol (km_key r) = p_protocol p \<and>
        be16_get (pk_dport (km_key r)) = p_port p AND shl_or_zero (- 1) (unat (saturating_sub 16 (km_bits r)))"
      using bits by (auto simp: probes_def km_tuple_def km_index_key_def image_iff simp del: shl_or_zero_eq)
    then show ?thesis
      using False eg mask by (auto simp: km_matches_def Let_def simp del: shl_or_zero_eq)
  qed
qed

lemma first_hit_best:
  assumes rs: "\<forall>r\<in>set rs. canonical r" and ix: "\<And>t e. m t = Some e \<longleftrightarrow> (\<exists>r\<in>set rs. km_tuple r = t \<and> km_entry r = e)"
    and inj: "inj_on km_tuple (set rs)" and sorted: "sorted_wrt (\<lambda>s t. probe_length t < probe_length s) ts"
  shows "first_hit m ts =
    map_option km_entry (max_by_key (\<lambda>r. pk_prefixlen (km_key r)) (filter (\<lambda>r. km_tuple r \<in> set ts) rs))"
  using sorted
proof (induction ts)
  case (Cons t ts)
  show ?case
  proof (cases "m t")
    case None
    have "\<And>r. r \<in> set rs \<Longrightarrow> km_tuple r \<noteq> t"
      using None ix [of t] by auto
    then have "filter (\<lambda>r. km_tuple r \<in> set (t # ts)) rs = filter (\<lambda>r. km_tuple r \<in> set ts) rs"
      by (intro filter_cong) auto
    then show ?thesis
      using Cons None by simp
  next
    case (Some e)
    then obtain r where r: "r \<in> set rs" "km_tuple r = t" "km_entry r = e"
      using ix by blast
    have "max_by_key (\<lambda>r. pk_prefixlen (km_key r)) (filter (\<lambda>r. km_tuple r \<in> set (t # ts)) rs) = Some r"
    proof (rule max_by_key_unique)
      fix q
      assume q: "q \<in> set (filter (\<lambda>r. km_tuple r \<in> set (t # ts)) rs)" "q \<noteq> r"
      then have "km_tuple q \<in> set ts"
        using r inj by (auto dest: inj_onD)
      then have "probe_length (km_tuple q) < probe_length t"
        using Cons.prems by simp
      then show "pk_prefixlen (km_key q) < pk_prefixlen (km_key r)"
        using q r rs probe_length_tuple [of q] probe_length_tuple [of r] by (auto simp: word_less_nat_alt)
    qed (use r in simp)
    then show ?thesis
      using Some r by simp
  qed
qed simp

section \<open>The index holds the records\<close>

definition index_rep :: "km_index \<Rightarrow> km_record list \<Rightarrow> bool" where
  "index_rep ix rs \<longleftrightarrow> (\<forall>r\<in>set rs. canonical r) \<and> inj_on km_tuple (set rs) \<and>
     (\<forall>t e. bt_get ix t = Some e \<longleftrightarrow> (\<exists>r\<in>set rs. km_tuple r = t \<and> km_entry r = e))"

lemma index_rep_best:
  assumes "index_rep ix rs"
  shows "index_find ix i p = map_option km_entry (scan_best rs p i)"
proof -
  have "filter (\<lambda>r. km_matches r p i) rs = filter (\<lambda>r. km_tuple r \<in> set (probes i p)) rs"
    using assms matches_probes by (intro filter_cong) (auto simp: index_rep_def)
  moreover have "first_hit (bt_get ix) (probes i p) =
      map_option km_entry (max_by_key (\<lambda>r. pk_prefixlen (km_key r)) (filter (\<lambda>r. km_tuple r \<in> set (probes i p)) rs))"
    using assms unfolding index_rep_def by (intro first_hit_best probes_sorted) blast+
  ultimately show ?thesis
    by (simp add: index_find_probes scan_best_def)
qed

lemma index_rep_insert:
  assumes "index_rep ix rs" and "canonical r" and "bt_get ix (km_tuple r) = None"
  shows "index_rep (bt_insert (km_tuple r) (km_entry r) ix) (rs @ [r])"
proof -
  have new: "\<forall>q\<in>set rs. km_tuple q \<noteq> km_tuple r"
    using assms(1,3) unfolding index_rep_def by (metis option.distinct(1))
  then have "inj_on km_tuple (set (rs @ [r]))"
    using assms(1) by (auto simp: index_rep_def)
  moreover have "bt_get (bt_insert (km_tuple r) (km_entry r) ix) t = Some e \<longleftrightarrow>
      (\<exists>q\<in>set (rs @ [r]). km_tuple q = t \<and> km_entry q = e)" for t e
    using assms(1) new by (cases "t = km_tuple r") (auto simp: index_rep_def simp del: split_paired_All)
  ultimately show ?thesis
    using assms(1,2) unfolding index_rep_def by auto
qed

lemma index_rep_dup:
  assumes "index_rep ix rs" and "canonical r"
  shows "list_ex (\<lambda>q. km_key q = km_key r) rs \<longleftrightarrow> bt_get ix (km_tuple r) \<noteq> None"
proof -
  have "list_ex (\<lambda>q. km_key q = km_key r) rs \<longleftrightarrow> (\<exists>q\<in>set rs. km_tuple q = km_tuple r)"
    using assms km_tuple_inj by (auto simp: list_ex_iff index_rep_def simp del: split_paired_All)
  also have "\<dots> \<longleftrightarrow> (\<exists>e. bt_get ix (km_tuple r) = Some e)"
    using assms(1) by (auto simp: index_rep_def simp del: split_paired_All)
  finally show ?thesis
    by simp
qed

lemma index_loop_spec:
  assumes "index_rep ix pre"
  shows "case scan_validate pre rs of
     Inl e \<Rightarrow> index_loop ix rs = Inl e
   | Inr _ \<Rightarrow> \<exists>ix'. index_loop ix rs = Inr ix' \<and> index_rep ix' (pre @ rs)"
  using assms
proof (induction rs arbitrary: pre ix)
  case (Cons r rs)
  show ?case
  proof (cases "km_canonical r")
    case (Inr u)
    then have r: "canonical r"
      by simp
    have p: "\<not> 256 \<le> unat (saturating_sub (pk_prefixlen (km_key r)) 48)"
      using canonical_bits(2) [OF r] canonical_shape(1) [OF r] by simp
    have dup: "list_ex (\<lambda>q. km_key q = km_key r) pre \<longleftrightarrow> bt_get ix (km_tuple r) \<noteq> None"
      using index_rep_dup [OF Cons.prems r] .
    have t: "km_index_key (km_key r) (ucast (saturating_sub (pk_prefixlen (km_key r)) 48)) = km_tuple r"
      by (simp add: km_tuple_def km_bits_def)
    show ?thesis
    proof (cases "bt_get ix (km_tuple r) = None")
      case True
      then have "index_rep (bt_insert (km_tuple r) (km_entry r) ix) (pre @ [r])"
        using index_rep_insert Cons.prems r by blast
      from Cons.IH [OF this] True show ?thesis
        using r p dup by (simp add: Let_def t split: sum.splits)
    next
      case False
      then show ?thesis
        using r p dup by (simp add: Let_def t)
    qed
  qed simp
qed simp

lemma index_new_spec:
  "case scan_validate [] rs of
     Inl e \<Rightarrow> index_new rs = Inl e
   | Inr _ \<Rightarrow> \<exists>ix. index_new rs = Inr ix \<and> index_rep ix rs"
  using index_loop_spec [of "[]" "[]" rs] by (simp add: index_rep_def index_new_def split: sum.splits)

section \<open>The verdict\<close>

abbreviation candidate_list :: "policy_entry option \<Rightarrow> bool \<Rightarrow> (policy_entry \<times> bool) list" where
  "candidate_list e b \<equiv> (case e of None \<Rightarrow> [] | Some e \<Rightarrow> [(e, b)])"

lemma sort_by_two: "sort_by le [x] = [x]" "sort_by le [x, y] = (if le x y then [x, y] else [y, x])"
  by (simp_all add: sort_by_def)

lemma verdict_one: "index_verdict [(km_entry r, b)] = scan_verdict r None"
  by (simp add: index_verdict_def scan_verdict_def sort_by_two Let_def)

lemma index_two:
  "index_verdict [(km_entry a, False), (km_entry s, True)] =
    (if candidate_key (km_entry a, False) \<le> candidate_key (km_entry s, True)
     then scan_verdict s (Some a) else scan_verdict a (Some s))"
  by (cases "pe_auth_type (km_entry a)" "pe_auth_type (km_entry s)" rule: linorder_cases;
      cases "pe_precedence (km_entry a) = pe_precedence (km_entry s)";
      auto simp: index_verdict_def scan_verdict_def sort_by_two Let_def max_def)

lemma verdict_two:
  assumes "canonical s" and "canonical a"
  shows "index_verdict [(km_entry a, False), (km_entry s, True)] =
    (case scan_choose (Some s) (Some a) of None \<Rightarrow> Miss | Some (c, alt) \<Rightarrow> scan_verdict c alt)"
proof -
  let ?ps = "pe_precedence (km_entry s)" and ?pa = "pe_precedence (km_entry a)"
  have lpm: "pe_lpm_prefix_length (km_entry s) < pe_lpm_prefix_length (km_entry a) \<longleftrightarrow>
      pk_prefixlen (km_key s) < pk_prefixlen (km_key a)"
    using canonical_lpm [OF assms(1)] canonical_lpm [OF assms(2)] canonical_shape(4) [OF assms(1)] canonical_shape(4) [OF assms(2)]
    by (simp add: word_less_nat_alt split: if_splits)
  have order: "candidate_key (km_entry a, False) \<le> candidate_key (km_entry s, True) \<longleftrightarrow>
      \<not> (?ps < ?pa \<or> ?pa = ?ps \<and> pk_prefixlen (km_key s) < pk_prefixlen (km_key a))"
    using lpm by (auto simp: candidate_key_def less_eq_prod_def not_less le_less)
  show ?thesis
  proof (cases "?ps = U32_MAX")
    case True
    then have s: "pe_denies (km_entry s)" and "\<not> ?ps < ?pa"
      using canonical_top [OF assms(1)] by (simp_all add: U32_MAX_def)
    then have "\<not> candidate_key (km_entry a, False) \<le> candidate_key (km_entry s, True) \<Longrightarrow> pe_denies (km_entry a)"
      using order True canonical_top [OF assms(2)] by simp
    with s show ?thesis
      unfolding index_two using True by (simp add: scan_verdict_def Let_def)
  next
    case False
    then show ?thesis
      unfolding index_two order by simp
  qed
qed

lemma verdict_choice:
  assumes "\<And>s. exact = Some s \<Longrightarrow> canonical s" and "\<And>a. other = Some a \<Longrightarrow> canonical a"
  shows "index_verdict (candidate_list (map_option km_entry other) False @ candidate_list (map_option km_entry exact) True) =
    (case scan_choose exact other of None \<Rightarrow> Miss | Some (c, alt) \<Rightarrow> scan_verdict c alt)"
proof (cases exact)
  case None
  then show ?thesis
    by (cases other) (simp_all add: verdict_one, simp add: index_verdict_def sort_by_def)
next
  case (Some s)
  then show ?thesis
    using assms verdict_two by (cases other) (simp_all add: verdict_one del: scan_choose.simps(1))
qed

lemma scan_best_mem: "scan_best rs p i = Some r \<Longrightarrow> r \<in> set rs"
  by (auto simp: scan_best_def dest: max_by_key_mem)

text \<open>
  C17. The indexed kernel map and the brute-force scan agree: for every set of records, context and
  packet they fail with the same error or give the same verdict, redirect, authentication and cookie.
\<close>

theorem index_equivalent:
  "(case index_new rs of Inl e \<Rightarrow> Some (Inl e) | Inr ix \<Rightarrow> index_lookup ix ctx p) = km_scan rs ctx p"
proof (cases "scan_validate [] rs")
  case (Inl e)
  then show ?thesis
    using index_new_spec [of rs] by (simp add: km_scan_def)
next
  case (Inr u)
  then obtain ix where ix: "index_new rs = Inr ix" "index_rep ix rs"
    using index_new_spec [of rs] by auto
  have c: "scan_best rs p i = Some r \<Longrightarrow> canonical r" for i r
    using scan_best_mem ix(2) by (auto simp: index_rep_def)
  note best = index_rep_best [OF ix(2)]
  show ?thesis
  proof (cases "cx_aggregate ctx (p_identity p)")
    case (Some res)
    show ?thesis
    proof (cases res)
      case (Inr agg)
      define exact where "exact = scan_best rs p (p_identity p)"
      define other where "other = (if agg = p_identity p then None else scan_best rs p agg)"
      define final where "final = (if exact = None \<and> other = None \<and> agg \<noteq> 0 then scan_best rs p 0 else other)"
      have scan: "km_scan rs ctx p = Some (Inr
          (case scan_choose exact final of None \<Rightarrow> Miss | Some (c, alt) \<Rightarrow> scan_verdict c alt))"
        using \<open>scan_validate [] rs = Inr u\<close> Some Inr
        by (simp add: km_scan_def scan_outcome_def Let_def exact_def other_def final_def)
      have "index_lookup ix ctx p = Some (Inr (index_verdict
          (candidate_list (map_option km_entry final) False @ candidate_list (map_option km_entry exact) True)))"
        using Some Inr best
        by (auto simp: index_lookup_def Let_def exact_def other_def final_def split: option.split)
      also have "\<dots> = km_scan rs ctx p"
        unfolding scan using c by (subst verdict_choice) (auto simp: exact_def other_def final_def split: if_splits)
      finally show ?thesis
        using ix by simp
    qed (use \<open>scan_validate [] rs = Inr u\<close> Some ix in \<open>simp add: km_scan_def index_lookup_def\<close>)
  qed (use \<open>scan_validate [] rs = Inr u\<close> ix in \<open>simp add: km_scan_def index_lookup_def\<close>)
qed

section \<open>Pruning\<close>

lemma scan_validate_ok:
  "scan_validate before rs = Inr () \<longleftrightarrow>
     (\<forall>r\<in>set rs. canonical r) \<and> distinct (map km_key rs) \<and> km_key ` set before \<inter> km_key ` set rs = {}"
proof (induction rs arbitrary: before)
  case (Cons r rs)
  show ?case
  proof (cases "km_canonical r")
    case (Inr u)
    moreover have "list_ex (\<lambda>q. km_key q = km_key r) before \<longleftrightarrow> km_key r \<in> km_key ` set before"
      unfolding list_ex_iff by (metis imageE imageI)
    ultimately show ?thesis
      using Cons.IH [of "before @ [r]"] by auto
  qed simp
qed simp

lemma index_new_ok: "index_new rs = Inr ix \<Longrightarrow> scan_validate [] rs = Inr ()"
  using index_new_spec [of rs] by (cases "scan_validate [] rs") simp_all

lemma aggregate_in_list:
  assumes "ce_aggregate_for e i c = Some (Inr r)"
  shows "r \<in> set ALL_AGGREGATES \<and> c \<le> ce_max_clusters e"
proof -
  have "c \<le> ce_max_clusters e"
    using assms by (auto simp: ce_aggregate_for_def ce_validate_cluster_def not_less split: if_splits)
  moreover have "r \<in> set ALL_AGGREGATES" if "i = 0 \<or> 11 \<le> i \<and> i \<le> 14" "ri_from_number i = Some r"
  proof -
    have "i \<in> {0, 11, 12, 13, 14}"
      using that(1) aggregate_numbers [of i] by auto
    then show ?thesis
      using that(2) unfolding ri_from_number_spec by (cases r) (auto simp: ALL_AGGREGATES_def)
  qed
  moreover have "\<not> (i = 0 \<or> 11 \<le> i \<and> i \<le> 14) \<Longrightarrow> r \<in> set ALL_AGGREGATES"
    using assms
    by (auto simp: ce_aggregate_for_def ALL_AGGREGATES_def split: sum.splits scope.splits if_splits option.splits)
  ultimately show ?thesis
    using assms by (auto simp: ce_aggregate_for_def split: sum.splits if_splits)
qed

lemma aggregate_number_small: "ni_new (ri_numeric r) = Inr (ri_numeric r)"
  by (rule global_valid) (cases r; simp add: WIRE_MAX_def)

lemma ni_new_id: "ni_new i = Inr j \<Longrightarrow> j = i"
  by (simp add: ni_new_def Let_def split: if_splits)

lemma cx_aggregateD:
  assumes "cx_aggregate ctx i = Some (Inr a)"
  shows "\<exists>r. ce_aggregate_for (cx_encoding ctx) i (cx_local_cluster ctx) = Some (Inr r) \<and> a = ri_numeric r"
proof (cases "ni_new i")
  case (Inr j)
  then obtain z where z: "ce_aggregate_for (cx_encoding ctx) i (cx_local_cluster ctx) = Some z"
      "(case z of Inl _ \<Rightarrow> Inl KmInvalidCluster | Inr r \<Rightarrow> Inr (ri_numeric r)) = Inr a"
    using assms ni_new_id [OF Inr] by (auto simp: cx_aggregate_def)
  then show ?thesis
    by (cases z) auto
qed (use assms in \<open>simp add: cx_aggregate_def\<close>)

lemma cx_aggregate_idem:
  assumes "cx_aggregate ctx i = Some (Inr a)"
  shows "cx_aggregate ctx a = Some (Inr a)"
proof -
  obtain r where r: "ce_aggregate_for (cx_encoding ctx) i (cx_local_cluster ctx) = Some (Inr r)" "a = ri_numeric r"
    using cx_aggregateD [OF assms] by blast
  then show ?thesis
    using aggregate_in_list [OF r(1)] aggregate_fix [of "cx_local_cluster ctx" "cx_encoding ctx" r]
    by (simp add: cx_aggregate_def aggregate_number_small)
qed

lemma cx_aggregate_zero: "cx_aggregate ctx i = Some (Inr a) \<Longrightarrow> cx_aggregate ctx 0 = Some (Inr 0)"
proof -
  assume "cx_aggregate ctx i = Some (Inr a)"
  then obtain r where "ce_aggregate_for (cx_encoding ctx) i (cx_local_cluster ctx) = Some (Inr r)"
    using cx_aggregateD by blast
  then have "cx_local_cluster ctx \<le> ce_max_clusters (cx_encoding ctx)"
    using aggregate_in_list by blast
  then show ?thesis
    using aggregate_fix [of "cx_local_cluster ctx" "cx_encoding ctx" RUnknown] aggregate_number_small [of RUnknown]
    by (simp add: cx_aggregate_def ALL_AGGREGATES_def)
qed

definition pruned :: "km_record list \<Rightarrow> km_context \<Rightarrow> km_record \<Rightarrow> bool" where
  "pruned rs ctx r \<longleftrightarrow> (\<exists>a. cx_aggregate ctx (pk_sec_label (km_key r)) = Some (Inr a) \<and> prunable rs a r)"

lemma prune_loop_filter:
  "prune_loop rs ctx ts = Some (Inr out) \<Longrightarrow> out = filter (\<lambda>r. \<not> pruned rs ctx r) ts"
  by (induction ts arbitrary: out) (auto simp: pruned_def split: option.splits sum.splits)

lemma scan_best_kept:
  assumes "\<And>r. r \<in> set rs \<Longrightarrow> km_matches r p i \<Longrightarrow> \<not> pruned all ctx r"
  shows "scan_best (filter (\<lambda>r. \<not> pruned all ctx r) rs) p i = scan_best rs p i"
proof -
  have "filter (\<lambda>r. km_matches r p i) (filter (\<lambda>r. \<not> pruned all ctx r) rs) = filter (\<lambda>r. km_matches r p i) rs"
    using assms by (auto intro!: filter_cong)
  then show ?thesis
    by (simp only: scan_best_def)
qed

lemma matches_label: "km_matches r p i \<Longrightarrow> pk_sec_label (km_key r) = i \<and> pk_egress (km_key r) = of_bool (p_egress p)"
  by (simp add: km_matches_def Let_def split: if_splits)

lemma aggregate_kept: "cx_aggregate ctx i = Some (Inr i) \<Longrightarrow> km_matches r p i \<Longrightarrow> \<not> pruned all ctx r"
  using matches_label by (auto simp: pruned_def prunable_def)

lemma single_filter: "length (filter P xs) = 1 \<Longrightarrow> x \<in> set xs \<Longrightarrow> y \<in> set xs \<Longrightarrow> P x \<Longrightarrow> P y \<Longrightarrow> x = y"
proof -
  assume "length (filter P xs) = 1" and xy: "x \<in> set xs" "y \<in> set xs" "P x" "P y"
  then obtain z where "filter P xs = [z]"
    by (auto simp: length_Suc_conv)
  moreover have "x \<in> set (filter P xs)" "y \<in> set (filter P xs)"
    using xy by simp_all
  ultimately show ?thesis
    by simp
qed

lemma bucket_unique:
  assumes "bucket_count rs i (of_bool (p_egress p)) = 1" and "r \<in> set rs" and "km_matches r p i"
    and "q \<in> set rs" and "km_matches q p i"
  shows "q = r"
  by (rule single_filter [OF assms(1) [unfolded bucket_count_def] assms(4,2)])
     (use matches_label [OF assms(3)] matches_label [OF assms(5)] in blast)+

lemma bucket_best:
  assumes "bucket_count rs i (of_bool (p_egress p)) = 1" and "r \<in> set rs" and "km_matches r p i"
  shows "scan_best rs p i = Some r"
proof -
  have "r \<in> set (filter (\<lambda>r. km_matches r p i) rs)"
    using assms by simp
  moreover have "\<And>q. q \<in> set (filter (\<lambda>r. km_matches r p i) rs) \<Longrightarrow> q = r"
    using bucket_unique [OF assms] by simp
  ultimately show ?thesis
    unfolding scan_best_def by (blast intro: max_by_key_unique)
qed

lemma same_entry_verdict: "km_entry q = km_entry r \<Longrightarrow> alt = None \<or> alt = Some q \<Longrightarrow> scan_verdict r alt = scan_verdict q None"
  by (auto simp: scan_verdict_def Let_def)

lemma prune_outcome:
  assumes agg: "cx_aggregate ctx (p_identity p) = Some (Inr a)"
  shows "scan_outcome (filter (\<lambda>r. \<not> pruned rs ctx r) rs) p a = scan_outcome rs p a"
proof -
  let ?rs = "filter (\<lambda>r. \<not> pruned rs ctx r) rs"
  have a: "scan_best ?rs p a = scan_best rs p a" and z: "scan_best ?rs p 0 = scan_best rs p 0"
    using aggregate_kept cx_aggregate_idem [OF agg] cx_aggregate_zero [OF agg] by (blast intro: scan_best_kept)+
  show ?thesis
  proof (cases "\<exists>r\<in>set rs. km_matches r p (p_identity p) \<and> pruned rs ctx r")
    case False
    then have "scan_best ?rs p (p_identity p) = scan_best rs p (p_identity p)"
      by (intro scan_best_kept) blast
    then show ?thesis
      using a z by (simp only: scan_outcome_def)
  next
    case True
    then obtain r where r: "r \<in> set rs" "km_matches r p (p_identity p)" "pruned rs ctx r"
      by blast
    note lab = matches_label [OF r(2)]
    from r(3) have pr: "prunable rs a r"
      using agg lab by (simp add: pruned_def)
    then have ne: "a \<noteq> p_identity p"
      using lab by (simp add: prunable_def)
    from pr obtain q where q: "q \<in> set rs" "km_key q = (km_key r)\<lparr>pk_sec_label := a\<rparr>" "km_entry q = km_entry r"
      by (auto simp: prunable_def list_ex_iff)
    have "km_matches q p a"
      using r(2) by (simp add: q(2) km_matches_def Let_def split: if_splits)
    moreover have cnt: "bucket_count rs (p_identity p) (of_bool (p_egress p)) = 1" "bucket_count rs a (of_bool (p_egress p)) = 1"
      using pr lab by (simp_all add: prunable_def)
    ultimately have best: "scan_best rs p (p_identity p) = Some r" "scan_best rs p a = Some q"
      using bucket_best r q(1) by blast+
    have "filter (\<lambda>r. km_matches r p (p_identity p)) ?rs = []"
      using bucket_unique [OF cnt(1) r(1,2)] r(3) by (auto simp: filter_empty_conv)
    then have "scan_best ?rs p (p_identity p) = None"
      by (simp add: scan_best_def)
    then have "scan_outcome ?rs p a = scan_verdict q None"
      using ne a best by (simp add: scan_outcome_def)
    moreover have "scan_choose (Some r) (Some q) =
        Some (r, if pe_precedence (km_entry r) = U32_MAX then None else Some q)"
      by (simp add: q(2,3))
    then have "scan_outcome rs p a =
        scan_verdict r (if pe_precedence (km_entry r) = U32_MAX then None else Some q)"
      using ne best by (simp add: scan_outcome_def del: scan_choose.simps(1))
    then have "scan_outcome rs p a = scan_verdict q None"
      using same_entry_verdict [OF q(3)] by simp
    ultimately show ?thesis
      by simp
  qed
qed

lemma validate_filter: "scan_validate [] rs = Inr () \<Longrightarrow> scan_validate [] (filter P rs) = Inr ()"
  by (auto simp: scan_validate_ok distinct_map intro: inj_on_subset)

text \<open>
  C18. Pruning the entries an aggregate identity repeats changes no verdict: every packet gets the
  same outcome from the pruned records as from all of them.
\<close>

theorem prune_preserves:
  assumes "prune_aggregate_duplicates rs ctx = Some (Inr rs')"
  shows "km_scan rs' ctx p = km_scan rs ctx p"
proof -
  obtain ix where "index_new rs = Inr ix" and l: "prune_loop rs ctx rs = Some (Inr rs')"
    using assms by (auto simp: prune_aggregate_duplicates_def split: sum.splits)
  then have ok: "scan_validate [] rs = Inr ()"
    by (simp add: index_new_ok)
  have rs': "rs' = filter (\<lambda>r. \<not> pruned rs ctx r) rs"
    using l by (rule prune_loop_filter)
  then show ?thesis
    using ok validate_filter [OF ok] prune_outcome [of ctx p]
    by (auto simp: km_scan_def split: option.split sum.split)
qed

section \<open>Inherited authentication\<close>

text \<open>What \<open>inherit_auth\<close> makes of one record.\<close>

definition applicable :: "km_record list \<Rightarrow> km_record \<Rightarrow> km_record list" where
  "applicable rs t = filter (\<lambda>p. km_covers p t \<and> \<not> pe_denies (km_entry p) \<and> pe_has_explicit_auth_type (km_entry p) \<and>
     pe_precedence (km_entry t) AND NOT 255 \<le> pe_precedence (km_entry p) AND NOT 255) rs"

definition inherited :: "km_record list \<Rightarrow> km_record \<Rightarrow> km_record" where
  "inherited rs t =
     (if pe_denies (km_entry t) \<or> pe_has_explicit_auth_type (km_entry t) then t
      else case max_by_key (\<lambda>p. pk_prefixlen (km_key p)) (applicable rs t) of
             None \<Rightarrow> t
           | Some q \<Rightarrow> t\<lparr>km_entry := (km_entry t)\<lparr>pe_auth := pe_auth_type (km_entry q)\<rparr>\<rparr>)"

definition normalized :: "km_record list \<Rightarrow> km_record \<Rightarrow> bool" where
  "normalized rs t \<longleftrightarrow> pe_denies (km_entry t) \<or>
     (\<forall>p\<in>set rs. km_covers p t \<longrightarrow> \<not> pe_precedence (km_entry t) < pe_precedence (km_entry p))"

lemma inherit_target_spec: "inherit_target rs t = (if normalized rs t then Inr (inherited rs t) else Inl KmCovering)"
proof -
  have "filter (\<lambda>p. \<not> pe_denies (km_entry p) \<and> pe_has_explicit_auth_type (km_entry p) \<and>
     pe_precedence (km_entry t) AND NOT 255 \<le> pe_precedence (km_entry p) AND NOT 255)
     (filter (\<lambda>p. km_covers p t) rs) = applicable rs t"
    by (simp add: applicable_def conj_ac)
  then show ?thesis
    by (auto simp: inherit_target_def inherited_def normalized_def Let_def list_ex_iff split: option.split)
qed

lemma inherit_loop_spec:
  "inherit_loop rs ts = (if \<forall>t\<in>set ts. normalized rs t then Inr (map (inherited rs) ts) else Inl KmCovering)"
  by (induction ts) (auto simp: inherit_target_spec)

lemma auth_type_plain: "(pe_auth_type e) AND 0x80 = 0" "(pe_auth_type e) AND 0x7f = pe_auth_type e"
  by (simp_all add: pe_auth_type_def and.assoc)

lemma inherited_fields [simp]:
  "km_key (inherited rs t) = km_key t" "km_origin (inherited rs t) = km_origin t"
  "pe_denies (km_entry (inherited rs t)) = pe_denies (km_entry t)"
  "pe_precedence (km_entry (inherited rs t)) = pe_precedence (km_entry t)"
  "pe_has_explicit_auth_type (km_entry (inherited rs t)) = pe_has_explicit_auth_type (km_entry t)"
  "pe_flags (km_entry (inherited rs t)) = pe_flags (km_entry t)"
  "pe_proxy_port (km_entry (inherited rs t)) = pe_proxy_port (km_entry t)"
  by (auto simp: inherited_def pe_denies_def pe_has_explicit_auth_type_def auth_type_plain split: option.split)

lemma inherited_canonical: "canonical t \<Longrightarrow> canonical (inherited rs t)"
proof -
  assume "canonical t"
  moreover have "km_canonical (inherited rs t) = km_canonical t" if "\<not> pe_denies (km_entry t)"
    using that unfolding km_canonical_def Let_def pe_lpm_prefix_length_def inherited_fields
    by (simp split: sum.split)
  moreover have "inherited rs t = t" if "pe_denies (km_entry t)"
    using that by (simp add: inherited_def)
  ultimately show ?thesis
    by metis
qed

lemma max_by_key_map: "max_by_key f (map g xs) = map_option g (max_by_key (\<lambda>x. f (g x)) xs)"
  by (induction xs) (auto split: option.split)

lemma km_covers_inherited: "km_covers (inherited rs p) (inherited rs t) = km_covers p t"
  by (simp add: km_covers_def km_matches_def Let_def)

lemma applicable_inherited: "applicable (map (inherited rs) rs) (inherited rs t) = map (inherited rs) (applicable rs t)"
  by (simp add: applicable_def filter_map comp_def km_covers_inherited)

lemma inherited_idem: "inherited (map (inherited rs) rs) (inherited rs t) = inherited rs t"
proof (cases "pe_denies (km_entry t) \<or> pe_has_explicit_auth_type (km_entry t)")
  case True
  then show ?thesis
    unfolding inherited_def [of "map (inherited rs) rs"] by simp
next
  case False
  let ?best = "max_by_key (\<lambda>p. pk_prefixlen (km_key p))"
  have b: "?best (applicable (map (inherited rs) rs) (inherited rs t)) = map_option (inherited rs) (?best (applicable rs t))"
    by (simp add: applicable_inherited max_by_key_map)
  have keep: "inherited rs q = q" if "?best (applicable rs t) = Some q" for q
    using max_by_key_mem [OF that] by (simp add: applicable_def inherited_def)
  show ?thesis
  proof (cases "?best (applicable rs t)")
    case None
    then show ?thesis
      using b unfolding inherited_def [of "map (inherited rs) rs"] by simp
  next
    case (Some q)
    then have "inherited rs t = t\<lparr>km_entry := (km_entry t)\<lparr>pe_auth := pe_auth_type (km_entry q)\<rparr>\<rparr>"
      using False by (simp add: inherited_def)
    then show ?thesis
      using b Some keep [OF Some] False unfolding inherited_def [of "map (inherited rs) rs"] by simp
  qed
qed

lemma normalized_inherited: "normalized (map (inherited rs) rs) (inherited rs t) = normalized rs t"
  by (simp add: normalized_def km_covers_inherited)

text \<open>The relation between a record and what a pass makes of it.\<close>

definition inherits :: "km_record list \<Rightarrow> km_record \<Rightarrow> km_record \<Rightarrow> bool" where
  "inherits rs t t' \<longleftrightarrow> km_key t' = km_key t \<and> km_origin t' = km_origin t \<and>
     pe_denies (km_entry t') = pe_denies (km_entry t) \<and> pe_proxy_port (km_entry t') = pe_proxy_port (km_entry t) \<and>
     pe_precedence (km_entry t') = pe_precedence (km_entry t) \<and>
     (if pe_denies (km_entry t) \<or> pe_has_explicit_auth_type (km_entry t) \<or> applicable rs t = [] then t' = t
      else \<exists>q\<in>set (applicable rs t). pe_auth_type (km_entry t') = pe_auth_type (km_entry q) \<and>
         (\<forall>x\<in>set (applicable rs t). pk_prefixlen (km_key x) \<le> pk_prefixlen (km_key q)))"

lemma inherited_inherits: "inherits rs t (inherited rs t)"
proof (cases "max_by_key (\<lambda>p. pk_prefixlen (km_key p)) (applicable rs t)")
  case None
  then show ?thesis
    by (simp add: inherits_def inherited_def)
next
  case (Some q)
  have "pe_auth_type ((km_entry t)\<lparr>pe_auth := pe_auth_type (km_entry q)\<rparr>) = pe_auth_type (km_entry q)"
    by (simp add: pe_auth_type_def [of "_ \<lparr>pe_auth := _\<rparr>"] auth_type_plain(2))
  then have "if pe_denies (km_entry t) \<or> pe_has_explicit_auth_type (km_entry t) then inherited rs t = t
      else pe_auth_type (km_entry (inherited rs t)) = pe_auth_type (km_entry q)"
    using Some by (simp add: inherited_def)
  moreover have "q \<in> set (applicable rs t)" "\<forall>x\<in>set (applicable rs t). pk_prefixlen (km_key x) \<le> pk_prefixlen (km_key q)"
    using max_by_key_mem [OF Some] max_by_key_ge [OF Some] by blast+
  ultimately show ?thesis
    unfolding inherits_def inherited_fields by (metis empty_iff list.set(1))
qed


section \<open>A policy map\<close>

definition lab_key :: "u32 \<Rightarrow> policy_key" where
  "lab_key label = \<lparr>pk_prefixlen = 64, pk_sec_label = label, pk_egress = 0, pk_protocol = 6, pk_dport = be16_new 80\<rparr>"

definition lab_allow :: "u8 \<Rightarrow> policy_entry" where
  "lab_allow auth = \<lparr>pe_proxy_port = be16_new 0, pe_flags = 192, pe_auth = auth, pe_precedence = 0x101, pe_cookie = 7\<rparr>"

definition lab_record :: "u32 \<Rightarrow> km_record" where
  "lab_record label = \<lparr>km_key = lab_key label, km_entry = lab_allow 0, km_origin = ''web''\<rparr>"

definition lab_context :: km_context where
  "lab_context = \<lparr>cx_encoding = \<lparr>ce_max_clusters = 255, ce_shift = 16\<rparr>, cx_local_cluster = 0\<rparr>"

lemma lab_canonical: "canonical (lab_record 300)" "canonical (lab_record 11)"
  by (simp_all add: km_canonical_def lab_record_def lab_key_def lab_allow_def ni_new_def key_port_prefix_def
      checked_sub_def checked_add_def saturating_sub_def saturating_add_def policy_key_new_def be_get_new Let_def WIRE_MAX_def
      pe_lpm_prefix_length_def pe_denies_def drop_bit_eq_div)

lemma lab_index: "\<exists>ix. index_new [lab_record 300, lab_record 11] = Inr ix"
proof -
  have "scan_validate [] [lab_record 300, lab_record 11] = Inr ()"
    using lab_canonical by (simp add: lab_record_def lab_key_def)
  then show ?thesis
    using index_new_spec [of "[lab_record 300, lab_record 11]"] by auto
qed

lemma lab_aggregate: "cx_aggregate lab_context 300 = Some (Inr 11)" "cx_aggregate lab_context 11 = Some (Inr 11)"
  by (simp_all add: cx_aggregate_def lab_context_def ce_aggregate_for_def ce_validate_cluster_def ni_new_def ni_scope_def
      ce_global_cluster_id_def ri_from_number_def reserved_table_def Let_def drop_bit_eq_div WIRE_MAX_def)

lemma lab_prune:
  "prune_aggregate_duplicates [lab_record 300, lab_record 11] lab_context = Some (Inr [lab_record 11])"
proof -
  have l: "pk_sec_label (km_key (lab_record n)) = n" "pk_egress (km_key (lab_record n)) = 0" for n
    by (simp_all add: lab_record_def lab_key_def)
  have "prunable [lab_record 300, lab_record 11] 11 (lab_record 300)" "\<not> prunable [lab_record 300, lab_record 11] 11 (lab_record 11)"
    by (simp_all add: prunable_def bucket_count_def l) (simp add: lab_record_def lab_key_def)
  then show ?thesis
    using lab_index by (auto simp: prune_aggregate_duplicates_def l lab_aggregate)
qed

theorem prune_preserves_witness:
  "prune_aggregate_duplicates [lab_record 300, lab_record 11] lab_context = Some (Inr [lab_record 11]) \<and>
   km_scan [lab_record 11] lab_context lab_packet = km_scan [lab_record 300, lab_record 11] lab_context lab_packet"
  using prune_preserves [OF lab_prune, of lab_packet] lab_prune by blast

lemma lab_inherit: "inherit_auth [lab_record 300, lab_record 11] = Inr [lab_record 300, lab_record 11]"
proof -
  have c: "km_covers (lab_record i) (lab_record j) = False" for i j
    by (simp add: km_covers_def lab_record_def lab_key_def)
  have "inherited rs (lab_record i) = lab_record i" "normalized rs (lab_record i)"
    if "set rs \<subseteq> {lab_record 300, lab_record 11}" for rs i
  proof -
    have "applicable rs (lab_record i) = []"
      using that c by (auto simp: applicable_def filter_empty_conv)
    then show "inherited rs (lab_record i) = lab_record i"
      by (simp add: inherited_def)
    show "normalized rs (lab_record i)"
      using that c by (auto simp: normalized_def)
  qed
  then show ?thesis
    using lab_index by (auto simp: inherit_auth_def inherit_loop_spec)
qed


end
