(* ===== verification/CidrRules.thy ===== *)
theory CidrRules
  imports Ports
begin

text \<open>
  Network prefixes, \<open>flowsdn-identity/src/cidr.rs\<close>, and the planning of CIDR policy rules over them,
  \<open>flowsdn-policy/src/cidr.rs\<close>. A prefix is its masked network address and its length; the textual
  forms of a prefix and its label are not modelled.
\<close>

section \<open>Prefixes\<close>

datatype prefix_error = CidrInvalidPrefix | CidrInvalidAddress | CidrInvalidLength | CidrInvalidLabel | CidrKeyTooLong

type_synonym cidr_prefix = "ip_addr \<times> u8"

fun cp_new :: "ip_addr \<Rightarrow> u8 \<Rightarrow> prefix_error + cidr_prefix" where
  "cp_new (V4 a) len =
     (if 32 < len then Inl CidrInvalidLength
      else Inr (V4 (a AND shl_or_zero (- 1) (unat (saturating_sub 32 (ucast len :: u32)))), len))"
| "cp_new (V6 a) len =
     (if 128 < len then Inl CidrInvalidLength
      else Inr (V6 (a AND shl_or_zero (- 1) (unat (saturating_sub 128 (ucast len :: u32)))), len))"

definition cp_is_world :: "cidr_prefix \<Rightarrow> bool" where
  "cp_is_world p \<longleftrightarrow> snd p = 0"

definition cp_contains_address :: "cidr_prefix \<Rightarrow> ip_addr \<Rightarrow> bool" where
  "cp_contains_address p a =
     (if is_ipv4 (fst p) \<noteq> is_ipv4 a then False
      else case cp_new a (snd p) of Inl _ \<Rightarrow> False | Inr q \<Rightarrow> fst q = fst p)"

definition cp_contains_prefix :: "cidr_prefix \<Rightarrow> cidr_prefix \<Rightarrow> bool" where
  "cp_contains_prefix p q \<longleftrightarrow> snd p \<le> snd q \<and> cp_contains_address p (fst q)"

section \<open>Rules\<close>

record cidr_rule =
  cr_allow :: cidr_prefix
  cr_except :: "cidr_prefix btree_set"

definition cr_new :: "cidr_prefix \<Rightarrow> cidr_prefix list \<Rightarrow> policy_error + cidr_rule" where
  "cr_new allow except =
     (let except = bs_of_list except in
      if list_ex (\<lambda>q. \<not> cp_contains_prefix allow q) except then Inl InvalidException
      else Inr \<lparr>cr_allow = allow, cr_except = except\<rparr>)"

definition cr_import_prefixes :: "cidr_rule \<Rightarrow> cidr_prefix btree_set" where
  "cr_import_prefixes r = bs_of_list (cr_allow r # cr_except r)"

definition cr_selects :: "cidr_rule \<Rightarrow> cidr_prefix \<Rightarrow> bool" where
  "cr_selects r peer \<longleftrightarrow>
     cp_contains_prefix (cr_allow r) peer \<and> \<not> list_ex (\<lambda>q. cp_contains_prefix q peer) (cr_except r)"

record prefix_update =
  pu_allocate_before_publish :: "cidr_prefix btree_set"
  pu_release_after_publish :: "cidr_prefix btree_set"

definition bs_difference :: "'k::linorder btree_set \<Rightarrow> 'k btree_set \<Rightarrow> 'k btree_set" where
  "bs_difference a b = filter (\<lambda>k. k \<notin> set b) a"

definition pu_between :: "cidr_rule list \<Rightarrow> cidr_rule list \<Rightarrow> prefix_update" where
  "pu_between old new =
     (let old = bs_of_list (concat (map cr_import_prefixes old));
          new = bs_of_list (concat (map cr_import_prefixes new)) in
      \<lparr>pu_allocate_before_publish = bs_difference new old, pu_release_after_publish = bs_difference old new\<rparr>)"

section \<open>What a prefix contains\<close>

definition host_bits :: "cidr_prefix \<Rightarrow> nat" where
  "host_bits p = (if is_ipv4 (fst p) then 32 else 128) - unat (snd p)"

definition cp_ok :: "cidr_prefix \<Rightarrow> bool" where
  "cp_ok p \<longleftrightarrow> (\<exists>a. cp_new a (snd p) = Inr p)"

abbreviation addr_nat :: "ip_addr \<Rightarrow> nat" where
  "addr_nat a \<equiv> unat (ip_number a)"

lemma and_high: "unat (a AND push_bit n (- 1) :: 'a::len word) = unat a div 2 ^ n * 2 ^ n"
  by (simp add: push_bit_minus_one minus_exp_eq_not_mask unat_and_not_mask)

lemma cp_new_number:
  assumes "cp_new a len = Inr q"
  shows "snd q = len" "is_ipv4 (fst q) = is_ipv4 a" "unat len \<le> (if is_ipv4 a then 32 else 128)"
    "addr_nat (fst q) = addr_nat a div 2 ^ host_bits q * 2 ^ host_bits q"
proof -
  show l: "unat len \<le> (if is_ipv4 a then 32 else 128)" and s: "snd q = len" and f: "is_ipv4 (fst q) = is_ipv4 a"
    using assms by (cases a; auto simp: word_less_nat_alt split: if_splits)+
  obtain x n where q: "q = (x, n)" by (cases q)
  show "addr_nat (fst q) = addr_nat a div 2 ^ host_bits q * 2 ^ host_bits q"
    using assms s f l unfolding q
    by (cases a) (auto simp: host_bits_def and_high unat_saturating_sub unat_and_not_mask split: if_splits)
qed

lemma addr_nat_inj: "is_ipv4 a = is_ipv4 b \<Longrightarrow> addr_nat a = addr_nat b \<Longrightarrow> a = b"
  by (simp add: ip_number_inj word_unat_eq_iff)

lemma cp_ok_iff:
  "cp_ok p \<longleftrightarrow> unat (snd p) \<le> (if is_ipv4 (fst p) then 32 else 128) \<and>
     addr_nat (fst p) = addr_nat (fst p) div 2 ^ host_bits p * 2 ^ host_bits p" (is "_ \<longleftrightarrow> ?r")
proof
  assume "cp_ok p"
  then obtain a where a: "cp_new a (snd p) = Inr p" by (auto simp: cp_ok_def)
  show ?r using cp_new_number [OF a] by simp
next
  assume r: ?r
  then obtain q where q: "cp_new (fst p) (snd p) = Inr q" by (cases "fst p") (auto simp: word_less_nat_alt)
  note n = cp_new_number [OF q]
  have "host_bits q = host_bits p" using n by (simp add: host_bits_def)
  then have "addr_nat (fst q) = addr_nat (fst p)" using n r by simp
  then have "fst q = fst p" using n by (intro addr_nat_inj) simp_all
  then have "q = p" using n by (simp add: prod_eq_iff)
  then show "cp_ok p" using q by (auto simp: cp_ok_def)
qed

lemma cp_contains_iff:
  assumes "cp_ok p"
  shows "cp_contains_address p a \<longleftrightarrow>
    is_ipv4 (fst p) = is_ipv4 a \<and> addr_nat a div 2 ^ host_bits p = addr_nat (fst p) div 2 ^ host_bits p"
proof (cases "is_ipv4 (fst p) = is_ipv4 a")
  case True
  note ok = assms [unfolded cp_ok_iff]
  obtain q where q: "cp_new a (snd p) = Inr q" using ok True by (cases a) (auto simp: word_less_nat_alt)
  note n = cp_new_number [OF q]
  have h: "host_bits q = host_bits p" using n True by (simp add: host_bits_def)
  have "fst q = fst p \<longleftrightarrow> addr_nat (fst q) = addr_nat (fst p)"
    using n True by (auto intro: addr_nat_inj)
  also have "\<dots> \<longleftrightarrow> addr_nat a div 2 ^ host_bits p = addr_nat (fst p) div 2 ^ host_bits p"
    using n(4) ok unfolding h by (metis nonzero_mult_div_cancel_right power_not_zero zero_neq_numeral)
  finally show ?thesis using q True by (simp add: cp_contains_address_def)
qed (simp add: cp_contains_address_def)

lemma div_coarser: "(x :: nat) div 2 ^ m = y div 2 ^ m \<Longrightarrow> m \<le> n \<Longrightarrow> x div 2 ^ n = y div 2 ^ n"
  by (metis div_exp_eq le_add_diff_inverse)

lemma host_bits_mono:
  assumes "cp_contains_prefix p q" "cp_ok p"
  shows "host_bits q \<le> host_bits p"
  using assms by (auto simp: cp_contains_prefix_def cp_contains_iff host_bits_def word_le_nat_alt)

lemma cp_contains_trans:
  assumes "cp_ok p" "cp_ok q" "cp_contains_prefix p q" "cp_contains_address q x"
  shows "cp_contains_address p x"
proof -
  have "addr_nat x div 2 ^ host_bits q = addr_nat (fst q) div 2 ^ host_bits q"
    using assms(2,4) by (simp add: cp_contains_iff)
  from div_coarser [OF this host_bits_mono [OF assms(3,1)]] show ?thesis
    using assms by (simp add: cp_contains_prefix_def cp_contains_iff)
qed

lemma cp_contains_nested:
  assumes "cp_ok p" "cp_ok q" "cp_contains_address p x" "cp_contains_address q x" "snd p \<le> snd q"
  shows "cp_contains_prefix p q"
proof -
  have le: "host_bits q \<le> host_bits p"
    using assms by (simp add: cp_contains_iff host_bits_def word_le_nat_alt)
  have "addr_nat x div 2 ^ host_bits q = addr_nat (fst q) div 2 ^ host_bits q"
    using assms(2,4) by (simp add: cp_contains_iff)
  from div_coarser [OF this le] show ?thesis
    using assms by (simp add: cp_contains_prefix_def cp_contains_iff)
qed

lemma cp_contains_self: "cp_ok p \<Longrightarrow> cp_contains_address p (fst p)"
  by (simp add: cp_contains_iff)

lemma addr_exists:
  assumes "n < 2 ^ (if v4 then 32 else 128 :: nat)"
  shows "\<exists>y. is_ipv4 y = v4 \<and> addr_nat y = n"
proof (cases v4)
  case True
  then show ?thesis using assms by (intro exI [of _ "V4 (of_nat n)"]) (simp add: unat_of_nat)
next
  case False
  then show ?thesis using assms by (intro exI [of _ "V6 (of_nat n)"]) (simp add: unat_of_nat)
qed

lemma addr_bound: "addr_nat a < 2 ^ (if is_ipv4 a then 32 else 128 :: nat)"
proof (cases a)
  case (V4 x)
  then show ?thesis using unsigned_less [where 'a = nat, of x] by simp
next
  case (V6 x)
  then show ?thesis using unsigned_less [where 'a = nat, of x] by simp
qed

lemma cp_sibling:
  assumes ok: "cp_ok q" and k: "k < host_bits q"
  shows "\<exists>y. is_ipv4 y = is_ipv4 (fst q) \<and> addr_nat y = addr_nat (fst q) + 2 ^ k \<and> cp_contains_address q y"
proof -
  let ?w = "if is_ipv4 (fst q) then 32 else 128 :: nat"
  let ?h = "host_bits q" and ?n = "addr_nat (fst q)"
  define d where "d = ?n div 2 ^ ?h"
  have n: "?n = d * 2 ^ ?h" using ok by (simp add: cp_ok_iff d_def)
  have k2: "2 ^ k < (2 :: nat) ^ ?h" using k by simp
  have w: "(2 :: nat) ^ ?w = 2 ^ (?w - ?h) * 2 ^ ?h" by (simp add: host_bits_def flip: power_add)
  have "d < 2 ^ (?w - ?h)" using addr_bound [of "fst q"] unfolding n w by simp
  then have "(d + 1) * 2 ^ ?h \<le> 2 ^ ?w" unfolding w by (intro mult_le_mono1) simp
  then have "?n + 2 ^ k < 2 ^ ?w" using k2 unfolding n add_mult_distrib by linarith
  from addr_exists [OF this] obtain y where y: "is_ipv4 y = is_ipv4 (fst q)" "addr_nat y = ?n + 2 ^ k" by blast
  have "(d * 2 ^ ?h + 2 ^ k) div 2 ^ ?h = d" using k2 by simp
  then have "cp_contains_address q y" using y ok by (simp add: cp_contains_iff n)
  with y show ?thesis by blast
qed

text \<open>
  C32. A prefix contains another exactly when it contains every address the other contains, for prefixes
  built by \<open>CidrPrefix::new\<close>: the length comparison and the one masked comparison of the code decide set
  inclusion, in both address families and across them.
\<close>

theorem contains_prefix_inclusion:
  assumes "cp_new a m = Inr p" and "cp_new b n = Inr q"
  shows "cp_contains_prefix p q \<longleftrightarrow> (\<forall>x. cp_contains_address q x \<longrightarrow> cp_contains_address p x)"
proof
  have ok: "cp_ok p" "cp_ok q" using assms cp_new_number(1) by (auto simp: cp_ok_def)
  show "\<forall>x. cp_contains_address q x \<longrightarrow> cp_contains_address p x" if "cp_contains_prefix p q"
    using that cp_contains_trans ok by blast
  assume all: "\<forall>x. cp_contains_address q x \<longrightarrow> cp_contains_address p x"
  then have fq: "cp_contains_address p (fst q)" using ok cp_contains_self by blast
  moreover have "snd p \<le> snd q"
  proof (rule ccontr)
    assume "\<not> snd p \<le> snd q"
    then have "host_bits p < host_bits q" using fq ok(1) ok(1) [unfolded cp_ok_iff]
      by (auto simp: cp_contains_iff host_bits_def word_le_nat_alt)
    from cp_sibling [OF ok(2) this] obtain y where y: "is_ipv4 y = is_ipv4 (fst q)"
      "addr_nat y = addr_nat (fst q) + 2 ^ host_bits p" "cp_contains_address q y" by blast
    have "cp_contains_address p y" using all y(3) by blast
    moreover have "(addr_nat (fst q) + 2 ^ host_bits p) div 2 ^ host_bits p = addr_nat (fst q) div 2 ^ host_bits p + 1"
      by (simp add: div_add_self2)
    ultimately show False using fq ok(1) y(2) by (simp add: cp_contains_iff)
  qed
  ultimately show "cp_contains_prefix p q" by (simp add: cp_contains_prefix_def)
qed

text \<open>
  C31. A CIDR rule with exceptions decides an address by the longest of the prefixes it imports: when \<open>p\<close>
  is the longest imported prefix that contains \<open>x\<close>, the rule selects the identity of \<open>p\<close> exactly when
  \<open>x\<close> lies in the allowed prefix and in none of the exceptions, however the exceptions nest.
\<close>

theorem cidr_rule_longest_prefix:
  assumes "cr_new allow except = Inr r" and "\<forall>q\<in>set (allow # except). cp_ok q"
    and "p \<in> set (cr_import_prefixes r)" and "cp_contains_address p x"
    and "\<forall>q\<in>set (cr_import_prefixes r). cp_contains_address q x \<longrightarrow> snd q \<le> snd p"
  shows "cr_selects r p \<longleftrightarrow> cp_contains_address allow x \<and> (\<forall>e\<in>set except. \<not> cp_contains_address e x)"
proof -
  have r: "cr_allow r = allow" "set (cr_except r) = set except" "set (cr_import_prefixes r) = set (allow # except)"
    using assms(1) by (auto simp: cr_new_def Let_def cr_import_prefixes_def split: if_splits)
  have ok: "cp_ok p" "cp_ok allow" "\<And>e. e \<in> set except \<Longrightarrow> cp_ok e" using assms(2,3) r by auto
  have sel: "cr_selects r p \<longleftrightarrow> cp_contains_prefix allow p \<and> (\<forall>e\<in>set except. \<not> cp_contains_prefix e p)"
    using r by (auto simp: cr_selects_def list_ex_iff)
  have longest: "cp_contains_prefix e p \<longleftrightarrow> cp_contains_address e x" if "e \<in> set (allow # except)" for e
    using that ok assms(4,5) r cp_contains_trans cp_contains_nested by (metis list.set_intros set_ConsD)
  show ?thesis unfolding sel using longest by auto
qed


theorem contains_prefix_inclusion_witness:
  "{x. cp_contains_address (V4 0x0A000000, 16) x} \<subseteq> {x. cp_contains_address (V4 0x0A000000, 8) x} \<and>
   \<not> {x. cp_contains_address (V4 0x0A000000, 8) x} \<subseteq> {x. cp_contains_address (V4 0x0A000000, 16) x}"
proof -
  have p: "cp_new (V4 0x0A000001) 8 = Inr (V4 0x0A000000, 8)" "cp_new (V4 0x0A000001) 16 = Inr (V4 0x0A000000, 16)"
    by code_simp+
  have "cp_contains_prefix (V4 0x0A000000, 8) (V4 0x0A000000, 16)"
    "\<not> cp_contains_prefix (V4 0x0A000000, 16) (V4 0x0A000000, 8)" by code_simp+
  then show ?thesis
    using contains_prefix_inclusion [OF p(1,2)] contains_prefix_inclusion [OF p(2,1)] by blast
qed

theorem cidr_rule_longest_prefix_witness:
  "cr_selects \<lparr>cr_allow = (V4 0x0A000000, 8), cr_except = [(V4 0x0A010000, 16)]\<rparr> (V4 0x0A000000, 8) \<and>
   cp_contains_address (V4 0x0A000000, 8) (V4 0x0A020001) \<and> \<not> cp_contains_address (V4 0x0A010000, 16) (V4 0x0A020001)"
proof -
  let ?a = "(V4 0x0A000000, 8)" and ?e = "(V4 0x0A010000, 16)" and ?x = "V4 0x0A020001"
  let ?r = "\<lparr>cr_allow = ?a, cr_except = [?e]\<rparr>"
  have n: "cr_new ?a [?e] = Inr ?r" by code_simp
  have i: "cr_import_prefixes ?r = [?a, ?e]" by code_simp
  have c: "cp_contains_address ?a ?x" "\<not> cp_contains_address ?e ?x" by code_simp+
  have "cp_new (V4 0x0A000000) 8 = Inr ?a" "cp_new (V4 0x0A010000) 16 = Inr ?e" by code_simp+
  then have "cp_ok ?a" "cp_ok ?e" unfolding cp_ok_def snd_conv by blast+
  then have ok: "\<forall>q\<in>set [?a, ?e]. cp_ok q" by simp
  show ?thesis using cidr_rule_longest_prefix [OF n ok, of ?a ?x] c unfolding i by simp
qed

end
