(* ===== verification/PolicyState.thy ===== *)
theory PolicyState
  imports Oracle LabelSelector
begin

text \<open>
  The two stateful holders of policy: the subject repository of \<open>flowsdn-policy/src/repository.rs\<close>, which
  replaces the rules of one resource at a time under a revision, and the named-port state of
  \<open>flowsdn-policy/src/named_ports.rs\<close>, which keeps the contributions of every selector and plans the
  changes of the kernel map. Each operation takes the state and returns its result with the new state.
\<close>

section \<open>The subject repository\<close>

record subject_repository =
  sr_resources :: "(string, rule list) btree_map"
  sr_revision :: u64

definition sr_default :: subject_repository where
  "sr_default = \<lparr>sr_resources = [], sr_revision = 0\<rparr>"

definition sr_rules :: "subject_repository \<Rightarrow> rule list" where
  "sr_rules r = concat (bt_values (sr_resources r))"

definition sr_replace :: "subject_repository \<Rightarrow> string \<Rightarrow> rule list \<Rightarrow> (policy_error + u64) \<times> subject_repository" where
  "sr_replace r resource rules =
     (if resource = [] then (Inl InvalidName, r)
      else case validate_subject
             (concat (map snd (filter (\<lambda>nr. fst nr \<noteq> resource) (sr_resources r))) @ rules) of
        Inl e \<Rightarrow> (Inl e, r)
      | Inr _ \<Rightarrow>
          (case checked_add (sr_revision r) 1 of
             None \<Rightarrow> (Inl RevisionExhausted, r)
           | Some revision \<Rightarrow>
               (Inr revision,
                r\<lparr>sr_resources := (if rules = [] then bt_remove resource (sr_resources r)
                                    else bt_insert resource rules (sr_resources r)),
                  sr_revision := revision\<rparr>)))"

definition sr_read_status :: "subject_repository \<Rightarrow> u16" where
  "sr_read_status r = (if sr_rules r = [] then 404 else 200)"

inductive sr_reach :: "subject_repository \<Rightarrow> bool" where
  sr_start: "sr_reach sr_default"
| sr_step: "sr_reach r \<Longrightarrow> sr_reach (snd (sr_replace r resource rules))"

section \<open>Named ports\<close>

text \<open>The derived order of \<open>Key\<close> compares identity, protocol and port in this order.\<close>

type_synonym np_key = "u32 \<times> u8 \<times> u16"

record contribution =
  co_key :: np_key
  co_precedence :: u32

record named_port_state =
  np_selectors :: "(string, contribution list) btree_map"
  np_desired :: "(np_key, u32) btree_map"

record np_changes =
  ch_upserts :: "(np_key, u32) btree_map"
  ch_deletes :: "np_key list"

definition np_default :: named_port_state where
  "np_default = \<lparr>np_selectors = [], np_desired = []\<rparr>"

definition contribution_bad :: "contribution \<Rightarrow> bool" where
  "contribution_bad c = (case co_key c of (identity, protocol, port) \<Rightarrow> protocol = 0 \<or> port = 0 \<or> identity = 0)"

fun desired_loop :: "(np_key, u32) btree_map \<Rightarrow> contribution list \<Rightarrow> (np_key, u32) btree_map" where
  "desired_loop m [] = m"
| "desired_loop m (c # cs) =
     desired_loop (bt_insert (co_key c)
       (case bt_get m (co_key c) of None \<Rightarrow> co_precedence c | Some v \<Rightarrow> max v (co_precedence c)) m) cs"

definition np_replace ::
    "named_port_state \<Rightarrow> string \<Rightarrow> contribution list \<Rightarrow> (policy_error + np_changes) \<times> named_port_state" where
  "np_replace st selector contributions =
     (if selector = [] then (Inl InvalidName, st)
      else if list_ex contribution_bad contributions then (Inl InvalidProtocol, st)
      else
        let selectors = (if contributions = [] then bt_remove selector (np_selectors st)
                         else bt_insert selector contributions (np_selectors st));
            desired = desired_loop [] (concat (bt_values selectors));
            upserts = bt_of_list (filter (\<lambda>(key, v). bt_get (np_desired st) key \<noteq> Some v) desired);
            deletes = filter (\<lambda>key. bt_get desired key = None) (bt_keys (np_desired st))
        in (Inr \<lparr>ch_upserts = upserts, ch_deletes = deletes\<rparr>,
            \<lparr>np_selectors = selectors, np_desired = desired\<rparr>))"

inductive np_reach :: "named_port_state \<Rightarrow> bool" where
  np_start: "np_reach np_default"
| np_step: "np_reach st \<Longrightarrow> np_reach (snd (np_replace st selector contributions))"

section \<open>The repository keeps a valid subject\<close>

definition sr_inv :: "subject_repository \<Rightarrow> bool" where
  "sr_inv r \<longleftrightarrow> bt_ok (sr_resources r) \<and> (\<forall>(name, rs) \<in> set (sr_resources r). name \<noteq> [] \<and> rs \<noteq> []) \<and>
     validate_subject (sr_rules r) = Inr ()"

lemma validate_subject_set: "set a = set b \<Longrightarrow> validate_subject a = Inr () \<longleftrightarrow> validate_subject b = Inr ()"
  by (simp add: validate_subject_ok list_all_iff list_ex_iff)

lemma set_bt_insert: "bt_ok m \<Longrightarrow> set (bt_insert k v m) = insert (k, v) {kv \<in> set m. fst kv \<noteq> k}"
  by (induction m) (auto simp: bt_ok_def)

lemma sr_replace_inv:
  assumes "sr_inv r"
  shows "sr_inv (snd (sr_replace r resource rules))"
proof -
  let ?kept = "concat (map snd (filter (\<lambda>nr. fst nr \<noteq> resource) (sr_resources r)))"
  let ?new = "if rules = [] then bt_remove resource (sr_resources r) else bt_insert resource rules (sr_resources r)"
  have ok: "bt_ok (sr_resources r)" using assms by (simp add: sr_inv_def)
  have rules: "set (concat (bt_values ?new)) = set (?kept @ rules)"
    using ok by (auto simp: bt_values_def bt_remove_def set_bt_insert)
  have entries: "\<forall>(name, rs) \<in> set ?new. name \<noteq> [] \<and> rs \<noteq> []" if "resource \<noteq> []"
    using that ok assms by (auto simp: sr_inv_def bt_remove_def set_bt_insert)
  have "bt_ok ?new" using ok by (auto intro: bt_ok_insert bt_ok_remove)
  then have "sr_inv (r\<lparr>sr_resources := ?new, sr_revision := v\<rparr>)"
    if "resource \<noteq> []" "validate_subject (?kept @ rules) = Inr ()" for v
    using that entries validate_subject_set [OF rules] by (simp add: sr_inv_def sr_rules_def)
  then show ?thesis using assms by (auto simp: sr_replace_def split: sum.splits option.splits)
qed

lemma sr_reach_inv: "sr_reach r \<Longrightarrow> sr_inv r"
proof (induction rule: sr_reach.induct)
  case sr_start
  show ?case by (simp add: sr_inv_def sr_default_def sr_rules_def bt_values_def validate_subject_ok)
qed (rule sr_replace_inv)

lemma ran_bt_insert:
  assumes "bt_ok m"
  shows "ran ((bt_get m)(k \<mapsto> v)) = insert v (snd ` {kv \<in> set m. fst kv \<noteq> k})"
proof -
  have "ran (bt_get (bt_insert k v m)) = snd ` set (bt_insert k v m)"
    by (intro ran_distinct bt_ok_distinct bt_ok_insert assms)
  then show ?thesis using assms by (simp add: set_bt_insert)
qed

lemma revision_step:
  "(checked_add v 1 = None \<longleftrightarrow> v = (- 1 :: u64)) \<and> (\<forall>w. checked_add v 1 = Some w \<longrightarrow> unat w = unat v + 1)"
proof -
  have "v = - 1 \<longleftrightarrow> unat v = 2 ^ 64 - 1" by (simp add: word_unat_eq_iff unsigned_minus_1_eq_mask mask_eq_exp_minus_1)
  then show ?thesis using unsigned_less [where 'a = nat, of v]
    by (auto simp: checked_add_def unat_add_no_wrap split: if_splits)
qed

text \<open>
  C28. Every repository reached by any sequence of replacements keeps its invariant: the resources are an
  ordered map without empty names and without empty rule lists, and the rules of all resources together
  are a valid subject, so that the oracle and the compiler never meet an invalid rule or a pass rule
  beside an authentication rule. A read answers 404 exactly when no resource is held.
\<close>

theorem repository_invariant:
  assumes "sr_reach r"
  shows "bt_ok (sr_resources r) \<and> (\<forall>n rs. bt_get (sr_resources r) n = Some rs \<longrightarrow> n \<noteq> [] \<and> rs \<noteq> []) \<and>
    validate_subject (sr_rules r) = Inr () \<and> (sr_read_status r = 404 \<longleftrightarrow> sr_resources r = [])"
proof -
  have inv: "sr_inv r" using assms by (rule sr_reach_inv)
  then have "sr_rules r = [] \<longleftrightarrow> sr_resources r = []"
    by (cases "sr_resources r") (auto simp: sr_inv_def sr_rules_def bt_values_def)
  with inv show ?thesis by (auto simp: sr_inv_def sr_read_status_def dest: map_of_SomeD)
qed


text \<open>
  C29. Replacement is an update of an abstract map from resource names to rule lists. On success the
  revision grows by exactly one and only the named resource changes, an empty list deleting it; on any
  error the repository is unchanged. It succeeds exactly when the name is nonempty, the revision counter
  is not exhausted, every new rule is well formed and the rules that would then be held do not combine a
  pass verdict with an authentication requirement.
\<close>

theorem repository_replace:
  assumes "sr_reach r"
  shows "(case sr_replace r n rs of
      (Inl _, r') \<Rightarrow> r' = r
    | (Inr v, r') \<Rightarrow> unat v = unat (sr_revision r) + 1 \<and> sr_revision r' = v \<and>
        bt_get (sr_resources r') = (bt_get (sr_resources r))(n := if rs = [] then None else Some rs)) \<and>
    ((\<exists>v. fst (sr_replace r n rs) = Inr v) \<longleftrightarrow>
      n \<noteq> [] \<and> sr_revision r \<noteq> - 1 \<and> list_all rule_ok rs \<and>
      (let held = \<Union> (set ` ran ((bt_get (sr_resources r))(n \<mapsto> rs))) in
       \<not> ((\<exists>x\<in>held. r_verdict x = Pass) \<and> (\<exists>x\<in>held. r_authentication x \<noteq> None))))"
proof -
  have inv: "sr_inv r" using assms by (rule sr_reach_inv)
  then have ok: "bt_ok (sr_resources r)" and val: "validate_subject (sr_rules r) = Inr ()" by (auto simp: sr_inv_def)
  define kept where "kept = concat (map snd (filter (\<lambda>nr. fst nr \<noteq> n) (sr_resources r)))"
  have "set kept \<subseteq> set (sr_rules r)" by (auto simp: kept_def sr_rules_def bt_values_def)
  with val have kept_ok: "list_all rule_ok kept" by (auto simp: validate_subject_ok list_all_iff)
  have held: "\<Union> (set ` ran ((bt_get (sr_resources r))(n \<mapsto> rs))) = set (kept @ rs)"
    unfolding ran_bt_insert [OF ok] by (auto simp: kept_def)
  have sub: "validate_subject (kept @ rs) = Inr () \<longleftrightarrow> list_all rule_ok rs \<and>
      \<not> ((\<exists>x\<in>set (kept @ rs). r_verdict x = Pass) \<and> (\<exists>x\<in>set (kept @ rs). r_authentication x \<noteq> None))"
    using kept_ok by (simp only: validate_subject_ok list_all_append list_ex_iff) blast
  note goal = Let_def held sub [symmetric] sr_replace_def kept_def [symmetric]
  consider "n = []" | e where "n \<noteq> []" "validate_subject (kept @ rs) = Inl e"
    | "n \<noteq> []" "validate_subject (kept @ rs) = Inr ()" by (cases "validate_subject (kept @ rs)") auto
  then show ?thesis
  proof cases
    case 3
    show ?thesis
    proof (cases "checked_add (sr_revision r) 1")
      case None
      with 3 show ?thesis using revision_step [of "sr_revision r"] unfolding goal by simp
    next
      case (Some v)
      with 3 show ?thesis using revision_step [of "sr_revision r"] sub unfolding goal by simp
    qed
  qed (use sub in \<open>simp_all add: goal\<close>)
qed

section \<open>Named ports refine the maximum of the surviving contributions\<close>

definition precedences :: "contribution set \<Rightarrow> np_key \<Rightarrow> u32 set" where
  "precedences cs k = co_precedence ` {c \<in> cs. co_key c = k}"

definition np_spec :: "contribution set \<Rightarrow> np_key \<rightharpoonup> u32" where
  "np_spec cs k = (if precedences cs k = {} then None else Some (Max (precedences cs k)))"

lemma precedences_insert:
  "precedences (insert c cs) k = (if co_key c = k then insert (co_precedence c) (precedences cs k) else precedences cs k)"
  by (auto simp: precedences_def)

lemma precedences_finite [simp]: "finite cs \<Longrightarrow> finite (precedences cs k)"
  by (simp add: precedences_def)

lemma np_spec_insert:
  assumes "finite cs"
  shows "np_spec (insert c cs) = (np_spec cs)(co_key c \<mapsto>
    (case np_spec cs (co_key c) of None \<Rightarrow> co_precedence c | Some v \<Rightarrow> max v (co_precedence c)))"
  using assms by (auto simp: np_spec_def fun_eq_iff precedences_insert max.commute)

lemma desired_loop_spec:
  assumes "bt_get m = np_spec cs" "finite cs" "bt_ok m"
  shows "bt_get (desired_loop m xs) = np_spec (cs \<union> set xs) \<and> bt_ok (desired_loop m xs)"
  using assms
proof (induction xs arbitrary: m cs)
  case (Cons c xs)
  let ?m = "bt_insert (co_key c) (case bt_get m (co_key c) of None \<Rightarrow> co_precedence c | Some v \<Rightarrow> max v (co_precedence c)) m"
  have "bt_get ?m = np_spec (insert c cs)" using Cons.prems by (simp add: np_spec_insert)
  from Cons.IH [OF this] Cons.prems show ?case by (simp add: bt_ok_insert)
qed simp

abbreviation np_held :: "named_port_state \<Rightarrow> contribution set" where
  "np_held st \<equiv> set (concat (bt_values (np_selectors st)))"

definition np_inv :: "named_port_state \<Rightarrow> bool" where
  "np_inv st \<longleftrightarrow> bt_ok (np_selectors st) \<and> bt_ok (np_desired st) \<and> bt_get (np_desired st) = np_spec (np_held st)"

lemma desired_spec: "bt_get (desired_loop [] xs) = np_spec (set xs)" "bt_ok (desired_loop [] xs)"
  using desired_loop_spec [of "[]" "{}" xs] by (auto simp: np_spec_def precedences_def fun_eq_iff)

lemma np_replace_inv: "np_inv st \<Longrightarrow> np_inv (snd (np_replace st selector cs))"
  by (auto simp: np_replace_def np_inv_def Let_def desired_spec intro: bt_ok_insert bt_ok_remove)

lemma np_reach_inv: "np_reach st \<Longrightarrow> np_inv st"
proof (induction rule: np_reach.induct)
  case np_start
  show ?case by (simp add: np_inv_def np_default_def bt_values_def np_spec_def precedences_def fun_eq_iff)
qed (rule np_replace_inv)

lemma map_of_filter_diff:
  assumes "distinct (map fst new)"
  shows "map_of (filter (\<lambda>(k, v). m k \<noteq> Some v) new) k = (if m k = map_of new k then None else map_of new k)"
  using assms
proof (induction new)
  case (Cons kv new)
  then have "map_of new (fst kv) = None" by (auto simp: map_of_eq_None_iff)
  with Cons show ?case by (cases kv) (auto split: if_splits)
qed simp

lemma map_diff_apply:
  assumes "bt_ok old" "bt_ok new"
  shows "(bt_get old ++ bt_get (bt_of_list (filter (\<lambda>(k, v). bt_get old k \<noteq> Some v) new)))
      |` (- set (filter (\<lambda>k. bt_get new k = None) (bt_keys old))) = bt_get new"
    "dom (bt_get (bt_of_list (filter (\<lambda>(k, v). bt_get old k \<noteq> Some v) new))) \<inter>
      set (filter (\<lambda>k. bt_get new k = None) (bt_keys old)) = {}"
proof -
  let ?f = "filter (\<lambda>(k, v). bt_get old k \<noteq> Some v) new"
  have d: "distinct (map fst ?f)" using assms(2) by (simp add: bt_ok_distinct distinct_map_filter)
  have up: "bt_get (bt_of_list ?f) k = (if bt_get old k = bt_get new k then None else bt_get new k)" for k
    unfolding bt_of_list_get [OF d] by (rule map_of_filter_diff [OF bt_ok_distinct [OF assms(2)]])
  have del: "k \<in> set (filter (\<lambda>k. bt_get new k = None) (bt_keys old)) \<longleftrightarrow> bt_get new k = None \<and> bt_get old k \<noteq> None" for k
    by (auto simp: bt_keys_def map_of_eq_None_iff)
  show "(bt_get old ++ bt_get (bt_of_list ?f))
      |` (- set (filter (\<lambda>k. bt_get new k = None) (bt_keys old))) = bt_get new"
    unfolding fun_eq_iff restrict_map_def Compl_iff del by (auto simp: map_add_def up split: option.splits)
  show "dom (bt_get (bt_of_list ?f)) \<inter> set (filter (\<lambda>k. bt_get new k = None) (bt_keys old)) = {}"
    unfolding set_eq_iff Int_iff del dom_def by (auto simp: up split: if_splits)
qed

text \<open>
  C30. The named-port state refines an abstract specification. After any successful replacement the
  selector map is the abstract update of the old one, the desired map holds for each key exactly the
  greatest precedence among the contributions of all surviving selectors, and the returned plan is
  complete: a kernel map that held the old desired entries holds exactly the new ones once the upserts
  and the deletes are applied. No key is both upserted and deleted, so removing one selector never
  deletes an entry another selector still owns.
\<close>

theorem named_ports_refinement:
  assumes "np_reach st" and "np_replace st selector cs = (Inr ch, st')"
  shows "bt_get (np_selectors st') = (bt_get (np_selectors st))(selector := if cs = [] then None else Some cs) \<and>
    bt_get (np_desired st') = np_spec (\<Union> (set ` ran (bt_get (np_selectors st')))) \<and>
    (bt_get (np_desired st) ++ bt_get (ch_upserts ch)) |` (- set (ch_deletes ch)) = bt_get (np_desired st') \<and>
    dom (bt_get (ch_upserts ch)) \<inter> set (ch_deletes ch) = {}"
proof -
  have inv: "np_inv st" "np_inv st'" using np_reach_inv [OF assms(1)] np_replace_inv [of st selector cs] assms(2) by auto
  then have held: "\<Union> (set ` ran (bt_get (np_selectors st'))) = np_held st'"
    by (simp add: np_inv_def ran_distinct [OF bt_ok_distinct] bt_values_def)
  have ok: "bt_ok (np_desired st)" "bt_ok (np_desired st')" using inv by (auto simp: np_inv_def)
  note plan = map_diff_apply [OF ok]
  have step: "bt_get (np_selectors st') = (bt_get (np_selectors st))(selector := if cs = [] then None else Some cs)"
    "ch_upserts ch = bt_of_list (filter (\<lambda>(k, v). bt_get (np_desired st) k \<noteq> Some v) (np_desired st'))"
    "ch_deletes ch = filter (\<lambda>k. bt_get (np_desired st') k = None) (bt_keys (np_desired st))"
    using assms(2) by (auto simp: np_replace_def Let_def split: if_splits)
  show ?thesis
  proof (intro conjI)
    show "bt_get (np_desired st') = np_spec (\<Union> (set ` ran (bt_get (np_selectors st'))))"
      using inv(2) unfolding held np_inv_def by blast
  qed (simp_all only: step(1), use plan in \<open>simp_all only: step(2,3)\<close>)
qed


theorem repository_invariant_witness:
  "validate_subject (sr_rules (snd (sr_replace sr_default ''a'' []))) = Inr () \<and>
   (sr_read_status (snd (sr_replace sr_default ''a'' [])) = 404 \<longleftrightarrow> sr_resources (snd (sr_replace sr_default ''a'' [])) = [])"
  using repository_invariant [OF sr_step [OF sr_start, of "''a''" "[]"]] by blast

theorem repository_replace_witness:
  "sr_replace sr_default [] [] = (Inl InvalidName, sr_default) \<and>
   (\<exists>v. fst (sr_replace sr_default ''a'' []) = Inr v)"
proof -
  have "\<exists>v. fst (sr_replace sr_default ''a'' []) = Inr v"
    using repository_replace [OF sr_start, of "''a''" "[]"] by (simp add: sr_default_def ran_def Let_def)
  moreover have "\<not> (\<exists>v. fst (sr_replace sr_default [] []) = Inr v)"
    using repository_replace [OF sr_start, of "[]" "[]"] by simp
  ultimately show ?thesis by (simp add: sr_replace_def)
qed

theorem named_ports_refinement_witness:
  "np_spec {\<lparr>co_key = (7, 6, 80), co_precedence = 3\<rparr>} =
     bt_get (np_desired (snd (np_replace np_default ''web'' [\<lparr>co_key = (7, 6, 80), co_precedence = 3\<rparr>])))"
proof -
  let ?c = "\<lparr>co_key = (7, 6, 80), co_precedence = 3\<rparr> :: contribution"
  let ?n = "np_replace np_default ''web'' [?c]"
  have n: "?n = (Inr \<lparr>ch_upserts = [((7, 6, 80), 3)], ch_deletes = []\<rparr>,
      \<lparr>np_selectors = [(''web'', [?c])], np_desired = [((7, 6, 80), 3)]\<rparr>)"
    by (simp add: np_replace_def np_default_def contribution_bad_def bt_values_def bt_keys_def bt_of_list_def Let_def)
  have "ran [''web'' \<mapsto> [?c]] = {[?c]}" by simp
  then show ?thesis using named_ports_refinement [OF np_start n] n by simp
qed

end
