(* ===== verification/IpText.thy ===== *)
theory IpText
  imports Prelude
begin

text \<open>
  The textual form of internet addresses as the standard library prints them: dotted decimal for IPv4;
  for IPv6 lower-case hexadecimal groups with the first longest run of at least two zero groups
  compressed, and the mixed notation for IPv4-mapped addresses.
\<close>

definition hex_digit :: "nat \<Rightarrow> char" where
  "hex_digit d = (if d < 10 then digit d else char_of (87 + d))"

fun print_hex :: "nat \<Rightarrow> string" where
  "print_hex n = (if n < 16 then [hex_digit n] else print_hex (n div 16) @ [hex_digit (n mod 16)])"

declare print_hex.simps [simp del]

fun join_with :: "string \<Rightarrow> string list \<Rightarrow> string" where
  "join_with sep [] = []"
| "join_with sep [s] = s"
| "join_with sep (s # t # ss) = s @ sep @ join_with sep (t # ss)"

definition v4_octets :: "u32 \<Rightarrow> u8 list" where
  "v4_octets a = map (\<lambda>i. ucast (drop_bit i a)) [24, 16, 8, 0]"

definition print_v4 :: "u32 \<Rightarrow> string" where
  "print_v4 a = join_with ''.'' (map (\<lambda>o8. print_nat (unat o8)) (v4_octets a))"

definition v6_segments :: "u128 \<Rightarrow> u16 list" where
  "v6_segments a = map (\<lambda>i. ucast (drop_bit i a)) [112, 96, 80, 64, 48, 32, 16, 0]"

text \<open>The first longest run of zero groups, as its start and its length.\<close>

fun zero_run :: "nat \<Rightarrow> nat \<times> nat \<Rightarrow> nat \<times> nat \<Rightarrow> u16 list \<Rightarrow> nat \<times> nat" where
  "zero_run i longest current [] = longest"
| "zero_run i longest current (s # ss) =
     (if s = 0 then
        let current = (if snd current = 0 then i else fst current, snd current + 1)
        in zero_run (i + 1) (if snd longest < snd current then current else longest) current ss
      else zero_run (i + 1) longest (0, 0) ss)"

definition print_segments :: "u16 list \<Rightarrow> string" where
  "print_segments ss = join_with '':'' (map (\<lambda>s. print_hex (unat s)) ss)"

definition v4_mapped :: "u128 \<Rightarrow> u32 option" where
  "v4_mapped a = (if drop_bit 32 a = 0xffff then Some (ucast a) else None)"

definition print_v6 :: "u128 \<Rightarrow> string" where
  "print_v6 a =
     (case v4_mapped a of
        Some v \<Rightarrow> ''::ffff:'' @ print_v4 v
      | None \<Rightarrow>
          let ss = v6_segments a; (start, len) = zero_run 0 (0, 0) (0, 0) ss
          in if 1 < len then print_segments (take start ss) @ ''::'' @ print_segments (drop (start + len) ss)
             else print_segments ss)"

fun print_ip :: "ip_addr \<Rightarrow> string" where
  "print_ip (V4 a) = print_v4 a"
| "print_ip (V6 a) = print_v6 a"

end
