(* ===== verification/MaglevTable.thy ===== *)
theory MaglevTable
  imports IpText Bytes "HOL-Library.Log_Nat" Complex_Main
begin

text \<open>
  The deterministic Maglev lookup table of \<open>flowsdn-lb/src/maglev.rs\<close>: the 128-bit MurmurHash3 of a
  backend's textual form gives it a permutation of the table, and the backends claim entries in turn.
  Machine words keep their width. The double-precision counters of weighted backends are rationals,
  rounded to 53 significant bits after every operation; they stay between 2^-17 and 2^50, away from
  overflow and from subnormal numbers. The two unbounded loops of \<open>table\<close> take fuel, one turn over the
  backends for the outer and one over the table for the inner, and return \<open>None\<close> without it.
\<close>

section \<open>Backends and hashing\<close>

record maglev_backend =
  mb_id :: u32
  mb_address :: ip_addr
  mb_port :: u16
  mb_protocol :: string
  mb_cluster :: u32
  mb_internal :: bool
  mb_weight :: u16

definition hash_string :: "maglev_backend \<Rightarrow> string" where
  "hash_string b =
     (let address = (case mb_address b of V4 v \<Rightarrow> print_v4 v | V6 v \<Rightarrow> ''['' @ print_v6 v @ '']'');
          address = (if mb_cluster b \<noteq> 0 then address @ ''@'' @ print_nat (unat (mb_cluster b)) else address)
      in ''['' @ address @ '':'' @ print_nat (unat (mb_port b)) @ ''/'' @ mb_protocol b @
         (if mb_internal b then ''/i'' else []) @ '',State:active]'')"

definition mix64 :: "u64 \<Rightarrow> u64" where
  "mix64 k =
     (let k = k XOR drop_bit 33 k;
          k = k * 0xff51afd7ed558ccd;
          k = k XOR drop_bit 33 k;
          k = k * 0xc4ceb9fe1a85ec53
      in k XOR drop_bit 33 k)"

definition murmur_c1 :: u64 where "murmur_c1 = 0x87c37b91114253d5"
definition murmur_c2 :: u64 where "murmur_c2 = 0x4cf5ad432745937f"

definition lane1 :: "u64 \<Rightarrow> u64" where
  "lane1 k = word_rotl 31 (k * murmur_c1) * murmur_c2"

definition lane2 :: "u64 \<Rightarrow> u64" where
  "lane2 k = word_rotl 33 (k * murmur_c2) * murmur_c1"

fun hash_chunks :: "u64 \<Rightarrow> u64 \<Rightarrow> u8 list \<Rightarrow> u64 \<times> u64 \<times> u8 list" where
  "hash_chunks h1 h2 bytes =
     (if length bytes < 16 then (h1, h2, bytes)
      else
        let k1 = from_le_bytes (take 8 bytes); k2 = from_le_bytes (take 8 (drop 8 bytes));
            h1 = h1 XOR lane1 k1;
            h1 = (word_rotl 27 h1 + h2) * 5 + 0x52dce729;
            h2 = h2 XOR lane2 k2;
            h2 = (word_rotl 31 h2 + h1) * 5 + 0x38495ab5
        in hash_chunks h1 h2 (drop 16 bytes))"

declare hash_chunks.simps [simp del]

fun hash_tail :: "nat \<Rightarrow> u64 \<Rightarrow> u64 \<Rightarrow> u8 list \<Rightarrow> u64 \<times> u64" where
  "hash_tail i k1 k2 [] = (k1, k2)"
| "hash_tail i k1 k2 (b # bs) =
     (if i < 8 then hash_tail (i + 1) (k1 OR push_bit (i mod 8 * 8) (ucast b)) k2 bs
      else hash_tail (i + 1) k1 (k2 OR push_bit (i mod 8 * 8) (ucast b)) bs)"

definition murmur_hash :: "u8 list \<Rightarrow> u32 \<Rightarrow> u64 \<times> u64" where
  "murmur_hash bytes seed =
     (let (h1, h2, rest) = hash_chunks (ucast seed) (ucast seed) bytes;
          (k1, k2) = hash_tail 0 0 0 rest;
          h2 = (if 8 < length rest then h2 XOR lane2 k2 else h2);
          h1 = (if rest \<noteq> [] then h1 XOR lane1 k1 else h1);
          h1 = h1 XOR of_nat (length bytes);
          h2 = h2 XOR of_nat (length bytes);
          h1 = h1 + h2;
          h2 = h2 + h1;
          h1 = mix64 h1;
          h2 = mix64 h2;
          h1 = h1 + h2;
          h2 = h2 + h1
      in (h1, h2))"

definition string_bytes :: "string \<Rightarrow> u8 list" where
  "string_bytes s = map of_char s"

section \<open>Permutations\<close>

definition table_sizes :: "nat list" where
  "table_sizes = [251, 509, 1021, 2039, 4093, 8191, 16381, 32749, 65521, 131071]"

definition permutation_slot :: "u64 \<Rightarrow> u64 \<Rightarrow> u64 \<Rightarrow> u64 \<Rightarrow> nat" where
  "permutation_slot offset skip n m = unat ((offset + n * skip) mod m)"

definition permutation :: "maglev_backend \<Rightarrow> nat \<Rightarrow> u32 \<Rightarrow> string + nat list" where
  "permutation backend msize seed =
     (if msize \<notin> set table_sizes then Inl ''invalid Maglev size''
      else
        let m = of_nat msize; (a, b) = murmur_hash (string_bytes (hash_string backend)) seed in
        if m = 0 then Inl ''size''
        else if saturating_sub m 1 = 0 then Inl ''size''
        else let offset = a mod m; skip = saturating_add (b mod saturating_sub m 1) 1
             in Inr (map (\<lambda>n. permutation_slot offset skip (of_nat n) m) [0..<msize]))"

section \<open>Double-precision counters\<close>

type_synonym f64 = rat

definition round_half_even :: "rat \<Rightarrow> int" where
  "round_half_even y =
     (let d = y - of_int \<lfloor>y\<rfloor> in
      if d < 1 / 2 then \<lfloor>y\<rfloor> else if 1 / 2 < d then \<lfloor>y\<rfloor> + 1 else if even \<lfloor>y\<rfloor> then \<lfloor>y\<rfloor> else \<lfloor>y\<rfloor> + 1)"

text \<open>The binary exponent of a positive number and its rounding to 53 significant bits.\<close>

definition f64_exponent :: "rat \<Rightarrow> int" where
  "f64_exponent x =
     (if 1 \<le> x then int (floorlog 2 (nat \<lfloor>x\<rfloor>)) - 1 else - int (floorlog 2 (nat (\<lceil>1 / x\<rceil> - 1))))"

definition two_powi :: "int \<Rightarrow> rat" where
  "two_powi e = (if 0 \<le> e then 2 ^ nat e else 1 / 2 ^ nat (- e))"

definition f64_round :: "rat \<Rightarrow> f64" where
  "f64_round x =
     (if x \<le> 0 then 0
      else let ulp = two_powi (f64_exponent x - 52) in of_int (round_half_even (x / ulp)) * ulp)"

definition f64_to_u64 :: "f64 \<Rightarrow> u64" where
  "f64_to_u64 x = of_nat (min (nat \<lfloor>x\<rfloor>) (2 ^ 64 - 1))"

section \<open>The table\<close>

record work =
  wk_id :: u32
  wk_weight :: u64
  wk_counter :: f64
  wk_offset :: u64
  wk_skip :: u64
  wk_next :: u64

type_synonym entries = "u32 option list"

text \<open>Claim the next free slot of one backend's permutation.\<close>

fun claim_slot :: "nat \<Rightarrow> u64 \<Rightarrow> work \<Rightarrow> entries \<Rightarrow> (string + work \<times> entries) option" where
  "claim_slot 0 m w es = None"
| "claim_slot (Suc fuel) m w es =
     (let slot = permutation_slot (wk_offset w) (wk_skip w) (wk_next w) m;
          w = w\<lparr>wk_next := wk_next w + 1\<rparr>
      in if length es \<le> slot then Some (Inl ''slot'')
         else case es ! slot of
           None \<Rightarrow> Some (Inr (w, es[slot := Some (wk_id w)]))
         | Some _ \<Rightarrow> claim_slot fuel m w es)"

text \<open>Find the backend whose turn it is for entry \<open>n\<close> and let it claim a slot.\<close>

fun take_turn :: "nat \<Rightarrow> bool \<Rightarrow> u64 \<Rightarrow> u64 \<Rightarrow> nat \<Rightarrow> nat \<Rightarrow> work list \<Rightarrow> entries \<Rightarrow> (string + work list \<times> entries) option" where
  "take_turn 0 weighted weights m n i ws es = None"
| "take_turn (Suc fuel) weighted weights m n i ws es =
     (if length ws \<le> i then Some (Inl ''backend index'')
      else
        let w = ws ! i in
        if weighted \<and> (of_nat n + 1) * wk_weight w < f64_to_u64 (wk_counter w)
        then take_turn fuel weighted weights m n ((i + 1) mod length ws) ws es
        else
          let w = (if weighted then w\<lparr>wk_counter := f64_round (wk_counter w + f64_round (of_nat (unat weights)))\<rparr> else w)
          in case claim_slot (unat m) m w es of
               None \<Rightarrow> None
             | Some (Inl e) \<Rightarrow> Some (Inl e)
             | Some (Inr (w, es)) \<Rightarrow> Some (Inr (ws[i := w], es)))"

fun fill_entries :: "bool \<Rightarrow> u64 \<Rightarrow> u64 \<Rightarrow> nat list \<Rightarrow> work list \<Rightarrow> entries \<Rightarrow> (string + work list \<times> entries) option" where
  "fill_entries weighted weights m [] ws es = Some (Inr (ws, es))"
| "fill_entries weighted weights m (n # ns) ws es =
     (case take_turn (length ws) weighted weights m n (n mod length ws) ws es of
        None \<Rightarrow> None
      | Some (Inl e) \<Rightarrow> Some (Inl e)
      | Some (Inr (ws, es)) \<Rightarrow> fill_entries weighted weights m ns ws es)"

fun check_backends :: "u32 btree_set \<Rightarrow> maglev_backend list \<Rightarrow> string + (string \<times> maglev_backend) list" where
  "check_backends ids [] = Inr []"
| "check_backends ids (b # bs) =
     (if mb_weight b = 0 \<or> mb_protocol b \<notin> {''TCP'', ''UDP'', ''SCTP''} \<or> mb_id b \<in> set ids
      then Inl ''invalid backend''
      else case check_backends (bs_insert (mb_id b) ids) bs of
        Inl e \<Rightarrow> Inl e
      | Inr rest \<Rightarrow> Inr ((hash_string b, b) # rest))"

fun adjacent_equal :: "(string \<times> maglev_backend) list \<Rightarrow> bool" where
  "adjacent_equal (p # q # ps) = (fst p = fst q \<or> adjacent_equal (q # ps))"
| "adjacent_equal _ = False"

definition make_work :: "u64 \<Rightarrow> u64 \<Rightarrow> u32 \<Rightarrow> string \<times> maglev_backend \<Rightarrow> work" where
  "make_work m count seed sb =
     (let (a, c) = murmur_hash (string_bytes (fst sb)) seed; b = snd sb in
      \<lparr>wk_id = mb_id b, wk_weight = ucast (mb_weight b),
       wk_counter = f64_round (of_nat (unat (mb_weight b)) / f64_round (of_nat (unat count))),
       wk_offset = a mod m, wk_skip = c mod (m - 1) + 1, wk_next = 0\<rparr>)"

definition maglev_table :: "maglev_backend list \<Rightarrow> nat \<Rightarrow> u32 \<Rightarrow> (string + u32 list) option" where
  "maglev_table backends msize seed =
     (if msize \<notin> set table_sizes \<or> 65535 < length backends then Some (Inl ''invalid Maglev size'')
      else if backends = [] then Some (Inr [])
      else case check_backends [] backends of
        Inl e \<Rightarrow> Some (Inl e)
      | Inr pairs \<Rightarrow>
          let ordered = sort_by (\<lambda>a b. fst a \<le> fst b) pairs in
          if adjacent_equal ordered then Some (Inl ''duplicate backend address'')
          else
            let count = of_nat (length ordered);
                weights = (\<Sum>p\<leftarrow>ordered. ucast (mb_weight (snd p)));
                weighted = 1 < weights div count;
                m = of_nat msize
            in case fill_entries weighted weights m [0..<msize] (map (make_work m count seed) ordered) (replicate msize None) of
                 None \<Rightarrow> None
               | Some (Inl e) \<Rightarrow> Some (Inl e)
               | Some (Inr (_, es)) \<Rightarrow>
                   if list_ex (\<lambda>e. e = None) es then Some (Inl ''unfilled table'')
                   else Some (Inr (map the es)))"

section \<open>Every permutation visits every slot\<close>

lemma no_small_divisor:
  assumes "list_all (\<lambda>d. p mod d \<noteq> 0) [2..<k]" "p < k * k" "d dvd p" "d \<noteq> 1" "d \<noteq> (p :: nat)" "0 < p"
  shows False
proof -
  have all: "\<And>d. 2 \<le> d \<Longrightarrow> d < k \<Longrightarrow> \<not> d dvd p" using assms(1) by (auto simp: list_all_iff dvd_eq_mod_eq_0)
  obtain e where e: "p = d * e" using assms(3) by (elim dvdE)
  have "d \<noteq> 0" "e \<noteq> 0" "e \<noteq> 1" using e assms(4-6) by auto
  then have ge: "2 \<le> d" "2 \<le> e" using assms(4) by auto
  have "d < k \<or> e < k"
    using e assms(2) by (metis mult_le_mono not_le)
  then show False using all ge e by (metis dvd_triv_left dvd_triv_right)
qed

definition trial_bound :: "nat \<Rightarrow> nat \<Rightarrow> bool" where
  "trial_bound k p \<longleftrightarrow> list_all (\<lambda>d. p mod d \<noteq> 0) [2..<k] \<and> p < k * k"

lemma sizes_checked:
  "trial_bound 363 131071" "trial_bound 256 65521" "trial_bound 182 32749" "trial_bound 128 16381"
  "trial_bound 91 8191" "trial_bound 64 4093" "trial_bound 46 2039" "trial_bound 32 1021"
  "trial_bound 23 509" "trial_bound 16 251"
  by (simp_all add: trial_bound_def upt_rec_numeral)

lemma size_trial:
  assumes "m \<in> set table_sizes"
  shows "\<exists>k. trial_bound k m"
proof -
  have "list_all (\<lambda>m. \<exists>k. trial_bound k m) table_sizes"
    unfolding table_sizes_def list.pred_inject using sizes_checked by (intro conjI) (blast | simp)+
  then show ?thesis using assms by (simp add: list_all_iff)
qed

lemma size_coprime:
  assumes "m \<in> set table_sizes" "0 < s" "s < m"
  shows "coprime s m"
proof (rule coprimeI)
  fix c assume c: "c dvd s" "c dvd m"
  then have "c < m" using assms by (meson dvd_imp_le le_less_trans)
  moreover obtain k where "trial_bound k m" using size_trial [OF assms(1)] ..
  ultimately show "is_unit c" using c no_small_divisor [of m k c] assms unfolding trial_bound_def by auto
qed

lemma slot_surj:
  assumes "m \<in> set table_sizes" "0 < s" "s < m" "t < (m :: nat)"
  shows "\<exists>j<m. (a + j * s) mod m = t"
proof -
  have cop: "coprime s m" using assms by (simp add: size_coprime)
  have "inj_on (\<lambda>j. (a + j * s) mod m) {..<m}"
  proof (rule linorder_inj_onI)
    fix i j assume ij: "i < j" "i \<in> {..<m}" "j \<in> {..<m}"
    show "(a + i * s) mod m \<noteq> (a + j * s) mod m"
    proof
      assume "(a + i * s) mod m = (a + j * s) mod m"
      then have "m dvd (a + j * s) - (a + i * s)" using ij by (intro mod_eq_dvd_iff_nat [THEN iffD1]) auto
      then have "m dvd (j - i) * s" by (simp add: diff_mult_distrib)
      then have "m dvd j - i" using cop by (simp add: coprime_commute coprime_dvd_mult_left_iff)
      then show False using ij by (auto dest: dvd_imp_le)
    qed
  qed auto
  moreover have "(\<lambda>j. (a + j * s) mod m) ` {..<m} \<subseteq> {..<m}" using assms(4) by auto
  ultimately have "(\<lambda>j. (a + j * s) mod m) ` {..<m} = {..<m}" by (intro endo_inj_surj finite_lessThan)
  with assms(4) have "t \<in> (\<lambda>j. (a + j * s) mod m) ` {..<m}" by (simp only: lessThan_iff)
  then show ?thesis by auto
qed

lemma size_bounds: "m \<in> set table_sizes \<Longrightarrow> 251 \<le> m \<and> m \<le> 131071"
  by (auto simp: table_sizes_def)

lemma size_unat: "m \<in> set table_sizes \<Longrightarrow> unat (of_nat m :: u64) = m"
  using size_bounds [of m] by (simp add: unat_of_nat)

definition work_slot :: "nat \<Rightarrow> work \<Rightarrow> nat \<Rightarrow> nat" where
  "work_slot m w j = (unat (wk_offset w) + j * unat (wk_skip w)) mod m"

lemma permutation_slot_nat:
  assumes "m \<in> set table_sizes" "unat (wk_offset w) < m" "unat (wk_skip w) < m" "unat n \<le> m"
  shows "permutation_slot (wk_offset w) (wk_skip w) n (of_nat m) = work_slot m w (unat n)"
proof -
  have b: "m \<le> 131071" using assms(1) by (simp add: size_bounds)
  have "unat n * unat (wk_skip w) \<le> 131071 * 131071" using assms b by (intro mult_le_mono) auto
  then have p: "unat (n * wk_skip w) = unat n * unat (wk_skip w)" by (subst unat_word_ariths) simp
  have "unat (wk_offset w + n * wk_skip w) = unat (wk_offset w) + unat n * unat (wk_skip w)"
    using \<open>unat n * unat (wk_skip w) \<le> _\<close> assms b unfolding p [symmetric] by (subst unat_word_ariths) simp
  then show ?thesis
    by (simp add: permutation_slot_def work_slot_def unat_mod_distrib size_unat [OF assms(1)])
qed

section \<open>Claiming a slot\<close>

definition work_ok :: "nat \<Rightarrow> work \<Rightarrow> entries \<Rightarrow> bool" where
  "work_ok m w es \<longleftrightarrow> unat (wk_offset w) < m \<and> 0 < unat (wk_skip w) \<and> unat (wk_skip w) < m \<and>
     unat (wk_next w) \<le> m \<and> (\<forall>j<unat (wk_next w). es ! work_slot m w j \<noteq> None)"

lemma claim_slot_spec:
  assumes "m \<in> set table_sizes" "length es = m" "work_ok m w es" "s < m" "es ! s = None"
    and "m \<le> fuel + unat (wk_next w)"
  shows "\<exists>t nx. t < m \<and> es ! t = None \<and> work_ok m (w\<lparr>wk_next := nx\<rparr>) (es[t := Some (wk_id w)]) \<and>
    claim_slot fuel (of_nat m) w es = Some (Inr (w\<lparr>wk_next := nx\<rparr>, es[t := Some (wk_id w)]))"
  using assms(3,6)
proof (induction fuel arbitrary: w)
  case 0
  then have ok: "work_ok m w es" "m \<le> unat (wk_next w)" by auto
  obtain j where "j < m" "work_slot m w j = s"
    using slot_surj [OF assms(1) _ _ assms(4)] ok unfolding work_ok_def work_slot_def by blast
  then show ?case using ok assms(5) unfolding work_ok_def by force
next
  case (Suc fuel)
  then have ok: "work_ok m w es" by simp
  then have w: "unat (wk_offset w) < m" "0 < unat (wk_skip w)" "unat (wk_skip w) < m" "unat (wk_next w) \<le> m"
    "\<And>j. j < unat (wk_next w) \<Longrightarrow> es ! work_slot m w j \<noteq> None" by (auto simp: work_ok_def)
  obtain j where j: "j < m" "work_slot m w j = s"
    using slot_surj [OF assms(1) _ _ assms(4)] w unfolding work_slot_def by blast
  then have lt: "unat (wk_next w) < m" using w(5) [of j] assms(5) by (metis not_less order.strict_trans2)
  define t where "t = work_slot m w (unat (wk_next w))"
  have t: "permutation_slot (wk_offset w) (wk_skip w) (wk_next w) (of_nat m) = t" "t < m"
    using permutation_slot_nat [OF assms(1) w(1,3,4)] w(1) unfolding t_def by (auto simp: work_slot_def)
  have nx: "unat (wk_next w + 1) = unat (wk_next w) + 1"
    using lt size_bounds [OF assms(1)] by (subst unat_word_ariths) simp
  let ?w = "w\<lparr>wk_next := wk_next w + 1\<rparr>"
  have slots: "work_slot m ?w = work_slot m w" by (simp add: work_slot_def fun_eq_iff)
  show ?case
  proof (cases "es ! t")
    case None
    have "work_ok m ?w (es[t := Some (wk_id w)])"
      using w lt t(2) assms(2) unfolding work_ok_def slots
      by (auto simp: nx less_Suc_eq t_def [symmetric] nth_list_update)
    then show ?thesis using t None assms(2)
      by (intro exI [of _ t] exI [of _ "wk_next w + 1"]) (simp add: Let_def)
  next
    case (Some x)
    have "work_ok m ?w es"
      using w lt Some unfolding work_ok_def slots by (auto simp: nx less_Suc_eq t_def [symmetric])
    moreover have "m \<le> fuel + unat (wk_next ?w)" using Suc.prems(2) nx by simp
    ultimately show ?thesis using Suc.IH [of ?w] t Some assms(2) by (simp add: Let_def)
  qed
qed

section \<open>Taking turns\<close>

definition accepts :: "bool \<Rightarrow> nat \<Rightarrow> work \<Rightarrow> bool" where
  "accepts weighted n w = (\<not> (weighted \<and> (of_nat n + 1) * wk_weight w < f64_to_u64 (wk_counter w)))"

definition charged :: "bool \<Rightarrow> u64 \<Rightarrow> work \<Rightarrow> work" where
  "charged weighted weights w =
     (if weighted then w\<lparr>wk_counter := f64_round (wk_counter w + f64_round (of_nat (unat weights)))\<rparr> else w)"

lemma work_ok_fill: "work_ok m w es \<Longrightarrow> length es = m \<Longrightarrow> work_ok m w (es[t := Some x])"
  unfolding work_ok_def by (auto simp: nth_list_update) (metis nth_list_update_eq nth_list_update_neq option.distinct(1) list_update_beyond not_le)

lemma work_ok_charged [simp]: "work_ok m (charged b ws w) es = work_ok m w es"
  by (simp add: charged_def work_ok_def work_slot_def)

lemma take_turn_spec:
  assumes size: "m \<in> set table_sizes" "length es = m" and ok: "\<forall>w\<in>set ws. work_ok m w es"
    and free: "s < m" "es ! s = None"
    and i: "i < length ws" and k: "k < fuel" "accepts weighted n (ws ! ((i + k) mod length ws))"
  shows "\<exists>j t nx. j < length ws \<and> (\<not> weighted \<longrightarrow> j = i) \<and> t < m \<and> es ! t = None \<and>
    (let w = (charged weighted weights (ws ! j))\<lparr>wk_next := nx\<rparr>; es' = es[t := Some (wk_id (ws ! j))]
     in work_ok m w es' \<and> take_turn fuel weighted weights (of_nat m) n i ws es = Some (Inr (ws[j := w], es')))"
  using i k
proof (induction fuel arbitrary: i k)
  case (Suc fuel)
  show ?case
  proof (cases "accepts weighted n (ws ! i)")
    case True
    let ?w = "charged weighted weights (ws ! i)"
    have "work_ok m ?w es" using ok Suc.prems(1) by simp
    from claim_slot_spec [OF size this free, of m] obtain t nx where
      c: "t < m" "es ! t = None" "work_ok m (?w\<lparr>wk_next := nx\<rparr>) (es[t := Some (wk_id ?w)])"
        "claim_slot m (of_nat m) ?w es = Some (Inr (?w\<lparr>wk_next := nx\<rparr>, es[t := Some (wk_id ?w)]))"
      by auto
    have id: "wk_id ?w = wk_id (ws ! i)" by (simp add: charged_def)
    have "take_turn (Suc fuel) weighted weights (of_nat m) n i ws es =
        Some (Inr (ws[i := ?w\<lparr>wk_next := nx\<rparr>], es[t := Some (wk_id ?w)]))"
      using c(4) Suc.prems(1) True
      by (auto simp add: Let_def accepts_def size_unat [OF size(1)] charged_def [symmetric])
    then show ?thesis using c(1-3) Suc.prems(1) unfolding id Let_def by blast
  next
    case False
    then have k0: "k \<noteq> 0" using Suc.prems by (metis add.right_neutral mod_less)
    let ?i = "(i + 1) mod length ws"
    have "?i < length ws" using Suc.prems(1) by (intro mod_less_divisor) auto
    moreover have "(?i + (k - 1)) mod length ws = (i + k) mod length ws"
      using k0 by (simp only: mod_add_left_eq) simp
    ultimately have "\<exists>j t nx. j < length ws \<and> (\<not> weighted \<longrightarrow> j = ?i) \<and> t < m \<and> es ! t = None \<and>
      (let w = (charged weighted weights (ws ! j))\<lparr>wk_next := nx\<rparr>; es' = es[t := Some (wk_id (ws ! j))]
       in work_ok m w es' \<and> take_turn fuel weighted weights (of_nat m) n ?i ws es = Some (Inr (ws[j := w], es')))"
      using Suc.prems k0 by (intro Suc.IH [of ?i "k - 1"]) auto
    moreover have "take_turn (Suc fuel) weighted weights (of_nat m) n i ws es =
        take_turn fuel weighted weights (of_nat m) n ?i ws es" and "weighted"
      using False Suc.prems(1) by (auto simp: accepts_def Let_def)
    ultimately show ?thesis by simp
  qed
qed simp

section \<open>Filling the table\<close>

definition turns :: "u32 list \<Rightarrow> nat \<Rightarrow> u32 list" where
  "turns ids n = map (\<lambda>k. ids ! (k mod length ids)) [0..<n]"

definition counters_ok :: "u64 \<Rightarrow> nat \<Rightarrow> work list \<Rightarrow> bool" where
  "counters_ok weights n ws \<longleftrightarrow> (\<forall>w\<in>set ws. 0 \<le> wk_counter w) \<and>
     (\<Sum>w\<leftarrow>ws. of_nat (unat (wk_weight w))) = (of_nat (unat weights) :: rat) \<and>
     (\<Sum>w\<leftarrow>ws. wk_counter w) \<le>
       (of_nat (unat weights) / of_nat (length ws) + of_nat n * of_nat (unat weights)) * (1 + 1 / 2 ^ 52) ^ (2 * n + 2)"

definition fill_inv :: "nat \<Rightarrow> bool \<Rightarrow> u64 \<Rightarrow> u32 list \<Rightarrow> nat \<Rightarrow> work list \<Rightarrow> entries \<Rightarrow> bool" where
  "fill_inv m weighted weights ids n ws es \<longleftrightarrow>
     length es = m \<and> map wk_id ws = ids \<and> (\<forall>w\<in>set ws. work_ok m w es) \<and>
     count_list es None + n = m \<and> (\<forall>x. Some x \<in> set es \<longrightarrow> x \<in> set ids) \<and>
     (\<not> weighted \<longrightarrow> (\<forall>x. count_list es (Some x) = count_list (turns ids n) x)) \<and>
     (weighted \<longrightarrow> counters_ok weights n ws)"

lemma count_list_update:
  "t < length xs \<Longrightarrow> xs ! t \<noteq> b \<Longrightarrow> count_list (xs[t := a]) b = count_list xs b + (if a = b then 1 else 0)"
  by (induction xs arbitrary: t) (auto split: nat.splits)

lemma count_list_remove:
  "t < length xs \<Longrightarrow> xs ! t = b \<Longrightarrow> a \<noteq> b \<Longrightarrow> count_list (xs[t := a]) b + 1 = count_list xs b"
  by (induction xs arbitrary: t) (auto split: nat.splits)

lemma turns_Suc: "turns ids (Suc n) = turns ids n @ [ids ! (n mod length ids)]"
  by (simp add: turns_def)

section \<open>Rounding\<close>

lemma round_half_even_le: "of_int (round_half_even y) \<le> y + 1"
proof -
  have "round_half_even y \<le> \<lfloor>y\<rfloor> + 1" by (simp add: round_half_even_def Let_def)
  then have "(of_int (round_half_even y) :: rat) \<le> of_int (\<lfloor>y\<rfloor> + 1)" by (simp only: of_int_le_iff)
  then show ?thesis using of_int_floor_le [of y] unfolding of_int_add of_int_1 by linarith
qed

lemma round_half_even_int: "round_half_even (of_int i) = i"
  by (simp add: round_half_even_def)

lemma round_half_even_nonneg: "0 \<le> y \<Longrightarrow> 0 \<le> round_half_even y"
  unfolding round_half_even_def Let_def by auto

lemma two_powi_pos: "0 < two_powi e"
  by (simp add: two_powi_def)

lemma two_powi_shift: "two_powi (e - 52) = two_powi e / 2 ^ 52"
proof -
  consider "52 \<le> e" | "0 \<le> e" "e < 52" | "e < 0" by linarith
  then show ?thesis
  proof cases
    case 1
    then have "nat e = nat (e - 52) + 52" by simp
    then show ?thesis using 1 by (simp add: two_powi_def power_add)
  next
    case 2
    then have "52 = nat e + nat (52 - e)" by simp
    then have "(2 :: rat) ^ 52 = 2 ^ nat e * 2 ^ nat (52 - e)" by (metis power_add)
    then have "(2 :: rat) ^ nat e / 2 ^ 52 = 1 / 2 ^ nat (52 - e)" by (simp add: field_simps)
    then show ?thesis using 2 by (simp add: two_powi_def)
  next
    case 3
    then have "nat (52 - e) = nat (- e) + 52" by simp
    then show ?thesis using 3 by (simp add: two_powi_def power_add)
  qed
qed

lemma f64_exponent_le:
  assumes "0 < x"
  shows "two_powi (f64_exponent x) \<le> x"
proof (cases "1 \<le> x")
  case True
  let ?n = "nat \<lfloor>x\<rfloor>"
  have n: "1 \<le> ?n" "of_nat ?n \<le> x" using True by (auto simp: le_nat_iff)
  have fl: "0 < floorlog 2 ?n" using True by (simp add: floorlog_def)
  have "2 ^ (floorlog 2 ?n - 1) \<le> ?n" using floorlog_bounds [of ?n 2] True by simp
  then have "(2 :: rat) ^ (floorlog 2 ?n - 1) \<le> of_nat ?n" by (metis of_nat_le_iff of_nat_power of_nat_numeral)
  from order_trans [OF this n(2)] show ?thesis
    using True fl by (simp add: f64_exponent_def two_powi_def nat_diff_distrib)
next
  case False
  let ?n = "nat (\<lceil>1 / x\<rceil> - 1)"
  have "1 < 1 / x" using False assms by (simp add: field_simps)
  then have c: "1 < \<lceil>1 / x\<rceil>" by (simp add: less_ceiling_iff)
  then have "?n < 2 ^ floorlog 2 ?n" using floorlog_bounds [of ?n 2] by simp
  then have "int ?n < int (2 ^ floorlog 2 ?n)" by (simp only: of_nat_less_iff)
  then have "\<lceil>1 / x\<rceil> \<le> int (2 ^ floorlog 2 ?n)" using c by linarith
  then have "1 / x \<le> of_int (int (2 ^ floorlog 2 ?n))" by (simp only: ceiling_le_iff)
  then have "1 / x \<le> 2 ^ floorlog 2 ?n" by simp
  then have "1 / 2 ^ floorlog 2 ?n \<le> x" using assms by (simp add: field_simps)
  moreover have "two_powi (- int k) = 1 / 2 ^ k" for k by (cases "k = 0") (simp_all add: two_powi_def)
  ultimately show ?thesis using False by (simp add: f64_exponent_def)
qed

lemma f64_round_le: "0 \<le> x \<Longrightarrow> f64_round x \<le> x * (1 + 1 / 2 ^ 52)"
proof (cases "x = 0")
  case False
  assume "0 \<le> x"
  with False have x: "0 < x" by simp
  let ?u = "two_powi (f64_exponent x - 52)"
  have u: "0 < ?u" "?u \<le> x / 2 ^ 52"
    using f64_exponent_le [OF x] by (auto simp: two_powi_pos two_powi_shift divide_right_mono)
  have "of_int (round_half_even (x / ?u)) * ?u \<le> (x / ?u + 1) * ?u"
    using u(1) by (intro mult_right_mono round_half_even_le) auto
  also have "\<dots> = x + ?u" using u(1) by (simp add: field_simps)
  also have "\<dots> \<le> x * (1 + 1 / 2 ^ 52)" using u(2) by (simp add: distrib_left)
  finally show ?thesis using x by (simp add: f64_round_def Let_def)
qed (simp add: f64_round_def)

lemma f64_round_nonneg: "0 \<le> f64_round x"
proof -
  have "0 \<le> of_int (round_half_even (x / two_powi e)) * two_powi e" if "0 < x" for e
    using that two_powi_pos [of e] by (intro mult_nonneg_nonneg) (simp_all add: round_half_even_nonneg)
  then show ?thesis by (auto simp: f64_round_def Let_def)
qed

lemma f64_round_exact:
  assumes "k < 2 ^ 53"
  shows "f64_round (of_nat k) = of_nat k"
proof (cases "k = 0")
  case False
  let ?e = "f64_exponent (of_nat k)"
  have "floorlog 2 k \<le> 53" using assms by (simp add: floorlog_le_iff)
  moreover have e: "?e = int (floorlog 2 k) - 1" using False by (simp add: f64_exponent_def)
  ultimately have "two_powi (?e - 52) = 1 / 2 ^ nat (52 - ?e)" by (auto simp: two_powi_def nat_eq_iff)
  then have q: "of_nat k / two_powi (?e - 52) = of_int (int k * 2 ^ nat (52 - ?e))" by simp
  have "f64_round (of_nat k) = of_nat k / two_powi (?e - 52) * two_powi (?e - 52)"
    using False by (simp only: f64_round_def Let_def q round_half_even_int) simp
  then show ?thesis using two_powi_pos [of "?e - 52"] by simp
qed (simp add: f64_round_def)

lemma f64_to_u64_le: "0 \<le> x \<Longrightarrow> of_nat (unat (f64_to_u64 x)) \<le> x"
proof -
  assume x: "0 \<le> x"
  have "unat (f64_to_u64 x) \<le> nat \<lfloor>x\<rfloor>" by (simp add: f64_to_u64_def unat_of_nat min_def)
  then have "(of_nat (unat (f64_to_u64 x)) :: rat) \<le> of_nat (nat \<lfloor>x\<rfloor>)" by (simp only: of_nat_le_iff)
  also have "\<dots> \<le> x" using x by simp
  finally show ?thesis .
qed

lemma power_near_one:
  fixes d :: rat
  assumes "0 \<le> d" "2 * of_nat k * d \<le> 1"
  shows "(1 + d) ^ k \<le> 1 + 2 * of_nat k * d"
  using assms(2)
proof (induction k)
  case (Suc k)
  then have le: "2 * of_nat k * d \<le> 1" using assms(1) by (simp add: algebra_simps)
  have "(1 + d) ^ Suc k \<le> (1 + 2 * of_nat k * d) * (1 + d)"
    using Suc.IH [OF le] assms(1) by (simp add: mult.commute mult_right_mono)
  also have "\<dots> = 1 + 2 * of_nat k * d + d + (2 * of_nat k * d) * d" by (simp add: algebra_simps)
  also have "\<dots> \<le> 1 + 2 * of_nat (Suc k) * d"
    using mult_right_mono [OF le assms(1)] by (simp add: algebra_simps)
  finally show ?case .
qed simp

section \<open>Some backend always accepts\<close>

definition weights_ok :: "work list \<Rightarrow> bool" where
  "weights_ok ws \<longleftrightarrow> ws \<noteq> [] \<and> length ws \<le> 65535 \<and> (\<forall>w\<in>set ws. unat (wk_weight w) \<le> 65535)"

lemma rejects_counter:
  assumes "\<not> accepts weighted n w" "n < 131071" "unat (wk_weight w) \<le> 65535" "0 \<le> wk_counter w"
  shows "of_nat ((n + 1) * unat (wk_weight w)) + 1 \<le> wk_counter w"
proof -
  have "(n + 1) * unat (wk_weight w) \<le> 131071 * 65535" using assms(2,3) by (intro mult_le_mono) auto
  moreover have n: "unat (of_nat n + 1 :: u64) = n + 1" using assms(2) by (simp add: unat_word_ariths unat_of_nat)
  ultimately have u: "unat ((of_nat n + 1) * wk_weight w) = (n + 1) * unat (wk_weight w)"
    unfolding unat_word_ariths(2) n by simp
  have "(of_nat n + 1) * wk_weight w < f64_to_u64 (wk_counter w)" using assms(1) by (simp add: accepts_def)
  then have "(n + 1) * unat (wk_weight w) + 1 \<le> unat (f64_to_u64 (wk_counter w))"
    unfolding word_less_nat_alt u by simp
  then have "(of_nat ((n + 1) * unat (wk_weight w) + 1) :: rat) \<le> of_nat (unat (f64_to_u64 (wk_counter w)))"
    by (simp only: of_nat_le_iff)
  with f64_to_u64_le [OF assms(4)] show ?thesis unfolding of_nat_add of_nat_1 by linarith
qed

lemma sum_list_bound: "(\<And>x. x \<in> set xs \<Longrightarrow> f x \<le> (c :: rat)) \<Longrightarrow> (\<Sum>x\<leftarrow>xs. f x) \<le> of_nat (length xs) * c"
  by (induction xs) (auto simp: algebra_simps add_mono)

lemma budget_exceeded:
  fixes W L S :: rat
  assumes L: "L = 1 \<or> 2 \<le> L" and W: "0 \<le> W" "W \<le> L * 65535" and n: "n < 131071"
    and S: "S \<le> (W / L + of_nat n * W) * (1 + 1 / 2 ^ 52) ^ (2 * n + 2)"
  shows "S < (of_nat n + 1) * W + L"
proof -
  let ?N = "of_nat n :: rat" and ?d = "1 / 2 ^ 52 :: rat"
  define b where "b = W / L + of_nat n * W"
  have nat: "?N + 1 \<le> 131071" using n by (metis Suc_leI add.commute of_nat_Suc of_nat_le_iff of_nat_numeral)
  have k: "2 * of_nat (2 * n + 2) * ?d \<le> 1 / 2 ^ 33" using nat by (simp add: field_simps)
  have "(1 + ?d) ^ (2 * n + 2) \<le> 1 + 2 * of_nat (2 * n + 2) * ?d"
    by (rule power_near_one) (simp, rule order_trans [OF k], simp)
  also have "\<dots> \<le> 1 + 1 / 2 ^ 33" using k by (rule add_left_mono)
  finally have p: "(1 + ?d) ^ (2 * n + 2) \<le> 1 + 1 / 2 ^ 33" .
  have L1: "1 \<le> L" using L by auto
  then have wl: "W / L \<le> W" using W(1) by (simp add: divide_le_eq mult_le_cancel_left1)
  have b: "0 \<le> b" "b \<le> 131071 * W"
    using L1 W(1) wl mult_right_mono [OF nat W(1)] by (auto simp: b_def algebra_simps intro: order_trans)
  have "S \<le> b * (1 + 1 / 2 ^ 33)" using S mult_left_mono [OF p b(1)] unfolding b_def by (rule order_trans)
  also have "\<dots> = b + b / 2 ^ 33" by (simp add: distrib_left)
  also have "\<dots> \<le> b + W / 65536" using b(2) W(1) by simp
  also have "\<dots> < (?N + 1) * W + L"
    using L
  proof
    assume "L = 1"
    then show ?thesis using W by (simp add: b_def algebra_simps)
  next
    assume "2 \<le> L"
    then have "W / L \<le> W / 2" using W(1) by (intro divide_left_mono) auto
    then show ?thesis using W(1) \<open>2 \<le> L\<close> by (simp add: b_def algebra_simps)
  qed
  finally show ?thesis .
qed

lemma some_accepts:
  assumes c: "counters_ok weights n ws" and w: "weights_ok ws" and n: "n < 131071"
  shows "\<exists>w\<in>set ws. accepts True n w"
proof (rule ccontr)
  assume no: "\<not> ?thesis"
  let ?W = "of_nat (unat weights) :: rat" and ?L = "of_nat (length ws) :: rat"
  have c0: "\<And>w. w \<in> set ws \<Longrightarrow> 0 \<le> wk_counter w"
    and sum: "(\<Sum>w\<leftarrow>ws. of_nat (unat (wk_weight w))) = ?W"
    and le: "(\<Sum>w\<leftarrow>ws. wk_counter w) \<le> (?W / ?L + of_nat n * ?W) * (1 + 1 / 2 ^ 52) ^ (2 * n + 2)"
    using c by (auto simp: counters_ok_def)
  have "of_nat ((n + 1) * unat (wk_weight w)) + 1 \<le> wk_counter w" if "w \<in> set ws" for w
    using rejects_counter [of True n w] that no w n c0 by (auto simp: weights_ok_def)
  then have "(\<Sum>w\<leftarrow>ws. of_nat ((n + 1) * unat (wk_weight w)) + 1) \<le> (\<Sum>w\<leftarrow>ws. wk_counter w)"
    by (intro sum_list_mono)
  also have "(\<Sum>w\<leftarrow>ws. of_nat ((n + 1) * unat (wk_weight w)) + 1) = (of_nat n + 1) * ?W + ?L"
    unfolding sum [symmetric] by (simp add: sum_list_addf sum_list_const_mult sum_list_triv algebra_simps)
  finally have "(of_nat n + 1) * ?W + ?L \<le> (\<Sum>w\<leftarrow>ws. wk_counter w)" .
  moreover have "?W \<le> ?L * 65535"
    unfolding sum [symmetric] using w unfolding weights_ok_def
    by (intro sum_list_bound) (metis of_nat_le_iff of_nat_numeral)
  moreover have "?L = 1 \<or> 2 \<le> ?L" using w by (cases ws rule: remdups_adj.cases) (auto simp: weights_ok_def)
  moreover have "0 \<le> ?W" by (rule of_nat_0_le_iff)
  ultimately show False using budget_exceeded [OF _ _ _ n le] by (meson not_le)
qed

lemma sum_list_replace: "j < length xs \<Longrightarrow> sum_list (xs[j := a]) = sum_list xs + a - (xs ! j :: rat)"
  by (induction xs arbitrary: j) (auto split: nat.splits)

lemma counters_step:
  assumes c: "counters_ok weights n ws" and j: "j < length ws" and W: "unat weights < 2 ^ 53"
  shows "counters_ok weights (Suc n) (ws[j := (charged True weights (ws ! j))\<lparr>wk_next := nx\<rparr>])"
proof -
  define q :: rat where "q = 1 + 1 / 2 ^ 52"
  let ?W = "of_nat (unat weights) :: rat" and ?L = "of_nat (length ws) :: rat"
  let ?v = "(charged True weights (ws ! j))\<lparr>wk_next := nx\<rparr>" and ?c = "wk_counter (ws ! j)"
  define S where "S = (\<Sum>w\<leftarrow>ws. wk_counter w)"
  define b where "b = ?W / ?L + of_nat n * ?W"
  have q: "1 \<le> q" by (simp add: q_def)
  have c0: "\<And>w. w \<in> set ws \<Longrightarrow> 0 \<le> wk_counter w" and le: "S \<le> b * q ^ (2 * n + 2)"
    using c by (auto simp: counters_ok_def S_def b_def q_def)
  have cj: "0 \<le> ?c" "?c \<le> S" using c0 j by (auto simp: S_def intro!: member_le_sum_list)
  have W0: "0 \<le> ?W" by (rule of_nat_0_le_iff)
  have "wk_counter ?v = f64_round (?c + ?W)" by (simp add: charged_def f64_round_exact [OF W] del: of_nat_unat)
  then have v: "wk_counter ?v \<le> (?c + ?W) * q" "0 \<le> wk_counter ?v"
    using f64_round_le [of "?c + ?W"] cj(1) W0 f64_round_nonneg unfolding q_def by (simp_all only: add_nonneg_nonneg)
  have map: "map f (ws[j := ?v]) = (map f ws)[j := f ?v]" for f :: "work \<Rightarrow> rat" by (rule map_update)
  have "(\<Sum>w\<leftarrow>ws[j := ?v]. wk_counter w) = S + wk_counter ?v - ?c"
    unfolding map S_def using j by (subst sum_list_replace) auto
  also have "\<dots> \<le> S - ?c + (?c + ?W) * q" using v(1) by simp
  also have "\<dots> \<le> (S + ?W) * q"
    using mult_left_mono [OF q, of "S - ?c"] cj(2) by (simp add: algebra_simps)
  also have "\<dots> \<le> (b * q ^ (2 * n + 2) + ?W) * q" using le q by (intro mult_right_mono add_right_mono) auto
  also have "\<dots> \<le> (b * q ^ (2 * n + 2) + ?W * q ^ (2 * n + 2)) * q"
    using q W0 one_le_power [OF q, of "2 * n + 2"] mult_left_mono [OF one_le_power [OF q, of "2 * n + 2"] W0]
    by (intro mult_right_mono add_left_mono) simp_all
  also have "\<dots> = (b + ?W) * q ^ (2 * n + 3)" by (simp add: algebra_simps power_add numeral_eq_Suc)
  also have "\<dots> \<le> (b + ?W) * q ^ (2 * Suc n + 2)"
    using q W0 by (intro mult_left_mono power_increasing) (auto simp: b_def simp del: of_nat_unat)
  finally have total: "(\<Sum>w\<leftarrow>ws[j := ?v]. wk_counter w) \<le> (b + ?W) * q ^ (2 * Suc n + 2)" .
  have weights: "(\<Sum>w\<leftarrow>ws[j := ?v]. of_nat (unat (wk_weight w))) = (\<Sum>w\<leftarrow>ws. of_nat (unat (wk_weight w)) :: rat)"
    unfolding map using j by (subst sum_list_replace) (auto simp: charged_def)
  show ?thesis
    using total weights c v(2) c0 j
    unfolding counters_ok_def b_def q_def
    by (auto simp: algebra_simps simp del: of_nat_unat dest!: set_update_subset_insert [THEN subsetD])
qed

section \<open>The filled table\<close>

lemma weights_ok_update:
  "weights_ok ws \<Longrightarrow> j < length ws \<Longrightarrow> weights_ok (ws[j := (charged b v (ws ! j))\<lparr>wk_next := nx\<rparr>])"
  by (auto simp: weights_ok_def charged_def dest!: set_update_subset_insert [THEN subsetD])

lemma fill_step:
  assumes inv: "fill_inv m weighted weights ids n ws es" and n: "n < m" and m: "m \<in> set table_sizes"
    and w: "weights_ok ws" and W: "unat weights < 2 ^ 53"
  shows "\<exists>ws' es'. take_turn (length ws) weighted weights (of_nat m) n (n mod length ws) ws es = Some (Inr (ws', es')) \<and>
    fill_inv m weighted weights ids (Suc n) ws' es' \<and> weights_ok ws'"
proof -
  let ?L = "length ws"
  have L: "0 < ?L" using w by (auto simp: weights_ok_def)
  have i: "n mod ?L < ?L" using L by simp
  have es: "length es = m" "\<forall>w\<in>set ws. work_ok m w es" "map wk_id ws = ids" "count_list es None + n = m"
    "\<forall>x. Some x \<in> set es \<longrightarrow> x \<in> set ids" using inv by (auto simp: fill_inv_def)
  have "None \<in> set es" using es(4) n by (metis add_0 count_list_0_iff less_irrefl)
  then obtain s where s: "s < m" "es ! s = None" using es(1) by (auto simp: in_set_conv_nth)
  have "\<exists>w\<in>set ws. accepts weighted n w"
  proof (cases weighted)
    case True
    then show ?thesis using some_accepts [of weights n ws] inv w n size_bounds [OF m] by (simp add: fill_inv_def)
  next
    case False
    then show ?thesis using L by (cases ws) (auto simp: accepts_def)
  qed
  then obtain a where a: "a < ?L" "accepts weighted n (ws ! a)" by (auto simp: in_set_conv_nth)
  obtain k where k: "k < ?L" "(n mod ?L + k) mod ?L = a" using ring_hits [OF i a(1)] by blast
  obtain j t nx where j: "j < ?L" "\<not> weighted \<longrightarrow> j = n mod ?L" "t < m" "es ! t = None"
      "work_ok m ((charged weighted weights (ws ! j))\<lparr>wk_next := nx\<rparr>) (es[t := Some (wk_id (ws ! j))])"
    and turn: "take_turn ?L weighted weights (of_nat m) n (n mod ?L) ws es =
      Some (Inr (ws[j := (charged weighted weights (ws ! j))\<lparr>wk_next := nx\<rparr>], es[t := Some (wk_id (ws ! j))]))"
    using take_turn_spec [OF m es(1,2) s i k(1), of weighted n weights] k(2) a(2) unfolding Let_def by blast
  let ?v = "(charged weighted weights (ws ! j))\<lparr>wk_next := nx\<rparr>" and ?es = "es[t := Some (wk_id (ws ! j))]"
  have ids: "map wk_id (ws[j := ?v]) = ids"
    using es(3) j(1) by (auto simp: map_update charged_def list_update_same_conv)
  have idj: "wk_id (ws ! j) = ids ! j" "?L = length ids" using es(3) j(1) by auto
  have "fill_inv m weighted weights ids (Suc n) (ws[j := ?v]) ?es"
    unfolding fill_inv_def
  proof (intro conjI)
    show "\<forall>w\<in>set (ws[j := ?v]). work_ok m w ?es"
      using es(1,2) j(5) work_ok_fill by (auto dest!: set_update_subset_insert [THEN subsetD])
    show "count_list ?es None + Suc n = m"
      using count_list_remove [of t es None "Some (wk_id (ws ! j))"] j(3,4) es(1,4) by simp
    show "\<forall>x. Some x \<in> set ?es \<longrightarrow> x \<in> set ids"
      using es(5) idj j(1) by (auto dest!: set_update_subset_insert [THEN subsetD])
    show "\<not> weighted \<longrightarrow> (\<forall>x. count_list ?es (Some x) = count_list (turns ids (Suc n)) x)"
    proof (intro impI allI)
      fix x assume nw: "\<not> weighted"
      have "count_list ?es (Some x) = count_list es (Some x) + (if ids ! j = x then 1 else 0)"
        unfolding idj(1) using count_list_update [of t es "Some x"] j(3,4) es(1) by simp
      also have "\<dots> = count_list (turns ids (Suc n)) x"
        using inv nw j(2) idj(2) by (simp add: fill_inv_def turns_Suc)
      finally show "count_list ?es (Some x) = count_list (turns ids (Suc n)) x" .
    qed
    show "weighted \<longrightarrow> counters_ok weights (Suc n) (ws[j := ?v])"
      using counters_step [OF _ j(1) W, of n nx] inv by (auto simp: fill_inv_def)
  qed (use es(1) ids in simp_all)
  then show ?thesis using turn weights_ok_update [OF w j(1)] by blast
qed

lemma fill_entries_spec:
  assumes "fill_inv m weighted weights ids n ws es" "n \<le> m" "m \<in> set table_sizes" "weights_ok ws" "unat weights < 2 ^ 53"
  shows "\<exists>ws' es'. fill_entries weighted weights (of_nat m) [n..<m] ws es = Some (Inr (ws', es')) \<and>
    fill_inv m weighted weights ids m ws' es'"
  using assms(2,1,4)
proof (induction n arbitrary: ws es rule: inc_induct)
  case (step n)
  from fill_step [OF step.prems(1) step.hyps(2) assms(3) step.prems(2) assms(5)] obtain ws' es' where
    t: "take_turn (length ws) weighted weights (of_nat m) n (n mod length ws) ws es = Some (Inr (ws', es'))"
      "fill_inv m weighted weights ids (Suc n) ws' es'" "weights_ok ws'" by blast
  have "[n..<m] = n # [Suc n..<m]" using step.hyps(2) by (simp add: upt_conv_Cons)
  then show ?case using t step.IH [OF t(2,3)] by simp
qed simp

lemma turns_split:
  assumes "r \<le> length ids"
  shows "turns ids (q * length ids + r) = concat (replicate q ids) @ take r ids"
proof -
  have tail: "map (\<lambda>k. ids ! (k mod length ids)) [a * length ids..<a * length ids + b] = take b ids" if "b \<le> length ids" for a b
    using that by (intro nth_equalityI) auto
  have "turns ids (q * length ids) = concat (replicate q ids)"
  proof (induction q)
    case (Suc q)
    have "turns ids (Suc q * length ids) = turns ids (q * length ids) @ map (\<lambda>k. ids ! (k mod length ids)) [q * length ids..<q * length ids + length ids]"
      unfolding turns_def map_append [symmetric] by (subst upt_add_eq_append [symmetric]) (simp_all add: add.commute)
    moreover have "replicate (Suc q) ids = replicate q ids @ [ids]" by (simp add: replicate_append_same)
    ultimately show ?case using Suc tail [of "length ids" q] by (simp del: replicate_Suc)
  qed (simp add: turns_def)
  moreover have "turns ids (q * length ids + r) = turns ids (q * length ids) @ map (\<lambda>k. ids ! (k mod length ids)) [q * length ids..<q * length ids + r]"
    unfolding turns_def map_append [symmetric] by (subst upt_add_eq_append [symmetric]) simp_all
  ultimately show ?thesis using tail [OF assms] by simp
qed

lemma turns_fair:
  assumes "distinct ids" "x \<in> set ids"
  shows "count_list (turns ids n) x \<in> {n div length ids, n div length ids + 1}"
proof -
  let ?L = "length ids"
  have one: "count_list ids x = 1" using assms by (induction ids) auto
  have "ids \<noteq> []" using assms(2) by auto
  then have "n mod ?L \<le> ?L" by (simp add: less_imp_le)
  from turns_split [OF this, of "n div ?L"]
  have "turns ids n = concat (replicate (n div ?L) ids) @ take (n mod ?L) ids" by simp
  moreover have "count_list (concat (replicate q ids)) x = q" for q by (induction q) (simp_all add: one)
  moreover have "count_list (take (n mod ?L) ids) x \<le> 1"
    using one by (metis append_take_drop_id count_list_append le_add1)
  ultimately show ?thesis by auto
qed

section \<open>Checking the backends\<close>

definition backend_ok :: "maglev_backend \<Rightarrow> bool" where
  "backend_ok b \<longleftrightarrow> mb_weight b \<noteq> 0 \<and> mb_protocol b \<in> {''TCP'', ''UDP'', ''SCTP''}"

lemma check_backends_spec:
  "check_backends ids bs =
     (if list_all backend_ok bs \<and> distinct (map mb_id bs) \<and> mb_id ` set bs \<inter> set ids = {}
      then Inr (map (\<lambda>b. (hash_string b, b)) bs) else Inl ''invalid backend'')"
  by (induction bs arbitrary: ids) (auto simp: backend_ok_def)

lemma insert_by_facts:
  "distinct (map f (insert_by le x ys)) = distinct (map f (x # ys))"
  "(\<Sum>y\<leftarrow>insert_by le x ys. g y) = g x + (\<Sum>y\<leftarrow>ys. g y :: 'b::comm_monoid_add)"
  "length (insert_by le x ys) = Suc (length ys)"
  by (induction ys) (auto simp: set_insert_by ac_simps)

lemma sort_by_simps [simp]: "sort_by le [] = []" "sort_by le (x # xs) = insert_by le x (sort_by le xs)"
  by (simp_all add: sort_by_def)

lemma sort_by_facts:
  "distinct (map f (sort_by le xs)) = distinct (map f xs)"
  "(\<Sum>y\<leftarrow>sort_by le xs. g y) = (\<Sum>y\<leftarrow>xs. g y :: 'b::comm_monoid_add)"
  "length (sort_by le xs) = length xs"
  by (induction xs) (simp_all add: insert_by_facts)

lemma adjacent_equal_sorted: "sorted (map fst ps) \<Longrightarrow> adjacent_equal ps \<longleftrightarrow> \<not> distinct (map fst ps)"
proof (induction ps rule: adjacent_equal.induct)
  case (1 p q ps)
  then have pq: "fst p \<le> fst q" "sorted (map fst (q # ps))" and ge: "\<forall>x\<in>set (map fst (q # ps)). fst q \<le> x" by auto
  have "fst p \<in> set (map fst (q # ps)) \<longleftrightarrow> fst p = fst q"
  proof
    assume "fst p \<in> set (map fst (q # ps))"
    with ge have "fst q \<le> fst p" by blast
    with pq(1) show "fst p = fst q" by (rule order_antisym)
  qed simp
  then show ?case using 1(1) [OF pq(2)] unfolding adjacent_equal.simps list.map(2) [of fst p] distinct.simps(2) by blast
qed simp_all

lemma ordered_sorted: "sorted (map fst (sort_by (\<lambda>a b. fst a \<le> fst b) (ps :: (string \<times> 'a) list)))"
proof -
  have "total_preorder_on (\<lambda>a b. fst a \<le> fst b) (set ps)" by (auto simp: total_preorder_on_def)
  from sorted_sort_by [OF this] show ?thesis by (simp add: sorted_map)
qed

lemma unat_weights:
  fixes ps :: "('a \<times> maglev_backend) list"
  assumes "length ps \<le> 65535"
  shows "unat (\<Sum>p\<leftarrow>ps. ucast (mb_weight (snd p)) :: u64) = (\<Sum>p\<leftarrow>ps. unat (mb_weight (snd p)))"
    "(\<Sum>p\<leftarrow>ps. unat (mb_weight (snd p))) \<le> length ps * 65535"
proof -
  have le: "(\<Sum>p\<leftarrow>ps. unat (mb_weight (snd p))) \<le> length ps * 65535" for ps :: "('a \<times> maglev_backend) list"
  proof (induction ps)
    case (Cons p ps)
    have "unat (mb_weight (snd p)) \<le> 65535" using unsigned_less [where 'a = nat, of "mb_weight (snd p)"] by simp
    with Cons show ?case by simp
  qed simp
  then show "(\<Sum>p\<leftarrow>ps. unat (mb_weight (snd p))) \<le> length ps * 65535" .
  show "unat (\<Sum>p\<leftarrow>ps. ucast (mb_weight (snd p)) :: u64) = (\<Sum>p\<leftarrow>ps. unat (mb_weight (snd p)))"
    using assms
  proof (induction ps)
    case (Cons p ps)
    have "(\<Sum>q\<leftarrow>p # ps. unat (mb_weight (snd q))) \<le> 65535 * 65535"
      using le [of "p # ps"] Cons.prems by (elim order_trans) (rule mult_le_mono1)
    then show ?case using Cons by (simp add: unat_word_ariths)
  qed simp
qed

section \<open>The first turn\<close>

lemma make_work_ok:
  assumes "m \<in> set table_sizes"
  shows "work_ok m (make_work (of_nat m) count seed sb) (replicate m None)"
proof -
  obtain a c where h: "murmur_hash (string_bytes (fst sb)) seed = (a, c)" by fastforce
  have m: "251 \<le> m" "unat (of_nat m :: u64) = m" using size_bounds [OF assms] size_unat [OF assms] by auto
  then have m1: "unat (of_nat m - 1 :: u64) = m - 1" by (subst unat_minus_one) auto
  have a: "unat (a mod of_nat m) < m" using m by (simp add: unat_mod_distrib)
  have c: "unat (c mod (of_nat m - 1)) < m - 1" using m unfolding unat_mod_distrib m1 by simp
  have "unat (c mod (of_nat m - 1)) + 1 < 2 ^ 64"
    using c size_bounds [OF assms, THEN conjunct2] by simp
  then have "unat (c mod (of_nat m - 1) + 1) = unat (c mod (of_nat m - 1)) + 1"
    by (subst unat_add_no_wrap) simp_all
  with a c show ?thesis by (simp add: work_ok_def make_work_def h Let_def)
qed

lemma make_work_counters:
  assumes "weights = (\<Sum>p\<leftarrow>ps. ucast (mb_weight (snd p)))" "length ps \<le> 65535" "ps \<noteq> []"
  shows "counters_ok weights 0 (map (make_work m (of_nat (length ps)) seed) ps)"
    "weights_ok (map (make_work m (of_nat (length ps)) seed) ps)"
proof -
  let ?L = "of_nat (length ps) :: rat" and ?w = "\<lambda>p. of_nat (unat (mb_weight (snd p))) :: rat"
  have w: "wk_weight (make_work m c seed p) = ucast (mb_weight (snd p))" for c p
    by (simp add: make_work_def Let_def split_beta)
  have cnt: "wk_counter (make_work m (of_nat (length ps)) seed p) = f64_round (?w p / ?L)" for p
    using assms(2) by (simp add: make_work_def Let_def split_beta unat_of_nat f64_round_exact del: of_nat_unat)
  have c0: "0 \<le> ?w p / ?L" for p by (intro divide_nonneg_nonneg of_nat_0_le_iff)
  have sum: "(\<Sum>p\<leftarrow>ps. ?w p) = of_nat (unat weights)"
    unfolding assms(1) unat_weights(1) [OF assms(2)] by (induction ps) simp_all
  have "(\<Sum>p\<leftarrow>ps. f64_round (?w p / ?L)) \<le> (\<Sum>p\<leftarrow>ps. ?w p / ?L * (1 + 1 / 2 ^ 52))"
    by (intro sum_list_mono f64_round_le c0)
  also have "\<dots> = (\<Sum>p\<leftarrow>ps. ?w p) / ?L * (1 + 1 / 2 ^ 52)"
    by (simp only: divide_inverse mult.assoc sum_list_mult_const)
  also have "\<dots> \<le> (\<Sum>p\<leftarrow>ps. ?w p) / ?L * (1 + 1 / 2 ^ 52) ^ 2"
    unfolding sum by (intro mult_left_mono divide_nonneg_nonneg of_nat_0_le_iff) (simp add: power2_eq_square)
  finally show "counters_ok weights 0 (map (make_work m (of_nat (length ps)) seed) ps)"
    using sum unfolding counters_ok_def by (simp add: o_def w cnt f64_round_nonneg power2_eq_square del: of_nat_unat)
  have "unat x \<le> 65535" for x :: u16 using unsigned_less [where 'a = nat, of x] by simp
  then show "weights_ok (map (make_work m (of_nat (length ps)) seed) ps)"
    using assms(2,3) by (auto simp: weights_ok_def w)
qed

lemma table_filled:
  assumes ne: "backends \<noteq> []" and ok: "list_all backend_ok backends" "distinct (map mb_id backends)"
    and sizes: "msize \<in> set table_sizes" "length backends \<le> 65535"
  shows "maglev_table backends msize seed = Some (Inl ''duplicate backend address'') \<and> \<not> distinct (map hash_string backends) \<or>
    (\<exists>t. maglev_table backends msize seed = Some (Inr t) \<and> distinct (map hash_string backends) \<and>
       length t = msize \<and> set t \<subseteq> mb_id ` set backends \<and>
       ((\<Sum>b\<leftarrow>backends. unat (mb_weight b)) < 2 * length backends \<longrightarrow>
         (\<forall>b\<in>set backends. count_list t (mb_id b) \<in> {msize div length backends, msize div length backends + 1})))"
proof (cases "distinct (map hash_string backends)")
  case False
  then show ?thesis
    using ne ok sizes adjacent_equal_sorted [OF ordered_sorted]
    by (simp add: maglev_table_def check_backends_spec sort_by_facts o_def Let_def)
next
  case True
  define ps where "ps = sort_by (\<lambda>a b. fst a \<le> fst b) (map (\<lambda>b. (hash_string b, b)) backends)"
  have facts: "length ps = length backends" "set ps = (\<lambda>b. (hash_string b, b)) ` set backends"
    "distinct (map (\<lambda>p. mb_id (snd p)) ps)" "distinct (map fst ps)"
    "(\<Sum>p\<leftarrow>ps. unat (mb_weight (snd p))) = (\<Sum>b\<leftarrow>backends. unat (mb_weight b))"
    using ok(2) True by (simp_all add: ps_def sort_by_facts o_def)
  define W :: u64 where "W = (\<Sum>p\<leftarrow>ps. ucast (mb_weight (snd p)))"
  define weighted where "weighted = (1 < W div of_nat (length ps))"
  let ?ws = "map (make_work (of_nat msize) (of_nat (length ps)) seed) ps"
  let ?ids = "map (\<lambda>p. mb_id (snd p)) ps" and ?es = "replicate msize None"
  have ps: "ps \<noteq> []" "length ps \<le> 65535" using facts(1) ne sizes by auto
  note unat_W = unat_weights [OF ps(2), folded W_def]
  note init = make_work_counters [OF W_def ps(2,1), of "of_nat msize" seed]
  have ids: "map wk_id ?ws = ?ids" by (simp add: make_work_def Let_def split_beta)
  have "fill_inv msize weighted W ?ids 0 ?ws ?es"
    unfolding fill_inv_def ids using init(1) make_work_ok [OF sizes(1)]
    by (simp add: turns_def count_list_eq_length_filter)
  moreover have "unat W < 2 ^ 53" using unat_W ps(2) by simp
  ultimately obtain ws' es' where fill: "fill_entries weighted W (of_nat msize) [0..<msize] ?ws ?es = Some (Inr (ws', es'))"
    "fill_inv msize weighted W ?ids msize ws' es'"
    using fill_entries_spec [OF _ _ sizes(1) init(2)] by blast
  then have es: "length es' = msize" "None \<notin> set es'" "\<forall>x. Some x \<in> set es' \<longrightarrow> x \<in> set ?ids"
    by (auto simp: fill_inv_def count_list_0_iff)
  have "\<not> adjacent_equal ps" using adjacent_equal_sorted [OF ordered_sorted] facts(4) unfolding ps_def by blast
  then have run: "maglev_table backends msize seed = Some (Inr (map the es'))"
    using ne ok sizes fill(1) es(2)
    by (simp add: maglev_table_def check_backends_spec Let_def ps_def [symmetric] W_def [symmetric]
        weighted_def [symmetric] list_ex_iff not_less)
  have count: "count_list (map the es') x = count_list es' (Some x)" for x
    using es(2) by (induction es') auto
  have idset: "set ?ids = mb_id ` set backends" unfolding set_map facts(2) image_image by simp
  have sub: "set (map the es') \<subseteq> mb_id ` set backends"
  proof
    fix x assume "x \<in> set (map the es')"
    then obtain e where "e \<in> set es'" "x = the e" by auto
    then have "Some x \<in> set es'" using es(2) by (metis option.collapse)
    then show "x \<in> mb_id ` set backends" using es(3) unfolding idset by blast
  qed
  have nw: "\<not> weighted" if "(\<Sum>b\<leftarrow>backends. unat (mb_weight b)) < 2 * length backends"
  proof -
    have "unat (W div of_nat (length ps)) = unat W div length ps" using ps(2) by (simp add: unat_div_distrib unat_of_nat)
    also have "\<dots> < 2" using that facts(1,5) unat_W(1) by (intro div_less_iff_less_mult [THEN iffD2]) (auto simp: ne)
    finally show ?thesis by (simp add: weighted_def word_less_nat_alt)
  qed
  have "\<forall>b\<in>set backends. count_list (map the es') (mb_id b) \<in> {msize div length backends, msize div length backends + 1}"
    if "(\<Sum>b\<leftarrow>backends. unat (mb_weight b)) < 2 * length backends"
  proof
    fix b assume "b \<in> set backends"
    then have "mb_id b \<in> set ?ids" unfolding idset by blast
    from turns_fair [OF facts(3) this, of msize] nw [OF that] fill(2)
    show "count_list (map the es') (mb_id b) \<in> {msize div length backends, msize div length backends + 1}"
      unfolding count fill_inv_def length_map facts(1) by simp
  qed
  with run sub es(1) True show ?thesis by simp
qed

lemma result_cases:
  "m = Some (Inl e) \<and> \<not> d \<or> (\<exists>t. m = Some (Inr t) \<and> d \<and> P t) \<Longrightarrow>
    \<exists>r. m = Some r \<and> ((\<exists>t. r = Inr t) \<longleftrightarrow> d) \<and> (\<forall>t. r = Inr t \<longrightarrow> P t)"
  by auto

lemma maglev_table_facts:
  "\<exists>r. maglev_table backends msize seed = Some r \<and>
    ((\<exists>t. r = Inr t) \<longleftrightarrow> msize \<in> set table_sizes \<and> length backends \<le> 65535 \<and> list_all backend_ok backends \<and>
       distinct (map mb_id backends) \<and> distinct (map hash_string backends)) \<and>
    (\<forall>t. r = Inr t \<and> backends \<noteq> [] \<longrightarrow>
       length t = msize \<and> set t \<subseteq> mb_id ` set backends \<and>
       ((\<Sum>b\<leftarrow>backends. unat (mb_weight b)) < 2 * length backends \<longrightarrow>
         (\<forall>b\<in>set backends. count_list t (mb_id b) \<in> {msize div length backends, msize div length backends + 1})))"
proof -
  let ?sizes = "msize \<in> set table_sizes \<and> length backends \<le> 65535"
  consider "\<not> ?sizes" | "?sizes" "backends = []"
    | "?sizes" "backends \<noteq> []" "\<not> (list_all backend_ok backends \<and> distinct (map mb_id backends))"
    | "?sizes" "backends \<noteq> []" "list_all backend_ok backends" "distinct (map mb_id backends)" by blast
  then show ?thesis
  proof cases
    case 4
    then have "msize \<in> set table_sizes" "length backends \<le> 65535" by auto
    from result_cases [OF table_filled [OF 4(2-4) this]] show ?thesis
      by (simp only: 4 \<open>msize \<in> set table_sizes\<close> \<open>length backends \<le> 65535\<close> simp_thms)
  next
    case 1
    then have "maglev_table backends msize seed = Some (Inl ''invalid Maglev size'')" by (auto simp: maglev_table_def)
    then show ?thesis using 1 by auto
  next
    case 2
    then have "maglev_table backends msize seed = Some (Inr [])" by (auto simp: maglev_table_def)
    then show ?thesis using 2 by auto
  next
    case 3
    then have "maglev_table backends msize seed = Some (Inl ''invalid backend'')"
      by (auto simp: maglev_table_def check_backends_spec)
    then show ?thesis using 3 by auto
  qed
qed


text \<open>
  C7. The table is total and fair. Building it always ends: the search for the backend whose turn it is
  and the search for a free slot of its permutation both finish, for weighted backends in spite of the
  rounding of the counters. It succeeds exactly for a supported size, at most 65535 backends with
  nonzero weights, known protocols, distinct identifiers and distinct textual forms. A successful
  nonempty table has exactly the requested size and names only the given backends, and when the average
  weight is below two every backend owns either the floor of an equal share of the entries or one more.
\<close>

theorem maglev_table_spec:
  "\<exists>r. maglev_table backends msize seed = Some r \<and>
    ((\<exists>t. r = Inr t) \<longleftrightarrow> msize \<in> set table_sizes \<and> length backends \<le> 65535 \<and> list_all backend_ok backends \<and>
       distinct (map mb_id backends) \<and> distinct (map hash_string backends)) \<and>
    (\<forall>t. r = Inr t \<and> backends \<noteq> [] \<longrightarrow>
       length t = msize \<and> set t \<subseteq> mb_id ` set backends \<and>
       ((\<Sum>b\<leftarrow>backends. unat (mb_weight b)) < 2 * length backends \<longrightarrow>
         (\<forall>b\<in>set backends. count_list t (mb_id b) \<in> {msize div length backends, msize div length backends + 1})))"
  by (rule maglev_table_facts)

theorem maglev_table_spec_witness:
  "\<exists>t. maglev_table [\<lparr>mb_id = 7, mb_address = V4 0x0A000001, mb_port = 80, mb_protocol = ''TCP'', mb_cluster = 0,
       mb_internal = False, mb_weight = 1\<rparr>] 251 0 = Some (Inr t) \<and> length t = 251 \<and> count_list t 7 \<in> {251, 252}"
proof -
  let ?b = "\<lparr>mb_id = 7, mb_address = V4 0x0A000001, mb_port = 80, mb_protocol = ''TCP'', mb_cluster = 0,
       mb_internal = False, mb_weight = 1\<rparr> :: maglev_backend"
  have ok: "251 \<in> set table_sizes" "list_all backend_ok [?b]" by (simp_all add: table_sizes_def backend_ok_def)
  from maglev_table_spec [of "[?b]" 251 0] obtain r where r: "maglev_table [?b] 251 0 = Some r"
    "(\<exists>t. r = Inr t) \<longleftrightarrow> 251 \<in> set table_sizes \<and> length [?b] \<le> 65535 \<and> list_all backend_ok [?b] \<and>
       distinct (map mb_id [?b]) \<and> distinct (map hash_string [?b])"
    "\<forall>t. r = Inr t \<and> [?b] \<noteq> [] \<longrightarrow> length t = 251 \<and> set t \<subseteq> mb_id ` set [?b] \<and>
       ((\<Sum>b\<leftarrow>[?b]. unat (mb_weight b)) < 2 * length [?b] \<longrightarrow>
         (\<forall>b\<in>set [?b]. count_list t (mb_id b) \<in> {251 div length [?b], 251 div length [?b] + 1}))" by blast
  obtain t where t: "r = Inr t" using r(2) ok by auto
  then show ?thesis using r(1,3) by (intro exI [of _ t]) simp
qed

end
