(* ===== verification/FlowHash.thy ===== *)
theory FlowHash
  imports Bytes
begin

text \<open>
  The flow hash that the datapath and the agent share, \<open>flowsdn-bpf-abi/src/maglev.rs\<close>: Linux's
  \<open>jhash_3words\<close> over the client address, the ports and the protocol, and the table entry it selects.
\<close>

definition TABLE_SIZE :: u32 where "TABLE_SIZE = 16381"
definition TABLE_LEN :: nat where "TABLE_LEN = 16381"
definition SEED_MURMUR :: u32 where "SEED_MURMUR = 0x24b7ef82"
definition SEED_V4 :: u32 where "SEED_V4 = 0x71dcda46"
definition SEED_V6 :: u32 where "SEED_V6 = 0x92505688"
definition ALGORITHM_MAGLEV :: u8 where "ALGORITHM_MAGLEV = 2"
definition JHASH_INITVAL :: u32 where "JHASH_INITVAL = 0xdeadbeef"

definition jhash_mix :: "u32 \<Rightarrow> u32 \<Rightarrow> u32 \<Rightarrow> u32 \<times> u32 \<times> u32" where
  "jhash_mix a b c =
     (let a = a - c; a = a XOR word_rotl 4 c; c = c + b;
          b = b - a; b = b XOR word_rotl 6 a; a = a + c;
          c = c - b; c = c XOR word_rotl 8 b; b = b + a;
          a = a - c; a = a XOR word_rotl 16 c; c = c + b;
          b = b - a; b = b XOR word_rotl 19 a; a = a + c;
          c = c - b; c = c XOR word_rotl 4 b; b = b + a
      in (a, b, c))"

definition jhash_finish :: "u32 \<Rightarrow> u32 \<Rightarrow> u32 \<Rightarrow> u32" where
  "jhash_finish a b c =
     (let c = c XOR b; c = c - word_rotl 14 b;
          a = a XOR c; a = a - word_rotl 11 c;
          b = b XOR a; b = b - word_rotl 25 a;
          c = c XOR b; c = c - word_rotl 16 b;
          a = a XOR c; a = a - word_rotl 4 c;
          b = b XOR a; b = b - word_rotl 14 a;
          c = c XOR b
      in c - word_rotl 24 b)"

definition jhash_3words :: "u32 \<Rightarrow> u32 \<Rightarrow> u32 \<Rightarrow> u32 \<Rightarrow> u32" where
  "jhash_3words a b c seed =
     (let init = seed + JHASH_INITVAL + 12 in jhash_finish (a + init) (b + init) (c + init))"

definition hash_ports :: "u16 \<Rightarrow> u16 \<Rightarrow> u32" where
  "hash_ports client_port front_port = push_bit 16 (ucast front_port) OR ucast client_port"

definition flow_hash4 :: "u8 list \<Rightarrow> u16 \<Rightarrow> u16 \<Rightarrow> u8 \<Rightarrow> u32" where
  "flow_hash4 client client_port front_port proto =
     jhash_3words (from_be_bytes client) (hash_ports client_port front_port) (ucast proto) SEED_V4"

definition flow_hash6 :: "u8 list \<Rightarrow> u16 \<Rightarrow> u16 \<Rightarrow> u8 \<Rightarrow> u32" where
  "flow_hash6 client client_port front_port proto =
     (let (a, b, c) = jhash_mix (from_be_bytes (take 4 client)) (from_be_bytes (take 4 (drop 4 client)))
                        (from_be_bytes (take 4 (drop 8 client)));
          (a, b, c) = jhash_mix (a + from_be_bytes (take 4 (drop 12 client)))
                        (b + hash_ports client_port front_port) (c + ucast proto)
      in jhash_finish (a + SEED_V6) b c)"

text \<open>\<open>checked_rem\<close> fails only for a zero divisor.\<close>

definition hash_entry :: "u32 \<Rightarrow> u32" where
  "hash_entry hash = (if TABLE_SIZE = 0 then 0 else hash mod TABLE_SIZE)"

lemma hash_entry_bound: "unat (hash_entry h) < TABLE_LEN"
  by (simp add: hash_entry_def TABLE_SIZE_def TABLE_LEN_def unat_mod_distrib)

end
