(* ===== verification/SocketLb.thy ===== *)
theory SocketLb
  imports MaglevTable FlowHash AbiLb AbiAffinity LabelSelector
begin

text \<open>
  Planning of the socket load-balancer maps, \<open>flowsdn-lb/src/socket.rs\<close>: the desired services become map
  contents that keep the identifiers of the current maps, and the difference of the two becomes an
  ordered list of map writes. Map keys and values are byte arrays; their array types fix the lengths, so
  the decoders of the binary interface never fail on them.
\<close>

section \<open>Data\<close>

text \<open>The derived order of \<open>Address\<close> compares the address, the port and the protocol in this order.\<close>

type_synonym address = "ip_addr \<times> u16 \<times> u8"

definition SCOPE_CLUSTER :: u8 where "SCOPE_CLUSTER = 0"

record service =
  sv_frontend :: address
  sv_backends :: "address list"
  sv_affinity :: "u32 option"
  sv_scope :: u8
  sv_maglev :: bool
  sv_dsr :: bool
  sv_nat46x64 :: bool

record maps =
  mp_services4 :: "(u8 list, u8 list) btree_map"
  mp_backends4 :: "(u32, u8 list) btree_map"
  mp_services6 :: "(u8 list, u8 list) btree_map"
  mp_backends6 :: "(u32, u8 list) btree_map"
  mp_affinity_match :: "u8 list btree_set"
  mp_maglev4 :: "(u16, u32 list) btree_map"
  mp_maglev6 :: "(u16, u32 list) btree_map"

definition maps_default :: maps where
  "maps_default = \<lparr>mp_services4 = [], mp_backends4 = [], mp_services6 = [], mp_backends6 = [],
     mp_affinity_match = [], mp_maglev4 = [], mp_maglev6 = []\<rparr>"

datatype op =
    Backend4 u32 "u8 list"
  | Backend6 u32 "u8 list"
  | Service4 "u8 list" "u8 list"
  | Service6 "u8 list" "u8 list"
  | DeleteService4 "u8 list"
  | DeleteService6 "u8 list"
  | DeleteBackend4 u32
  | DeleteBackend6 u32
  | AffinityMatch "u8 list"
  | DeleteAffinityMatch "u8 list"
  | Maglev4 u16 "u32 list"
  | Maglev6 u16 "u32 list"
  | DeleteMaglev4 u16
  | DeleteMaglev6 u16

record desired_maps =
  ds_maps :: maps
  ds_ids :: "(address \<times> u8, u16) btree_map"

datatype lb_error =
    DuplicateFrontend address u8
  | TooManyBackends address
  | ServiceIdsExhausted
  | ServiceIdOverflow
  | AffinityTooLong address u32
  | MasterFailed address
  | BackendIdsExhausted
  | BackendFamily
  | MaglevProtocol
  | SlotOverflow
  | MaglevFailed address string
  | FrontendFamily

section \<open>Keys and values\<close>

definition key4 :: "address \<Rightarrow> u8 \<Rightarrow> u16 \<Rightarrow> u8 list option" where
  "key4 frontend scope slot =
     (case frontend of
        (V4 ip, port, proto) \<Rightarrow>
          lb4_key_to_bytes \<lparr>l4k_address = to_be_bytes ip, l4k_dport = be16_new port, l4k_backend_slot = slot,
            l4k_proto = proto, l4k_scope = scope, l4k_pad = [0, 0]\<rparr>
      | (V6 _, _, _) \<Rightarrow> None)"

definition key6 :: "address \<Rightarrow> u8 \<Rightarrow> u16 \<Rightarrow> u8 list option" where
  "key6 frontend scope slot =
     (case frontend of
        (V6 ip, port, proto) \<Rightarrow>
          lb6_key_to_bytes \<lparr>l6k_address = to_be_bytes ip, l6k_dport = be16_new port, l6k_backend_slot = slot,
            l6k_proto = proto, l6k_scope = scope, l6k_pad = [0, 0]\<rparr>
      | (V4 _, _, _) \<Rightarrow> None)"

definition backend_bytes4 :: "address \<Rightarrow> u8 list option" where
  "backend_bytes4 backend =
     (case backend of
        (V4 ip, port, proto) \<Rightarrow>
          lb4_backend_to_bytes \<lparr>l4b_address = to_be_bytes ip, l4b_port = be16_new port, l4b_proto = proto,
            l4b_flags = 0, l4b_cluster_id = 0, l4b_zone = 0, l4b_pad = 0\<rparr>
      | (V6 _, _, _) \<Rightarrow> None)"

definition backend_bytes6 :: "address \<Rightarrow> u8 list option" where
  "backend_bytes6 backend =
     (case backend of
        (V6 ip, port, proto) \<Rightarrow>
          lb6_backend_to_bytes \<lparr>l6b_address = to_be_bytes ip, l6b_port = be16_new port, l6b_proto = proto,
            l6b_flags = 0, l6b_cluster_id = 0, l6b_zone = 0, l6b_pad = 0\<rparr>
      | (V4 _, _, _) \<Rightarrow> None)"

definition frontend4 :: "u8 list \<Rightarrow> address \<times> u8 \<times> u16" where
  "frontend4 key =
     (let k = the (lb4_key_from_bytes key)
      in ((V4 (from_be_bytes (l4k_address k)), be16_get (l4k_dport k), l4k_proto k), l4k_scope k, l4k_backend_slot k))"

definition frontend6 :: "u8 list \<Rightarrow> address \<times> u8 \<times> u16" where
  "frontend6 key =
     (let k = the (lb6_key_from_bytes key)
      in ((V6 (from_be_bytes (l6k_address k)), be16_get (l6k_dport k), l6k_proto k), l6k_scope k, l6k_backend_slot k))"

definition backend4 :: "u8 list \<Rightarrow> address" where
  "backend4 v =
     (let b = the (lb4_backend_from_bytes v) in (V4 (from_be_bytes (l4b_address b)), be16_get (l4b_port b), l4b_proto b))"

definition backend6 :: "u8 list \<Rightarrow> address" where
  "backend6 v =
     (let b = the (lb6_backend_from_bytes v) in (V6 (from_be_bytes (l6b_address b)), be16_get (l6b_port b), l6b_proto b))"

abbreviation slot_of4 :: "u8 list \<Rightarrow> u16" where
  "slot_of4 key \<equiv> snd (snd (frontend4 key))"

abbreviation slot_of6 :: "u8 list \<Rightarrow> u16" where
  "slot_of6 key \<equiv> snd (snd (frontend6 key))"

abbreviation service_of :: "u8 list \<Rightarrow> lb_service" where
  "service_of v \<equiv> the (lb_service_from_bytes v)"

section \<open>Identifiers\<close>

record ids =
  id_used :: "u32 btree_set"
  id_next :: u32
  id_max :: u32

definition ids_new :: "u32 btree_set \<Rightarrow> u32 \<Rightarrow> ids" where
  "ids_new used mx = \<lparr>id_used = used, id_next = 1, id_max = mx\<rparr>"

function first_unused :: "u32 btree_set \<Rightarrow> u32 \<Rightarrow> u32 option" where
  "first_unused used n =
     (if n \<in> set used then case checked_add n 1 of None \<Rightarrow> None | Some n' \<Rightarrow> first_unused used n' else Some n)"
  by pat_completeness auto
termination
proof (relation "measure (\<lambda>(used, n). 2 ^ 32 - unat n)")
  fix used n n' assume "checked_add n (1 :: u32) = Some n'"
  then have "unat n + 1 < 2 ^ 32" "n' = n + 1" by (auto simp: checked_add_def split: if_splits)
  then have "unat n' = unat n + 1" by (simp add: unat_add_no_wrap)
  then show "((used, n'), used, n) \<in> measure (\<lambda>(used, n). 2 ^ 32 - unat n)"
    using \<open>unat n + 1 < 2 ^ 32\<close> by simp
qed simp

declare first_unused.simps [simp del]

definition ids_allocate :: "ids \<Rightarrow> (u32 \<times> ids) option" where
  "ids_allocate st =
     (case first_unused (id_used st) (id_next st) of
        None \<Rightarrow> None
      | Some n \<Rightarrow> if id_max st < n then None
                 else Some (n, st\<lparr>id_used := bs_insert n (id_used st), id_next := n\<rparr>))"

section \<open>Desired contents\<close>

definition service_flags_routable :: u16 where "service_flags_routable = 0x0040"
definition service_flags_affinity :: u16 where "service_flags_affinity = 0x0010"
definition service_flags_nat46x64 :: u16 where "service_flags_nat46x64 = 0x0200"
definition service_flags_dsr :: u16 where "service_flags_dsr = 0x8000"

text \<open>\<open>entry(k).or_insert(v)\<close>\<close>

definition bt_or_insert :: "'k::linorder \<Rightarrow> 'v \<Rightarrow> ('k, 'v) btree_map \<Rightarrow> ('k, 'v) btree_map" where
  "bt_or_insert k v m = (case bt_get m k of None \<Rightarrow> bt_insert k v m | Some _ \<Rightarrow> m)"

fun recover_backends ::
    "(u8 list \<Rightarrow> address) \<Rightarrow> (u32 \<times> u8 list) list \<Rightarrow> (address, u32) btree_map \<Rightarrow> (address, u32) btree_map" where
  "recover_backends dec [] m = m"
| "recover_backends dec (idv # rest) m = recover_backends dec rest (bt_or_insert (dec (snd idv)) (fst idv) m)"

fun recover_services ::
    "((address \<times> u8 \<times> u16) \<times> u8 list) list \<Rightarrow> u32 btree_set \<times> (address \<times> u8, u16) btree_map \<Rightarrow>
     u32 btree_set \<times> (address \<times> u8, u16) btree_map" where
  "recover_services [] acc = acc"
| "recover_services (((frontend, scope, slot), v) # rest) (used, m) =
     (let rev = lbs_rev_nat_index (service_of v);
          used = bs_insert (ucast rev) used;
          m = (if slot = 0 \<and> rev \<noteq> 0 then bt_or_insert (frontend, scope) rev m else m)
      in recover_services rest (used, m))"

fun protocol_name :: "u8 \<Rightarrow> string option" where
  "protocol_name proto = (if proto = 6 then Some ''TCP'' else if proto = 17 then Some ''UDP'' else None)"

definition lb_service_default :: lb_service where
  "lb_service_default = \<lparr>lbs_union_raw = 0, lbs_count = 0, lbs_rev_nat_index = 0, lbs_flags = 0, lbs_flags2 = 0, lbs_qcount = 0\<rparr>"

text \<open>The state of the loop over the backends of one service.\<close>

record placing =
  pl_backend_ids :: "(address, u32) btree_map"
  pl_pool :: ids
  pl_maps :: maps
  pl_table :: "maglev_backend list"
  pl_slots :: "(u16 \<times> lb_service) list"

definition backend_id_for :: "address \<Rightarrow> placing \<Rightarrow> lb_error + u32 \<times> placing" where
  "backend_id_for backend st =
     (case bt_get (pl_backend_ids st) backend of
        Some i \<Rightarrow> Inr (i, st)
      | None \<Rightarrow>
          (case ids_allocate (pl_pool st) of
             None \<Rightarrow> Inl BackendIdsExhausted
           | Some (i, pool) \<Rightarrow>
               Inr (i, st\<lparr>pl_backend_ids := bt_insert backend i (pl_backend_ids st), pl_pool := pool\<rparr>)))"

definition insert_backend :: "address \<Rightarrow> u32 \<Rightarrow> maps \<Rightarrow> lb_error + maps" where
  "insert_backend backend i m =
     (case fst backend of
        V4 _ \<Rightarrow> (case backend_bytes4 backend of
                   None \<Rightarrow> Inl BackendFamily
                 | Some v \<Rightarrow> Inr (m\<lparr>mp_backends4 := bt_insert i v (mp_backends4 m)\<rparr>))
      | V6 _ \<Rightarrow> (case backend_bytes6 backend of
                   None \<Rightarrow> Inl BackendFamily
                 | Some v \<Rightarrow> Inr (m\<lparr>mp_backends6 := bt_insert i v (mp_backends6 m)\<rparr>)))"

definition insert_affinity :: "service \<Rightarrow> u32 \<Rightarrow> u16 \<Rightarrow> maps \<Rightarrow> maps" where
  "insert_affinity sv backend_id i m =
     (if sv_affinity sv \<noteq> None
      then m\<lparr>mp_affinity_match :=
             bs_insert (the (lb_affinity_match_to_bytes \<lparr>afm_backend_id = backend_id, afm_rev_nat_id = i, afm_pad = 0\<rparr>))
               (mp_affinity_match m)\<rparr>
      else m)"

definition table_backend :: "address \<Rightarrow> u32 \<Rightarrow> lb_error + maglev_backend" where
  "table_backend backend backend_id =
     (case protocol_name (snd (snd backend)) of
        None \<Rightarrow> Inl MaglevProtocol
      | Some name \<Rightarrow>
          Inr \<lparr>mb_id = backend_id, mb_address = fst backend, mb_port = fst (snd backend), mb_protocol = name,
               mb_cluster = 0, mb_internal = False, mb_weight = 1\<rparr>)"

text \<open>\<open>u16::try_from(index)\<close> and \<open>checked_add(1)\<close>.\<close>

definition slot_number :: "nat \<Rightarrow> u16 option" where
  "slot_number index = (if index < 65536 then checked_add (of_nat index) 1 else None)"

definition place_backend :: "service \<Rightarrow> u16 \<Rightarrow> nat \<Rightarrow> address \<Rightarrow> placing \<Rightarrow> lb_error + placing" where
  "place_backend sv i index backend st =
     (case backend_id_for backend st of
        Inl e \<Rightarrow> Inl e
      | Inr (backend_id, st) \<Rightarrow>
          (case insert_backend backend backend_id (pl_maps st) of
             Inl e \<Rightarrow> Inl e
           | Inr m \<Rightarrow>
               let m = insert_affinity sv backend_id i m in
               (case (if sv_maglev sv then map_sum id (\<lambda>b. pl_table st @ [b]) (table_backend backend backend_id)
                      else Inr (pl_table st)) of
                  Inl e \<Rightarrow> Inl e
                | Inr tbl \<Rightarrow>
                    (case slot_number index of
                       None \<Rightarrow> Inl SlotOverflow
                     | Some slot \<Rightarrow>
                         Inr (st\<lparr>pl_maps := m, pl_table := tbl,
                                 pl_slots := pl_slots st @
                                   [(slot, lb_service_default\<lparr>lbs_union_raw := backend_id, lbs_rev_nat_index := i\<rparr>)]\<rparr>)))))"

fun place_backends :: "service \<Rightarrow> u16 \<Rightarrow> nat \<Rightarrow> address list \<Rightarrow> placing \<Rightarrow> lb_error + placing" where
  "place_backends sv i index [] st = Inr st"
| "place_backends sv i index (b # bs) st =
     (case place_backend sv i index b st of
        Inl e \<Rightarrow> Inl e
      | Inr st \<Rightarrow> place_backends sv i (index + 1) bs st)"

definition make_master :: "service \<Rightarrow> u16 \<Rightarrow> u16 \<Rightarrow> lb_error + lb_service" where
  "make_master sv count i =
     (let master = lb_service_default\<lparr>lbs_count := count, lbs_rev_nat_index := i\<rparr>;
          algorithm = (if sv_maglev sv then AlgorithmMaglev else AlgorithmRandom);
          routable = (if sv_dsr sv then service_flags_routable OR service_flags_dsr else service_flags_routable);
          routable = (if sv_nat46x64 sv then routable OR service_flags_nat46x64 else routable)
      in case sv_affinity sv of
           Some seconds \<Rightarrow>
             map_sum (\<lambda>_. AffinityTooLong (sv_frontend sv) seconds) id
               (lbs_set_affinity algorithm seconds (lbs_set_service_flags (routable OR service_flags_affinity) master))
         | None \<Rightarrow>
             let master = lbs_set_service_flags routable master in
             if sv_maglev sv then map_sum (\<lambda>_. MasterFailed (sv_frontend sv)) id (lbs_set_affinity algorithm 0 master)
             else Inr master)"

definition insert_slot :: "address \<Rightarrow> u8 \<Rightarrow> u16 \<Rightarrow> lb_service \<Rightarrow> maps \<Rightarrow> lb_error + maps" where
  "insert_slot frontend scope slot v m =
     (case fst frontend of
        V4 _ \<Rightarrow> (case key4 frontend scope slot of
                   None \<Rightarrow> Inl FrontendFamily
                 | Some k \<Rightarrow> Inr (m\<lparr>mp_services4 := bt_insert k (the (lb_service_to_bytes v)) (mp_services4 m)\<rparr>))
      | V6 _ \<Rightarrow> (case key6 frontend scope slot of
                   None \<Rightarrow> Inl FrontendFamily
                 | Some k \<Rightarrow> Inr (m\<lparr>mp_services6 := bt_insert k (the (lb_service_to_bytes v)) (mp_services6 m)\<rparr>)))"

fun insert_slots :: "address \<Rightarrow> u8 \<Rightarrow> (u16 \<times> lb_service) list \<Rightarrow> maps \<Rightarrow> lb_error + maps" where
  "insert_slots frontend scope [] m = Inr m"
| "insert_slots frontend scope ((slot, v) # rest) m =
     (case insert_slot frontend scope slot v m of
        Inl e \<Rightarrow> Inl e
      | Inr m \<Rightarrow> insert_slots frontend scope rest m)"

definition insert_table :: "address \<Rightarrow> u16 \<Rightarrow> u32 list \<Rightarrow> maps \<Rightarrow> maps" where
  "insert_table frontend i t m =
     (case fst frontend of
        V4 _ \<Rightarrow> m\<lparr>mp_maglev4 := bt_insert i t (mp_maglev4 m)\<rparr>
      | V6 _ \<Rightarrow> m\<lparr>mp_maglev6 := bt_insert i t (mp_maglev6 m)\<rparr>)"

text \<open>The state of the loop over the services.\<close>

record planning =
  pn_backend_ids :: "(address, u32) btree_map"
  pn_backend_pool :: ids
  pn_service_pool :: ids
  pn_frontends :: "(address \<times> u8) btree_set"
  pn_out :: desired_maps

definition service_backends :: "service \<Rightarrow> address btree_set" where
  "service_backends sv =
     bs_of_list (filter (\<lambda>b. (is_ipv4 (fst b) = is_ipv4 (fst (sv_frontend sv))) \<noteq> sv_nat46x64 sv) (sv_backends sv))"

definition service_id_for :: "(address \<times> u8, u16) btree_map \<Rightarrow> address \<times> u8 \<Rightarrow> ids \<Rightarrow> lb_error + u16 \<times> ids" where
  "service_id_for service_ids fs pool =
     (case bt_get service_ids fs of
        Some i \<Rightarrow> Inr (i, pool)
      | None \<Rightarrow>
          (case ids_allocate pool of
             None \<Rightarrow> Inl ServiceIdsExhausted
           | Some (i, pool) \<Rightarrow> if 65535 < i then Inl ServiceIdOverflow else Inr (ucast i, pool)))"

text \<open>
  The table and the slots of one service, once its backends are placed; \<open>None\<close> would be a table whose
  construction does not end.
\<close>

definition publish_service :: "service \<Rightarrow> u16 \<Rightarrow> placing \<Rightarrow> (lb_error + maps) option" where
  "publish_service sv i st =
     (let frontend = sv_frontend sv in
      case (if pl_table st \<noteq> []
            then map_option (map_sum (MaglevFailed frontend) (\<lambda>t. insert_table frontend i t (pl_maps st)))
                   (maglev_table (pl_table st) TABLE_LEN SEED_MURMUR)
            else Some (Inr (pl_maps st))) of
        None \<Rightarrow> None
      | Some (Inl e) \<Rightarrow> Some (Inl e)
      | Some (Inr m) \<Rightarrow> Some (insert_slots frontend (sv_scope sv) (pl_slots st) m))"

definition place_service :: "(address \<times> u8, u16) btree_map \<Rightarrow> service \<Rightarrow> planning \<Rightarrow> (lb_error + planning) option" where
  "place_service service_ids sv st =
     (let frontend = sv_frontend sv; scope = sv_scope sv in
      if (frontend, scope) \<in> set (pn_frontends st) then Some (Inl (DuplicateFrontend frontend scope))
      else
        let backends = service_backends sv in
        if 65535 < length backends then Some (Inl (TooManyBackends frontend))
        else
          case service_id_for service_ids (frontend, scope) (pn_service_pool st) of
            Inl e \<Rightarrow> Some (Inl e)
          | Inr (i, pool) \<Rightarrow>
              (case make_master sv (of_nat (length backends)) i of
                 Inl e \<Rightarrow> Some (Inl e)
               | Inr master \<Rightarrow>
                   (case place_backends sv i 0 backends
                           \<lparr>pl_backend_ids = pn_backend_ids st, pl_pool = pn_backend_pool st,
                            pl_maps = ds_maps (pn_out st), pl_table = [], pl_slots = [(0, master)]\<rparr> of
                      Inl e \<Rightarrow> Some (Inl e)
                    | Inr pl \<Rightarrow>
                        (case publish_service sv i pl of
                           None \<Rightarrow> None
                         | Some (Inl e) \<Rightarrow> Some (Inl e)
                         | Some (Inr m) \<Rightarrow>
                             Some (Inr \<lparr>pn_backend_ids = pl_backend_ids pl, pn_backend_pool = pl_pool pl,
                               pn_service_pool = pool, pn_frontends = bs_insert (frontend, scope) (pn_frontends st),
                               pn_out = \<lparr>ds_maps = m, ds_ids = bt_insert (frontend, scope) i (ds_ids (pn_out st))\<rparr>\<rparr>)))))"

fun place_services :: "(address \<times> u8, u16) btree_map \<Rightarrow> service list \<Rightarrow> planning \<Rightarrow> (lb_error + planning) option" where
  "place_services service_ids [] st = Some (Inr st)"
| "place_services service_ids (sv # svs) st =
     (case place_service service_ids sv st of
        None \<Rightarrow> None
      | Some (Inl e) \<Rightarrow> Some (Inl e)
      | Some (Inr st) \<Rightarrow> place_services service_ids svs st)"

definition initial_planning :: "maps \<Rightarrow> planning \<times> (address \<times> u8, u16) btree_map" where
  "initial_planning current =
     (let backend_ids = recover_backends backend6 (mp_backends6 current) (recover_backends backend4 (mp_backends4 current) []);
          backend_pool = ids_new (bs_of_list (bt_keys (mp_backends4 current) @ bt_keys (mp_backends6 current))) (- 1);
          masters = map (\<lambda>(k, v). (frontend4 k, v)) (mp_services4 current) @ map (\<lambda>(k, v). (frontend6 k, v)) (mp_services6 current);
          (used, service_ids) = recover_services masters ([], [])
      in (\<lparr>pn_backend_ids = backend_ids, pn_backend_pool = backend_pool, pn_service_pool = ids_new used 65535,
           pn_frontends = [], pn_out = \<lparr>ds_maps = maps_default, ds_ids = []\<rparr>\<rparr>, service_ids))"

definition sort_services :: "service list \<Rightarrow> service list" where
  "sort_services svs = sort_by (\<lambda>a b. (sv_frontend a, sv_scope a) \<le> (sv_frontend b, sv_scope b)) svs"

definition desired :: "maps \<Rightarrow> service list \<Rightarrow> (lb_error + desired_maps) option" where
  "desired current services =
     (let (st, service_ids) = initial_planning current
      in map_option (map_sum id pn_out) (place_services service_ids (sort_services services) st))"

section \<open>Planning and applying the writes\<close>

definition changed :: "('k, 'v) btree_map \<Rightarrow> ('k, 'v) btree_map \<Rightarrow> ('k \<times> 'v) list" where
  "changed current new = filter (\<lambda>kv. bt_get current (fst kv) \<noteq> Some (snd kv)) new"

definition stale :: "('k, 'v) btree_map \<Rightarrow> ('k, 'v) btree_map \<Rightarrow> 'k list" where
  "stale current new = filter (\<lambda>k. bt_get new k = None) (bt_keys current)"

definition plan_upserts :: "maps \<Rightarrow> maps \<Rightarrow> bool \<Rightarrow> op list" where
  "plan_upserts current new master =
     map (\<lambda>(k, v). Service4 k v) (filter (\<lambda>kv. (slot_of4 (fst kv) = 0) = master) (changed (mp_services4 current) (mp_services4 new))) @
     map (\<lambda>(k, v). Service6 k v) (filter (\<lambda>kv. (slot_of6 (fst kv) = 0) = master) (changed (mp_services6 current) (mp_services6 new)))"

definition plan_deletes :: "maps \<Rightarrow> maps \<Rightarrow> bool \<Rightarrow> op list" where
  "plan_deletes current new master =
     map DeleteService4 (filter (\<lambda>k. (slot_of4 k = 0) = master) (stale (mp_services4 current) (mp_services4 new))) @
     map DeleteService6 (filter (\<lambda>k. (slot_of6 k = 0) = master) (stale (mp_services6 current) (mp_services6 new)))"

definition lb_plan :: "maps \<Rightarrow> maps \<Rightarrow> op list" where
  "lb_plan current new =
     map (\<lambda>(k, v). Backend4 k v) (changed (mp_backends4 current) (mp_backends4 new)) @
     map (\<lambda>(k, v). Backend6 k v) (changed (mp_backends6 current) (mp_backends6 new)) @
     map AffinityMatch (filter (\<lambda>k. k \<notin> set (mp_affinity_match current)) (mp_affinity_match new)) @
     map (\<lambda>(k, v). Maglev4 k v) (changed (mp_maglev4 current) (mp_maglev4 new)) @
     map (\<lambda>(k, v). Maglev6 k v) (changed (mp_maglev6 current) (mp_maglev6 new)) @
     plan_upserts current new False @ plan_upserts current new True @
     plan_deletes current new True @ plan_deletes current new False @
     map DeleteMaglev4 (stale (mp_maglev4 current) (mp_maglev4 new)) @
     map DeleteMaglev6 (stale (mp_maglev6 current) (mp_maglev6 new)) @
     map DeleteAffinityMatch (filter (\<lambda>k. k \<notin> set (mp_affinity_match new)) (mp_affinity_match current)) @
     map DeleteBackend4 (stale (mp_backends4 current) (mp_backends4 new)) @
     map DeleteBackend6 (stale (mp_backends6 current) (mp_backends6 new))"

fun apply_op :: "op \<Rightarrow> maps \<Rightarrow> maps" where
  "apply_op (Backend4 k v) m = m\<lparr>mp_backends4 := bt_insert k v (mp_backends4 m)\<rparr>"
| "apply_op (Backend6 k v) m = m\<lparr>mp_backends6 := bt_insert k v (mp_backends6 m)\<rparr>"
| "apply_op (Service4 k v) m = m\<lparr>mp_services4 := bt_insert k v (mp_services4 m)\<rparr>"
| "apply_op (Service6 k v) m = m\<lparr>mp_services6 := bt_insert k v (mp_services6 m)\<rparr>"
| "apply_op (DeleteService4 k) m = m\<lparr>mp_services4 := bt_remove k (mp_services4 m)\<rparr>"
| "apply_op (DeleteService6 k) m = m\<lparr>mp_services6 := bt_remove k (mp_services6 m)\<rparr>"
| "apply_op (DeleteBackend4 k) m = m\<lparr>mp_backends4 := bt_remove k (mp_backends4 m)\<rparr>"
| "apply_op (DeleteBackend6 k) m = m\<lparr>mp_backends6 := bt_remove k (mp_backends6 m)\<rparr>"
| "apply_op (AffinityMatch k) m = m\<lparr>mp_affinity_match := bs_insert k (mp_affinity_match m)\<rparr>"
| "apply_op (DeleteAffinityMatch k) m = m\<lparr>mp_affinity_match := bs_remove k (mp_affinity_match m)\<rparr>"
| "apply_op (Maglev4 k v) m = m\<lparr>mp_maglev4 := bt_insert k v (mp_maglev4 m)\<rparr>"
| "apply_op (Maglev6 k v) m = m\<lparr>mp_maglev6 := bt_insert k v (mp_maglev6 m)\<rparr>"
| "apply_op (DeleteMaglev4 k) m = m\<lparr>mp_maglev4 := bt_remove k (mp_maglev4 m)\<rparr>"
| "apply_op (DeleteMaglev6 k) m = m\<lparr>mp_maglev6 := bt_remove k (mp_maglev6 m)\<rparr>"

definition lb_apply :: "maps \<Rightarrow> op list \<Rightarrow> maps" where
  "lb_apply m ops = fold apply_op ops m"

section \<open>Lookups\<close>

datatype resolve_error = SlotMissing address u16 | BackendMissing address u32

definition lookup_service :: "maps \<Rightarrow> address \<Rightarrow> u8 \<Rightarrow> u16 \<Rightarrow> lb_service option" where
  "lookup_service m frontend scope slot =
     (case fst frontend of
        V4 _ \<Rightarrow> Option.bind (key4 frontend scope slot) (\<lambda>k. map_option service_of (bt_get (mp_services4 m) k))
      | V6 _ \<Rightarrow> Option.bind (key6 frontend scope slot) (\<lambda>k. map_option service_of (bt_get (mp_services6 m) k)))"

definition lookup_backend :: "maps \<Rightarrow> address \<Rightarrow> u32 \<Rightarrow> address option" where
  "lookup_backend m frontend i =
     (case fst frontend of
        V4 _ \<Rightarrow> map_option backend4 (bt_get (mp_backends4 m) i)
      | V6 _ \<Rightarrow> map_option backend6 (bt_get (mp_backends6 m) i))"

fun resolve_slots :: "maps \<Rightarrow> address \<Rightarrow> u8 \<Rightarrow> u16 list \<Rightarrow> resolve_error + address list" where
  "resolve_slots m frontend scope [] = Inr []"
| "resolve_slots m frontend scope (slot # slots) =
     (case lookup_service m frontend scope slot of
        None \<Rightarrow> Inl (SlotMissing frontend slot)
      | Some e \<Rightarrow>
          (case lookup_backend m frontend (lbs_backend_id e) of
             None \<Rightarrow> Inl (BackendMissing frontend (lbs_backend_id e))
           | Some b \<Rightarrow> map_sum id (\<lambda>bs. b # bs) (resolve_slots m frontend scope slots)))"

definition slot_range :: "u16 \<Rightarrow> u16 list" where
  "slot_range count = map of_nat [1..<unat count + 1]"

definition resolve_scope :: "maps \<Rightarrow> address \<Rightarrow> u8 \<Rightarrow> (resolve_error + address list) option" where
  "resolve_scope m frontend scope =
     (case lookup_service m frontend scope 0 of
        None \<Rightarrow> None
      | Some master \<Rightarrow> Some (resolve_slots m frontend scope (slot_range (lbs_count master))))"

definition resolve :: "maps \<Rightarrow> address \<Rightarrow> (resolve_error + address list) option" where
  "resolve m frontend = resolve_scope m frontend SCOPE_CLUSTER"

definition maglev_pick :: "maps \<Rightarrow> address \<Rightarrow> u8 \<Rightarrow> ip_addr \<Rightarrow> u16 \<Rightarrow> address option" where
  "maglev_pick m frontend scope client client_port =
     (case lookup_service m frontend scope 0 of
        None \<Rightarrow> None
      | Some master \<Rightarrow>
          if lbs_algorithm_code master \<noteq> ALGORITHM_MAGLEV then None
          else
            let client_port = (if lbs_service_flags master AND service_flags_affinity \<noteq> 0 then 0 else client_port);
                i = lbs_rev_nat_index master; port = fst (snd frontend); proto = snd (snd frontend)
            in case (case (fst frontend, client) of
                       (V4 _, V4 c) \<Rightarrow> map_option (\<lambda>t. (t, flow_hash4 (to_be_bytes c) client_port port proto)) (bt_get (mp_maglev4 m) i)
                     | (V6 _, V6 c) \<Rightarrow> map_option (\<lambda>t. (t, flow_hash6 (to_be_bytes c) client_port port proto)) (bt_get (mp_maglev6 m) i)
                     | _ \<Rightarrow> None) of
                 None \<Rightarrow> None
               | Some (t, h) \<Rightarrow>
                   let entry = unat (hash_entry h) in
                   if length t \<le> entry then None else lookup_backend m frontend (t ! entry))"

end
