(* ===== verification/SocketPlan.thy ===== *)
theory SocketPlan
  imports SocketLb
begin

text \<open>
  Correctness of the ordered map writes of \<open>plan\<close>: applied completely they turn the current maps into the
  desired ones, and after any number of them no lookup meets a missing slot or a missing backend. Both
  address families satisfy one interface, \<open>lb_family\<close>.
\<close>

section \<open>Differences of ordered maps\<close>

lemma bt_ext:
  assumes "bt_ok m" "bt_ok m'" "bt_get m = bt_get m'"
  shows "m = m'"
  using assms
proof (induction m arbitrary: m')
  case Nil
  then show ?case by (cases m') (auto simp: fun_eq_iff split: if_splits)
next
  case (Cons kv m)
  obtain k v where kv: "kv = (k, v)" by (cases kv)
  have above: "bt_get m x \<noteq> None \<Longrightarrow> k < x" for x
    using Cons.prems(1) by (auto simp: kv bt_ok_def map_of_eq_None_iff)
  have "bt_get m' k = Some v" using fun_cong [OF Cons.prems(3), of k] by (simp add: kv)
  then obtain k' v' r where m': "m' = (k', v') # r" by (cases m') auto
  have above': "bt_get r x \<noteq> None \<Longrightarrow> k' < x" for x
    using Cons.prems(2) by (auto simp: m' bt_ok_def map_of_eq_None_iff)
  have "k' = k"
  proof (rule ccontr)
    assume "k' \<noteq> k"
    have "bt_get (kv # m) k' = Some v'" using fun_cong [OF Cons.prems(3), of k'] by (simp add: m')
    then have "k < k'" using above \<open>k' \<noteq> k\<close> by (simp add: kv)
    moreover have "bt_get r k = Some v" using \<open>bt_get m' k = Some v\<close> \<open>k' \<noteq> k\<close> by (simp add: m')
    then have "k' < k" using above' by simp
    ultimately show False by simp
  qed
  moreover have "v' = v" using \<open>bt_get m' k = Some v\<close> calculation by (simp add: m')
  moreover have "bt_get m = bt_get r"
  proof
    fix x
    have "bt_get (kv # m) x = bt_get m' x" by (rule fun_cong [OF Cons.prems(3)])
    moreover have "bt_get m k = None" "bt_get r k = None" using above above' \<open>k' = k\<close> less_irrefl by blast+
    ultimately show "bt_get m x = bt_get r x" using \<open>k' = k\<close> by (cases "x = k") (simp_all add: kv m')
  qed
  ultimately show ?case using Cons by (auto simp: kv m' bt_ok_def)
qed

lemma bs_ext: "bs_ok s \<Longrightarrow> bs_ok t \<Longrightarrow> set s = set t \<Longrightarrow> s = t"
  by (metis strict_sorted_equal)

definition bt_puts :: "('k::linorder \<times> 'v) list \<Rightarrow> ('k, 'v) btree_map \<Rightarrow> ('k, 'v) btree_map" where
  "bt_puts kvs m = fold (\<lambda>kv. bt_insert (fst kv) (snd kv)) kvs m"

definition bt_dels :: "'k list \<Rightarrow> ('k, 'v) btree_map \<Rightarrow> ('k, 'v) btree_map" where
  "bt_dels ks m = fold bt_remove ks m"

lemma bt_get_puts: "distinct (map fst kvs) \<Longrightarrow> bt_get (bt_puts kvs m) = bt_get m ++ map_of kvs"
proof (induction kvs arbitrary: m)
  case (Cons kv kvs)
  then have "map_of kvs (fst kv) = None" by (auto simp: map_of_eq_None_iff)
  with Cons show ?case by (auto simp: bt_puts_def map_add_def fun_eq_iff split: option.splits)
qed (simp add: bt_puts_def)

lemma bt_get_dels: "bt_get (bt_dels ks m) = bt_get m |` (- set ks)"
  by (induction ks arbitrary: m) (auto simp: bt_dels_def restrict_map_def fun_eq_iff)

lemma bt_ok_puts: "bt_ok m \<Longrightarrow> bt_ok (bt_puts kvs m)"
  by (induction kvs arbitrary: m) (auto simp: bt_puts_def bt_ok_insert)

lemma bt_ok_dels: "bt_ok m \<Longrightarrow> bt_ok (bt_dels ks m)"
  by (induction ks arbitrary: m) (auto simp: bt_dels_def bt_ok_remove)

lemma changed_distinct: "bt_ok new \<Longrightarrow> distinct (map fst (filter P (changed cur new)))"
  by (simp add: changed_def bt_ok_distinct distinct_map_filter)

lemma map_of_changed:
  assumes "bt_ok new"
  shows "map_of (filter (\<lambda>kv. P (fst kv)) (changed cur new)) k =
    (if P k \<and> bt_get cur k \<noteq> bt_get new k then bt_get new k else None)"
  using bt_ok_distinct [OF assms]
proof (induction new)
  case (Cons kv new)
  then have "map_of new (fst kv) = None" by (auto simp: map_of_eq_None_iff)
  with Cons show ?case by (cases kv) (auto simp: changed_def split: if_splits)
qed (simp add: changed_def)

lemma stale_iff: "k \<in> set (stale cur new) \<longleftrightarrow> bt_get new k = None \<and> bt_get cur k \<noteq> None"
  by (auto simp: stale_def bt_keys_def map_of_eq_None_iff)

lemma map_of_take: "distinct (map fst xs) \<Longrightarrow> map_of (take j xs) k = None \<or> map_of (take j xs) k = map_of xs k"
proof (induction xs arbitrary: j)
  case (Cons x xs)
  then show ?case by (cases j) (auto simp: map_of_eq_None_iff)
qed simp

section \<open>One address family\<close>

text \<open>
  What the plan does to the service and backend maps of one family: the writes of the family, in order,
  and the effect of each.
\<close>

locale lb_family =
  fixes services :: "maps \<Rightarrow> (u8 list, u8 list) btree_map"
    and backends :: "maps \<Rightarrow> (u32, u8 list) btree_map"
    and slot_of :: "u8 list \<Rightarrow> u16"
    and key :: "address \<Rightarrow> u8 \<Rightarrow> u16 \<Rightarrow> u8 list option"
    and put_service :: "u8 list \<Rightarrow> u8 list \<Rightarrow> op"
    and del_service :: "u8 list \<Rightarrow> op"
    and put_backend :: "u32 \<Rightarrow> u8 list \<Rightarrow> op"
    and del_backend :: "u32 \<Rightarrow> op"
    and mine :: "op \<Rightarrow> bool"
  assumes put_service: "services (apply_op (put_service k v) m) = bt_insert k v (services m)"
      "backends (apply_op (put_service k v) m) = backends m"
    and del_service: "services (apply_op (del_service k) m) = bt_remove k (services m)"
      "backends (apply_op (del_service k) m) = backends m"
    and put_backend: "backends (apply_op (put_backend i v) m) = bt_insert i v (backends m)"
      "services (apply_op (put_backend i v) m) = services m"
    and del_backend: "backends (apply_op (del_backend i) m) = bt_remove i (backends m)"
      "services (apply_op (del_backend i) m) = services m"
    and mine: "mine w \<Longrightarrow> w \<in> range (\<lambda>kv. put_service (fst kv) (snd kv)) \<union> range del_service \<union>
      range (\<lambda>kv. put_backend (fst kv) (snd kv)) \<union> range del_backend"
    and other: "\<not> mine w \<Longrightarrow> services (apply_op w m) = services m \<and> backends (apply_op w m) = backends m"
    and plan: "filter mine (lb_plan cur new) =
      map (\<lambda>kv. put_backend (fst kv) (snd kv)) (changed (backends cur) (backends new)) @
      map (\<lambda>kv. put_service (fst kv) (snd kv)) (filter (\<lambda>kv. slot_of (fst kv) \<noteq> 0) (changed (services cur) (services new))) @
      map (\<lambda>kv. put_service (fst kv) (snd kv)) (filter (\<lambda>kv. slot_of (fst kv) = 0) (changed (services cur) (services new))) @
      map del_service (filter (\<lambda>k. slot_of k = 0) (stale (services cur) (services new))) @
      map del_service (filter (\<lambda>k. slot_of k \<noteq> 0) (stale (services cur) (services new))) @
      map del_backend (stale (backends cur) (backends new))"
    and key_slot: "key f sc j = Some k \<Longrightarrow> slot_of k = j"
    and key_all: "key f sc j0 = Some k \<Longrightarrow> \<exists>k'. key f sc j = Some k'"
begin

definition closed :: "(u8 list \<rightharpoonup> u8 list) \<Rightarrow> (u32 \<rightharpoonup> u8 list) \<Rightarrow> bool" where
  "closed s b \<longleftrightarrow>
     (\<forall>f sc j k v. key f sc j = Some k \<and> j \<noteq> 0 \<and> s k = Some v \<longrightarrow> b (lbs_backend_id (service_of v)) \<noteq> None) \<and>
     (\<forall>f sc k v. key f sc 0 = Some k \<and> s k = Some v \<longrightarrow>
        (\<forall>j\<in>set (slot_range (lbs_count (service_of v))). \<forall>k'. key f sc j = Some k' \<longrightarrow> s k' \<noteq> None))"

lemmas effects = put_service del_service put_backend del_backend

lemma step_congruent:
  assumes "mine w" "services m = services m'" "backends m = backends m'"
  shows "services (apply_op w m) = services (apply_op w m') \<and> backends (apply_op w m) = backends (apply_op w m')"
  using mine [OF assms(1)] assms(2,3) by (auto simp: effects)

lemma project_from:
  assumes "services m = services m'" "backends m = backends m'"
  shows "services (lb_apply m ops) = services (lb_apply m' (filter mine ops)) \<and>
    backends (lb_apply m ops) = backends (lb_apply m' (filter mine ops))"
  using assms
proof (induction ops arbitrary: m m')
  case (Cons w ops)
  show ?case
  proof (cases "mine w")
    case True
    with Cons step_congruent [OF True Cons.prems] show ?thesis by (simp add: lb_apply_def)
  next
    case False
    with Cons other [of w m] show ?thesis by (simp add: lb_apply_def)
  qed
qed (simp add: lb_apply_def)

lemma segments:
  "services (lb_apply m (map (\<lambda>kv. put_service (fst kv) (snd kv)) kvs)) = bt_puts kvs (services m)"
  "backends (lb_apply m (map (\<lambda>kv. put_service (fst kv) (snd kv)) kvs)) = backends m"
  "services (lb_apply m (map del_service ks)) = bt_dels ks (services m)"
  "backends (lb_apply m (map del_service ks)) = backends m"
  "backends (lb_apply m (map (\<lambda>kv. put_backend (fst kv) (snd kv)) ivs)) = bt_puts ivs (backends m)"
  "services (lb_apply m (map (\<lambda>kv. put_backend (fst kv) (snd kv)) ivs)) = services m"
  "backends (lb_apply m (map del_backend ids)) = bt_dels ids (backends m)"
  "services (lb_apply m (map del_backend ids)) = services m"
proof -
  show "services (lb_apply m (map (\<lambda>kv. put_service (fst kv) (snd kv)) kvs)) = bt_puts kvs (services m)"
    "backends (lb_apply m (map (\<lambda>kv. put_service (fst kv) (snd kv)) kvs)) = backends m"
    by (induction kvs arbitrary: m) (simp_all add: lb_apply_def bt_puts_def effects)
  show "services (lb_apply m (map del_service ks)) = bt_dels ks (services m)"
    "backends (lb_apply m (map del_service ks)) = backends m"
    by (induction ks arbitrary: m) (simp_all add: lb_apply_def bt_dels_def effects)
  show "backends (lb_apply m (map (\<lambda>kv. put_backend (fst kv) (snd kv)) ivs)) = bt_puts ivs (backends m)"
    "services (lb_apply m (map (\<lambda>kv. put_backend (fst kv) (snd kv)) ivs)) = services m"
    by (induction ivs arbitrary: m) (simp_all add: lb_apply_def bt_puts_def effects)
  show "backends (lb_apply m (map del_backend ids)) = bt_dels ids (backends m)"
    "services (lb_apply m (map del_backend ids)) = services m"
    by (induction ids arbitrary: m) (simp_all add: lb_apply_def bt_dels_def effects)
qed

lemma closed_mono: "closed s b \<Longrightarrow> (\<And>i. b i \<noteq> None \<Longrightarrow> b' i \<noteq> None) \<Longrightarrow> closed s b'"
  unfolding closed_def by blast

lemma slot_range_nonzero: "j \<in> set (slot_range n) \<Longrightarrow> j \<noteq> 0"
proof -
  assume "j \<in> set (slot_range n)"
  then obtain i where i: "1 \<le> i" "i < unat n + 1" "j = of_nat i" by (auto simp: slot_range_def)
  then have "unat j = i" using unsigned_less [where 'a = nat, of n] by (simp add: unat_of_nat)
  with i show ?thesis by auto
qed

lemma closed_between:
  assumes C: "closed sC bC" and D: "closed sD bD"
    and B: "\<And>i. bC i \<noteq> None \<or> bD i \<noteq> None \<Longrightarrow> b i \<noteq> None"
    and V: "\<And>k. s k = sC k \<or> s k = sD k"
    and K: "(\<forall>k. slot_of k = 0 \<longrightarrow> s k = sC k) \<and> (\<forall>k. slot_of k \<noteq> 0 \<and> sC k \<noteq> None \<longrightarrow> s k \<noteq> None) \<or>
      (\<forall>k. slot_of k \<noteq> 0 \<and> (sC k \<noteq> None \<or> sD k \<noteq> None) \<longrightarrow> s k \<noteq> None) \<or>
      (\<forall>k. slot_of k = 0 \<longrightarrow> s k = sD k) \<and> (\<forall>k. slot_of k \<noteq> 0 \<and> sD k \<noteq> None \<longrightarrow> s k \<noteq> None)"
  shows "closed s b"
  unfolding closed_def
proof (intro conjI allI impI ballI)
  fix f sc j k v assume "key f sc j = Some k \<and> j \<noteq> 0 \<and> s k = Some v"
  then show "b (lbs_backend_id (service_of v)) \<noteq> None"
    using V [of k] C D B [of "lbs_backend_id (service_of v)"] unfolding closed_def by metis
next
  fix f sc k v j k'
  assume k: "key f sc 0 = Some k \<and> s k = Some v"
    and j: "j \<in> set (slot_range (lbs_count (service_of v)))" "key f sc j = Some k'"
  have n: "slot_of k' \<noteq> 0" using slot_range_nonzero [OF j(1)] key_slot [OF j(2)] by simp
  have m: "slot_of k = 0" using k key_slot by blast
  have c: "sC k' \<noteq> None" if "s k = sC k" using C k j that unfolding closed_def by metis
  have d: "sD k' \<noteq> None" if "s k = sD k" using D k j that unfolding closed_def by metis
  show "s k' \<noteq> None" using K V [of k] n m c d by blast
qed

end

lemma take_append_cases:
  "take j (xs @ ys) = take j xs \<or> (\<exists>i. take j (xs @ ys) = xs @ take i ys)"
  by (cases "j \<le> length xs") auto

lemma take_six:
  "\<exists>n. take j (a @ b @ c @ d @ e @ f) \<in> {take n a, a @ take n b, a @ b @ take n c, a @ b @ c @ take n d,
     a @ b @ c @ d @ take n e, a @ b @ c @ d @ e @ take n f}"
proof -
  have step: "\<exists>i. take j (xs @ ys) = take i xs \<or> take j (xs @ ys) = xs @ take i ys" for j and xs ys :: "'a list"
    using take_append_cases [of j xs ys] by blast
  obtain i1 where 1: "take j (a @ b @ c @ d @ e @ f) = take i1 a \<or> take j (a @ b @ c @ d @ e @ f) = a @ take i1 (b @ c @ d @ e @ f)"
    using step by blast
  obtain i2 where 2: "take i1 (b @ c @ d @ e @ f) = take i2 b \<or> take i1 (b @ c @ d @ e @ f) = b @ take i2 (c @ d @ e @ f)"
    using step by blast
  obtain i3 where 3: "take i2 (c @ d @ e @ f) = take i3 c \<or> take i2 (c @ d @ e @ f) = c @ take i3 (d @ e @ f)"
    using step by blast
  obtain i4 where 4: "take i3 (d @ e @ f) = take i4 d \<or> take i3 (d @ e @ f) = d @ take i4 (e @ f)"
    using step by blast
  obtain i5 where 5: "take i4 (e @ f) = take i5 e \<or> take i4 (e @ f) = e @ take i5 f"
    using step by blast
  show ?thesis unfolding insert_iff using 1 2 3 4 5 by metis
qed

lemma filter_take: "\<exists>i. filter P (take j xs) = take i (filter P xs)"
proof (induction xs arbitrary: j)
  case (Cons x xs)
  show ?case
  proof (cases j)
    case (Suc j')
    obtain i where "filter P (take j' xs) = take i (filter P xs)" using Cons by blast
    then show ?thesis using Suc by (cases "P x") (auto intro: exI [of _ "Suc i"])
  qed (auto intro: exI [of _ 0])
qed simp

lemma lb_apply_append: "lb_apply m (xs @ ys) = lb_apply (lb_apply m xs) ys"
  by (simp add: lb_apply_def)

context lb_family
begin

abbreviation svc :: "maps \<Rightarrow> u8 list \<rightharpoonup> u8 list" where "svc m \<equiv> bt_get (services m)"
abbreviation bck :: "maps \<Rightarrow> u32 \<rightharpoonup> u8 list" where "bck m \<equiv> bt_get (backends m)"

lemma puts_value:
  assumes "bt_ok new"
  shows "(m ++ map_of (take j (filter (\<lambda>kv. P (fst kv)) (changed cur new)))) k = m k \<or>
    P k \<and> bt_get cur k \<noteq> bt_get new k \<and> bt_get new k \<noteq> None \<and>
      (m ++ map_of (take j (filter (\<lambda>kv. P (fst kv)) (changed cur new)))) k = bt_get new k"
  using map_of_take [OF changed_distinct [OF assms], of j "\<lambda>kv. P (fst kv)" cur k] map_of_changed [OF assms, of P cur k]
  by (auto simp: map_add_def split: option.splits if_splits)

lemma puts_complete:
  assumes "bt_ok new"
  shows "(m ++ map_of (filter (\<lambda>kv. P (fst kv)) (changed cur new))) k =
    (if P k \<and> bt_get cur k \<noteq> bt_get new k \<and> bt_get new k \<noteq> None then bt_get new k else m k)"
  using map_of_changed [OF assms, of P cur k] by (auto simp: map_add_def split: option.splits if_splits)

lemma get_puts_take:
  "bt_ok new \<Longrightarrow> bt_get (bt_puts (take j (filter P (changed cur new))) m) = bt_get m ++ map_of (take j (filter P (changed cur new)))"
  by (intro bt_get_puts) (metis changed_distinct distinct_take take_map)

text \<open>The maps of a family between two phases of the plan.\<close>

definition family_ok :: "maps \<Rightarrow> bool" where
  "family_ok m \<longleftrightarrow> bt_ok (services m) \<and> bt_ok (backends m)"

definition phase_ops :: "maps \<Rightarrow> maps \<Rightarrow> nat \<Rightarrow> op list" where
  "phase_ops cur new i = concat (take i
     [map (\<lambda>kv. put_backend (fst kv) (snd kv)) (changed (backends cur) (backends new)),
      map (\<lambda>kv. put_service (fst kv) (snd kv)) (filter (\<lambda>kv. slot_of (fst kv) \<noteq> 0) (changed (services cur) (services new))),
      map (\<lambda>kv. put_service (fst kv) (snd kv)) (filter (\<lambda>kv. slot_of (fst kv) = 0) (changed (services cur) (services new))),
      map del_service (filter (\<lambda>k. slot_of k = 0) (stale (services cur) (services new))),
      map del_service (filter (\<lambda>k. slot_of k \<noteq> 0) (stale (services cur) (services new))),
      map del_backend (stale (backends cur) (backends new))])"

definition after :: "maps \<Rightarrow> maps \<Rightarrow> nat \<Rightarrow> maps" where
  "after cur new i = lb_apply cur (phase_ops cur new i)"

lemma after_0: "services (after cur new 0) = services cur" "backends (after cur new 0) = backends cur"
  by (simp_all add: after_def phase_ops_def lb_apply_def)

lemma after_Suc:
  "after cur new (Suc 0) = lb_apply (after cur new 0) (map (\<lambda>kv. put_backend (fst kv) (snd kv)) (changed (backends cur) (backends new)))"
  "after cur new 2 = lb_apply (after cur new 1) (map (\<lambda>kv. put_service (fst kv) (snd kv)) (filter (\<lambda>kv. slot_of (fst kv) \<noteq> 0) (changed (services cur) (services new))))"
  "after cur new 3 = lb_apply (after cur new 2) (map (\<lambda>kv. put_service (fst kv) (snd kv)) (filter (\<lambda>kv. slot_of (fst kv) = 0) (changed (services cur) (services new))))"
  "after cur new 4 = lb_apply (after cur new 3) (map del_service (filter (\<lambda>k. slot_of k = 0) (stale (services cur) (services new))))"
  "after cur new 5 = lb_apply (after cur new 4) (map del_service (filter (\<lambda>k. slot_of k \<noteq> 0) (stale (services cur) (services new))))"
  "after cur new 6 = lb_apply (after cur new 5) (map del_backend (stale (backends cur) (backends new)))"
  by (simp_all add: after_def phase_ops_def numeral_eq_Suc flip: lb_apply_append)

lemma after_backends:
  assumes "bt_ok (backends new)" "i \<in> {1, 2, 3, 4, 5}"
  shows "bck (after cur new i) n = (if bck new n = None then bck cur n else bck new n)"
proof -
  have "bck (after cur new 1) n = (if bck new n = None then bck cur n else bck new n)"
    using puts_complete [OF assms(1), of "bck cur" "\<lambda>_. True" "backends cur" n]
      bt_get_puts [OF changed_distinct [OF assms(1), of "\<lambda>_. True" "backends cur"], of "backends cur"]
    by (simp add: after_Suc segments after_0)
  then show ?thesis using assms(2) by (auto simp: after_Suc(2-) segments)
qed

lemma after_services:
  assumes "bt_ok (services new)"
  shows "services (after cur new 1) = services cur"
    "svc (after cur new 2) k = (if slot_of k \<noteq> 0 \<and> svc new k \<noteq> None then svc new k else svc cur k)"
    "svc (after cur new 3) k = (if svc new k \<noteq> None then svc new k else svc cur k)"
    "svc (after cur new 4) k = (if slot_of k = 0 \<or> svc new k \<noteq> None then svc new k else svc cur k)"
    "svc (after cur new 5) k = svc new k"
    "services (after cur new 6) = services (after cur new 5)"
proof -
  show 1: "services (after cur new 1) = services cur" by (simp add: after_Suc segments after_0)
  have 2: "svc (after cur new 2) k = (if slot_of k \<noteq> 0 \<and> svc new k \<noteq> None then svc new k else svc cur k)" for k
    using puts_complete [OF assms, of "svc cur" "\<lambda>k. slot_of k \<noteq> 0" "services cur" k]
    by (simp add: after_Suc(2) segments 1 [simplified] bt_get_puts [OF changed_distinct [OF assms]])
  show "svc (after cur new 2) k = (if slot_of k \<noteq> 0 \<and> svc new k \<noteq> None then svc new k else svc cur k)" by (rule 2)
  have 3: "svc (after cur new 3) k = (if svc new k \<noteq> None then svc new k else svc cur k)" for k
    using puts_complete [OF assms, of "svc (after cur new 2)" "\<lambda>k. slot_of k = 0" "services cur" k] 2 [of k]
    by (simp add: after_Suc(3) segments bt_get_puts [OF changed_distinct [OF assms]])
  show "svc (after cur new 3) k = (if svc new k \<noteq> None then svc new k else svc cur k)" by (rule 3)
  have 4: "svc (after cur new 4) k = (if slot_of k = 0 \<or> svc new k \<noteq> None then svc new k else svc cur k)" for k
    by (auto simp: after_Suc(4) segments bt_get_dels restrict_map_def stale_iff 3)
  show "svc (after cur new 4) k = (if slot_of k = 0 \<or> svc new k \<noteq> None then svc new k else svc cur k)" by (rule 4)
  show "svc (after cur new 5) k = svc new k"
    by (auto simp: after_Suc(5) segments bt_get_dels restrict_map_def stale_iff 4)
  show "services (after cur new 6) = services (after cur new 5)" by (simp add: after_Suc segments)
qed

lemma prefix_phase:
  "\<exists>n. lb_apply cur (take j (filter mine (lb_plan cur new))) \<in>
    {lb_apply (after cur new 0) (map (\<lambda>kv. put_backend (fst kv) (snd kv)) (take n (changed (backends cur) (backends new)))),
     lb_apply (after cur new 1) (map (\<lambda>kv. put_service (fst kv) (snd kv)) (take n (filter (\<lambda>kv. slot_of (fst kv) \<noteq> 0) (changed (services cur) (services new))))),
     lb_apply (after cur new 2) (map (\<lambda>kv. put_service (fst kv) (snd kv)) (take n (filter (\<lambda>kv. slot_of (fst kv) = 0) (changed (services cur) (services new))))),
     lb_apply (after cur new 3) (map del_service (take n (filter (\<lambda>k. slot_of k = 0) (stale (services cur) (services new))))),
     lb_apply (after cur new 4) (map del_service (take n (filter (\<lambda>k. slot_of k \<noteq> 0) (stale (services cur) (services new))))),
     lb_apply (after cur new 5) (map del_backend (take n (stale (backends cur) (backends new))))}"
proof -
  have zero: "after cur new 0 = cur" by (simp add: after_def phase_ops_def lb_apply_def)
  define A where "A = map (\<lambda>kv. put_backend (fst kv) (snd kv)) (changed (backends cur) (backends new))"
  define B where "B = map (\<lambda>kv. put_service (fst kv) (snd kv)) (filter (\<lambda>kv. slot_of (fst kv) \<noteq> 0) (changed (services cur) (services new)))"
  define C where "C = map (\<lambda>kv. put_service (fst kv) (snd kv)) (filter (\<lambda>kv. slot_of (fst kv) = 0) (changed (services cur) (services new)))"
  define D where "D = map del_service (filter (\<lambda>k. slot_of k = 0) (stale (services cur) (services new)))"
  define E where "E = map del_service (filter (\<lambda>k. slot_of k \<noteq> 0) (stale (services cur) (services new)))"
  define F where "F = map del_backend (stale (backends cur) (backends new))"
  note defs = A_def B_def C_def D_def E_def F_def
  have after: "after cur new 1 = lb_apply cur A" "after cur new 2 = lb_apply cur (A @ B)" "after cur new 3 = lb_apply cur (A @ B @ C)"
    "after cur new 4 = lb_apply cur (A @ B @ C @ D)" "after cur new 5 = lb_apply cur (A @ B @ C @ D @ E)"
    unfolding One_nat_def after_Suc zero defs by (simp_all add: lb_apply_append)
  obtain n where "take j (A @ B @ C @ D @ E @ F) \<in> {take n A, A @ take n B, A @ B @ take n C, A @ B @ C @ take n D,
      A @ B @ C @ D @ take n E, A @ B @ C @ D @ E @ take n F}" using take_six by blast
  then have "lb_apply cur (take j (A @ B @ C @ D @ E @ F)) \<in> {lb_apply (after cur new 0) (take n A), lb_apply (after cur new 1) (take n B),
      lb_apply (after cur new 2) (take n C), lb_apply (after cur new 3) (take n D), lb_apply (after cur new 4) (take n E),
      lb_apply (after cur new 5) (take n F)}"
    unfolding after zero lb_apply_append [symmetric] append_assoc by (elim insertE emptyE) simp_all
  then show ?thesis unfolding plan defs take_map by blast
qed

lemma phase_closed:
  assumes ok: "bt_ok (services new)" "bt_ok (backends new)"
    and C: "closed (svc cur) (bck cur)" and D: "closed (svc new) (bck new)"
  shows "closed (svc (lb_apply (after cur new 0) (map (\<lambda>kv. put_backend (fst kv) (snd kv)) (take n (changed (backends cur) (backends new))))))
      (bck (lb_apply (after cur new 0) (map (\<lambda>kv. put_backend (fst kv) (snd kv)) (take n (changed (backends cur) (backends new))))))"
    (is ?p0)
    and "closed (svc (lb_apply (after cur new 1) (map (\<lambda>kv. put_service (fst kv) (snd kv)) (take n (filter (\<lambda>kv. slot_of (fst kv) \<noteq> 0) (changed (services cur) (services new)))))))
      (bck (after cur new 1))" (is ?p1)
    and "closed (svc (lb_apply (after cur new 2) (map (\<lambda>kv. put_service (fst kv) (snd kv)) (take n (filter (\<lambda>kv. slot_of (fst kv) = 0) (changed (services cur) (services new)))))))
      (bck (after cur new 2))" (is ?p2)
    and "closed (svc (lb_apply (after cur new 3) (map del_service (take n (filter (\<lambda>k. slot_of k = 0) (stale (services cur) (services new)))))))
      (bck (after cur new 3))" (is ?p3)
    and "closed (svc (lb_apply (after cur new 4) (map del_service (take n (filter (\<lambda>k. slot_of k \<noteq> 0) (stale (services cur) (services new)))))))
      (bck (after cur new 4))" (is ?p4)
    and "closed (svc (after cur new 5)) (bck (lb_apply (after cur new 5) (map del_backend (take n (stale (backends cur) (backends new))))))"
    (is ?p5)
proof -
  note get = after_services [OF ok(1), of cur]
  have both: "bck cur i \<noteq> None \<or> bck new i \<noteq> None \<Longrightarrow> bck (after cur new p) i \<noteq> None" if "p \<in> {1, 2, 3, 4, 5}" for p i
    using after_backends [OF ok(2) that, of cur i] by auto
  have put: "svc (lb_apply m (map (\<lambda>kv. put_service (fst kv) (snd kv)) (take n (filter (\<lambda>kv. P (fst kv)) (changed (services cur) (services new)))))) k =
      (svc m ++ map_of (take n (filter (\<lambda>kv. P (fst kv)) (changed (services cur) (services new))))) k" for m P k
    by (simp add: segments get_puts_take [OF ok(1)])
  have del: "svc (lb_apply m (map del_service (take n ks))) k = (if k \<in> set (take n ks) then None else svc m k)" for m ks k
    by (simp add: segments bt_get_dels restrict_map_def)
  show ?p0
    using closed_mono [OF C] puts_value [OF ok(2), of "bck cur" n "\<lambda>_. True" "backends cur"]
    by (simp add: segments after_0 get_puts_take [OF ok(2), of n "\<lambda>_. True", simplified]) (metis (no_types, lifting))
  show ?p1
  proof -
    define s where "s = svc (lb_apply (after cur new 1) (map (\<lambda>kv. put_service (fst kv) (snd kv)) (take n (filter (\<lambda>kv. slot_of (fst kv) \<noteq> 0) (changed (services cur) (services new))))))"
    have v: "s k = svc cur k \<or> slot_of k \<noteq> 0 \<and> svc new k \<noteq> None \<and> s k = svc new k" for k
      using puts_value [OF ok(1), of "svc (after cur new 1)" n "\<lambda>k. slot_of k \<noteq> 0" "services cur" k]
      unfolding s_def put [of _ "\<lambda>k. slot_of k \<noteq> 0"] get(1) by blast
    have "closed s (bck (after cur new 1))"
      by (rule closed_between [OF C D both]) (use v in \<open>simp_all, metis+\<close>)
    then show ?thesis by (simp only: s_def)
  qed
  show ?p2
  proof -
    define s where "s = svc (lb_apply (after cur new 2) (map (\<lambda>kv. put_service (fst kv) (snd kv)) (take n (filter (\<lambda>kv. slot_of (fst kv) = 0) (changed (services cur) (services new))))))"
    have v: "s k = svc (after cur new 2) k \<or> slot_of k = 0 \<and> svc new k \<noteq> None \<and> s k = svc new k" for k
      using puts_value [OF ok(1), of "svc (after cur new 2)" n "\<lambda>k. slot_of k = 0" "services cur" k]
      unfolding s_def put [of _ "\<lambda>k. slot_of k = 0"] by blast
    have "closed s (bck (after cur new 2))"
      by (rule closed_between [OF C D both]) (use v get(2) in \<open>simp_all, metis+\<close>)
    then show ?thesis by (simp only: s_def)
  qed
  show ?p3
  proof -
    define s where "s = svc (lb_apply (after cur new 3) (map del_service (take n (filter (\<lambda>k. slot_of k = 0) (stale (services cur) (services new))))))"
    have v: "s k = svc (after cur new 3) k \<or> slot_of k = 0 \<and> svc new k = None \<and> s k = None" for k
      using set_take_subset [of n "filter (\<lambda>k. slot_of k = 0) (stale (services cur) (services new))"]
      unfolding s_def del by (auto simp: stale_iff)
    have "closed s (bck (after cur new 3))"
      by (rule closed_between [OF C D both]) (use v get(3) in \<open>simp_all, metis+\<close>)
    then show ?thesis by (simp only: s_def)
  qed
  show ?p4
  proof -
    define s where "s = svc (lb_apply (after cur new 4) (map del_service (take n (filter (\<lambda>k. slot_of k \<noteq> 0) (stale (services cur) (services new))))))"
    have v: "s k = svc (after cur new 4) k \<or> slot_of k \<noteq> 0 \<and> svc new k = None \<and> s k = None" for k
      using set_take_subset [of n "filter (\<lambda>k. slot_of k \<noteq> 0) (stale (services cur) (services new))"]
      unfolding s_def del by (auto simp: stale_iff)
    have "closed s (bck (after cur new 4))"
      by (rule closed_between [OF C D both]) (use v get(4) in \<open>simp_all, metis+\<close>)
    then show ?thesis by (simp only: s_def)
  qed
  have "svc (after cur new 5) = svc new" using get(5) by blast
  moreover have "closed (svc new) (bck (lb_apply (after cur new 5) (map del_backend (take n (stale (backends cur) (backends new))))))"
  proof (rule closed_mono [OF D])
    fix i assume i: "bck new i \<noteq> None"
    then have "i \<notin> set (take n (stale (backends cur) (backends new)))"
      using set_take_subset by (fastforce simp: stale_iff)
    then show "bck (lb_apply (after cur new 5) (map del_backend (take n (stale (backends cur) (backends new))))) i \<noteq> None"
      using i after_backends [OF ok(2), of 5 cur i] by (auto simp: segments bt_get_dels)
  qed
  ultimately show ?p5 by simp
qed

lemma prefix_closed:
  assumes "bt_ok (services new)" "bt_ok (backends new)"
    and "closed (svc cur) (bck cur)" and "closed (svc new) (bck new)"
  shows "closed (svc (lb_apply cur (take j (lb_plan cur new)))) (bck (lb_apply cur (take j (lb_plan cur new))))"
proof -
  obtain i where "filter mine (take j (lb_plan cur new)) = take i (filter mine (lb_plan cur new))"
    using filter_take by blast
  then have "svc (lb_apply cur (take j (lb_plan cur new))) = svc (lb_apply cur (take i (filter mine (lb_plan cur new))))"
    "bck (lb_apply cur (take j (lb_plan cur new))) = bck (lb_apply cur (take i (filter mine (lb_plan cur new))))"
    using project_from [of cur cur "take j (lb_plan cur new)"] by simp_all
  then show ?thesis
    using prefix_phase [of cur i new] phase_closed [OF assms] by (auto simp: segments)
qed

lemma plan_complete:
  assumes "bt_ok (services new)" "bt_ok (backends new)" "bt_ok (services cur)" "bt_ok (backends cur)"
  shows "services (lb_apply cur (lb_plan cur new)) = services new \<and> backends (lb_apply cur (lb_plan cur new)) = backends new"
proof -
  have full: "lb_apply cur (filter mine (lb_plan cur new)) = after cur new 6"
    by (simp add: plan after_def phase_ops_def numeral_eq_Suc)
  have s: "bt_ok (services (after cur new 6))" and b: "bt_ok (backends (after cur new 6))"
    using assms(3,4) by (auto simp: after_Suc after_Suc(1) [unfolded One_nat_def [symmetric]] segments after_0 intro!: bt_ok_puts bt_ok_dels)
  have "svc (after cur new 6) = svc new" using after_services(5,6) [OF assms(1)] by auto
  with bt_ext [OF s assms(1)] have "services (after cur new 6) = services new" .
  moreover have "bck (after cur new 6) = bck new"
    using after_backends [OF assms(2), of 5 cur]
    by (auto simp: after_Suc(6) segments bt_get_dels restrict_map_def stale_iff fun_eq_iff)
  with bt_ext [OF b assms(2)] have "backends (after cur new 6) = backends new" .
  ultimately show ?thesis using project_from [of cur cur "lb_plan cur new"] full by simp
qed

end

section \<open>Both families\<close>

lemma key4_Some: "\<exists>k. key4 (V4 a, p, pr) sc j = Some k \<and> length k = 12 \<and> frontend4 k = ((V4 a, p, pr), sc, j)"
proof -
  let ?r = "\<lparr>l4k_address = to_be_bytes a, l4k_dport = be16_new p, l4k_backend_slot = j, l4k_proto = pr, l4k_scope = sc, l4k_pad = [0, 0]\<rparr>"
  have "lb4_key_ok ?r" by (simp add: lb4_key_ok_def)
  from lb4_key.enc_dec [OF this] show ?thesis by (auto simp: key4_def frontend4_def)
qed

lemma key6_Some: "\<exists>k. key6 (V6 a, p, pr) sc j = Some k \<and> length k = 24 \<and> frontend6 k = ((V6 a, p, pr), sc, j)"
proof -
  let ?r = "\<lparr>l6k_address = to_be_bytes a, l6k_dport = be16_new p, l6k_backend_slot = j, l6k_proto = pr, l6k_scope = sc, l6k_pad = [0, 0]\<rparr>"
  have "lb6_key_ok ?r" by (simp add: lb6_key_ok_def)
  from lb6_key.enc_dec [OF this] show ?thesis by (auto simp: key6_def frontend6_def)
qed

lemma key_None: "key4 (V6 a, q) sc j = None" "key6 (V4 b, q) sc j = None"
  by (cases q, simp add: key4_def key6_def)+

lemma key4_iff: "(\<exists>k. key4 f sc j = Some k) \<longleftrightarrow> is_ipv4 (fst f)"
  using key4_Some key_None(1) by (cases f; cases "fst f") (fastforce)+

lemma key6_iff: "(\<exists>k. key6 f sc j = Some k) \<longleftrightarrow> \<not> is_ipv4 (fst f)"
  using key6_Some key_None(2) by (cases f; cases "fst f") (fastforce)+

lemma key_frontend:
  "key4 f sc j = Some k \<Longrightarrow> frontend4 k = (f, sc, j) \<and> length k = 12"
  "key6 f sc j = Some k \<Longrightarrow> frontend6 k = (f, sc, j) \<and> length k = 24"
proof -
  obtain ip p pr where f: "f = (ip, p, pr)" by (cases f)
  show "frontend4 k = (f, sc, j) \<and> length k = 12" if k: "key4 f sc j = Some k"
  proof (cases ip)
    case (V4 a)
    then show ?thesis using k key4_Some [of a p pr sc j] unfolding f by auto
  qed (use k in \<open>simp add: f key_None\<close>)
  show "frontend6 k = (f, sc, j) \<and> length k = 24" if k: "key6 f sc j = Some k"
  proof (cases ip)
    case (V6 a)
    then show ?thesis using k key6_Some [of a p pr sc j] unfolding f by auto
  qed (use k in \<open>simp add: f key_None\<close>)
qed

fun is_op4 :: "op \<Rightarrow> bool" where
  "is_op4 (Backend4 _ _) = True" | "is_op4 (Service4 _ _) = True" | "is_op4 (DeleteService4 _) = True"
| "is_op4 (DeleteBackend4 _) = True" | "is_op4 _ = False"

fun is_op6 :: "op \<Rightarrow> bool" where
  "is_op6 (Backend6 _ _) = True" | "is_op6 (Service6 _ _) = True" | "is_op6 (DeleteService6 _) = True"
| "is_op6 (DeleteBackend6 _) = True" | "is_op6 _ = False"

lemma filter_map_all: "(\<And>x. P (f x)) \<Longrightarrow> filter P (map f xs) = map f xs"
  by (simp add: filter_map o_def)

lemma filter_map_none: "(\<And>x. \<not> P (f x)) \<Longrightarrow> filter P (map f xs) = []"
  by (simp add: filter_map o_def)

lemma plan4:
  "filter is_op4 (lb_plan cur new) =
      map (\<lambda>kv. Backend4 (fst kv) (snd kv)) (changed (mp_backends4 cur) (mp_backends4 new)) @
      map (\<lambda>kv. Service4 (fst kv) (snd kv)) (filter (\<lambda>kv. slot_of4 (fst kv) \<noteq> 0) (changed (mp_services4 cur) (mp_services4 new))) @
      map (\<lambda>kv. Service4 (fst kv) (snd kv)) (filter (\<lambda>kv. slot_of4 (fst kv) = 0) (changed (mp_services4 cur) (mp_services4 new))) @
      map DeleteService4 (filter (\<lambda>k. slot_of4 k = 0) (stale (mp_services4 cur) (mp_services4 new))) @
      map DeleteService4 (filter (\<lambda>k. slot_of4 k \<noteq> 0) (stale (mp_services4 cur) (mp_services4 new))) @
      map DeleteBackend4 (stale (mp_backends4 cur) (mp_backends4 new))"
  unfolding lb_plan_def plan_upserts_def plan_deletes_def filter_append
  by (simp add: filter_map_all filter_map_none split_beta')

lemma plan6:
  "filter is_op6 (lb_plan cur new) =
      map (\<lambda>kv. Backend6 (fst kv) (snd kv)) (changed (mp_backends6 cur) (mp_backends6 new)) @
      map (\<lambda>kv. Service6 (fst kv) (snd kv)) (filter (\<lambda>kv. slot_of6 (fst kv) \<noteq> 0) (changed (mp_services6 cur) (mp_services6 new))) @
      map (\<lambda>kv. Service6 (fst kv) (snd kv)) (filter (\<lambda>kv. slot_of6 (fst kv) = 0) (changed (mp_services6 cur) (mp_services6 new))) @
      map DeleteService6 (filter (\<lambda>k. slot_of6 k = 0) (stale (mp_services6 cur) (mp_services6 new))) @
      map DeleteService6 (filter (\<lambda>k. slot_of6 k \<noteq> 0) (stale (mp_services6 cur) (mp_services6 new))) @
      map DeleteBackend6 (stale (mp_backends6 cur) (mp_backends6 new))"
  unfolding lb_plan_def plan_upserts_def plan_deletes_def filter_append
  by (simp add: filter_map_all filter_map_none split_beta')

interpretation family4: lb_family mp_services4 mp_backends4 slot_of4 key4 Service4 DeleteService4 Backend4 DeleteBackend4 is_op4
proof
  show "w \<in> range (\<lambda>kv. Service4 (fst kv) (snd kv)) \<union> range DeleteService4 \<union>
      range (\<lambda>kv. Backend4 (fst kv) (snd kv)) \<union> range DeleteBackend4" if "is_op4 w" for w
    using that by (cases w) (auto simp: image_iff)
  show "mp_services4 (apply_op w m) = mp_services4 m \<and> mp_backends4 (apply_op w m) = mp_backends4 m" if "\<not> is_op4 w" for w m
    using that by (cases w) auto
  show "slot_of4 k = j" if "key4 f sc j = Some k" for f sc j k using key_frontend(1) [OF that] by simp
  show "\<exists>k'. key4 f sc j = Some k'" if "key4 f sc j0 = Some k" for f sc j j0 k
    using that key4_iff by blast
qed (simp_all add: plan4)

interpretation family6: lb_family mp_services6 mp_backends6 slot_of6 key6 Service6 DeleteService6 Backend6 DeleteBackend6 is_op6
proof
  show "w \<in> range (\<lambda>kv. Service6 (fst kv) (snd kv)) \<union> range DeleteService6 \<union>
      range (\<lambda>kv. Backend6 (fst kv) (snd kv)) \<union> range DeleteBackend6" if "is_op6 w" for w
    using that by (cases w) (auto simp: image_iff)
  show "mp_services6 (apply_op w m) = mp_services6 m \<and> mp_backends6 (apply_op w m) = mp_backends6 m" if "\<not> is_op6 w" for w m
    using that by (cases w) auto
  show "slot_of6 k = j" if "key6 f sc j = Some k" for f sc j k using key_frontend(2) [OF that] by simp
  show "\<exists>k'. key6 f sc j = Some k'" if "key6 f sc j0 = Some k" for f sc j j0 k
    using that key6_iff by blast
qed (simp_all add: plan6)

section \<open>The other maps\<close>

locale lb_table =
  fixes tbl :: "maps \<Rightarrow> ('k::linorder, 'v) btree_map"
    and put_table :: "'k \<Rightarrow> 'v \<Rightarrow> op"
    and del_table :: "'k \<Rightarrow> op"
    and mine :: "op \<Rightarrow> bool"
  assumes put_table: "tbl (apply_op (put_table i t) m) = bt_insert i t (tbl m)"
    and del_table: "tbl (apply_op (del_table i) m) = bt_remove i (tbl m)"
    and mine: "mine w \<Longrightarrow> w \<in> range (\<lambda>kv. put_table (fst kv) (snd kv)) \<union> range del_table"
    and other: "\<not> mine w \<Longrightarrow> tbl (apply_op w m) = tbl m"
    and plan: "filter mine (lb_plan cur new) =
      map (\<lambda>kv. put_table (fst kv) (snd kv)) (changed (tbl cur) (tbl new)) @ map del_table (stale (tbl cur) (tbl new))"
begin

lemma project_from: "tbl m = tbl m' \<Longrightarrow> tbl (lb_apply m ops) = tbl (lb_apply m' (filter mine ops))"
proof (induction ops arbitrary: m m')
  case (Cons w ops)
  show ?case
  proof (cases "mine w")
    case True
    have "tbl (apply_op w m) = tbl (apply_op w m')" using mine [OF True] Cons.prems by (auto simp: put_table del_table)
    with Cons True show ?thesis by (simp add: lb_apply_def)
  next
    case False
    with Cons other [of w m] show ?thesis by (simp add: lb_apply_def)
  qed
qed (simp add: lb_apply_def)

lemma plan_complete:
  assumes "bt_ok (tbl cur)" "bt_ok (tbl new)"
  shows "tbl (lb_apply cur (lb_plan cur new)) = tbl new"
proof -
  have put: "tbl (lb_apply m (map (\<lambda>kv. put_table (fst kv) (snd kv)) kvs)) = bt_puts kvs (tbl m)" for m kvs
    by (induction kvs arbitrary: m) (simp_all add: lb_apply_def bt_puts_def put_table)
  have del: "tbl (lb_apply m (map del_table ks)) = bt_dels ks (tbl m)" for m ks
    by (induction ks arbitrary: m) (simp_all add: lb_apply_def bt_dels_def del_table)
  have "tbl (lb_apply cur (lb_plan cur new)) = bt_dels (stale (tbl cur) (tbl new)) (bt_puts (changed (tbl cur) (tbl new)) (tbl cur))"
    using project_from [of cur cur "lb_plan cur new"] by (simp add: plan lb_apply_append put del)
  moreover have "bt_get (bt_dels (stale (tbl cur) (tbl new)) (bt_puts (changed (tbl cur) (tbl new)) (tbl cur))) k = bt_get (tbl new) k" for k
    using bt_get_puts [OF changed_distinct [OF assms(2), of "\<lambda>_. True" "tbl cur"], of "tbl cur"]
      map_of_changed [OF assms(2), of "\<lambda>_. True" "tbl cur" k]
    by (auto simp: bt_get_dels restrict_map_def stale_iff map_add_def split: option.splits if_splits)
  ultimately show ?thesis using assms by (intro bt_ext) (auto simp: bt_ok_puts bt_ok_dels)
qed

end

fun is_maglev4 :: "op \<Rightarrow> bool" where
  "is_maglev4 (Maglev4 _ _) = True" | "is_maglev4 (DeleteMaglev4 _) = True" | "is_maglev4 _ = False"

fun is_maglev6 :: "op \<Rightarrow> bool" where
  "is_maglev6 (Maglev6 _ _) = True" | "is_maglev6 (DeleteMaglev6 _) = True" | "is_maglev6 _ = False"

lemma plan_tables:
  "filter is_maglev4 (lb_plan cur new) =
     map (\<lambda>kv. Maglev4 (fst kv) (snd kv)) (changed (mp_maglev4 cur) (mp_maglev4 new)) @ map DeleteMaglev4 (stale (mp_maglev4 cur) (mp_maglev4 new))"
  "filter is_maglev6 (lb_plan cur new) =
     map (\<lambda>kv. Maglev6 (fst kv) (snd kv)) (changed (mp_maglev6 cur) (mp_maglev6 new)) @ map DeleteMaglev6 (stale (mp_maglev6 cur) (mp_maglev6 new))"
  unfolding lb_plan_def plan_upserts_def plan_deletes_def filter_append
  by (simp_all add: filter_map_all filter_map_none split_beta')

interpretation table4: lb_table mp_maglev4 Maglev4 DeleteMaglev4 is_maglev4
proof
  show "w \<in> range (\<lambda>kv. Maglev4 (fst kv) (snd kv)) \<union> range DeleteMaglev4" if "is_maglev4 w" for w
    using that by (cases w) (auto simp: image_iff)
  show "mp_maglev4 (apply_op w m) = mp_maglev4 m" if "\<not> is_maglev4 w" for w m using that by (cases w) auto
qed (simp_all add: plan_tables)

interpretation table6: lb_table mp_maglev6 Maglev6 DeleteMaglev6 is_maglev6
proof
  show "w \<in> range (\<lambda>kv. Maglev6 (fst kv) (snd kv)) \<union> range DeleteMaglev6" if "is_maglev6 w" for w
    using that by (cases w) (auto simp: image_iff)
  show "mp_maglev6 (apply_op w m) = mp_maglev6 m" if "\<not> is_maglev6 w" for w m using that by (cases w) auto
qed (simp_all add: plan_tables)

text \<open>The matches of session affinity are a set.\<close>

fun match_puts :: "op list \<Rightarrow> u8 list set" where
  "match_puts [] = {}"
| "match_puts (AffinityMatch k # ops) = insert k (match_puts ops)"
| "match_puts (_ # ops) = match_puts ops"

fun match_dels :: "op list \<Rightarrow> u8 list set" where
  "match_dels [] = {}"
| "match_dels (DeleteAffinityMatch k # ops) = insert k (match_dels ops)"
| "match_dels (_ # ops) = match_dels ops"

lemma matches_apply:
  assumes "bs_ok (mp_affinity_match m)" "match_puts ops \<inter> match_dels ops = {}"
  shows "set (mp_affinity_match (lb_apply m ops)) = set (mp_affinity_match m) \<union> match_puts ops - match_dels ops \<and>
    bs_ok (mp_affinity_match (lb_apply m ops))"
  using assms
proof (induction ops arbitrary: m)
  case (Cons w ops)
  have ok: "bs_ok (mp_affinity_match (apply_op w m))" using Cons.prems(1) by (cases w) (auto simp: bs_ok_insert bs_ok_remove)
  have "match_puts ops \<inter> match_dels ops = {}" using Cons.prems(2) by (cases w) auto
  from Cons.IH [OF ok this] Cons.prems(2) show ?case by (cases w) (auto simp: lb_apply_def)
qed (simp add: lb_apply_def)

lemma match_append: "match_puts (a @ b) = match_puts a \<union> match_puts b" "match_dels (a @ b) = match_dels a \<union> match_dels b"
proof -
  show "match_puts (a @ b) = match_puts a \<union> match_puts b" by (induction a rule: match_puts.induct) auto
  show "match_dels (a @ b) = match_dels a \<union> match_dels b" by (induction a rule: match_dels.induct) auto
qed

section \<open>The plan\<close>

definition maps_ok :: "maps \<Rightarrow> bool" where
  "maps_ok m \<longleftrightarrow> bt_ok (mp_services4 m) \<and> bt_ok (mp_backends4 m) \<and> bt_ok (mp_services6 m) \<and> bt_ok (mp_backends6 m) \<and>
     bs_ok (mp_affinity_match m) \<and> bt_ok (mp_maglev4 m) \<and> bt_ok (mp_maglev6 m)"

definition maps_closed :: "maps \<Rightarrow> bool" where
  "maps_closed m \<longleftrightarrow>
     (\<forall>f sc slot e. slot \<noteq> 0 \<and> lookup_service m f sc slot = Some e \<longrightarrow> lookup_backend m f (lbs_backend_id e) \<noteq> None) \<and>
     (\<forall>f sc e. lookup_service m f sc 0 = Some e \<longrightarrow>
        (\<forall>slot\<in>set (slot_range (lbs_count e)). lookup_service m f sc slot \<noteq> None))"

lemma match_plan:
  "match_puts (lb_plan cur new) = set (mp_affinity_match new) - set (mp_affinity_match cur)"
  "match_dels (lb_plan cur new) = set (mp_affinity_match cur) - set (mp_affinity_match new)"
proof -
  have other: "match_puts (map f xs) = {}" if "\<And>x k. f x \<noteq> AffinityMatch k" for f :: "'a \<Rightarrow> op" and xs
    using that by (induction xs) (simp, case_tac "f a", auto)
  have other': "match_dels (map f xs) = {}" if "\<And>x k. f x \<noteq> DeleteAffinityMatch k" for f :: "'a \<Rightarrow> op" and xs
    using that by (induction xs) (simp, case_tac "f a", auto)
  have puts: "match_puts (map AffinityMatch ks) = set ks" "match_dels (map DeleteAffinityMatch ks) = set ks" for ks
    by (induction ks) auto
  show "match_puts (lb_plan cur new) = set (mp_affinity_match new) - set (mp_affinity_match cur)"
    "match_dels (lb_plan cur new) = set (mp_affinity_match cur) - set (mp_affinity_match new)"
    unfolding lb_plan_def plan_upserts_def plan_deletes_def match_append
    by (simp_all add: puts other other' split_beta' set_diff_eq)
qed

lemma lookup4: "key4 f sc j = Some k \<Longrightarrow> lookup_service m f sc j = map_option service_of (bt_get (mp_services4 m) k)"
  by (cases f; cases "fst f") (auto simp: lookup_service_def key_None)

lemma lookup6: "key6 f sc j = Some k \<Longrightarrow> lookup_service m f sc j = map_option service_of (bt_get (mp_services6 m) k)"
  by (cases f; cases "fst f") (auto simp: lookup_service_def key_None)

lemma lookup_family:
  "is_ipv4 (fst f) \<Longrightarrow> lookup_backend m f i = map_option backend4 (bt_get (mp_backends4 m) i)"
  "\<not> is_ipv4 (fst f) \<Longrightarrow> lookup_backend m f i = map_option backend6 (bt_get (mp_backends6 m) i)"
  by (cases "fst f"; simp add: lookup_backend_def)+

lemma maps_closed_iff:
  "maps_closed m \<longleftrightarrow> family4.closed (bt_get (mp_services4 m)) (bt_get (mp_backends4 m)) \<and>
     family6.closed (bt_get (mp_services6 m)) (bt_get (mp_backends6 m))"
proof -
  define Q where "Q f sc \<longleftrightarrow>
      (\<forall>j e. j \<noteq> 0 \<and> lookup_service m f sc j = Some e \<longrightarrow> lookup_backend m f (lbs_backend_id e) \<noteq> None) \<and>
      (\<forall>e. lookup_service m f sc 0 = Some e \<longrightarrow> (\<forall>j\<in>set (slot_range (lbs_count e)). lookup_service m f sc j \<noteq> None))" for f sc
  define R4 where "R4 f sc \<longleftrightarrow>
      (\<forall>j k v. key4 f sc j = Some k \<and> j \<noteq> 0 \<and> bt_get (mp_services4 m) k = Some v \<longrightarrow> bt_get (mp_backends4 m) (lbs_backend_id (service_of v)) \<noteq> None) \<and>
      (\<forall>k v. key4 f sc 0 = Some k \<and> bt_get (mp_services4 m) k = Some v \<longrightarrow>
        (\<forall>j\<in>set (slot_range (lbs_count (service_of v))). \<forall>k'. key4 f sc j = Some k' \<longrightarrow> bt_get (mp_services4 m) k' \<noteq> None))" for f sc
  have r4: "R4 f sc \<longleftrightarrow> Q f sc" if f: "is_ipv4 (fst f)" for f sc
  proof -
    obtain K where K: "key4 f sc j = Some (K j)" for j using f key4_iff by metis
    show ?thesis unfolding Q_def R4_def using lookup4 [OF K] lookup_family(1) [OF f] by (simp add: K) blast
  qed
  have "R4 f sc" if "\<not> is_ipv4 (fst f)" for f sc unfolding R4_def using that key4_iff [of f] by blast
  then have c4: "family4.closed (bt_get (mp_services4 m)) (bt_get (mp_backends4 m)) \<longleftrightarrow> (\<forall>f sc. is_ipv4 (fst f) \<longrightarrow> Q f sc)"
  proof -
    have "family4.closed (bt_get (mp_services4 m)) (bt_get (mp_backends4 m)) \<longleftrightarrow> (\<forall>f sc. R4 f sc)"
      unfolding family4.closed_def R4_def by blast
    then show ?thesis using r4 \<open>\<And>sc f. \<not> is_ipv4 (fst f) \<Longrightarrow> R4 f sc\<close> by blast
  qed
  define R6 where "R6 f sc \<longleftrightarrow>
      (\<forall>j k v. key6 f sc j = Some k \<and> j \<noteq> 0 \<and> bt_get (mp_services6 m) k = Some v \<longrightarrow> bt_get (mp_backends6 m) (lbs_backend_id (service_of v)) \<noteq> None) \<and>
      (\<forall>k v. key6 f sc 0 = Some k \<and> bt_get (mp_services6 m) k = Some v \<longrightarrow>
        (\<forall>j\<in>set (slot_range (lbs_count (service_of v))). \<forall>k'. key6 f sc j = Some k' \<longrightarrow> bt_get (mp_services6 m) k' \<noteq> None))" for f sc
  have r6: "R6 f sc \<longleftrightarrow> Q f sc" if f: "\<not> is_ipv4 (fst f)" for f sc
  proof -
    obtain K where K: "key6 f sc j = Some (K j)" for j using f key6_iff by metis
    show ?thesis unfolding Q_def R6_def using lookup6 [OF K] lookup_family(2) [OF f] by (simp add: K) blast
  qed
  have "R6 f sc" if "is_ipv4 (fst f)" for f sc unfolding R6_def using that key6_iff [of f] by blast
  then have c6: "family6.closed (bt_get (mp_services6 m)) (bt_get (mp_backends6 m)) \<longleftrightarrow> (\<forall>f sc. \<not> is_ipv4 (fst f) \<longrightarrow> Q f sc)"
  proof -
    have "family6.closed (bt_get (mp_services6 m)) (bt_get (mp_backends6 m)) \<longleftrightarrow> (\<forall>f sc. R6 f sc)"
      unfolding family6.closed_def R6_def by blast
    then show ?thesis using r6 \<open>\<And>sc f. is_ipv4 (fst f) \<Longrightarrow> R6 f sc\<close> by blast
  qed
  have "maps_closed m \<longleftrightarrow> (\<forall>f sc. Q f sc)" unfolding maps_closed_def Q_def by blast
  then show ?thesis unfolding c4 c6 by blast
qed

lemma closed_resolves:
  assumes "maps_closed m"
  shows "resolve_scope m f sc \<noteq> Some (Inl e)"
proof -
  have "\<exists>bs. resolve_slots m f sc slots = Inr bs" if "\<forall>j\<in>set slots. j \<noteq> 0 \<and> lookup_service m f sc j \<noteq> None" for slots
    using that
  proof (induction slots)
    case (Cons j slots)
    obtain e where e: "lookup_service m f sc j = Some e" "j \<noteq> 0" using Cons.prems by auto
    then obtain b where b: "lookup_backend m f (lbs_backend_id e) = Some b" using assms unfolding maps_closed_def by blast
    obtain bs where "resolve_slots m f sc slots = Inr bs" using Cons by auto
    then show ?case using e b by simp
  qed simp
  moreover have "\<forall>j\<in>set (slot_range (lbs_count e)). j \<noteq> 0 \<and> lookup_service m f sc j \<noteq> None"
    if "lookup_service m f sc 0 = Some e" for e
    using that assms family4.slot_range_nonzero unfolding maps_closed_def by blast
  ultimately show ?thesis unfolding resolve_scope_def by (cases "lookup_service m f sc 0") fastforce+
qed

lemma maps_plan_complete:
  assumes "maps_ok current" and "maps_ok new"
  shows "lb_apply current (lb_plan current new) = new"
proof -
  note ok = assms [unfolded maps_ok_def]
  let ?m = "lb_apply current (lb_plan current new)"
  have "mp_affinity_match ?m = mp_affinity_match new"
    using matches_apply [of current "lb_plan current new"] ok by (intro bs_ext) (auto simp: match_plan)
  then show ?thesis
    using family4.plan_complete [of new current] family6.plan_complete [of new current]
      table4.plan_complete [of current new] table6.plan_complete [of current new] ok
    by (intro maps.equality) simp_all
qed

lemma maps_prefix_closed:
  assumes "maps_ok new" and "maps_closed current" and "maps_closed new"
  shows "maps_closed (lb_apply current (take n (lb_plan current new)))"
  using assms family4.prefix_closed [of new current n] family6.prefix_closed [of new current n]
  unfolding maps_closed_iff maps_ok_def by blast

text \<open>
  Applying the whole plan turns the current maps into exactly the desired maps, whatever the two are:
  services, backends, session-affinity matches and lookup tables of both address families.
\<close>

theorem plan_reaches_desired:
  assumes "maps_ok current" and "maps_ok new"
  shows "lb_apply current (lb_plan current new) = new"
  by (rule maps_plan_complete [OF assms])

text \<open>
  C10. The order of the writes protects concurrent lookups. If both the current and the desired maps are
  closed (every slot a master counts exists, every slot names an existing backend of its family), then so
  are the maps after any number of the planned writes, and no lookup in between meets a missing slot or
  a missing backend.
\<close>

theorem plan_prefix_safe:
  assumes "maps_ok new" and "maps_closed current" and "maps_closed new"
  shows "maps_closed (lb_apply current (take n (lb_plan current new))) \<and>
    resolve_scope (lb_apply current (take n (lb_plan current new))) f sc \<noteq> Some (Inl e)"
  using maps_prefix_closed [OF assms] closed_resolves by blast

end
