(* ===== verification/SocketDesired.thy ===== *)
theory SocketDesired
  imports SocketPlan
begin

text \<open>
  Correctness of the desired map contents of \<open>flowsdn-lb/src/socket.rs\<close>: identifiers are recovered or
  fresh, every service resolves to exactly its backends, and the contents are closed, so that the plan
  towards them protects lookups.
\<close>

section \<open>Identifiers\<close>

lemma first_unused_spec: "first_unused used n = Some i \<Longrightarrow> i \<notin> set used"
proof (induction used n rule: first_unused.induct)
  case (1 used n)
  from 1(2) show ?case
    by (subst (asm) first_unused.simps) (auto split: if_splits option.splits dest: 1(1))
qed

lemma ids_allocate_spec:
  assumes "ids_allocate st = Some (i, st')"
  shows "i \<notin> set (id_used st)" "set (id_used st') = insert i (set (id_used st))" "id_max st' = id_max st" "i \<le> id_max st"
  using assms first_unused_spec [of "id_used st" "id_next st"]
  by (auto simp: ids_allocate_def split: option.splits if_splits)

definition ids_ok :: "(address, u32) btree_map \<Rightarrow> ids \<Rightarrow> bool" where
  "ids_ok m pool \<longleftrightarrow>
     (\<forall>a i. bt_get m a = Some i \<longrightarrow> i \<in> set (id_used pool)) \<and>
     (\<forall>a b i. bt_get m a = Some i \<and> bt_get m b = Some i \<and> is_ipv4 (fst a) = is_ipv4 (fst b) \<longrightarrow> a = b)"

lemma ids_ok_fresh:
  assumes "ids_ok m pool" "ids_allocate pool = Some (i, pool')"
  shows "ids_ok (bt_insert a i m) pool'"
  using assms ids_allocate_spec [OF assms(2)] unfolding ids_ok_def by (auto split: if_splits)

section \<open>Backends\<close>

definition backend_in :: "maps \<Rightarrow> address \<Rightarrow> u32 \<Rightarrow> bool" where
  "backend_in m b i = (if is_ipv4 (fst b) then bt_get (mp_backends4 m) i = backend_bytes4 b else bt_get (mp_backends6 m) i = backend_bytes6 b)"

lemma backend_bytes4_Some: "\<exists>v. backend_bytes4 (V4 a, p, pr) = Some v \<and> length v = 12 \<and> backend4 v = (V4 a, p, pr)"
proof -
  let ?r = "\<lparr>l4b_address = to_be_bytes a, l4b_port = be16_new p, l4b_proto = pr, l4b_flags = 0, l4b_cluster_id = 0, l4b_zone = 0, l4b_pad = 0\<rparr>"
  have "lb4_backend_ok ?r" by (simp add: lb4_backend_ok_def)
  from lb4_backend.enc_dec [OF this] show ?thesis by (auto simp: backend_bytes4_def backend4_def)
qed

lemma backend_bytes6_Some: "\<exists>v. backend_bytes6 (V6 a, p, pr) = Some v \<and> length v = 24 \<and> backend6 v = (V6 a, p, pr)"
proof -
  let ?r = "\<lparr>l6b_address = to_be_bytes a, l6b_port = be16_new p, l6b_proto = pr, l6b_flags = 0, l6b_cluster_id = 0, l6b_zone = 0, l6b_pad = 0\<rparr>"
  have "lb6_backend_ok ?r" by (simp add: lb6_backend_ok_def)
  from lb6_backend.enc_dec [OF this] show ?thesis by (auto simp: backend_bytes6_def backend6_def)
qed

lemma backend_bytes:
  "is_ipv4 (fst b) \<Longrightarrow> \<exists>v. backend_bytes4 b = Some v \<and> backend4 v = b"
  "\<not> is_ipv4 (fst b) \<Longrightarrow> \<exists>v. backend_bytes6 b = Some v \<and> backend6 v = b"
proof -
  obtain ip p pr where b: "b = (ip, p, pr)" by (cases b)
  show "is_ipv4 (fst b) \<Longrightarrow> \<exists>v. backend_bytes4 b = Some v \<and> backend4 v = b"
    using backend_bytes4_Some [of _ p pr] unfolding b by (cases ip) auto
  show "\<not> is_ipv4 (fst b) \<Longrightarrow> \<exists>v. backend_bytes6 b = Some v \<and> backend6 v = b"
    using backend_bytes6_Some [of _ p pr] unfolding b by (cases ip) auto
qed

lemma backend_in_lookup:
  assumes "backend_in m b i" "is_ipv4 (fst f) = is_ipv4 (fst b)"
  shows "lookup_backend m f i = Some b"
  using assms backend_bytes [of b] by (cases "is_ipv4 (fst b)") (auto simp: backend_in_def lookup_family)

text \<open>The backend maps after one more backend, and everything else unchanged.\<close>

lemma insert_backend_cases:
  assumes "insert_backend b i m = Inr m'"
  obtains v where "is_ipv4 (fst b)" "backend_bytes4 b = Some v" "m' = m\<lparr>mp_backends4 := bt_insert i v (mp_backends4 m)\<rparr>"
    | v where "\<not> is_ipv4 (fst b)" "backend_bytes6 b = Some v" "m' = m\<lparr>mp_backends6 := bt_insert i v (mp_backends6 m)\<rparr>"
  using assms by (cases "fst b") (auto simp: insert_backend_def split: option.splits)

lemma insert_backend_spec:
  assumes "insert_backend b i m = Inr m'"
  shows "backend_in m' b i \<and> mp_services4 m' = mp_services4 m \<and> mp_services6 m' = mp_services6 m \<and>
    mp_maglev4 m' = mp_maglev4 m \<and> mp_maglev6 m' = mp_maglev6 m \<and> (maps_ok m \<longrightarrow> maps_ok m')"
  using assms by (rule insert_backend_cases) (auto simp: backend_in_def maps_ok_def bt_ok_insert)

lemma insert_backend_keeps:
  assumes "insert_backend b i m = Inr m'" "backend_in m a n" "n = i \<and> is_ipv4 (fst a) = is_ipv4 (fst b) \<Longrightarrow> a = b"
  shows "backend_in m' a n"
  using assms(1)
proof (rule insert_backend_cases)
  fix v assume v: "is_ipv4 (fst b)" "backend_bytes4 b = Some v" "m' = m\<lparr>mp_backends4 := bt_insert i v (mp_backends4 m)\<rparr>"
  then show ?thesis using assms(2,3) by (cases "n = i \<and> is_ipv4 (fst a)") (auto simp: backend_in_def)
next
  fix v assume v: "\<not> is_ipv4 (fst b)" "backend_bytes6 b = Some v" "m' = m\<lparr>mp_backends6 := bt_insert i v (mp_backends6 m)\<rparr>"
  then show ?thesis using assms(2,3) by (cases "n = i \<and> \<not> is_ipv4 (fst a)") (auto simp: backend_in_def)
qed

lemma insert_affinity_spec [simp]:
  "mp_services4 (insert_affinity sv n i m) = mp_services4 m" "mp_services6 (insert_affinity sv n i m) = mp_services6 m"
  "mp_backends4 (insert_affinity sv n i m) = mp_backends4 m" "mp_backends6 (insert_affinity sv n i m) = mp_backends6 m"
  "mp_maglev4 (insert_affinity sv n i m) = mp_maglev4 m" "mp_maglev6 (insert_affinity sv n i m) = mp_maglev6 m"
  "maps_ok m \<Longrightarrow> maps_ok (insert_affinity sv n i m)" "backend_in (insert_affinity sv n i m) = backend_in m"
  by (auto simp: insert_affinity_def maps_ok_def backend_in_def bs_ok_insert fun_eq_iff)

section \<open>The backends of one service\<close>

definition slot_entry :: "u32 \<Rightarrow> u16 \<Rightarrow> lb_service" where
  "slot_entry backend_id i = lb_service_default\<lparr>lbs_union_raw := backend_id, lbs_rev_nat_index := i\<rparr>"

text \<open>What holds while the backends \<open>pre\<close> of a service have been placed, starting from \<open>st0\<close>.\<close>

definition placing_inv :: "u16 \<Rightarrow> placing \<Rightarrow> address list \<Rightarrow> placing \<Rightarrow> bool" where
  "placing_inv i st0 pre st \<longleftrightarrow>
     ids_ok (pl_backend_ids st) (pl_pool st) \<and> maps_ok (pl_maps st) \<and>
     (\<forall>a n. bt_get (pl_backend_ids st0) a = Some n \<longrightarrow> bt_get (pl_backend_ids st) a = Some n) \<and>
     mp_services4 (pl_maps st) = mp_services4 (pl_maps st0) \<and> mp_services6 (pl_maps st) = mp_services6 (pl_maps st0) \<and>
     mp_maglev4 (pl_maps st) = mp_maglev4 (pl_maps st0) \<and> mp_maglev6 (pl_maps st) = mp_maglev6 (pl_maps st0) \<and>
     (\<forall>a n. backend_in (pl_maps st0) a n \<and> bt_get (pl_backend_ids st0) a = Some n \<longrightarrow> backend_in (pl_maps st) a n) \<and>
     (\<forall>b\<in>set pre. \<exists>n. bt_get (pl_backend_ids st) b = Some n \<and> backend_in (pl_maps st) b n) \<and>
     pl_slots st = pl_slots st0 @ map (\<lambda>j. (of_nat (j + 1), slot_entry (the (bt_get (pl_backend_ids st) (pre ! j))) i)) [0..<length pre]"

lemma backend_id_for_spec:
  assumes "backend_id_for b st = Inr (n, st')" "ids_ok (pl_backend_ids st) (pl_pool st)"
  shows "bt_get (pl_backend_ids st') b = Some n \<and> ids_ok (pl_backend_ids st') (pl_pool st') \<and>
    (\<forall>a k. bt_get (pl_backend_ids st) a = Some k \<longrightarrow> bt_get (pl_backend_ids st') a = Some k) \<and>
    pl_maps st' = pl_maps st \<and> pl_slots st' = pl_slots st \<and> pl_table st' = pl_table st"
  using assms ids_ok_fresh [OF assms(2), of n _ b] by (auto simp: backend_id_for_def simp del: split_paired_All split: option.splits)

lemma slot_number_spec: "slot_number j = Some s \<Longrightarrow> s = of_nat (j + 1) \<and> j < 65535"
  by (auto simp: slot_number_def checked_add_def unat_of_nat split: if_splits)

lemma place_backend_inv:
  assumes inv: "placing_inv i st0 pre st" and run: "place_backend sv i (length pre) b st = Inr st'"
  shows "placing_inv i st0 (pre @ [b]) st'"
proof -
  obtain n st1 where 1: "backend_id_for b st = Inr (n, st1)" using run by (auto simp: place_backend_def split: sum.splits)
  obtain m where 2: "insert_backend b n (pl_maps st1) = Inr m" using run 1 by (auto simp: place_backend_def split: sum.splits)
  obtain s tbl where 3: "slot_number (length pre) = Some s"
    "st' = st1\<lparr>pl_maps := insert_affinity sv n i m, pl_table := tbl, pl_slots := pl_slots st1 @ [(s, slot_entry n i)]\<rparr>"
    using run 1 2 by (auto simp: place_backend_def Let_def slot_entry_def split: sum.splits option.splits)
  note I = inv [unfolded placing_inv_def]
  have ok: "ids_ok (pl_backend_ids st) (pl_pool st)"
    and pre: "\<And>x. x \<in> set pre \<Longrightarrow> \<exists>k. bt_get (pl_backend_ids st) x = Some k \<and> backend_in (pl_maps st) x k"
    and slots0: "pl_slots st = pl_slots st0 @ map (\<lambda>j. (of_nat (j + 1), slot_entry (the (bt_get (pl_backend_ids st) (pre ! j))) i)) [0..<length pre]"
    using I by blast+
  note id = backend_id_for_spec [OF 1 ok]
  note ins = insert_backend_spec [OF 2]
  have keep: "backend_in m a k" if "backend_in (pl_maps st) a k" "bt_get (pl_backend_ids st) a = Some k" for a k
    using insert_backend_keeps [OF 2, of a k] id that unfolding ids_ok_def by metis
  let ?ids = "bt_get (pl_backend_ids st')"
  have fields: "?ids = bt_get (pl_backend_ids st1)" "pl_maps st' = insert_affinity sv n i m" "pl_pool st' = pl_pool st1"
    "pl_slots st' = pl_slots st @ [(s, slot_entry n i)]" using 3 id by simp_all
  have ext: "?ids a = Some k" if "bt_get (pl_backend_ids st) a = Some k" for a k using id that fields(1) by metis
  have placed: "\<forall>x\<in>set (pre @ [b]). \<exists>k. ?ids x = Some k \<and> backend_in (pl_maps st') x k"
  proof
    fix x assume "x \<in> set (pre @ [b])"
    then consider "x = b" | "x \<in> set pre" by auto
    then show "\<exists>k. ?ids x = Some k \<and> backend_in (pl_maps st') x k"
    proof cases
      case 1
      then show ?thesis using id ins fields by simp
    next
      case 2
      then obtain k where k: "bt_get (pl_backend_ids st) x = Some k" "backend_in (pl_maps st) x k" using pre by blast
      show ?thesis using ext [OF k(1)] keep [OF k(2,1)] unfolding fields(2) insert_affinity_spec(8) by blast
    qed
  qed
  have old: "slot_entry (the (?ids (pre ! j))) i = slot_entry (the (bt_get (pl_backend_ids st) (pre ! j))) i" if j: "j < length pre" for j
  proof -
    obtain k where "bt_get (pl_backend_ids st) (pre ! j) = Some k" using pre [OF nth_mem [OF j]] by blast
    then show ?thesis using ext by simp
  qed
  have slots: "pl_slots st' = pl_slots st0 @ map (\<lambda>j. (of_nat (j + 1), slot_entry (the (?ids ((pre @ [b]) ! j))) i)) [0..<length (pre @ [b])]"
    using slots0 fields(1,4) slot_number_spec [OF 3(1)] id old by (simp add: nth_append)
  have ids': "ids_ok (pl_backend_ids st') (pl_pool st')" using id 3(2) by simp
  have maps': "maps_ok (pl_maps st')" "mp_services4 (pl_maps st') = mp_services4 (pl_maps st)"
    "mp_services6 (pl_maps st') = mp_services6 (pl_maps st)" "mp_maglev4 (pl_maps st') = mp_maglev4 (pl_maps st)"
    "mp_maglev6 (pl_maps st') = mp_maglev6 (pl_maps st)"
    using ins id I by (simp_all add: fields(2))
  have keep': "backend_in (pl_maps st') a k" if "backend_in (pl_maps st0) a k \<and> bt_get (pl_backend_ids st0) a = Some k" for a k
    using keep that I unfolding fields(2) insert_affinity_spec(8) by blast
  have ext': "?ids a = Some k" if "bt_get (pl_backend_ids st0) a = Some k" for a k using ext that I by blast
  show ?thesis
    unfolding placing_inv_def using ids' maps' keep' ext' placed slots I by (simp only:) blast
qed

lemma place_backends_inv:
  assumes "placing_inv i st0 pre st" "place_backends sv i (length pre) bs st = Inr st'"
  shows "placing_inv i st0 (pre @ bs) st'"
  using assms
proof (induction bs arbitrary: pre st)
  case (Cons b bs)
  then obtain st1 where 1: "place_backend sv i (length pre) b st = Inr st1"
    "place_backends sv i (length (pre @ [b])) bs st1 = Inr st'" by (auto split: sum.splits)
  from Cons.IH [OF place_backend_inv [OF Cons.prems(1) 1(1)] 1(2)] show ?case by simp
qed simp

section \<open>The slots of one service\<close>

lemma service_bytes: "service_of (the (lb_service_to_bytes v)) = v"
  using lb_service.enc_dec [of v] by (auto simp: lb_service_ok_def)

lemma key_inj:
  "key4 f sc j = Some k \<Longrightarrow> key4 f' sc' j' = Some k \<Longrightarrow> (f', sc', j') = (f, sc, j)"
  "key6 f sc j = Some k \<Longrightarrow> key6 f' sc' j' = Some k \<Longrightarrow> (f', sc', j') = (f, sc, j)"
  using key_frontend by (metis prod.inject)+

lemma lookup_none: "key4 f sc j = None \<Longrightarrow> key6 f sc j = None \<Longrightarrow> False"
  using key4_iff key6_iff by (metis option.exhaust)

lemma insert_slot_spec:
  assumes "insert_slot f sc j v m = Inr m'"
  shows "lookup_service m' f' sc' j' = (if (f', sc', j') = (f, sc, j) then Some v else lookup_service m f' sc' j') \<and>
    mp_backends4 m' = mp_backends4 m \<and> mp_backends6 m' = mp_backends6 m \<and> mp_maglev4 m' = mp_maglev4 m \<and>
    mp_maglev6 m' = mp_maglev6 m \<and> (maps_ok m \<longrightarrow> maps_ok m')"
proof (cases "fst f")
  case (V4 a)
  obtain k where k: "key4 f sc j = Some k" using key4_iff V4 by fastforce
  have m': "m' = m\<lparr>mp_services4 := bt_insert k (the (lb_service_to_bytes v)) (mp_services4 m)\<rparr>"
    using assms V4 k by (simp add: insert_slot_def)
  have "lookup_service m' f' sc' j' = (if (f', sc', j') = (f, sc, j) then Some v else lookup_service m f' sc' j')"
  proof (cases "key4 f' sc' j'")
    case None
    then obtain k' where "key6 f' sc' j' = Some k'" using lookup_none by blast
    then show ?thesis using None k by (auto simp: lookup6 m')
  next
    case (Some k')
    then show ?thesis using key_inj(1) [OF k, of f' sc' j'] k by (auto simp: lookup4 [OF Some] m' service_bytes)
  qed
  then show ?thesis by (simp add: m' maps_ok_def bt_ok_insert)
next
  case (V6 a)
  obtain k where k: "key6 f sc j = Some k" using key6_iff V6 by fastforce
  have m': "m' = m\<lparr>mp_services6 := bt_insert k (the (lb_service_to_bytes v)) (mp_services6 m)\<rparr>"
    using assms V6 k by (simp add: insert_slot_def)
  have "lookup_service m' f' sc' j' = (if (f', sc', j') = (f, sc, j) then Some v else lookup_service m f' sc' j')"
  proof (cases "key6 f' sc' j'")
    case None
    then obtain k' where "key4 f' sc' j' = Some k'" using lookup_none by blast
    then show ?thesis using None k by (auto simp: lookup4 m')
  next
    case (Some k')
    then show ?thesis using key_inj(2) [OF k, of f' sc' j'] k by (auto simp: lookup6 [OF Some] m' service_bytes)
  qed
  then show ?thesis by (simp add: m' maps_ok_def bt_ok_insert)
qed

lemma insert_slots_spec:
  assumes "insert_slots f sc slots m = Inr m'" "distinct (map fst slots)"
  shows "lookup_service m' f' sc' j' =
      (if (f', sc') = (f, sc) then case map_of slots j' of Some v \<Rightarrow> Some v | None \<Rightarrow> lookup_service m f' sc' j'
       else lookup_service m f' sc' j') \<and>
    mp_backends4 m' = mp_backends4 m \<and> mp_backends6 m' = mp_backends6 m \<and> mp_maglev4 m' = mp_maglev4 m \<and>
    mp_maglev6 m' = mp_maglev6 m \<and> (maps_ok m \<longrightarrow> maps_ok m')"
  using assms
proof (induction slots arbitrary: m)
  case (Cons jv slots)
  obtain j v where jv: "jv = (j, v)" by (cases jv)
  obtain m1 where m1: "insert_slot f sc j v m = Inr m1" "insert_slots f sc slots m1 = Inr m'"
    using Cons.prems(1) by (auto simp: jv split: sum.splits)
  have "map_of slots j = None" using Cons.prems(2) by (auto simp: jv map_of_eq_None_iff)
  then show ?case
    using Cons.IH [OF m1(2)] Cons.prems(2) insert_slot_spec [OF m1(1), of f' sc' j']
    by (auto simp: jv split: option.splits)
qed simp

lemma insert_table_spec [simp]:
  "lookup_service (insert_table f i t m) = lookup_service m" "mp_backends4 (insert_table f i t m) = mp_backends4 m"
  "mp_backends6 (insert_table f i t m) = mp_backends6 m" "maps_ok m \<Longrightarrow> maps_ok (insert_table f i t m)"
  by (cases "fst f"; auto simp: insert_table_def lookup_service_def maps_ok_def bt_ok_insert fun_eq_iff split: ip_addr.splits)+

lemma backend_in_cong: "mp_backends4 m' = mp_backends4 m \<Longrightarrow> mp_backends6 m' = mp_backends6 m \<Longrightarrow> backend_in m' = backend_in m"
  by (simp add: backend_in_def fun_eq_iff)

lemma make_master_spec:
  assumes "make_master sv c i = Inr e"
  shows "lbs_count e = c \<and> lbs_rev_nat_index e = i"
  using assms
  by (auto simp: make_master_def Let_def lbs_set_affinity_def lbs_set_service_flags_def lb_service_default_def split: option.splits if_splits)

lemma slots_map:
  assumes "L \<le> 65535"
  shows "distinct (map fst ((0 :: u16, e) # map (\<lambda>j. (of_nat (j + 1), E j)) [0..<L]))"
    "s \<noteq> 0 \<Longrightarrow> map_of ((0 :: u16, e) # map (\<lambda>j. (of_nat (j + 1), E j)) [0..<L]) s =
      (if unat s \<le> L then Some (E (unat s - 1)) else None)"
proof -
  have u: "unat (of_nat (j + 1) :: u16) = j + 1" if "j < L" for j using that assms by (subst unat_of_nat) simp
  have inj: "inj_on (\<lambda>j. of_nat (j + 1) :: u16) {0..<L}"
    by (rule inj_onI) (metis u atLeastLessThan_iff add_right_cancel)
  have nz: "of_nat (j + 1) \<noteq> (0 :: u16)" if "j < L" for j using u [OF that] by (metis Suc_eq_plus1 nat.distinct(1) unat_0)
  show d: "distinct (map fst ((0 :: u16, e) # map (\<lambda>j. (of_nat (j + 1), E j)) [0..<L]))"
    using inj nz by (auto simp: o_def distinct_map simp del: of_nat_add of_nat_Suc)
  assume s: "s \<noteq> 0"
  show "map_of ((0 :: u16, e) # map (\<lambda>j. (of_nat (j + 1), E j)) [0..<L]) s = (if unat s \<le> L then Some (E (unat s - 1)) else None)"
  proof (cases "unat s \<le> L")
    case True
    have "0 < unat s" using s by (simp add: unat_gt_0)
    then have "(s, E (unat s - 1)) \<in> set (map (\<lambda>j. (of_nat (j + 1), E j)) [0..<L])"
      using True by (auto simp: image_iff intro!: bexI [of _ "unat s - 1"] simp del: of_nat_add)
    then show ?thesis using True d by (intro map_of_is_SomeI [THEN trans]) auto
  next
    case False
    then have "s \<notin> fst ` set (map (\<lambda>j. (of_nat (j + 1), E j)) [0..<L])" using u by (auto simp del: of_nat_add of_nat_Suc)
    then show ?thesis using False s by (simp add: map_of_eq_None_iff del: of_nat_add of_nat_Suc)
  qed
qed

section \<open>All services\<close>

abbreviation service_key :: "service \<Rightarrow> address \<times> u8" where
  "service_key sv \<equiv> (sv_frontend sv, sv_scope sv)"

definition service_placed :: "(address \<rightharpoonup> u32) \<Rightarrow> maps \<Rightarrow> service \<Rightarrow> bool" where
  "service_placed ids m sv \<longleftrightarrow> length (service_backends sv) \<le> 65535 \<and>
     (\<exists>e. lookup_service m (sv_frontend sv) (sv_scope sv) 0 = Some e \<and> lbs_count e = of_nat (length (service_backends sv)) \<and>
        (\<forall>j. j \<noteq> 0 \<longrightarrow> lookup_service m (sv_frontend sv) (sv_scope sv) j =
          (if unat j \<le> length (service_backends sv)
           then Some (slot_entry (the (ids (service_backends sv ! (unat j - 1)))) (lbs_rev_nat_index e)) else None))) \<and>
     (\<forall>b\<in>set (service_backends sv). \<exists>n. ids b = Some n \<and> backend_in m b n)"

definition planning_inv :: "service list \<Rightarrow> planning \<Rightarrow> bool" where
  "planning_inv ready st \<longleftrightarrow>
     ids_ok (pn_backend_ids st) (pn_backend_pool st) \<and> maps_ok (ds_maps (pn_out st)) \<and>
     set (pn_frontends st) = service_key ` set ready \<and>
     (\<forall>sv\<in>set ready. service_placed (bt_get (pn_backend_ids st)) (ds_maps (pn_out st)) sv) \<and>
     (\<forall>f sc j. (f, sc) \<notin> service_key ` set ready \<longrightarrow> lookup_service (ds_maps (pn_out st)) f sc j = None)"

lemma service_placed_keeps:
  assumes "service_placed ids m sv"
    and "\<And>a n. ids a = Some n \<Longrightarrow> ids' a = Some n"
    and "\<And>a n. backend_in m a n \<and> ids a = Some n \<Longrightarrow> backend_in m' a n"
    and "\<And>j. lookup_service m' (sv_frontend sv) (sv_scope sv) j = lookup_service m (sv_frontend sv) (sv_scope sv) j"
  shows "service_placed ids' m' sv"
proof -
  let ?bs = "service_backends sv"
  have bs: "\<forall>b\<in>set ?bs. \<exists>n. ids b = Some n \<and> backend_in m b n" using assms(1) by (simp add: service_placed_def)
  have "the (ids' (?bs ! (unat j - 1))) = the (ids (?bs ! (unat j - 1)))" if "j \<noteq> 0" "unat j \<le> length ?bs" for j :: u16
  proof -
    have "0 < unat j" using that(1) by (simp add: unat_gt_0)
    then have "?bs ! (unat j - 1) \<in> set ?bs" using that(2) by (intro nth_mem) simp
    then obtain n where "ids (?bs ! (unat j - 1)) = Some n" using bs by blast
    then show ?thesis using assms(2) by simp
  qed
  moreover have "\<forall>b\<in>set ?bs. \<exists>n. ids' b = Some n \<and> backend_in m' b n" using bs assms(2,3) by blast
  ultimately show ?thesis using assms(1) unfolding service_placed_def assms(4) by auto
qed

lemma place_service_cases:
  assumes "place_service sids sv st = Some (Inr st')"
  obtains i pool e pl m where "service_key sv \<notin> set (pn_frontends st)" "length (service_backends sv) \<le> 65535"
    "service_id_for sids (service_key sv) (pn_service_pool st) = Inr (i, pool)"
    "make_master sv (of_nat (length (service_backends sv))) i = Inr e"
    "place_backends sv i 0 (service_backends sv) \<lparr>pl_backend_ids = pn_backend_ids st, pl_pool = pn_backend_pool st,
       pl_maps = ds_maps (pn_out st), pl_table = [], pl_slots = [(0, e)]\<rparr> = Inr pl"
    "publish_service sv i pl = Some (Inr m)"
    "st' = \<lparr>pn_backend_ids = pl_backend_ids pl, pn_backend_pool = pl_pool pl, pn_service_pool = pool,
       pn_frontends = bs_insert (service_key sv) (pn_frontends st),
       pn_out = \<lparr>ds_maps = m, ds_ids = bt_insert (service_key sv) i (ds_ids (pn_out st))\<rparr>\<rparr>"
  using assms by (auto simp: place_service_def Let_def split: if_splits sum.splits option.splits prod.splits)

lemma publish_service_spec:
  assumes "publish_service sv i pl = Some (Inr m)" "distinct (map fst (pl_slots pl))"
  shows "lookup_service m f sc j =
      (if (f, sc) = service_key sv then case map_of (pl_slots pl) j of Some v \<Rightarrow> Some v | None \<Rightarrow> lookup_service (pl_maps pl) f sc j
       else lookup_service (pl_maps pl) f sc j) \<and>
    backend_in m = backend_in (pl_maps pl) \<and> (maps_ok (pl_maps pl) \<longrightarrow> maps_ok m)"
proof -
  obtain m0 where m0: "insert_slots (sv_frontend sv) (sv_scope sv) (pl_slots pl) m0 = Inr m"
    "lookup_service m0 = lookup_service (pl_maps pl)" "mp_backends4 m0 = mp_backends4 (pl_maps pl)"
    "mp_backends6 m0 = mp_backends6 (pl_maps pl)" "maps_ok (pl_maps pl) \<longrightarrow> maps_ok m0"
  proof (cases "pl_table pl = []")
    case True
    then show thesis using assms(1) that by (simp add: publish_service_def)
  next
    case False
    then obtain t where "maglev_table (pl_table pl) TABLE_LEN SEED_MURMUR = Some (Inr t)"
      using assms(1) by (cases "maglev_table (pl_table pl) TABLE_LEN SEED_MURMUR")
        (auto simp: publish_service_def Let_def map_sum_def split: option.splits sum.splits)
    then show thesis using False assms(1) that by (simp add: publish_service_def Let_def)
  qed
  show ?thesis
    using insert_slots_spec [OF m0(1) assms(2), of f sc j, unfolded m0(2)] m0(3-) backend_in_cong [of m "pl_maps pl"] by auto
qed

lemma lookup_cong:
  "mp_services4 m' = mp_services4 m \<Longrightarrow> mp_services6 m' = mp_services6 m \<Longrightarrow> lookup_service m' = lookup_service m"
  by (simp add: lookup_service_def fun_eq_iff split: ip_addr.splits)

lemma place_service_inv:
  assumes inv: "planning_inv ready st" and run: "place_service sids sv st = Some (Inr st')"
  shows "planning_inv (sv # ready) st'"
  using run
proof (rule place_service_cases)
  fix i pool e pl m
  let ?bs = "service_backends sv"
  let ?st0 = "\<lparr>pl_backend_ids = pn_backend_ids st, pl_pool = pn_backend_pool st, pl_maps = ds_maps (pn_out st), pl_table = [], pl_slots = [(0, e)]\<rparr>"
  assume new: "service_key sv \<notin> set (pn_frontends st)" and L: "length ?bs \<le> 65535"
    and e: "make_master sv (of_nat (length ?bs)) i = Inr e"
    and pl: "place_backends sv i 0 ?bs ?st0 = Inr pl" and m: "publish_service sv i pl = Some (Inr m)"
    and st': "st' = \<lparr>pn_backend_ids = pl_backend_ids pl, pn_backend_pool = pl_pool pl, pn_service_pool = pool,
       pn_frontends = bs_insert (service_key sv) (pn_frontends st),
       pn_out = \<lparr>ds_maps = m, ds_ids = bt_insert (service_key sv) i (ds_ids (pn_out st))\<rparr>\<rparr>"
  have I: "ids_ok (pn_backend_ids st) (pn_backend_pool st)" "maps_ok (ds_maps (pn_out st))"
    "set (pn_frontends st) = service_key ` set ready"
    "\<And>x. x \<in> set ready \<Longrightarrow> service_placed (bt_get (pn_backend_ids st)) (ds_maps (pn_out st)) x"
    "\<And>f sc j. (f, sc) \<notin> service_key ` set ready \<Longrightarrow> lookup_service (ds_maps (pn_out st)) f sc j = None"
    using inv unfolding planning_inv_def by blast+
  have "placing_inv i ?st0 [] ?st0" using I(1,2) by (simp add: placing_inv_def)
  from place_backends_inv [OF this, of sv ?bs pl] pl have P: "placing_inv i ?st0 ?bs pl" by simp
  let ?E = "\<lambda>j. slot_entry (the (bt_get (pl_backend_ids pl) (?bs ! j))) i"
  note P' = P [unfolded placing_inv_def placing.select_convs append_Cons append_Nil]
  have slots: "pl_slots pl = (0, e) # map (\<lambda>j. (of_nat (j + 1), ?E j)) [0..<length ?bs]"
    and ids: "ids_ok (pl_backend_ids pl) (pl_pool pl)" and mo: "maps_ok (pl_maps pl)"
    and ext: "\<And>a n. bt_get (pn_backend_ids st) a = Some n \<Longrightarrow> bt_get (pl_backend_ids pl) a = Some n"
    and keep: "\<And>a n. backend_in (ds_maps (pn_out st)) a n \<and> bt_get (pn_backend_ids st) a = Some n \<Longrightarrow> backend_in (pl_maps pl) a n"
    and bs: "\<forall>b\<in>set ?bs. \<exists>n. bt_get (pl_backend_ids pl) b = Some n \<and> backend_in (pl_maps pl) b n"
    using P' by blast+
  have look: "lookup_service (pl_maps pl) = lookup_service (ds_maps (pn_out st))" using P' lookup_cong by blast
  have sm: "distinct (map fst (pl_slots pl))"
    "\<And>j. j \<noteq> 0 \<Longrightarrow> map_of (pl_slots pl) j = (if unat j \<le> length ?bs then Some (?E (unat j - 1)) else None)"
    unfolding slots by (rule slots_map [OF L])+
  note pub = publish_service_spec [OF m sm(1)]
  have none: "lookup_service (ds_maps (pn_out st)) (sv_frontend sv) (sv_scope sv) j = None" for j
    using new I(3,5) by simp
  have zero: "map_of (pl_slots pl) 0 = Some e" by (simp add: slots)
  have rev: "lbs_rev_nat_index e = i" and cnt: "lbs_count e = of_nat (length ?bs)" using make_master_spec [OF e] by auto
  have pin: "backend_in m = backend_in (pl_maps pl)" using pub by blast
  have own: "lookup_service m (sv_frontend sv) (sv_scope sv) j = map_of (pl_slots pl) j" for j
    using pub [of "sv_frontend sv" "sv_scope sv" j] none [of j] unfolding look by (cases "map_of (pl_slots pl) j") simp_all
  have foreign: "lookup_service m f sc j = lookup_service (ds_maps (pn_out st)) f sc j" if "(f, sc) \<noteq> service_key sv" for f sc j
    using pub [of f sc j] that unfolding look by (simp only: if_False)
  have "service_placed (bt_get (pl_backend_ids pl)) m sv"
    unfolding service_placed_def own pin
  proof (intro conjI exI [of _ e] allI impI)
    show "map_of (pl_slots pl) j = (if unat j \<le> length ?bs then Some (slot_entry (the (bt_get (pl_backend_ids pl) (?bs ! (unat j - 1)))) (lbs_rev_nat_index e)) else None)"
      if "j \<noteq> 0" for j using sm(2) [OF that] by (simp only: rev)
  qed (use L zero cnt bs in simp_all)
  moreover have "service_placed (bt_get (pl_backend_ids pl)) m x" if x: "x \<in> set ready" for x
  proof (rule service_placed_keeps [OF I(4) [OF x] ext])
    show "backend_in m a n" if "backend_in (ds_maps (pn_out st)) a n \<and> bt_get (pn_backend_ids st) a = Some n" for a n
      using keep [OF that] unfolding pin .
    have "service_key x \<in> set (pn_frontends st)" unfolding I(3) using x by (rule imageI)
    then have "service_key x \<noteq> service_key sv" using new by (intro notI) (simp only:)
    then show "lookup_service m (sv_frontend x) (sv_scope x) j = lookup_service (ds_maps (pn_out st)) (sv_frontend x) (sv_scope x) j" for j
      by (rule foreign)
  qed
  moreover have "lookup_service m f sc j = None" if "(f, sc) \<notin> service_key ` set (sv # ready)" for f sc j
    using that foreign [of f sc j] I(5) [of f sc j] by (simp del: Pair_inject)
  moreover have "maps_ok m" using pub mo by blast
  ultimately show ?thesis
    using ids I(3) unfolding planning_inv_def st' by (simp del: split_paired_All)
qed

lemma place_services_inv:
  assumes "planning_inv ready st" "place_services sids svs st = Some (Inr st')"
  shows "planning_inv (rev svs @ ready) st'"
  using assms
proof (induction svs arbitrary: ready st)
  case (Cons sv svs)
  then obtain st1 where 1: "place_service sids sv st = Some (Inr st1)" "place_services sids svs st1 = Some (Inr st')"
    by (auto split: option.splits sum.splits)
  from Cons.IH [OF place_service_inv [OF Cons.prems(1) 1(1)] 1(2)] show ?case by simp
qed simp

section \<open>Recovering identifiers\<close>

lemma recover_backends_get:
  "bt_get (recover_backends dec kvs m) a = Some i \<Longrightarrow> bt_get m a = Some i \<or> (\<exists>v. (i, v) \<in> set kvs \<and> dec v = a)"
proof (induction kvs arbitrary: m)
  case (Cons kv kvs)
  obtain n v where kv: "kv = (n, v)" by (cases kv)
  have "bt_get (recover_backends dec kvs (bt_or_insert (dec v) n m)) a = Some i" using Cons.prems by (simp add: kv)
  from Cons.IH [OF this] have "bt_get (bt_or_insert (dec v) n m) a = Some i \<or> (\<exists>v. (i, v) \<in> set kvs \<and> dec v = a)" .
  moreover have "bt_get m a = Some i \<or> n = i \<and> dec v = a" if "bt_get (bt_or_insert (dec v) n m) a = Some i"
    using that by (cases "bt_get m (dec v)") (simp_all add: bt_or_insert_def split: if_splits)
  ultimately show ?case by (auto simp: kv simp del: split_paired_Ex)
qed simp

lemma backend_family: "is_ipv4 (fst (backend4 v))" "\<not> is_ipv4 (fst (backend6 v))"
  by (simp_all add: backend4_def backend6_def Let_def)

lemma initial_inv:
  assumes "maps_ok current"
  shows "planning_inv [] (fst (initial_planning current))"
proof -
  let ?m = "recover_backends backend6 (mp_backends6 current) (recover_backends backend4 (mp_backends4 current) [])"
  let ?keys = "bt_keys (mp_backends4 current) @ bt_keys (mp_backends6 current)"
  have src: "(\<exists>v. (i, v) \<in> set (mp_backends4 current) \<and> backend4 v = a) \<or> (\<exists>v. (i, v) \<in> set (mp_backends6 current) \<and> backend6 v = a)"
    if "bt_get ?m a = Some i" for a i
    using recover_backends_get [OF that] recover_backends_get [of backend4 "mp_backends4 current" "[]" a i] by auto
  have d: "distinct (map fst (mp_backends4 current))" "distinct (map fst (mp_backends6 current))"
    using assms by (simp_all add: maps_ok_def bt_ok_distinct)
  have fun4: "v = w" if "(i, v) \<in> set (mp_backends4 current)" "(i, w) \<in> set (mp_backends4 current)" for i v w
    using eq_key_imp_eq_value [OF d(1) that] .
  have fun6: "v = w" if "(i, v) \<in> set (mp_backends6 current)" "(i, w) \<in> set (mp_backends6 current)" for i v w
    using eq_key_imp_eq_value [OF d(2) that] .
  have "ids_ok ?m (ids_new (bs_of_list ?keys) (- 1))"
    unfolding ids_ok_def
  proof (intro conjI allI impI)
    fix a i assume "bt_get ?m a = Some i"
    then show "i \<in> set (id_used (ids_new (bs_of_list ?keys) (- 1)))"
      using src [of a i] unfolding ids_new_def ids.select_convs bs_of_list_set set_append bt_keys_def set_map by (metis UnI1 UnI2 fst_conv imageI)
  next
    fix a b i assume "bt_get ?m a = Some i \<and> bt_get ?m b = Some i \<and> is_ipv4 (fst a) = is_ipv4 (fst b)"
    then show "a = b" using src [of a i] src [of b i] fun4 fun6 backend_family by metis
  qed
  moreover have "lookup_service maps_default f sc j = None" for f sc j
    by (cases "key4 f sc j"; cases "key6 f sc j") (auto simp: lookup_service_def maps_default_def split: ip_addr.splits)
  moreover have "maps_ok maps_default" by (simp add: maps_ok_def maps_default_def)
  ultimately show ?thesis
    by (simp add: planning_inv_def initial_planning_def Let_def split_beta)
qed

lemma desired_placed:
  assumes "maps_ok current" "desired current services = Some (Inr d)"
  shows "\<exists>ids. (\<forall>sv\<in>set services. service_placed ids (ds_maps d) sv) \<and> maps_ok (ds_maps d) \<and>
    (\<forall>f sc j. (f, sc) \<notin> service_key ` set services \<longrightarrow> lookup_service (ds_maps d) f sc j = None)"
proof -
  obtain st sids where i: "initial_planning current = (st, sids)" by fastforce
  obtain st' where run: "place_services sids (sort_services services) st = Some (Inr st')" "d = pn_out st'"
  proof -
    obtain r where r: "place_services sids (sort_services services) st = Some r" "map_sum id pn_out r = Inr d"
      using assms(2) by (auto simp: desired_def i)
    then show thesis using that by (cases r) simp_all
  qed
  have "planning_inv (rev (sort_services services) @ []) st'"
    by (rule place_services_inv [OF _ run(1)]) (use initial_inv [OF assms(1)] in \<open>simp add: i\<close>)
  then show ?thesis
    unfolding planning_inv_def run(2) by (intro exI [of _ "bt_get (pn_backend_ids st')"]) (simp add: sort_services_def del: split_paired_All)
qed

section \<open>Lookups in the desired maps\<close>

lemma same_family: "\<not> sv_nat46x64 sv \<Longrightarrow> b \<in> set (service_backends sv) \<Longrightarrow> is_ipv4 (fst (sv_frontend sv)) = is_ipv4 (fst b)"
  by (auto simp: service_backends_def)

lemma placed_slot:
  assumes "service_placed ids m sv" "\<not> sv_nat46x64 sv" "j \<noteq> 0" "unat j \<le> length (service_backends sv)"
  shows "\<exists>e. lookup_service m (sv_frontend sv) (sv_scope sv) j = Some e \<and>
    lookup_backend m (sv_frontend sv) (lbs_backend_id e) = Some (service_backends sv ! (unat j - 1))"
proof -
  let ?b = "service_backends sv ! (unat j - 1)"
  have "0 < unat j" using assms(3) by (simp add: unat_gt_0)
  then have b: "?b \<in> set (service_backends sv)" using assms(4) by (intro nth_mem) simp
  then obtain n where n: "ids ?b = Some n" "backend_in m ?b n" using assms(1) unfolding service_placed_def by blast
  have "lookup_backend m (sv_frontend sv) n = Some ?b"
    using backend_in_lookup [OF n(2)] same_family [OF assms(2) b] by blast
  then show ?thesis using assms(1,3,4) n(1) by (auto simp: service_placed_def slot_entry_def lb_service_default_def lbs_backend_id_def)
qed

lemma placed_beyond:
  assumes "service_placed ids m sv" "j \<noteq> 0" "length (service_backends sv) < unat j"
  shows "lookup_service m (sv_frontend sv) (sv_scope sv) j = None"
  using assms unfolding service_placed_def by (metis leD)

lemma placed_resolves:
  assumes placed: "service_placed ids m sv" and nat: "\<not> sv_nat46x64 sv"
  shows "resolve_scope m (sv_frontend sv) (sv_scope sv) = Some (Inr (service_backends sv))"
proof -
  let ?bs = "service_backends sv" and ?L = "length (service_backends sv)"
  have L: "?L \<le> 65535" using placed by (simp add: service_placed_def)
  obtain e where e: "lookup_service m (sv_frontend sv) (sv_scope sv) 0 = Some e" "lbs_count e = of_nat ?L"
    using placed by (auto simp: service_placed_def)
  have "resolve_slots m (sv_frontend sv) (sv_scope sv) (map of_nat [k + 1..<?L + 1]) = Inr (drop k ?bs)" if "k \<le> ?L" for k
    using that
  proof (induction k rule: inc_induct)
    case (step k)
    have u: "unat (of_nat (k + 1) :: u16) = k + 1" using step.hyps L by (subst unat_of_nat) simp
    then have nz: "of_nat (k + 1) \<noteq> (0 :: u16)" by (metis Suc_eq_plus1 nat.distinct(1) unat_0)
    obtain x where x: "lookup_service m (sv_frontend sv) (sv_scope sv) (of_nat (k + 1)) = Some x"
      "lookup_backend m (sv_frontend sv) (lbs_backend_id x) = Some (?bs ! k)"
      using placed_slot [OF placed nat nz] u step.hyps by auto
    have "[k + 1..<?L + 1] = (k + 1) # [Suc k + 1..<?L + 1]" using step.hyps by (simp add: upt_conv_Cons)
    then show ?case using x step.IH step.hyps by (simp add: Cons_nth_drop_Suc del: of_nat_Suc upt_Suc)
  qed simp
  from this [of 0] show ?thesis using e L by (simp add: resolve_scope_def slot_range_def unat_of_nat del: upt_Suc)
qed

lemma desired_closed:
  assumes "maps_ok current" "desired current services = Some (Inr d)" "\<forall>sv\<in>set services. \<not> sv_nat46x64 sv"
  shows "maps_closed (ds_maps d)"
proof -
  obtain ids where ids: "\<forall>sv\<in>set services. service_placed ids (ds_maps d) sv"
    "\<forall>f sc j. (f, sc) \<notin> service_key ` set services \<longrightarrow> lookup_service (ds_maps d) f sc j = None"
    using desired_placed [OF assms(1,2)] by blast
  have owner: "\<exists>sv\<in>set services. f = sv_frontend sv \<and> sc = sv_scope sv" if "lookup_service (ds_maps d) f sc j = Some e" for f sc j e
  proof -
    have "(f, sc) \<in> service_key ` set services"
      by (rule ccontr) (use ids(2) [rule_format, of f sc j] that in simp)
    then show ?thesis by (auto simp only: Pair_inject)
  qed
  show ?thesis
    unfolding maps_closed_def
  proof (intro conjI allI impI ballI)
    fix f sc j e assume j: "j \<noteq> 0 \<and> lookup_service (ds_maps d) f sc j = Some e"
    then obtain sv where sv: "sv \<in> set services" "f = sv_frontend sv" "sc = sv_scope sv" using owner by blast
    then have "unat j \<le> length (service_backends sv)" using placed_beyond [of ids "ds_maps d" sv j] ids(1) j by force
    then show "lookup_backend (ds_maps d) f (lbs_backend_id e) \<noteq> None"
      using placed_slot [of ids "ds_maps d" sv j] ids(1) sv assms(3) j by auto
  next
    fix f sc e j assume e: "lookup_service (ds_maps d) f sc 0 = Some e" and j: "j \<in> set (slot_range (lbs_count e))"
    then obtain sv where sv: "sv \<in> set services" "f = sv_frontend sv" "sc = sv_scope sv" using owner by blast
    have p: "service_placed ids (ds_maps d) sv" using ids(1) sv by blast
    then have c: "lbs_count e = of_nat (length (service_backends sv))" "length (service_backends sv) \<le> 65535"
      using e sv by (auto simp: service_placed_def)
    then have "unat j \<le> length (service_backends sv)"
      using j by (auto simp: slot_range_def unat_of_nat)
    then show "lookup_service (ds_maps d) f sc j \<noteq> None"
      using placed_slot [OF p _ family4.slot_range_nonzero [OF j]] sv assms(3) by auto
  qed
qed

lemma desired_total: "\<exists>r. desired current services = Some r"
proof -
  have pub: "publish_service sv i pl = None \<longleftrightarrow> False" for sv i pl
    using maglev_table_facts [of "pl_table pl" TABLE_LEN SEED_MURMUR]
    by (auto simp: publish_service_def Let_def map_sum_def split: option.splits sum.splits)
  have "place_service sids sv st \<noteq> None" for sids sv st
    by (auto simp: place_service_def Let_def pub split: if_splits sum.splits option.splits prod.splits)
  then have "place_services sids svs st \<noteq> None" for sids svs st
    by (induction svs arbitrary: st) (auto split: option.splits sum.splits)
  then show ?thesis by (auto simp: desired_def split_beta)
qed

text \<open>
  C8. Planning the services always ends, and on success every service without address translation
  resolves in the new maps to exactly its backends of its own family, in order and without duplicates,
  whatever identifiers the current maps impose. If no service translates addresses, the new maps are
  closed: every counted slot exists and names an existing backend.
\<close>

theorem desired_resolves:
  assumes "maps_ok current"
  shows "\<exists>r. desired current services = Some r \<and>
    (\<forall>d. r = Inr d \<longrightarrow>
      (\<forall>sv\<in>set services. \<not> sv_nat46x64 sv \<longrightarrow>
         resolve_scope (ds_maps d) (sv_frontend sv) (sv_scope sv) = Some (Inr (service_backends sv))) \<and>
      ((\<forall>sv\<in>set services. \<not> sv_nat46x64 sv) \<longrightarrow> maps_closed (ds_maps d)))"
proof -
  obtain r where r: "desired current services = Some r" using desired_total by blast
  moreover have "resolve_scope (ds_maps d) (sv_frontend sv) (sv_scope sv) = Some (Inr (service_backends sv))"
    if "r = Inr d" "sv \<in> set services" "\<not> sv_nat46x64 sv" for d sv
    using desired_placed [OF assms, of services d] placed_resolves that r by blast
  ultimately show ?thesis using desired_closed [OF assms, of services] by blast
qed

section \<open>An example\<close>

definition lab_service :: service where
  "lab_service = \<lparr>sv_frontend = (V4 0x0A600001, 80, 6), sv_backends = [(V4 0x0A000005, 8080, 6)], sv_affinity = None,
     sv_scope = 0, sv_maglev = False, sv_dsr = False, sv_nat46x64 = False\<rparr>"

lemma lab_backends: "service_backends lab_service = [(V4 0x0A000005, 8080, 6)]"
  by (simp add: service_backends_def lab_service_def bs_of_list_def)

lemma lab_desired: "\<exists>d. desired maps_default [lab_service] = Some (Inr d)"
proof -
  obtain v where v: "backend_bytes4 (V4 0x0A000005, 8080, 6) = Some v" using backend_bytes4_Some by blast
  obtain K where K: "\<And>j. key4 (V4 0x0A600001, 80, 6) 0 j = Some (K j)" using key4_Some by metis
  have i: "initial_planning maps_default = (\<lparr>pn_backend_ids = [], pn_backend_pool = ids_new [] (- 1), pn_service_pool = ids_new [] 65535,
      pn_frontends = [], pn_out = \<lparr>ds_maps = maps_default, ds_ids = []\<rparr>\<rparr>, [])"
    by (simp add: initial_planning_def maps_default_def bt_keys_def bs_of_list_def)
  have alloc: "ids_allocate (ids_new [] mx) = Some (1, \<lparr>id_used = [1], id_next = 1, id_max = mx\<rparr>)" if "mx \<noteq> 0" for mx
    using that by (simp add: ids_allocate_def ids_new_def first_unused.simps)
  have slot: "slot_number 0 = Some 1" by (simp add: slot_number_def checked_add_def)
  show ?thesis
    by (simp add: desired_def i sort_services_def place_service_def lab_backends Let_def)
       (simp add: lab_service_def service_id_for_def alloc make_master_def place_backend_def backend_id_for_def insert_backend_def v
         slot publish_service_def insert_slot_def K Let_def)
qed

theorem desired_resolves_witness:
  "\<exists>d. desired maps_default [lab_service] = Some (Inr d) \<and>
    resolve_scope (ds_maps d) (V4 0x0A600001, 80, 6) 0 = Some (Inr [(V4 0x0A000005, 8080, 6)]) \<and> maps_closed (ds_maps d)"
proof -
  obtain d where d: "desired maps_default [lab_service] = Some (Inr d)" using lab_desired by blast
  have "maps_ok maps_default" by (simp add: maps_ok_def maps_default_def)
  from desired_resolves [OF this, of "[lab_service]"] d
  have "(\<forall>sv\<in>set [lab_service]. \<not> sv_nat46x64 sv \<longrightarrow>
       resolve_scope (ds_maps d) (sv_frontend sv) (sv_scope sv) = Some (Inr (service_backends sv))) \<and>
     ((\<forall>sv\<in>set [lab_service]. \<not> sv_nat46x64 sv) \<longrightarrow> maps_closed (ds_maps d))" by auto
  moreover have "\<not> sv_nat46x64 lab_service" "sv_frontend lab_service = (V4 0x0A600001, 80, 6)" "sv_scope lab_service = 0"
    by (simp_all add: lab_service_def)
  ultimately show ?thesis using d lab_backends by auto
qed

theorem plan_reaches_desired_witness:
  "lb_apply maps_default (lb_plan maps_default (maps_default\<lparr>mp_maglev4 := [(7, [1, 2])]\<rparr>)) = maps_default\<lparr>mp_maglev4 := [(7, [1, 2])]\<rparr>"
  by (rule plan_reaches_desired) (simp_all add: maps_ok_def maps_default_def bt_ok_def)

theorem plan_prefix_safe_witness:
  "\<exists>d. desired maps_default [lab_service] = Some (Inr d) \<and>
    (\<forall>n. maps_closed (lb_apply maps_default (take n (lb_plan maps_default (ds_maps d)))))"
proof -
  obtain d where d: "desired maps_default [lab_service] = Some (Inr d)" using lab_desired by blast
  have ok: "maps_ok maps_default" by (simp add: maps_ok_def maps_default_def)
  have "maps_ok (ds_maps d)" using desired_placed [OF ok d] by blast
  moreover have "maps_closed maps_default"
    by (auto simp: maps_closed_def lookup_service_def maps_default_def split: ip_addr.splits)
  moreover have "maps_closed (ds_maps d)" using desired_closed [OF ok d] by (simp add: lab_service_def)
  ultimately show ?thesis using plan_prefix_safe [of "ds_maps d" maps_default] d by blast
qed

end
