(* ===== verification/SocketMaglev.thy ===== *)
theory SocketMaglev
  imports SocketDesired
begin

text \<open>
  The Maglev frontends of the desired maps: their service identifiers are distinct, their lookup tables
  name only their own backends, and the flow hash always finds one of them.
\<close>

section \<open>Service identifiers\<close>

definition service_ids_ok :: "(address \<times> u8, u16) btree_map \<Rightarrow> planning \<Rightarrow> bool" where
  "service_ids_ok sids st \<longleftrightarrow>
     (\<forall>a i. bt_get sids a = Some i \<longrightarrow> ucast i \<in> set (id_used (pn_service_pool st))) \<and>
     (\<forall>a i. bt_get (ds_ids (pn_out st)) a = Some i \<longrightarrow>
        ucast i \<in> set (id_used (pn_service_pool st)) \<and> (bt_get sids a = Some i \<or> (\<forall>b. bt_get sids b \<noteq> Some i))) \<and>
     (\<forall>a b i. bt_get (ds_ids (pn_out st)) a = Some i \<and> bt_get (ds_ids (pn_out st)) b = Some i \<longrightarrow> a = b) \<and>
     (\<forall>a. bt_get (ds_ids (pn_out st)) a \<noteq> None \<longleftrightarrow> a \<in> set (pn_frontends st))"

definition ids_injective :: "(address \<times> u8, u16) btree_map \<Rightarrow> bool" where
  "ids_injective m \<longleftrightarrow> (\<forall>a b i. bt_get m a = Some i \<and> bt_get m b = Some i \<longrightarrow> a = b)"

lemma service_id_for_new:
  assumes ok: "service_ids_ok sids st" and inj: "ids_injective sids" and a: "a \<notin> set (pn_frontends st)"
    and run: "service_id_for sids a (pn_service_pool st) = Inr (i, pool)"
  shows "bt_get (ds_ids (pn_out st)) b \<noteq> Some i"
    "ucast i \<in> set (id_used pool)" "set (id_used (pn_service_pool st)) \<subseteq> set (id_used pool)"
    "bt_get sids a = Some i \<or> (\<forall>b. bt_get sids b \<noteq> Some i)"
proof -
  note O = ok [unfolded service_ids_ok_def]
  have "bt_get (ds_ids (pn_out st)) b \<noteq> Some i \<and> ucast i \<in> set (id_used pool) \<and>
    set (id_used (pn_service_pool st)) \<subseteq> set (id_used pool) \<and> (bt_get sids a = Some i \<or> (\<forall>b. bt_get sids b \<noteq> Some i))"
  proof (cases "bt_get sids a")
    case (Some n)
    then have n: "n = i" "pool = pn_service_pool st" using run by (auto simp: service_id_for_def)
    have "bt_get (ds_ids (pn_out st)) b \<noteq> Some i"
    proof
      assume b: "bt_get (ds_ids (pn_out st)) b = Some i"
      then have "bt_get sids b = Some i" using O Some n(1) by metis
      then have "b = a" using inj Some n(1) unfolding ids_injective_def by blast
      then show False using b a O by (metis option.distinct(1))
    qed
    then show ?thesis using O Some n by blast
  next
    case None
    then obtain k where k: "ids_allocate (pn_service_pool st) = Some (k, pool)" "k \<le> 65535" "i = ucast k"
      using run by (auto simp: service_id_for_def split: option.splits prod.splits if_splits)
    have "unat k \<le> 65535" using k(2) by (simp add: word_le_nat_alt)
    then have u: "ucast i = k" unfolding k(3) by (intro ucast_small) simp_all
    note spec = ids_allocate_spec [OF k(1)]
    show ?thesis using O spec(1,2) u by (metis insertCI subset_insertI)
  qed
  then show "bt_get (ds_ids (pn_out st)) b \<noteq> Some i" "ucast i \<in> set (id_used pool)"
    "set (id_used (pn_service_pool st)) \<subseteq> set (id_used pool)" "bt_get sids a = Some i \<or> (\<forall>b. bt_get sids b \<noteq> Some i)"
    by blast+
qed

section \<open>Tables\<close>

definition lb_table_of :: "maps \<Rightarrow> address \<Rightarrow> u16 \<Rightarrow> u32 list option" where
  "lb_table_of m f i = (if is_ipv4 (fst f) then bt_get (mp_maglev4 m) i else bt_get (mp_maglev6 m) i)"

lemma place_backend_table:
  assumes "place_backend sv i n b st = Inr st'" "ids_ok (pl_backend_ids st) (pl_pool st)" "sv_maglev sv"
  shows "map mb_id (pl_table st') = map mb_id (pl_table st) @ [the (bt_get (pl_backend_ids st') b)] \<and>
    bt_get (pl_backend_ids st') b \<noteq> None \<and> ids_ok (pl_backend_ids st') (pl_pool st') \<and>
    (\<forall>a k. bt_get (pl_backend_ids st) a = Some k \<longrightarrow> bt_get (pl_backend_ids st') a = Some k)"
proof -
  obtain k st1 where 1: "backend_id_for b st = Inr (k, st1)" using assms(1) by (auto simp: place_backend_def split: sum.splits)
  note id = backend_id_for_spec [OF 1 assms(2)]
  obtain mb where mb: "table_backend b k = Inr mb" "mb_id mb = k" "pl_table st' = pl_table st1 @ [mb]"
    "pl_backend_ids st' = pl_backend_ids st1" "pl_pool st' = pl_pool st1"
    using assms(1,3) 1 by (cases "table_backend b k") (auto simp: place_backend_def Let_def table_backend_def split: sum.splits option.splits)
  show ?thesis using id mb by simp
qed

lemma place_backends_table:
  assumes "place_backends sv i n bs st = Inr st'" "ids_ok (pl_backend_ids st) (pl_pool st)" "sv_maglev sv"
  shows "map mb_id (pl_table st') = map mb_id (pl_table st) @ map (\<lambda>b. the (bt_get (pl_backend_ids st') b)) bs \<and>
    (\<forall>a k. bt_get (pl_backend_ids st) a = Some k \<longrightarrow> bt_get (pl_backend_ids st') a = Some k)"
  using assms(1,2)
proof (induction bs arbitrary: n st)
  case (Cons b bs)
  then obtain st1 where 1: "place_backend sv i n b st = Inr st1" "place_backends sv i (n + 1) bs st1 = Inr st'"
    by (auto split: sum.splits)
  note B = place_backend_table [OF 1(1) Cons.prems(2) assms(3)]
  then obtain k where k: "bt_get (pl_backend_ids st1) b = Some k" by blast
  from Cons.IH [OF 1(2)] B have I: "map mb_id (pl_table st') = map mb_id (pl_table st1) @ map (\<lambda>b. the (bt_get (pl_backend_ids st') b)) bs"
    "\<And>a k. bt_get (pl_backend_ids st1) a = Some k \<Longrightarrow> bt_get (pl_backend_ids st') a = Some k" by blast+
  have "bt_get (pl_backend_ids st') b = Some k" using I(2) k by blast
  then show ?case using I B k by (simp only: list.map append_assoc append.simps option.sel) blast
qed simp

lemma algorithm_top_byte:
  assumes "lbs_set_affinity AlgorithmMaglev seconds e = Inr e'"
  shows "lbs_algorithm_code e' = ALGORITHM_MAGLEV"
proof -
  have s: "unat seconds < 2 ^ 24" using assms by (auto simp: lbs_set_affinity_def word_less_nat_alt split: if_splits)
  have raw: "lbs_union_raw e' = push_bit 24 2 OR seconds" using assms by (auto simp: lbs_set_affinity_def split: if_splits)
  have "unat (push_bit 24 2 :: u32) = 2 * 2 ^ 24" by simp
  then have "push_bit 24 2 OR seconds = push_bit 24 2 + seconds" using s by (intro or_aligned_add [of 24]) (simp_all only: dvd_triv_right)
  moreover have "unat (push_bit 24 2 + seconds) = 2 * 2 ^ 24 + unat seconds"
    using s by (subst unat_add_no_wrap) simp_all
  ultimately have "unat (lbs_union_raw e') = 2 * 2 ^ 24 + unat seconds" unfolding raw by simp
  then have "unat (lbs_union_raw e') div 2 ^ 24 = 2" using s by simp
  moreover have "nat_le 4 x ! 3 = of_nat (x div 256 ^ 3 mod 256)" for x
    using nat_le_snoc [of 3 x] by (simp add: nth_append)
  ultimately show ?thesis
    by (simp add: lbs_algorithm_code_def to_be_bytes_def to_le_bytes_def rev_nth ALGORITHM_MAGLEV_def)
qed

lemma make_master_maglev:
  assumes "make_master sv c i = Inr e" "sv_maglev sv"
  shows "lbs_algorithm_code e = ALGORITHM_MAGLEV"
  using assms algorithm_top_byte
  by (auto simp: make_master_def Let_def map_sum_def split: option.splits sum.splits if_splits)

lemma table_facts:
  assumes "maglev_table bs TABLE_LEN seed = Some (Inr t)" "bs \<noteq> []"
  shows "length t = TABLE_LEN" "set t \<subseteq> mb_id ` set bs"
  using maglev_table_facts [of bs TABLE_LEN seed] assms by auto

lemma table_untouched:
  assumes "insert_slots f sc slots m = Inr m'"
  shows "lb_table_of m' = lb_table_of m"
  using assms
proof (induction slots arbitrary: m)
  case (Cons jv slots)
  obtain j v where jv: "jv = (j, v)" by (cases jv)
  obtain m1 where m1: "insert_slot f sc j v m = Inr m1" "insert_slots f sc slots m1 = Inr m'"
    using Cons.prems by (auto simp: jv split: sum.splits)
  have "lb_table_of m1 = lb_table_of m" using insert_slot_spec [OF m1(1)] by (auto simp: lb_table_of_def fun_eq_iff)
  with Cons.IH [OF m1(2)] show ?case by simp
qed simp

lemma publish_table:
  assumes "publish_service sv i pl = Some (Inr m)"
  shows "(\<forall>f k. \<not> (is_ipv4 (fst f) = is_ipv4 (fst (sv_frontend sv)) \<and> k = i) \<longrightarrow> lb_table_of m f k = lb_table_of (pl_maps pl) f k) \<and>
    (pl_table pl \<noteq> [] \<longrightarrow> (\<exists>t. lb_table_of m (sv_frontend sv) i = Some t \<and> length t = TABLE_LEN \<and> set t \<subseteq> mb_id ` set (pl_table pl)))"
proof (cases "pl_table pl = []")
  case True
  then have "insert_slots (sv_frontend sv) (sv_scope sv) (pl_slots pl) (pl_maps pl) = Inr m"
    using assms by (simp add: publish_service_def)
  then show ?thesis using table_untouched True by metis
next
  case False
  then obtain t where t: "maglev_table (pl_table pl) TABLE_LEN SEED_MURMUR = Some (Inr t)"
    using assms by (cases "maglev_table (pl_table pl) TABLE_LEN SEED_MURMUR")
      (auto simp: publish_service_def Let_def map_sum_def split: option.splits sum.splits)
  have ins: "insert_slots (sv_frontend sv) (sv_scope sv) (pl_slots pl) (insert_table (sv_frontend sv) i t (pl_maps pl)) = Inr m"
    using assms False t by (simp add: publish_service_def Let_def)
  have "lb_table_of (insert_table (sv_frontend sv) i t (pl_maps pl)) f k =
      (if is_ipv4 (fst f) = is_ipv4 (fst (sv_frontend sv)) \<and> k = i then Some t else lb_table_of (pl_maps pl) f k)" for f k
    by (cases "fst (sv_frontend sv)") (auto simp: insert_table_def lb_table_of_def)
  then show ?thesis unfolding table_untouched [OF ins] using table_facts [OF t False] by simp
qed

section \<open>All Maglev services\<close>

definition table_placed :: "planning \<Rightarrow> service \<Rightarrow> bool" where
  "table_placed st sv \<longleftrightarrow> (sv_maglev sv \<and> service_backends sv \<noteq> [] \<longrightarrow>
     (\<exists>e i t. bt_get (ds_ids (pn_out st)) (service_key sv) = Some i \<and>
        lookup_service (ds_maps (pn_out st)) (sv_frontend sv) (sv_scope sv) 0 = Some e \<and> lbs_rev_nat_index e = i \<and>
        lbs_algorithm_code e = ALGORITHM_MAGLEV \<and> lb_table_of (ds_maps (pn_out st)) (sv_frontend sv) i = Some t \<and>
        length t = TABLE_LEN \<and> (\<forall>n\<in>set t. \<exists>b\<in>set (service_backends sv). bt_get (pn_backend_ids st) b = Some n)))"

definition tables_inv :: "(address \<times> u8, u16) btree_map \<Rightarrow> service list \<Rightarrow> planning \<Rightarrow> bool" where
  "tables_inv sids ready st \<longleftrightarrow> planning_inv ready st \<and> service_ids_ok sids st \<and> (\<forall>sv\<in>set ready. table_placed st sv)"

lemma service_ids_step:
  assumes ok: "service_ids_ok sids st" and inj: "ids_injective sids" and a: "a \<notin> set (pn_frontends st)"
    and run: "service_id_for sids a (pn_service_pool st) = Inr (i, pool)"
  shows "service_ids_ok sids \<lparr>pn_backend_ids = x, pn_backend_pool = y, pn_service_pool = pool,
      pn_frontends = bs_insert a (pn_frontends st), pn_out = \<lparr>ds_maps = m, ds_ids = bt_insert a i (ds_ids (pn_out st))\<rparr>\<rparr>"
proof -
  note N = service_id_for_new [OF ok inj a run]
  note O = ok [unfolded service_ids_ok_def]
  have old: "bt_get (ds_ids (pn_out st)) b = Some j \<Longrightarrow> ucast j \<in> set (id_used (pn_service_pool st))"
    "bt_get (ds_ids (pn_out st)) b = Some j \<Longrightarrow> bt_get sids b = Some j \<or> (\<forall>c. bt_get sids c \<noteq> Some j)"
    "bt_get (ds_ids (pn_out st)) b = Some j \<Longrightarrow> bt_get (ds_ids (pn_out st)) c = Some j \<Longrightarrow> b = c"
    "bt_get (ds_ids (pn_out st)) b \<noteq> None \<longleftrightarrow> b \<in> set (pn_frontends st)" for b c j using O by blast+
  let ?g = "\<lambda>b. if b = a then Some i else bt_get (ds_ids (pn_out st)) b"
  have ext: "set (id_used (pn_service_pool st)) \<subseteq> set (id_used pool)" by (rule N(3))
  have g: "ucast j \<in> set (id_used pool)" "bt_get sids b = Some j \<or> (\<forall>c. bt_get sids c \<noteq> Some j)" if "?g b = Some j" for b j
    using that old(1,2) [of b j] N(2,4) ext by (cases "b = a"; auto simp del: split_paired_All)+
  have inj: "b = c" if "?g b = Some j" "?g c = Some j" for b c j
    using that old(3) [of b j c] N(1) by (cases "b = a"; cases "c = a") (simp_all only: simp_thms if_True if_False option.inject)
  have fr: "?g b \<noteq> None \<longleftrightarrow> b \<in> insert a (set (pn_frontends st))" for b using old(4) [of b] by (cases "b = a") simp_all
  have sid: "ucast j \<in> set (id_used pool)" if "bt_get sids b = Some j" for b j using O ext that by blast
  show ?thesis
    unfolding service_ids_ok_def planning.select_convs desired_maps.select_convs bt_get_insert bs_set_insert fun_upd_apply
    by (intro conjI allI impI; (elim conjE)?) (erule sid, erule g(1), erule g(2), erule (1) inj, rule fr)
qed

lemma place_service_step:
  assumes inv: "planning_inv ready st" and run: "place_service sids sv st = Some (Inr st')"
  obtains i pool e pl m where "service_key sv \<notin> set (pn_frontends st)"
    "service_id_for sids (service_key sv) (pn_service_pool st) = Inr (i, pool)"
    "make_master sv (of_nat (length (service_backends sv))) i = Inr e"
    "place_backends sv i 0 (service_backends sv) \<lparr>pl_backend_ids = pn_backend_ids st, pl_pool = pn_backend_pool st,
       pl_maps = ds_maps (pn_out st), pl_table = [], pl_slots = [(0, e)]\<rparr> = Inr pl"
    "publish_service sv i pl = Some (Inr m)"
    "st' = \<lparr>pn_backend_ids = pl_backend_ids pl, pn_backend_pool = pl_pool pl, pn_service_pool = pool,
       pn_frontends = bs_insert (service_key sv) (pn_frontends st),
       pn_out = \<lparr>ds_maps = m, ds_ids = bt_insert (service_key sv) i (ds_ids (pn_out st))\<rparr>\<rparr>"
    "\<And>f sc. lookup_service m f sc 0 = (if (f, sc) = service_key sv then Some e else lookup_service (ds_maps (pn_out st)) f sc 0)"
    "lb_table_of (pl_maps pl) = lb_table_of (ds_maps (pn_out st))"
    "\<And>a n. bt_get (pn_backend_ids st) a = Some n \<Longrightarrow> bt_get (pl_backend_ids pl) a = Some n"
  using run
proof (rule place_service_cases)
  fix i pool e pl m
  let ?bs = "service_backends sv"
  let ?st0 = "\<lparr>pl_backend_ids = pn_backend_ids st, pl_pool = pn_backend_pool st, pl_maps = ds_maps (pn_out st), pl_table = [], pl_slots = [(0, e)]\<rparr>"
  assume A: "service_key sv \<notin> set (pn_frontends st)" "length ?bs \<le> 65535"
    "service_id_for sids (service_key sv) (pn_service_pool st) = Inr (i, pool)"
    "make_master sv (of_nat (length ?bs)) i = Inr e" "place_backends sv i 0 ?bs ?st0 = Inr pl"
    "publish_service sv i pl = Some (Inr m)"
    "st' = \<lparr>pn_backend_ids = pl_backend_ids pl, pn_backend_pool = pl_pool pl, pn_service_pool = pool,
       pn_frontends = bs_insert (service_key sv) (pn_frontends st),
       pn_out = \<lparr>ds_maps = m, ds_ids = bt_insert (service_key sv) i (ds_ids (pn_out st))\<rparr>\<rparr>"
  have "placing_inv i ?st0 [] ?st0" using inv by (simp add: placing_inv_def planning_inv_def)
  from place_backends_inv [OF this, of sv ?bs pl] A(5) have "placing_inv i ?st0 ?bs pl" by simp
  note P = this [unfolded placing_inv_def placing.select_convs append_Cons append_Nil]
  have slots: "pl_slots pl = (0, e) # map (\<lambda>j. (of_nat (j + 1), slot_entry (the (bt_get (pl_backend_ids pl) (?bs ! j))) i)) [0..<length ?bs]"
    using P by blast
  have look: "lookup_service (pl_maps pl) = lookup_service (ds_maps (pn_out st))" using P lookup_cong by blast
  have tables: "lb_table_of (pl_maps pl) = lb_table_of (ds_maps (pn_out st))" using P by (simp add: lb_table_of_def fun_eq_iff)
  have "distinct (map fst (pl_slots pl))" "map_of (pl_slots pl) 0 = Some e"
    unfolding slots by (rule slots_map [OF A(2)]) simp
  then have look0: "lookup_service m f sc 0 = (if (f, sc) = service_key sv then Some e else lookup_service (ds_maps (pn_out st)) f sc 0)" for f sc
    using publish_service_spec [OF A(6), of f sc 0] unfolding look by simp
  have ext: "bt_get (pl_backend_ids pl) a = Some n" if "bt_get (pn_backend_ids st) a = Some n" for a n using P that by blast
  show thesis by (rule that [OF A(1,3,4,5,6,7) look0 tables ext])
qed

lemma placed_ids:
  assumes "planning_inv ready st" "sv \<in> set ready"
  shows "\<forall>b\<in>set (service_backends sv). \<exists>n. bt_get (pn_backend_ids st) b = Some n"
proof -
  have "service_placed (bt_get (pn_backend_ids st)) (ds_maps (pn_out st)) sv" using assms unfolding planning_inv_def by blast
  then show ?thesis unfolding service_placed_def by blast
qed

lemma table_entries:
  assumes inv: "planning_inv ready st" and mg: "sv_maglev sv"
    and pl: "place_backends sv i 0 (service_backends sv) \<lparr>pl_backend_ids = pn_backend_ids st, pl_pool = pn_backend_pool st,
       pl_maps = ds_maps (pn_out st), pl_table = [], pl_slots = [(0, e)]\<rparr> = Inr pl"
    and placed: "\<forall>b\<in>set (service_backends sv). \<exists>n. bt_get (pl_backend_ids pl) b = Some n"
  shows "mb_id ` set (pl_table pl) = (\<lambda>b. the (bt_get (pl_backend_ids pl) b)) ` set (service_backends sv)"
    "n \<in> mb_id ` set (pl_table pl) \<Longrightarrow> \<exists>b\<in>set (service_backends sv). bt_get (pl_backend_ids pl) b = Some n"
proof -
  have "ids_ok (pn_backend_ids st) (pn_backend_pool st)" using inv by (simp add: planning_inv_def)
  then have "map mb_id (pl_table pl) = map (\<lambda>b. the (bt_get (pl_backend_ids pl) b)) (service_backends sv)"
    using place_backends_table [OF pl _ mg] by simp
  from arg_cong [OF this, of set]
  show E: "mb_id ` set (pl_table pl) = (\<lambda>b. the (bt_get (pl_backend_ids pl) b)) ` set (service_backends sv)"
    unfolding set_map .
  show "\<exists>b\<in>set (service_backends sv). bt_get (pl_backend_ids pl) b = Some n" if "n \<in> mb_id ` set (pl_table pl)"
    using that unfolding E
  proof (rule imageE)
    fix b assume b: "n = the (bt_get (pl_backend_ids pl) b)" "b \<in> set (service_backends sv)"
    then show ?thesis using placed by (intro bexI [of _ b]) auto
  qed
qed

lemma place_service_tables:
  assumes T: "tables_inv sids ready st" and inj: "ids_injective sids" and run: "place_service sids sv st = Some (Inr st')"
  shows "tables_inv sids (sv # ready) st'"
proof -
  have inv: "planning_inv ready st" and S: "service_ids_ok sids st" and R: "\<And>x. x \<in> set ready \<Longrightarrow> table_placed st x"
    using T by (simp_all add: tables_inv_def)
  have inv': "planning_inv (sv # ready) st'" by (rule place_service_inv [OF inv run])
  obtain i pool e pl m where A: "service_key sv \<notin> set (pn_frontends st)"
    "service_id_for sids (service_key sv) (pn_service_pool st) = Inr (i, pool)"
    "make_master sv (of_nat (length (service_backends sv))) i = Inr e"
    "place_backends sv i 0 (service_backends sv) \<lparr>pl_backend_ids = pn_backend_ids st, pl_pool = pn_backend_pool st,
       pl_maps = ds_maps (pn_out st), pl_table = [], pl_slots = [(0, e)]\<rparr> = Inr pl"
    "publish_service sv i pl = Some (Inr m)"
    and st': "st' = \<lparr>pn_backend_ids = pl_backend_ids pl, pn_backend_pool = pl_pool pl, pn_service_pool = pool,
       pn_frontends = bs_insert (service_key sv) (pn_frontends st),
       pn_out = \<lparr>ds_maps = m, ds_ids = bt_insert (service_key sv) i (ds_ids (pn_out st))\<rparr>\<rparr>"
    and look: "\<And>f sc. lookup_service m f sc 0 = (if (f, sc) = service_key sv then Some e else lookup_service (ds_maps (pn_out st)) f sc 0)"
    and tables: "lb_table_of (pl_maps pl) = lb_table_of (ds_maps (pn_out st))"
    and ext: "\<And>a n. bt_get (pn_backend_ids st) a = Some n \<Longrightarrow> bt_get (pl_backend_ids pl) a = Some n"
    by (rule place_service_step [OF inv run]) (rule that, assumption+)
  note N = service_id_for_new [OF S inj A(1,2)]
  note pub = publish_table [OF A(5), unfolded tables]
  have S': "service_ids_ok sids st'" unfolding st' by (rule service_ids_step [OF S inj A(1,2)])
  have "table_placed st' sv"
    unfolding table_placed_def
  proof
    assume mg: "sv_maglev sv \<and> service_backends sv \<noteq> []"
    have placed: "\<forall>b\<in>set (service_backends sv). \<exists>n. bt_get (pl_backend_ids pl) b = Some n"
      using placed_ids [OF inv' list.set_intros(1)] unfolding st' planning.select_convs .
    note ent = table_entries [OF inv conjunct1 [OF mg] A(4) placed]
    have "pl_table pl \<noteq> []" using ent(1) mg by auto
    then obtain t where t: "lb_table_of m (sv_frontend sv) i = Some t" "length t = TABLE_LEN" "set t \<subseteq> mb_id ` set (pl_table pl)"
      using pub by blast
    have "lookup_service m (sv_frontend sv) (sv_scope sv) 0 = Some e" using look by simp
    moreover have "lbs_rev_nat_index e = i" "lbs_algorithm_code e = ALGORITHM_MAGLEV"
      using make_master_spec [OF A(3)] make_master_maglev [OF A(3)] mg by blast+
    moreover have "\<forall>n\<in>set t. \<exists>b\<in>set (service_backends sv). bt_get (pl_backend_ids pl) b = Some n" using ent(2) t(3) by blast
    ultimately show "\<exists>e i t. bt_get (ds_ids (pn_out st')) (service_key sv) = Some i \<and>
        lookup_service (ds_maps (pn_out st')) (sv_frontend sv) (sv_scope sv) 0 = Some e \<and> lbs_rev_nat_index e = i \<and>
        lbs_algorithm_code e = ALGORITHM_MAGLEV \<and> lb_table_of (ds_maps (pn_out st')) (sv_frontend sv) i = Some t \<and>
        length t = TABLE_LEN \<and> (\<forall>n\<in>set t. \<exists>b\<in>set (service_backends sv). bt_get (pn_backend_ids st') b = Some n)"
      using t unfolding st' by simp
  qed
  moreover have "table_placed st' x" if x: "x \<in> set ready" for x
    unfolding table_placed_def
  proof
    assume "sv_maglev x \<and> service_backends x \<noteq> []"
    then obtain e' j t where X: "bt_get (ds_ids (pn_out st)) (service_key x) = Some j"
      "lookup_service (ds_maps (pn_out st)) (sv_frontend x) (sv_scope x) 0 = Some e'" "lbs_rev_nat_index e' = j"
      "lbs_algorithm_code e' = ALGORITHM_MAGLEV" "lb_table_of (ds_maps (pn_out st)) (sv_frontend x) j = Some t"
      "length t = TABLE_LEN" "\<forall>n\<in>set t. \<exists>b\<in>set (service_backends x). bt_get (pn_backend_ids st) b = Some n"
      using R [OF x] unfolding table_placed_def by blast
    have "service_key x \<in> set (pn_frontends st)" using inv x by (simp add: planning_inv_def)
    then have ne: "service_key x \<noteq> service_key sv" using A(1) by metis
    have "j \<noteq> i" using N(1) X(1) by metis
    then have "lb_table_of m (sv_frontend x) j = Some t" using pub X(5) by metis
    moreover have "lookup_service m (sv_frontend x) (sv_scope x) 0 = Some e'" using look ne X(2) by metis
    moreover have "\<forall>n\<in>set t. \<exists>b\<in>set (service_backends x). bt_get (pl_backend_ids pl) b = Some n" using X(7) ext by blast
    moreover have "bt_get (bt_insert (service_key sv) i (ds_ids (pn_out st))) (service_key x) = Some j"
      unfolding bt_get_insert using X(1) ne by (simp only: fun_upd_apply if_False)
    ultimately show "\<exists>e i t. bt_get (ds_ids (pn_out st')) (service_key x) = Some i \<and>
        lookup_service (ds_maps (pn_out st')) (sv_frontend x) (sv_scope x) 0 = Some e \<and> lbs_rev_nat_index e = i \<and>
        lbs_algorithm_code e = ALGORITHM_MAGLEV \<and> lb_table_of (ds_maps (pn_out st')) (sv_frontend x) i = Some t \<and>
        length t = TABLE_LEN \<and> (\<forall>n\<in>set t. \<exists>b\<in>set (service_backends x). bt_get (pn_backend_ids st') b = Some n)"
      using X(3,4,6) unfolding st' planning.select_convs desired_maps.select_convs by blast
  qed
  ultimately show ?thesis using inv' S' unfolding tables_inv_def by simp
qed

lemma place_services_tables:
  assumes "tables_inv sids ready st" "ids_injective sids" "place_services sids svs st = Some (Inr st')"
  shows "tables_inv sids (rev svs @ ready) st'"
  using assms
proof (induction svs arbitrary: ready st)
  case (Cons sv svs)
  then obtain st1 where 1: "place_service sids sv st = Some (Inr st1)" "place_services sids svs st1 = Some (Inr st')"
    by (auto split: option.splits sum.splits)
  from Cons.IH [OF place_service_tables [OF Cons.prems(1,2) 1(1)] Cons.prems(2) 1(2)] show ?case by simp
qed simp

lemma recover_services_used:
  assumes "recover_services ms (used, m) = (used', m')" "\<forall>a i. bt_get m a = Some i \<longrightarrow> ucast i \<in> set used"
  shows "\<forall>a i. bt_get m' a = Some i \<longrightarrow> ucast i \<in> set used'"
  using assms
proof (induction ms arbitrary: used m)
  case (Cons x ms)
  obtain f sc j v where x: "x = ((f, sc, j), v)" by (cases x) auto
  let ?r = "lbs_rev_nat_index (service_of v)"
  let ?m = "if j = 0 \<and> ?r \<noteq> 0 then bt_or_insert (f, sc) ?r m else m"
  have "\<forall>a i. bt_get ?m a = Some i \<longrightarrow> ucast i \<in> set (bs_insert (ucast ?r) used)"
    using Cons.prems(2) by (cases "bt_get m (f, sc)") (simp_all add: bt_or_insert_def del: split_paired_All)
  moreover have "recover_services ms (bs_insert (ucast ?r) used, ?m) = (used', m')"
    using Cons.prems(1) by (simp add: x Let_def)
  ultimately show ?case using Cons.IH by blast
qed simp

lemma initial_tables:
  assumes "maps_ok current" "initial_planning current = (st, sids)"
  shows "tables_inv sids [] st"
proof -
  let ?masters = "map (\<lambda>(k, v). (frontend4 k, v)) (mp_services4 current) @ map (\<lambda>(k, v). (frontend6 k, v)) (mp_services6 current)"
  obtain used where r: "recover_services ?masters ([], []) = (used, sids)"
    using assms(2) by (cases "recover_services ?masters ([], [])") (simp add: initial_planning_def Let_def)
  have "\<forall>a i. bt_get sids a = Some i \<longrightarrow> ucast i \<in> set used"
    by (rule recover_services_used [OF r]) simp
  moreover have "id_used (pn_service_pool st) = used" "pn_frontends st = []" "ds_ids (pn_out st) = []"
    using assms(2) r by (auto simp: initial_planning_def Let_def ids_new_def)
  ultimately have "service_ids_ok sids st" by (simp add: service_ids_ok_def del: split_paired_All)
  moreover have "planning_inv [] st" using initial_inv [OF assms(1)] assms(2) by simp
  ultimately show ?thesis by (simp add: tables_inv_def)
qed

section \<open>Picking a backend\<close>

lemma maglev_pick_table:
  assumes "lookup_service m f sc 0 = Some e" "lbs_algorithm_code e = ALGORITHM_MAGLEV"
    "lb_table_of m f (lbs_rev_nat_index e) = Some t" "length t = TABLE_LEN" "is_ipv4 client = is_ipv4 (fst f)"
  shows "\<exists>n\<in>set t. maglev_pick m f sc client port = lookup_backend m f n"
proof -
  obtain h where h: "maglev_pick m f sc client port = lookup_backend m f (t ! unat (hash_entry h))"
  proof (cases "fst f")
    case (V4 a)
    then obtain c where "client = V4 c" using assms(5) by (cases client) auto
    then show thesis using assms hash_entry_bound V4 that
      by (auto simp: maglev_pick_def Let_def lb_table_of_def not_le [symmetric])
  next
    case (V6 a)
    then obtain c where "client = V6 c" using assms(5) by (cases client) auto
    then show thesis using assms hash_entry_bound V6 that
      by (auto simp: maglev_pick_def Let_def lb_table_of_def not_le [symmetric])
  qed
  then show ?thesis using hash_entry_bound [of h] assms(4) by (metis nth_mem)
qed

lemma desired_run:
  assumes "desired current services = Some (Inr d)" "initial_planning current = (st, sids)"
  obtains st' where "place_services sids (sort_services services) st = Some (Inr st')" "d = pn_out st'"
proof -
  obtain r where r: "place_services sids (sort_services services) st = Some r" "map_sum id pn_out r = Inr d"
    using assms by (auto simp: desired_def)
  then show thesis using that by (cases r) simp_all
qed


section \<open>An example\<close>

definition lab_maglev :: service where
  "lab_maglev = lab_service\<lparr>sv_maglev := True\<rparr>"

lemma lab_maglev_backends: "service_backends lab_maglev = [(V4 0x0A000005, 8080, 6)]"
  using lab_backends by (simp add: service_backends_def lab_maglev_def)

lemma lab_maglev_desired: "\<exists>d. desired maps_default [lab_maglev] = Some (Inr d)"
proof -
  let ?b = "\<lparr>mb_id = 1, mb_address = V4 0x0A000005, mb_port = 8080, mb_protocol = ''TCP'', mb_cluster = 0, mb_internal = False, mb_weight = 1\<rparr> :: maglev_backend"
  obtain v where v: "backend_bytes4 (V4 0x0A000005, 8080, 6) = Some v" using backend_bytes4_Some by blast
  obtain K where K: "\<And>j. key4 (V4 0x0A600001, 80, 6) 0 j = Some (K j)" using key4_Some by metis
  have i: "initial_planning maps_default = (\<lparr>pn_backend_ids = [], pn_backend_pool = ids_new [] (- 1), pn_service_pool = ids_new [] 65535,
      pn_frontends = [], pn_out = \<lparr>ds_maps = maps_default, ds_ids = []\<rparr>\<rparr>, [])"
    by (simp add: initial_planning_def maps_default_def bt_keys_def bs_of_list_def)
  have alloc: "ids_allocate (ids_new [] mx) = Some (1, \<lparr>id_used = [1], id_next = 1, id_max = mx\<rparr>)" if "mx \<noteq> 0" for mx
    using that by (simp add: ids_allocate_def ids_new_def first_unused.simps)
  have slot: "slot_number 0 = Some 1" by (simp add: slot_number_def checked_add_def)
  have "TABLE_LEN \<in> set table_sizes" "backend_ok ?b" by (simp_all add: TABLE_LEN_def table_sizes_def backend_ok_def)
  then obtain t where t: "maglev_table [?b] TABLE_LEN SEED_MURMUR = Some (Inr t)"
    using maglev_table_facts [of "[?b]" TABLE_LEN SEED_MURMUR] by auto
  obtain e where e: "lbs_set_affinity AlgorithmMaglev 0 (lbs_set_service_flags service_flags_routable
      (lb_service_default\<lparr>lbs_count := 1, lbs_rev_nat_index := 1\<rparr>)) = Inr e"
    by (simp add: lbs_set_affinity_def)
  show ?thesis
    by (simp add: desired_def i sort_services_def place_service_def lab_maglev_backends Let_def)
       (simp add: lab_maglev_def lab_service_def service_id_for_def alloc make_master_def e place_backend_def backend_id_for_def
         insert_backend_def v table_backend_def t slot publish_service_def insert_slot_def K Let_def)
qed


end
