(* ===== verification/SocketUpdate.thy ===== *)
theory SocketUpdate
  imports SocketMaglev
begin

text \<open>
  The update loop of the socket load balancer: the loader's application of planned writes
  (\<open>flowsdn-bpf-loader/src/socket_lb.rs\<close>: \<open>absent\<close>, \<open>write_maglev\<close>, \<open>SocketLb::apply\<close>) and the agent's round
  (\<open>flowsdn-agent/src/kubernetes_controller.rs\<close>: \<open>program\<close>), over a kernel that may refuse any single map
  call. The kernel's refusals are a parameter: \<open>refuse n op\<close> is the error of the \<open>n\<close>-th call of a round, if
  any, and a refused call changes nothing. A removal of a key fails with \<open>MapNotFound\<close> exactly when the key is
  not there.
\<close>

section \<open>Applying planned writes\<close>

datatype map_error = MapNotFound | MapOther string

datatype kernel_error = KernelMap map_error | MaglevTableSize

type_synonym kernel = "nat \<Rightarrow> op \<Rightarrow> string option"

fun op_present :: "op \<Rightarrow> maps \<Rightarrow> bool" where
  "op_present (DeleteService4 k) m = (bt_get (mp_services4 m) k \<noteq> None)"
| "op_present (DeleteService6 k) m = (bt_get (mp_services6 m) k \<noteq> None)"
| "op_present (DeleteBackend4 k) m = (bt_get (mp_backends4 m) k \<noteq> None)"
| "op_present (DeleteBackend6 k) m = (bt_get (mp_backends6 m) k \<noteq> None)"
| "op_present (DeleteAffinityMatch k) m = (k \<in> set (mp_affinity_match m))"
| "op_present (DeleteMaglev4 k) m = (bt_get (mp_maglev4 m) k \<noteq> None)"
| "op_present (DeleteMaglev6 k) m = (bt_get (mp_maglev6 m) k \<noteq> None)"
| "op_present _ m = True"

definition map_call :: "kernel \<Rightarrow> nat \<Rightarrow> op \<Rightarrow> maps \<Rightarrow> map_error + maps" where
  "map_call refuse n op m =
     (case refuse n op of
        Some e \<Rightarrow> Inl (MapOther e)
      | None \<Rightarrow> if op_present op m then Inr (apply_op op m) else Inl MapNotFound)"

definition absent :: "maps \<Rightarrow> map_error + maps \<Rightarrow> map_error + maps" where
  "absent m r = (case r of Inl MapNotFound \<Rightarrow> Inr m | _ \<Rightarrow> r)"

definition write_maglev :: "kernel \<Rightarrow> nat \<Rightarrow> op \<Rightarrow> u32 list \<Rightarrow> maps \<Rightarrow> kernel_error + maps" where
  "write_maglev refuse n op t m =
     (if length t \<noteq> TABLE_LEN then Inl MaglevTableSize else map_sum KernelMap id (map_call refuse n op m))"

fun is_delete :: "op \<Rightarrow> bool" where
  "is_delete (DeleteService4 _) = True"
| "is_delete (DeleteService6 _) = True"
| "is_delete (DeleteBackend4 _) = True"
| "is_delete (DeleteBackend6 _) = True"
| "is_delete (DeleteAffinityMatch _) = True"
| "is_delete (DeleteMaglev4 _) = True"
| "is_delete (DeleteMaglev6 _) = True"
| "is_delete _ = False"

fun write_op :: "kernel \<Rightarrow> nat \<Rightarrow> op \<Rightarrow> maps \<Rightarrow> kernel_error + maps" where
  "write_op refuse n (Maglev4 i t) m = write_maglev refuse n (Maglev4 i t) t m"
| "write_op refuse n (Maglev6 i t) m = write_maglev refuse n (Maglev6 i t) t m"
| "write_op refuse n op m =
     (let r = map_call refuse n op m in map_sum KernelMap id (if is_delete op then absent m r else r))"

fun socket_lb_apply :: "kernel \<Rightarrow> nat \<Rightarrow> op list \<Rightarrow> maps \<Rightarrow> maps \<times> (kernel_error + unit)" where
  "socket_lb_apply refuse n [] m = (m, Inr ())"
| "socket_lb_apply refuse n (op # ops) m =
     (case write_op refuse n op m of
        Inl e \<Rightarrow> (m, Inl e)
      | Inr m \<Rightarrow> socket_lb_apply refuse (n + 1) ops m)"

section \<open>One round of the agent\<close>

datatype program_error = ReadLbMaps map_error | PlanFailed lb_error | WriteLbMaps kernel_error

text \<open>
  \<open>unread\<close> is the error of reading the maps, if it fails; \<open>None\<close> would be planning that does not end.
\<close>

definition lb_program ::
    "map_error option \<Rightarrow> kernel \<Rightarrow> service list \<Rightarrow> maps \<Rightarrow>
     (maps \<times> (program_error + (address \<times> u8, u16) btree_map)) option" where
  "lb_program unread refuse services m =
     (case unread of
        Some e \<Rightarrow> Some (m, Inl (ReadLbMaps e))
      | None \<Rightarrow>
          (case desired m services of
             None \<Rightarrow> None
           | Some (Inl e) \<Rightarrow> Some (m, Inl (PlanFailed e))
           | Some (Inr want) \<Rightarrow>
               (case socket_lb_apply refuse 0 (lb_plan m (ds_maps want)) m of
                  (m', Inl e) \<Rightarrow> Some (m', Inl (WriteLbMaps e))
                | (m', Inr _) \<Rightarrow> Some (m', Inr (ds_ids want)))))"

section \<open>Writes\<close>

lemma bt_remove_absent: "bt_get m k = None \<Longrightarrow> bt_remove k m = m"
  by (induction m) (auto simp: bt_remove_def split: if_splits)

lemma bs_remove_absent: "k \<notin> set s \<Longrightarrow> bs_remove k s = s"
  by (induction s) (auto simp: bs_remove_def)

lemma delete_absent: "is_delete op \<Longrightarrow> \<not> op_present op m \<Longrightarrow> apply_op op m = m"
  by (cases op) (auto simp: bt_remove_absent bs_remove_absent)

lemma apply_op_ok: "maps_ok m \<Longrightarrow> maps_ok (apply_op op m)"
  by (cases op) (auto simp: maps_ok_def bt_ok_insert bs_ok_insert bt_ok_remove bs_ok_remove)

lemma lb_apply_ok: "maps_ok m \<Longrightarrow> maps_ok (lb_apply m ops)"
  unfolding lb_apply_def by (induction ops arbitrary: m) (simp_all add: apply_op_ok)

lemma write_op_cases:
  "write_op refuse n op m = Inr (apply_op op m) \<or> (\<exists>e. write_op refuse n op m = Inl e)"
  using delete_absent [of op m]
  by (cases op) (auto simp: write_maglev_def map_call_def absent_def Let_def split: option.splits map_error.splits)

fun table_sized :: "op \<Rightarrow> bool" where
  "table_sized (Maglev4 _ t) = (length t = TABLE_LEN)"
| "table_sized (Maglev6 _ t) = (length t = TABLE_LEN)"
| "table_sized _ = True"

lemma write_op_done:
  assumes "refuse n op = None" "table_sized op"
  shows "write_op refuse n op m = Inr (apply_op op m)"
  using delete_absent [of op m] assms
  by (cases op) (auto simp: write_maglev_def map_call_def absent_def Let_def)

lemma socket_lb_apply_prefix:
  assumes "socket_lb_apply refuse n ops m = (m', r)"
  shows "\<exists>k\<le>length ops. m' = lb_apply m (take k ops) \<and> (r = Inr () \<longrightarrow> k = length ops)"
  using assms
proof (induction ops arbitrary: n m)
  case (Cons op ops)
  consider (ok) "write_op refuse n op m = Inr (apply_op op m)" | (err) e where "write_op refuse n op m = Inl e"
    using write_op_cases by blast
  then show ?case
  proof cases
    case ok
    with Cons.prems have "socket_lb_apply refuse (n + 1) ops (apply_op op m) = (m', r)" by simp
    from Cons.IH [OF this] obtain k where
      "k \<le> length ops" "m' = lb_apply (apply_op op m) (take k ops)" "r = Inr () \<longrightarrow> k = length ops" by blast
    then show ?thesis by (intro exI [of _ "Suc k"]) (simp add: lb_apply_def)
  next
    case err
    with Cons.prems show ?thesis by (intro exI [of _ 0]) (auto simp: lb_apply_def)
  qed
qed (simp add: lb_apply_def)

lemma socket_lb_apply_done:
  assumes "\<forall>n op. refuse n op = None" "list_all table_sized ops"
  shows "socket_lb_apply refuse n ops m = (lb_apply m ops, Inr ())"
  using assms(2)
proof (induction ops arbitrary: n m)
  case (Cons op ops)
  have "write_op refuse n op m = Inr (apply_op op m)" using write_op_done [of refuse n op m] assms(1) Cons.prems by simp
  then show ?case using Cons.IH Cons.prems by (simp add: lb_apply_def)
qed (simp add: lb_apply_def)

section \<open>Table sizes\<close>

definition tables_sized :: "maps \<Rightarrow> bool" where
  "tables_sized m \<longleftrightarrow> (\<forall>f i t. lb_table_of m f i = Some t \<longrightarrow> length t = TABLE_LEN)"

lemma place_service_sized:
  assumes inv: "planning_inv ready st" and run: "place_service sids sv st = Some (Inr st')" and sized: "tables_sized (ds_maps (pn_out st))"
  shows "tables_sized (ds_maps (pn_out st'))"
proof (rule place_service_step [OF inv run])
  fix i pool e pl m
  assume pub: "publish_service sv i pl = Some (Inr m)" and old: "lb_table_of (pl_maps pl) = lb_table_of (ds_maps (pn_out st))"
    and st': "st' = \<lparr>pn_backend_ids = pl_backend_ids pl, pn_backend_pool = pl_pool pl, pn_service_pool = pool,
       pn_frontends = bs_insert (service_key sv) (pn_frontends st),
       pn_out = \<lparr>ds_maps = m, ds_ids = bt_insert (service_key sv) i (ds_ids (pn_out st))\<rparr>\<rparr>"
  have "length t = TABLE_LEN" if "lb_table_of m f k = Some t" for f k t
  proof (cases "is_ipv4 (fst f) = is_ipv4 (fst (sv_frontend sv)) \<and> k = i \<and> pl_table pl \<noteq> []")
    case True
    then have "lb_table_of m f k = lb_table_of m (sv_frontend sv) i" by (simp add: lb_table_of_def)
    then show ?thesis using publish_table [OF pub] True that by (metis option.sel)
  next
    case False
    have "lb_table_of m f k = lb_table_of (ds_maps (pn_out st)) f k"
    proof (cases "pl_table pl = []")
      case True
      then have "insert_slots (sv_frontend sv) (sv_scope sv) (pl_slots pl) (pl_maps pl) = Inr m"
        using pub by (simp add: publish_service_def)
      from table_untouched [OF this] show ?thesis unfolding old by simp
    next
      case False
      with \<open>\<not> (is_ipv4 (fst f) = is_ipv4 (fst (sv_frontend sv)) \<and> k = i \<and> pl_table pl \<noteq> [])\<close>
      show ?thesis using publish_table [OF pub] unfolding old by blast
    qed
    then show ?thesis using sized that unfolding tables_sized_def by metis
  qed
  then show ?thesis unfolding st' tables_sized_def by simp
qed

lemma place_services_sized:
  assumes "planning_inv ready st" "place_services sids svs st = Some (Inr st')" "tables_sized (ds_maps (pn_out st))"
  shows "tables_sized (ds_maps (pn_out st'))"
  using assms
proof (induction svs arbitrary: ready st)
  case (Cons sv svs)
  then obtain st1 where 1: "place_service sids sv st = Some (Inr st1)" "place_services sids svs st1 = Some (Inr st')"
    by (auto split: option.splits sum.splits)
  show ?case
    by (rule Cons.IH [OF place_service_inv [OF Cons.prems(1) 1(1)] 1(2) place_service_sized [OF Cons.prems(1) 1(1) Cons.prems(3)]])
qed simp

lemma desired_sized:
  assumes "maps_ok current" "desired current services = Some (Inr d)"
  shows "tables_sized (ds_maps d)"
proof -
  obtain st sids where i: "initial_planning current = (st, sids)" by fastforce
  obtain st' where run: "place_services sids (sort_services services) st = Some (Inr st')" "d = pn_out st'"
    by (rule desired_run [OF assms(2) i])
  have "pn_out st = \<lparr>ds_maps = maps_default, ds_ids = []\<rparr>" using i by (auto simp: initial_planning_def Let_def split: prod.splits)
  then have "tables_sized (ds_maps (pn_out st))" by (simp add: tables_sized_def lb_table_of_def maps_default_def)
  moreover have "planning_inv [] st" using initial_inv [OF assms(1)] i by simp
  ultimately show ?thesis using place_services_sized run by blast
qed

lemma plan_sized:
  assumes "maps_ok new" "tables_sized new"
  shows "list_all table_sized (lb_plan current new)"
proof -
  have "length t = TABLE_LEN" if "(i, t) \<in> set (mp_maglev4 new) \<or> (i, t) \<in> set (mp_maglev6 new)" for i t
  proof -
    have "bt_get (mp_maglev4 new) i = Some t \<or> bt_get (mp_maglev6 new) i = Some t"
      using that assms(1) by (auto simp: maps_ok_def bt_ok_distinct)
    then have "lb_table_of new (V4 0, 0, 0) i = Some t \<or> lb_table_of new (V6 0, 0, 0) i = Some t" by (simp add: lb_table_of_def)
    then show ?thesis using assms(2) unfolding tables_sized_def by blast
  qed
  then show ?thesis
    by (auto simp: lb_plan_def plan_upserts_def plan_deletes_def changed_def list_all_iff) blast+
qed

section \<open>Any number of rounds\<close>

text \<open>
  The states of the kernel maps over any number of rounds, each with its own services and its own refusals. A
  refusal may come at any call of a round, so the states between two writes of a round are among them.
\<close>

inductive lb_reach :: "maps \<Rightarrow> maps \<Rightarrow> bool" for m0 where
  start: "lb_reach m0 m0"
| round: "lb_reach m0 m \<Longrightarrow> list_all (\<lambda>sv. \<not> sv_nat46x64 sv) services \<Longrightarrow>
    lb_program unread refuse services m = Some (m', r) \<Longrightarrow> lb_reach m0 m'"

lemma lb_program_state:
  assumes "lb_program unread refuse services m = Some (m', r)"
  shows "m' = m \<or> (\<exists>d k. desired m services = Some (Inr d) \<and> m' = lb_apply m (take k (lb_plan m (ds_maps d))))"
  using assms socket_lb_apply_prefix [of refuse 0 _ m m']
  by (auto simp: lb_program_def split: option.splits sum.splits prod.splits)

lemma program_prefix_closed:
  assumes "maps_ok m" "maps_closed m" "desired m services = Some (Inr d)" "list_all (\<lambda>sv. \<not> sv_nat46x64 sv) services"
  shows "maps_closed (lb_apply m (take k (lb_plan m (ds_maps d))))"
proof -
  have "maps_ok (ds_maps d)" using desired_placed [OF assms(1,3)] by blast
  moreover have "maps_closed (ds_maps d)" using desired_closed [OF assms(1,3)] assms(4) by (simp add: list_all_iff)
  ultimately show ?thesis using maps_prefix_closed [of "ds_maps d" m k] assms(2) by blast
qed

lemma reach_invariant:
  assumes "lb_reach m0 m" "maps_ok m0"
  shows "maps_ok m \<and> (maps_closed m0 \<longrightarrow> maps_closed m)"
  using assms
proof (induction rule: lb_reach.induct)
  case (round m services unread refuse m' r)
  then show ?case using lb_program_state [OF round.hyps(3)] program_prefix_closed lb_apply_ok by metis
qed simp



section \<open>An example\<close>

lemma lab_start: "maps_ok maps_default" "maps_closed maps_default"
  by (auto simp: maps_ok_def maps_closed_def lookup_service_def maps_default_def split: ip_addr.splits)

text \<open>A kernel that refuses the second call of a round.\<close>

definition lab_refuse :: kernel where
  "lab_refuse n op = (if n = 1 then Some ''E2BIG'' else None)"

lemma lab_reach: "\<exists>m r. lb_program None lab_refuse [lab_service] maps_default = Some (m, r) \<and> lb_reach maps_default m"
proof -
  obtain d where d: "desired maps_default [lab_service] = Some (Inr d)" using lab_desired by blast
  obtain m r where m: "lb_program None lab_refuse [lab_service] maps_default = Some (m, r)"
  proof -
    obtain m q where q: "socket_lb_apply lab_refuse 0 (lb_plan maps_default (ds_maps d)) maps_default = (m, q)" by fastforce
    show thesis by (cases q) (use that d q in \<open>auto simp: lb_program_def\<close>)
  qed
  moreover have "lb_reach maps_default m"
    by (rule lb_reach.round [OF lb_reach.start _ m]) (simp add: lab_service_def)
  ultimately show ?thesis by blast
qed



end
