(* ===== verification/BgpFrame.thy ===== *)
theory BgpFrame
  imports Bytes
begin

text \<open>
  The wire frames of \<open>flowsdn-bgp-proto\<close>: the envelope codec and error policy of \<open>src/lib.rs\<close>, address
  families of \<open>src/capabilities.rs\<close>, and the auxiliary message bodies of \<open>src/messages.rs\<close>. Rust's \<open>?\<close> is
  \<open>and_then\<close>; a reader that advances a slice returns the value and the rest.
\<close>

section \<open>Results\<close>

definition and_then :: "'e + 'a \<Rightarrow> ('a \<Rightarrow> 'e + 'b) \<Rightarrow> 'e + 'b" where
  "and_then r f = (case r of Inl e \<Rightarrow> Inl e | Inr x \<Rightarrow> f x)"

lemma and_then_simps [simp]: "and_then (Inl e) f = Inl e" "and_then (Inr x) f = f x"
  by (simp_all add: and_then_def)

lemma and_then_cong [fundef_cong]:
  "r = r' \<Longrightarrow> (\<And>x. r' = Inr x \<Longrightarrow> f x = g x) \<Longrightarrow> and_then r f = and_then r' g"
  by (cases r') simp_all

lemma and_then_Inr_iff: "and_then r f = Inr y \<longleftrightarrow> (\<exists>x. r = Inr x \<and> f x = Inr y)"
  by (cases r) simp_all

section \<open>Frames\<close>

definition HEADER_LENGTH :: nat where "HEADER_LENGTH = 19"
definition MAX_MESSAGE_LENGTH :: nat where "MAX_MESSAGE_LENGTH = 4096"

datatype error_scope = Framing | AttributeStructure | UpdateContent | OpenScope

record protocol_error =
  er_code :: u8
  er_subcode :: u8
  er_scope :: error_scope

datatype decode_error = NeedMore | Protocol protocol_error

datatype bgp_kind = OpenKind | UpdateKind | NotificationKind | KeepaliveKind | RouteRefreshKind

fun kind_byte :: "bgp_kind \<Rightarrow> u8" where
  "kind_byte OpenKind = 1"
| "kind_byte UpdateKind = 2"
| "kind_byte NotificationKind = 3"
| "kind_byte KeepaliveKind = 4"
| "kind_byte RouteRefreshKind = 5"

record frame =
  fr_kind :: bgp_kind
  fr_body :: "u8 list"

definition framing :: "u8 \<Rightarrow> protocol_error" where
  "framing subcode = \<lparr>er_code = 1, er_subcode = subcode, er_scope = Framing\<rparr>"

definition kind_of :: "u8 \<Rightarrow> bgp_kind option" where
  "kind_of b =
     (if b = 1 then Some OpenKind else if b = 2 then Some UpdateKind else if b = 3 then Some NotificationKind
      else if b = 4 then Some KeepaliveKind else if b = 5 then Some RouteRefreshKind else None)"

fun kind_length_ok :: "bgp_kind \<Rightarrow> nat \<Rightarrow> bool" where
  "kind_length_ok OpenKind n = (29 \<le> n)"
| "kind_length_ok UpdateKind n = (23 \<le> n)"
| "kind_length_ok NotificationKind n = (21 \<le> n)"
| "kind_length_ok KeepaliveKind n = (n = 19)"
| "kind_length_ok RouteRefreshKind n = (n = 23)"

definition bgp_decode :: "u8 list \<Rightarrow> decode_error + frame \<times> nat" where
  "bgp_decode bytes =
     (if length bytes < HEADER_LENGTH then Inl NeedMore
      else
        let header = take HEADER_LENGTH bytes;
            n = unat (from_be_bytes [header ! 16, header ! 17] :: u16)
        in if \<not> (HEADER_LENGTH \<le> n \<and> n \<le> MAX_MESSAGE_LENGTH) then Inl (Protocol (framing 2))
           else (case kind_of (header ! 18) of
                   None \<Rightarrow> Inl (Protocol (framing 3))
                 | Some kind \<Rightarrow>
                     if \<not> kind_length_ok kind n then Inl (Protocol (framing 2))
                     else if length bytes < n then Inl NeedMore
                     else Inr (\<lparr>fr_kind = kind, fr_body = take (n - HEADER_LENGTH) (drop HEADER_LENGTH bytes)\<rparr>, n)))"

definition bgp_encode :: "bgp_kind \<Rightarrow> u8 list \<Rightarrow> protocol_error + u8 list" where
  "bgp_encode kind body =
     (let n = HEADER_LENGTH + length body in
      if MAX_MESSAGE_LENGTH < n \<or> 65535 < n then Inl (framing 2)
      else
        let bytes = replicate 16 0xff @ to_be_bytes (of_nat n :: u16) @ [kind_byte kind] @ body
        in case bgp_decode bytes of
             Inl (Protocol e) \<Rightarrow> Inl e
           | Inl NeedMore \<Rightarrow> Inl (framing 2)
           | Inr _ \<Rightarrow> Inr bytes)"

datatype error_action = NotifyAndClose | CountLogAndDiscard

definition bgp_error_action :: "protocol_error \<Rightarrow> bool \<Rightarrow> error_action" where
  "bgp_error_action e strict_update_errors =
     (if er_scope e = UpdateContent \<and> \<not> strict_update_errors then CountLogAndDiscard else NotifyAndClose)"

section \<open>Address families\<close>

text \<open>\<open>Family { afi, safi }\<close>, ordered by field.\<close>

type_synonym family = "u16 \<times> u8"

definition FAMILY_IPV4 :: family where "FAMILY_IPV4 = (1, 1)"
definition FAMILY_IPV6 :: family where "FAMILY_IPV6 = (2, 1)"

definition open_error :: "u8 \<Rightarrow> protocol_error" where
  "open_error subcode = \<lparr>er_code = 2, er_subcode = subcode, er_scope = OpenScope\<rparr>"

definition family_validate :: "family \<Rightarrow> protocol_error + unit" where
  "family_validate f = (if (fst f = 1 \<or> fst f = 2) \<and> snd f = 1 then Inr () else Inl (open_error 7))"

section \<open>Message bodies\<close>

record notification =
  nt_code :: u8
  nt_subcode :: u8
  nt_data :: "u8 list"

definition nt_encode :: "notification \<Rightarrow> protocol_error + u8 list" where
  "nt_encode n =
     (let body = [nt_code n, nt_subcode n] @ nt_data n
      in and_then (bgp_encode NotificationKind body) (\<lambda>_. Inr body))"

definition nt_decode :: "u8 list \<Rightarrow> protocol_error + notification" where
  "nt_decode body =
     (case body of
        [] \<Rightarrow> Inl (framing 2)
      | code # rest \<Rightarrow>
          (case rest of
             [] \<Rightarrow> Inl (framing 2)
           | subcode # data \<Rightarrow>
               if 4077 < length body then Inl (framing 2)
               else Inr \<lparr>nt_code = code, nt_subcode = subcode, nt_data = data\<rparr>))"

definition route_refresh :: "family \<Rightarrow> protocol_error + u8 list" where
  "route_refresh f = and_then (family_validate f) (\<lambda>_. Inr (to_be_bytes (fst f) @ [0, snd f]))"

definition decode_refresh :: "u8 list \<Rightarrow> protocol_error + family" where
  "decode_refresh body =
     (case body of
        [a, b, _, safi] \<Rightarrow>
          let f = (from_be_bytes [a, b], safi) in and_then (family_validate f) (\<lambda>_. Inr f)
      | _ \<Rightarrow> Inl \<lparr>er_code = 7, er_subcode = 1, er_scope = Framing\<rparr>)"

definition end_of_rib :: "family \<Rightarrow> protocol_error + u8 list" where
  "end_of_rib f =
     and_then (family_validate f) (\<lambda>_.
       if f = FAMILY_IPV4 then Inr [0, 0, 0, 0]
       else Inr ([0, 0, 0, 6, 0x80, 15, 3] @ to_be_bytes (fst f) @ [snd f]))"

definition nt_hard_reset :: "notification \<Rightarrow> bool \<Rightarrow> protocol_error + notification" where
  "nt_hard_reset n notifications =
     (if \<not> notifications then Inr n
      else and_then (nt_encode n) (\<lambda>data.
        let wrapped = \<lparr>nt_code = 6, nt_subcode = 9, nt_data = data\<rparr>
        in and_then (nt_encode wrapped) (\<lambda>_. Inr wrapped)))"

definition nt_permits_graceful_restart :: "notification \<Rightarrow> bool \<Rightarrow> bool" where
  "nt_permits_graceful_restart n notifications \<longleftrightarrow> notifications \<and> \<not> (nt_code n = 6 \<and> nt_subcode n = 9)"

definition nt_unsupported_version :: notification where
  "nt_unsupported_version = \<lparr>nt_code = 2, nt_subcode = 1, nt_data = [0, 4]\<rparr>"

section \<open>Lemmas\<close>

lemmas limits = HEADER_LENGTH_def MAX_MESSAGE_LENGTH_def

lemma kind_of_byte [simp]: "kind_of (kind_byte k) = Some k"
  by (cases k) (simp_all add: kind_of_def)

lemma kind_of_Some: "kind_of b = Some k \<Longrightarrow> b = kind_byte k"
  by (auto simp: kind_of_def split: if_splits)

lemma kind_length_bound: "kind_length_ok k n \<Longrightarrow> HEADER_LENGTH \<le> n"
  by (cases k) (simp_all add: HEADER_LENGTH_def)

text \<open>The bytes of a message.\<close>

definition frame_bytes :: "u8 list \<Rightarrow> bgp_kind \<Rightarrow> u8 list \<Rightarrow> u8 list" where
  "frame_bytes marker k body = marker @ to_be_bytes (of_nat (HEADER_LENGTH + length body) :: u16) @ [kind_byte k] @ body"

lemma length_frame_bytes [simp]: "length (frame_bytes marker k body) = length marker + 3 + length body"
  by (simp add: frame_bytes_def)


lemma frame_header:
  assumes "length marker = 16" "HEADER_LENGTH + length body \<le> MAX_MESSAGE_LENGTH"
  shows "unat (from_be_bytes [(frame_bytes marker k body @ rest) ! 16, (frame_bytes marker k body @ rest) ! 17] :: u16) = HEADER_LENGTH + length body"
    "(frame_bytes marker k body @ rest) ! 18 = kind_byte k"
proof -
  define w where "w = (of_nat (HEADER_LENGTH + length body) :: u16)"
  have bytes: "frame_bytes marker k body = marker @ to_be_bytes w @ [kind_byte k] @ body" by (simp only: frame_bytes_def w_def)
  obtain a b where ab: "to_be_bytes w = [a, b]"
    using length_to_be_bytes [of w] by (cases "to_be_bytes w"; cases "tl (to_be_bytes w)") auto
  have "unat w = HEADER_LENGTH + length body" unfolding w_def using assms(2) by (subst unat_of_nat) (simp add: limits)
  moreover have "from_be_bytes [a, b] = w" using from_to_be_bytes [of w] ab by simp
  ultimately show "unat (from_be_bytes [(frame_bytes marker k body @ rest) ! 16, (frame_bytes marker k body @ rest) ! 17] :: u16) = HEADER_LENGTH + length body"
    by (simp add: bytes ab assms(1) nth_append)
  show "(frame_bytes marker k body @ rest) ! 18 = kind_byte k" by (simp add: bytes ab assms(1) nth_append)
qed

lemma decode_known:
  assumes "HEADER_LENGTH \<le> length bytes" "unat (from_be_bytes [bytes ! 16, bytes ! 17] :: u16) = n" "bytes ! 18 = kind_byte k"
    and "HEADER_LENGTH \<le> n" "n \<le> MAX_MESSAGE_LENGTH"
  shows "bgp_decode bytes =
    (if \<not> kind_length_ok k n then Inl (Protocol (framing 2)) else if length bytes < n then Inl NeedMore
     else Inr (\<lparr>fr_kind = k, fr_body = take (n - HEADER_LENGTH) (drop HEADER_LENGTH bytes)\<rparr>, n))"
proof -
  have "take HEADER_LENGTH bytes ! i = bytes ! i" if "i < 19" for i using that by (simp add: limits)
  then show ?thesis using assms by (simp add: bgp_decode_def Let_def)
qed

lemma decode_frame_bytes:
  assumes "length marker = 16" "HEADER_LENGTH + length body \<le> MAX_MESSAGE_LENGTH"
  shows "bgp_decode (frame_bytes marker k body @ rest) =
    (if kind_length_ok k (HEADER_LENGTH + length body) then Inr (\<lparr>fr_kind = k, fr_body = body\<rparr>, HEADER_LENGTH + length body)
     else Inl (Protocol (framing 2)))"
proof -
  define bs where "bs = frame_bytes marker k body @ rest"
  have len: "length bs = HEADER_LENGTH + length body + length rest" using assms(1) by (simp add: bs_def limits)
  have "take (length body) (drop HEADER_LENGTH bs) = body" using assms(1) by (simp add: bs_def frame_bytes_def limits)
  then show ?thesis
    using decode_known [of bs "HEADER_LENGTH + length body" k] frame_header [OF assms, of k rest] assms(2) len
    unfolding bs_def [symmetric] by simp
qed

lemma encode_frame_bytes:
  "bgp_encode k body =
    (if HEADER_LENGTH + length body \<le> MAX_MESSAGE_LENGTH \<and> kind_length_ok k (HEADER_LENGTH + length body)
     then Inr (frame_bytes (replicate 16 0xff) k body) else Inl (framing 2))"
proof (cases "HEADER_LENGTH + length body \<le> MAX_MESSAGE_LENGTH")
  case True
  have "bgp_decode (frame_bytes (replicate 16 0xff) k body) =
    (if kind_length_ok k (HEADER_LENGTH + length body) then Inr (\<lparr>fr_kind = k, fr_body = body\<rparr>, HEADER_LENGTH + length body)
     else Inl (Protocol (framing 2)))"
    using decode_frame_bytes [of "replicate 16 0xff" body k "[]"] True by simp
  moreover have "\<not> 65535 < HEADER_LENGTH + length body" using True by (simp add: limits)
  ultimately show ?thesis using True by (auto simp: bgp_encode_def Let_def frame_bytes_def simp del: of_nat_add split: if_splits)
next
  case False
  then show ?thesis by (simp add: bgp_encode_def Let_def)
qed

lemma decode_split:
  assumes "bgp_decode bytes = Inr (f, n)"
  shows "n \<le> length bytes \<and> n = HEADER_LENGTH + length (fr_body f) \<and> n \<le> MAX_MESSAGE_LENGTH \<and> kind_length_ok (fr_kind f) n \<and>
    take n bytes = frame_bytes (take 16 bytes) (fr_kind f) (fr_body f)"
proof -
  let ?h = "take HEADER_LENGTH bytes"
  let ?w = "from_be_bytes [?h ! 16, ?h ! 17] :: u16"
  have n: "n = unat ?w" "HEADER_LENGTH \<le> n" "n \<le> MAX_MESSAGE_LENGTH" "n \<le> length bytes"
    and k: "kind_of (?h ! 18) = Some (fr_kind f)" "kind_length_ok (fr_kind f) n"
    and body: "fr_body f = take (n - HEADER_LENGTH) (drop HEADER_LENGTH bytes)"
    using assms by (auto simp: bgp_decode_def Let_def split: if_splits option.splits)
  have len: "length (fr_body f) = n - HEADER_LENGTH" using n body by (simp add: limits)
  have w: "to_be_bytes (of_nat (HEADER_LENGTH + length (fr_body f)) :: u16) = [bytes ! 16, bytes ! 17]"
  proof -
    have "(of_nat (HEADER_LENGTH + length (fr_body f)) :: u16) = ?w" using n len by simp
    moreover have "to_be_bytes ?w = [?h ! 16, ?h ! 17]" by (rule to_from_be_bytes) simp
    ultimately show ?thesis by (simp add: limits)
  qed
  have L: "19 \<le> length bytes" using n by (simp add: limits)
  have "take n bytes = take 19 bytes @ fr_body f" using n body by (metis HEADER_LENGTH_def le_add_diff_inverse take_add)
  moreover have "take 19 bytes = take 16 bytes @ [bytes ! 16, bytes ! 17, bytes ! 18]"
  proof -
    have "take 19 bytes = take 16 bytes @ take 3 (drop 16 bytes)" using take_add [of 16 3 bytes] by simp
    moreover have "take 3 (drop 16 bytes) = [bytes ! 16, bytes ! 17, bytes ! 18]"
      using slice_3 [of 16 bytes] L by (simp add: eval_nat_numeral)
    ultimately show ?thesis by simp
  qed
  moreover have "bytes ! 18 = kind_byte (fr_kind f)" using kind_of_Some [OF k(1)] L by (simp add: limits)
  ultimately show ?thesis using n k len w by (simp add: frame_bytes_def del: of_nat_add)
qed

lemma decode_partial:
  assumes "length marker = 16" "HEADER_LENGTH + length body \<le> MAX_MESSAGE_LENGTH" "kind_length_ok k (HEADER_LENGTH + length body)"
    and "i < length (frame_bytes marker k body)"
  shows "bgp_decode (take i (frame_bytes marker k body)) = Inl NeedMore"
proof (cases "i < HEADER_LENGTH")
  case True
  then have "length (take i (frame_bytes marker k body)) < HEADER_LENGTH" by simp
  then show ?thesis unfolding bgp_decode_def by (simp only: if_True)
next
  case False
  define bs where "bs = take i (frame_bytes marker k body)"
  have len: "length bs = i" "i < HEADER_LENGTH + length body" using assms(1,4) by (simp_all add: bs_def limits)
  have "bs ! j = frame_bytes marker k body ! j" if "j < 19" for j using that False by (simp add: bs_def limits)
  then show ?thesis
    using decode_known [of bs "HEADER_LENGTH + length body" k] frame_header [OF assms(1,2), of k "[]"] assms(2,3) False len
    unfolding bs_def [symmetric] by simp
qed

text \<open>
  C23. The envelope codec loses nothing and can resume at any byte. A message is encoded exactly when its
  length fits its kind; its bytes, followed by any others, decode to that message and its length; every
  proper prefix asks for more bytes, never for an error; and what decodes encodes to the same bytes up to
  the marker.
\<close>

theorem bgp_framing:
  "((\<exists>bytes. bgp_encode k body = Inr bytes) \<longleftrightarrow>
      HEADER_LENGTH + length body \<le> MAX_MESSAGE_LENGTH \<and> kind_length_ok k (HEADER_LENGTH + length body)) \<and>
   (\<forall>bytes. bgp_encode k body = Inr bytes \<longrightarrow>
      length bytes = HEADER_LENGTH + length body \<and>
      (\<forall>rest. bgp_decode (bytes @ rest) = Inr (\<lparr>fr_kind = k, fr_body = body\<rparr>, length bytes)) \<and>
      (\<forall>i<length bytes. bgp_decode (take i bytes) = Inl NeedMore)) \<and>
   (\<forall>input f n. bgp_decode input = Inr (f, n) \<longrightarrow>
      n \<le> length input \<and> bgp_encode (fr_kind f) (fr_body f) = Inr (replicate 16 0xff @ drop 16 (take n input)))"
proof (intro conjI allI impI)
  show "(\<exists>bytes. bgp_encode k body = Inr bytes) \<longleftrightarrow>
      HEADER_LENGTH + length body \<le> MAX_MESSAGE_LENGTH \<and> kind_length_ok k (HEADER_LENGTH + length body)"
    by (simp add: encode_frame_bytes)
next
  fix bytes assume e: "bgp_encode k body = Inr bytes"
  then have ok: "HEADER_LENGTH + length body \<le> MAX_MESSAGE_LENGTH" "kind_length_ok k (HEADER_LENGTH + length body)"
    and bytes: "bytes = frame_bytes (replicate 16 0xff) k body" by (simp_all add: encode_frame_bytes split: if_splits)
  show len: "length bytes = HEADER_LENGTH + length body" by (simp add: bytes limits)
  show "bgp_decode (bytes @ rest) = Inr (\<lparr>fr_kind = k, fr_body = body\<rparr>, length bytes)" for rest
    unfolding len unfolding bytes by (subst decode_frame_bytes) (use ok in simp_all)
  show "bgp_decode (take i bytes) = Inl NeedMore" if "i < length bytes" for i
    using decode_partial [of "replicate 16 0xff" body k i] ok that by (simp add: bytes)
next
  fix input f n assume "bgp_decode input = Inr (f, n)"
  note D = decode_split [OF this]
  then show "n \<le> length input" by blast
  have len: "16 \<le> length input" using D by (simp add: limits)
  have ok: "HEADER_LENGTH + length (fr_body f) \<le> MAX_MESSAGE_LENGTH" "kind_length_ok (fr_kind f) (HEADER_LENGTH + length (fr_body f))"
    using D by metis+
  have "take n input = frame_bytes (take 16 input) (fr_kind f) (fr_body f)" using D by blast
  with len have "drop 16 (take n input) = to_be_bytes (of_nat (HEADER_LENGTH + length (fr_body f)) :: u16) @ [kind_byte (fr_kind f)] @ fr_body f"
    by (simp only: frame_bytes_def) (simp del: of_nat_add drop_take)
  then show "bgp_encode (fr_kind f) (fr_body f) = Inr (replicate 16 0xff @ drop 16 (take n input))"
    by (simp only: encode_frame_bytes frame_bytes_def ok simp_thms if_True)
qed

theorem bgp_framing_witness:
  "bgp_decode (replicate 16 0xff @ [0, 19, 4] @ [7, 7]) = Inr (\<lparr>fr_kind = KeepaliveKind, fr_body = []\<rparr>, 19)"
proof -
  let ?m = "replicate 16 0xff @ [0, 19, 4] :: u8 list"
  have m: "frame_bytes (replicate 16 0xff) KeepaliveKind [] = ?m"
    by (simp add: frame_bytes_def limits be16_bytes)
  have "bgp_encode KeepaliveKind [] = Inr ?m" unfolding encode_frame_bytes m by (simp add: limits)
  with bgp_framing [of KeepaliveKind "[]"]
  have "\<forall>rest. bgp_decode (?m @ rest) = Inr (\<lparr>fr_kind = KeepaliveKind, fr_body = []\<rparr>, length ?m)" by blast
  from this [rule_format, of "[7, 7]"] show ?thesis by simp
qed

end
