(* ===== verification/BgpOpen.thy ===== *)
theory BgpOpen
  imports BgpFrame
begin

text \<open>
  The OPEN message of \<open>flowsdn-bgp-proto\<close>: the body codec and peer checks of \<open>src/open.rs\<close>, and the
  construction and negotiation of capabilities of \<open>src/capabilities.rs\<close>.
\<close>

section \<open>The OPEN body\<close>

record capability =
  cap_code :: u8
  cap_value :: "u8 list"

record bgp_open =
  op_asn :: u16
  op_hold_time :: u16
  op_router_id :: u32
  op_capabilities :: "capability list"

definition open_take :: "u8 list \<Rightarrow> nat \<Rightarrow> protocol_error + u8 list \<times> u8 list" where
  "open_take bytes n = (if n \<le> length bytes then Inr (take n bytes, drop n bytes) else Inl (open_error 4))"

text \<open>\<open>*take(bytes, 1)?.first().ok_or_else(|| error(4))?\<close>.\<close>

definition open_byte :: "u8 list \<Rightarrow> protocol_error + u8 \<times> u8 list" where
  "open_byte bytes =
     and_then (open_take bytes 1) (\<lambda>(v, rest). case v of [] \<Rightarrow> Inl (open_error 4) | b # _ \<Rightarrow> Inr (b, rest))"

definition capability_check :: "u8 \<Rightarrow> u8 list \<Rightarrow> protocol_error + unit" where
  "capability_check code v =
     (let valid =
        (if code = 1 then length v = 4
         else if code = 2 then v = []
         else if code = 5 then v \<noteq> [] \<and> length v mod 6 = 0
         else if code = 64 then 2 \<le> length v \<and> (length v - 2) mod 4 = 0
         else if code = 65 then length v = 4
         else True)
      in if valid then Inr () else Inl (open_error 4))"

lemma open_byte_Cons [simp]: "open_byte (b # bytes) = Inr (b, bytes)" "open_byte [] = Inl (open_error 4)"
  by (simp_all add: open_byte_def open_take_def)

lemma open_byte_Inr: "open_byte bytes = Inr (b, rest) \<longleftrightarrow> bytes = b # rest"
  by (cases bytes) auto

function decode_capabilities :: "u8 list \<Rightarrow> protocol_error + capability list" where
  "decode_capabilities parameter =
     (if parameter = [] then Inr []
      else and_then (open_byte parameter) (\<lambda>(code, parameter).
        and_then (open_byte parameter) (\<lambda>(n, parameter).
        and_then (open_take parameter (unat n)) (\<lambda>(v, parameter).
        and_then (capability_check code v) (\<lambda>_.
        and_then (decode_capabilities parameter) (\<lambda>caps.
          Inr (\<lparr>cap_code = code, cap_value = v\<rparr> # caps)))))))"
  by pat_completeness auto
termination
  by (relation "measure length") (auto simp: open_byte_Inr open_take_def split: if_splits)

function decode_parameters :: "u8 list \<Rightarrow> protocol_error + capability list" where
  "decode_parameters bytes =
     (if bytes = [] then Inr []
      else and_then (open_byte bytes) (\<lambda>(kind, bytes).
        and_then (open_byte bytes) (\<lambda>(n, bytes).
        and_then (open_take bytes (unat n)) (\<lambda>(parameter, bytes).
          if kind \<noteq> 2 then Inl (open_error 4)
          else and_then (decode_capabilities parameter) (\<lambda>caps.
            and_then (decode_parameters bytes) (\<lambda>rest. Inr (caps @ rest)))))))"
  by pat_completeness auto
termination
  by (relation "measure length") (auto simp: open_byte_Inr open_take_def split: if_splits)

declare decode_capabilities.simps [simp del] decode_parameters.simps [simp del]

fun four_octet :: "u32 option \<Rightarrow> capability list \<Rightarrow> protocol_error + u32 option" where
  "four_octet four [] = Inr four"
| "four_octet four (cap # caps) =
     (if length (cap_value cap) \<noteq> 4 then Inl (open_error 4)
      else
        let v = from_be_bytes (cap_value cap) in
        if (case four of Some old \<Rightarrow> old \<noteq> v | None \<Rightarrow> False) then Inl (open_error 4)
        else four_octet (Some v) caps)"

definition effective_asn :: "bgp_open \<Rightarrow> protocol_error + u32" where
  "effective_asn msg =
     and_then (four_octet None (filter (\<lambda>cap. cap_code cap = 65) (op_capabilities msg))) (\<lambda>four.
       Inr (case four of Some v \<Rightarrow> v | None \<Rightarrow> ucast (op_asn msg)))"

definition open_decode :: "u8 list \<Rightarrow> protocol_error + bgp_open" where
  "open_decode body =
     (if length body < 10 then Inl (open_error 4)
      else if body ! 0 \<noteq> 4 then Inl (open_error 1)
      else
        and_then (open_take (drop 1 body) 2) (\<lambda>(asn, bytes).
        and_then (open_take bytes 2) (\<lambda>(hold, bytes).
        let hold_time = from_be_bytes hold in
        if hold_time = 1 \<or> hold_time = 2 then Inl (open_error 6)
        else
          and_then (open_take bytes 4) (\<lambda>(router, bytes).
          and_then (open_byte bytes) (\<lambda>(n, bytes).
          if length bytes \<noteq> unat n then Inl (open_error 4)
          else and_then (decode_parameters bytes) (\<lambda>caps.
            let result = \<lparr>op_asn = from_be_bytes asn, op_hold_time = hold_time, op_router_id = from_be_bytes router,
                          op_capabilities = caps\<rparr>
            in and_then (effective_asn result) (\<lambda>_. Inr result)))))))"

definition validate_peer :: "bgp_open \<Rightarrow> u32 \<Rightarrow> u32 \<Rightarrow> u16 \<Rightarrow> protocol_error + u16" where
  "validate_peer msg expected_asn local_router_id local_hold =
     and_then (if expected_asn \<noteq> 0 then and_then (effective_asn msg) (\<lambda>asn. Inr (asn \<noteq> expected_asn)) else Inr False) (\<lambda>wrong.
       if wrong then Inl (open_error 2)
       else if op_router_id msg = 0 \<or> op_router_id msg = local_router_id then Inl (open_error 3)
       else if op_hold_time msg = 1 \<or> op_hold_time msg = 2 \<or> local_hold = 1 \<or> local_hold = 2 then Inl (open_error 6)
       else Inr (min (op_hold_time msg) local_hold))"

fun encode_capabilities :: "capability list \<Rightarrow> protocol_error + u8 list" where
  "encode_capabilities [] = Inr []"
| "encode_capabilities (cap # caps) =
     and_then (capability_check (cap_code cap) (cap_value cap)) (\<lambda>_.
       if 255 < length (cap_value cap) + 2 then Inl (open_error 4)
       else and_then (encode_capabilities caps) (\<lambda>params.
         Inr ([2, of_nat (length (cap_value cap) + 2), cap_code cap, of_nat (length (cap_value cap))] @ cap_value cap @ params)))"

definition open_encode :: "bgp_open \<Rightarrow> protocol_error + u8 list" where
  "open_encode msg =
     and_then (effective_asn msg) (\<lambda>_.
       if op_hold_time msg = 1 \<or> op_hold_time msg = 2 then Inl (open_error 6)
       else and_then (encode_capabilities (op_capabilities msg)) (\<lambda>params.
         if 255 < length params then Inl (open_error 4)
         else Inr ([4] @ to_be_bytes (op_asn msg) @ to_be_bytes (op_hold_time msg) @ to_be_bytes (op_router_id msg) @
                   [of_nat (length params)] @ params)))"

section \<open>Capabilities\<close>

definition multiprotocol :: "family \<Rightarrow> protocol_error + capability" where
  "multiprotocol f =
     and_then (family_validate f) (\<lambda>_. Inr \<lparr>cap_code = 1, cap_value = to_be_bytes (fst f) @ [0, snd f]\<rparr>)"

fun restart_tuples :: "family list \<Rightarrow> protocol_error + u8 list" where
  "restart_tuples [] = Inr []"
| "restart_tuples (f # fs) =
     and_then (family_validate f) (\<lambda>_.
       and_then (restart_tuples fs) (\<lambda>rest. Inr (to_be_bytes (fst f) @ [snd f, 0] @ rest)))"

definition graceful_restart :: "u16 \<Rightarrow> bool \<Rightarrow> family btree_set \<Rightarrow> protocol_error + capability" where
  "graceful_restart seconds restarting families =
     (let flags = min seconds 4095 OR 0x4000 OR (if restarting then 0x8000 else 0)
      in and_then (restart_tuples families) (\<lambda>tuples. Inr \<lparr>cap_code = 64, cap_value = to_be_bytes flags @ tuples\<rparr>))"

fun multiprotocols :: "family list \<Rightarrow> protocol_error + capability list" where
  "multiprotocols [] = Inr []"
| "multiprotocols (f # fs) =
     and_then (multiprotocol f) (\<lambda>cap. and_then (multiprotocols fs) (\<lambda>caps. Inr (cap # caps)))"

definition local_open :: "u32 \<Rightarrow> u16 \<Rightarrow> u32 \<Rightarrow> family btree_set \<Rightarrow> protocol_error + bgp_open" where
  "local_open asn hold_time router_id families =
     (if asn = 0 \<or> router_id = 0 \<or> families = [] then Inl (open_error 4)
      else and_then (multiprotocols families) (\<lambda>caps.
        let result = \<lparr>op_asn = (if asn \<le> 65535 then ucast asn else 23456), op_hold_time = hold_time, op_router_id = router_id,
                      op_capabilities = \<lparr>cap_code = 65, cap_value = to_be_bytes asn\<rparr> # \<lparr>cap_code = 2, cap_value = []\<rparr> # caps\<rparr>
        in and_then (open_encode result) (\<lambda>_. Inr result)))"

record restart =
  rs_seconds :: u16
  rs_restarting :: bool
  rs_notifications :: bool
  rs_forwarding :: "family btree_set"

record graceful =
  gr_notifications :: bool
  gr_local_restart_seconds :: u16
  gr_peer :: restart

record negotiated =
  ng_graceful :: "graceful option"
  ng_hold_time :: u16
  ng_four_octet_asn :: bool
  ng_route_refresh :: bool
  ng_families :: "family btree_set"

text \<open>\<open>chunks_exact(4)\<close> and the filter over the tuples.\<close>

fun forwarding_families :: "u8 list \<Rightarrow> family list" where
  "forwarding_families (a # b # safi # flags # rest) =
     (let f = (from_be_bytes [a, b], safi) in
      if flags AND 0x80 \<noteq> 0 \<and> family_validate f = Inr () then f # forwarding_families rest else forwarding_families rest)"
| "forwarding_families _ = []"

definition open_restart :: "bgp_open \<Rightarrow> restart option" where
  "open_restart msg =
     (case find (\<lambda>cap. cap_code cap = 64) (rev (op_capabilities msg)) of
        None \<Rightarrow> None
      | Some cap \<Rightarrow>
          let v = cap_value cap in
          if length v < 2 then None
          else
            let tuples = drop 2 v in
            if length tuples mod 4 \<noteq> 0 then None
            else
              let field = from_be_bytes (take 2 v) :: u16 in
              Some \<lparr>rs_seconds = field AND 0x0fff, rs_restarting = (field AND 0x8000 \<noteq> 0),
                    rs_notifications = (field AND 0x4000 \<noteq> 0), rs_forwarding = bs_of_list (forwarding_families tuples)\<rparr>)"

definition negotiate_graceful :: "bgp_open \<Rightarrow> bgp_open \<Rightarrow> graceful option" where
  "negotiate_graceful local peer =
     (case open_restart local of
        None \<Rightarrow> None
      | Some l \<Rightarrow>
          (case open_restart peer of
             None \<Rightarrow> None
           | Some p \<Rightarrow>
               Some \<lparr>gr_notifications = (rs_notifications l \<and> rs_notifications p),
                     gr_local_restart_seconds = rs_seconds l, gr_peer = p\<rparr>))"

definition family_of_value :: "u8 list \<Rightarrow> family option" where
  "family_of_value v = (case v of [a, b, _, safi] \<Rightarrow> Some (from_be_bytes [a, b], safi) | _ \<Rightarrow> None)"

definition open_families :: "bgp_open \<Rightarrow> family btree_set" where
  "open_families msg =
     bs_of_list (filter (\<lambda>f. family_validate f = Inr ())
       (List.map_filter (\<lambda>cap. family_of_value (cap_value cap)) (filter (\<lambda>cap. cap_code cap = 1) (op_capabilities msg))))"

definition negotiate :: "bgp_open \<Rightarrow> bgp_open \<Rightarrow> u32 \<Rightarrow> protocol_error + negotiated" where
  "negotiate local peer expected_asn =
     and_then (open_encode local) (\<lambda>_.
     and_then (open_encode peer) (\<lambda>_.
     and_then (validate_peer peer expected_asn (op_router_id local) (op_hold_time local)) (\<lambda>hold_time.
       let common = filter (\<lambda>f. f \<in> set (open_families peer)) (open_families local);
           both = (\<lambda>code. list_ex (\<lambda>c. cap_code c = code) (op_capabilities local) \<and>
                          list_ex (\<lambda>c. cap_code c = code) (op_capabilities peer))
       in if common = [] then Inl (open_error 7)
          else Inr \<lparr>ng_graceful = negotiate_graceful local peer, ng_hold_time = hold_time, ng_four_octet_asn = both 65,
                    ng_route_refresh = both 2, ng_families = common\<rparr>)))"

section \<open>The codec\<close>

lemma open_take_append [simp]: "open_take (xs @ ys) (length xs) = Inr (xs, ys)"
  by (simp add: open_take_def)

lemma capability_length: "capability_check code v = Inr () \<Longrightarrow> length v + 2 \<le> 255 \<Longrightarrow>
  decode_capabilities (code # of_nat (length v) # v) = Inr [\<lparr>cap_code = code, cap_value = v\<rparr>]"
  by (subst decode_capabilities.simps) (simp add: unat_of_nat open_take_def decode_capabilities.simps [of "[]"])

lemma decode_encoded_capabilities:
  "encode_capabilities caps = Inr params \<Longrightarrow> decode_parameters params = Inr caps"
proof (induction caps arbitrary: params)
  case (Cons cap caps)
  let ?v = "cap_value cap"
  obtain ps where c: "capability_check (cap_code cap) ?v = Inr ()" "length ?v + 2 \<le> 255" "encode_capabilities caps = Inr ps"
    and params: "params = [2, of_nat (length ?v + 2), cap_code cap, of_nat (length ?v)] @ ?v @ ps"
    using Cons.prems by (auto simp: and_then_Inr_iff split: if_splits)
  define par where "par = cap_code cap # of_nat (length ?v) # ?v"
  have par: "params = 2 # of_nat (length par) # par @ ps" unfolding params par_def by simp
  have "length par \<le> 255" using c(2) by (simp add: par_def)
  then have len: "unat (of_nat (length par) :: u8) = length par" by (simp add: unat_of_nat)
  have "decode_capabilities par = Inr [cap]" unfolding par_def using capability_length [OF c(1,2)] by simp
  then show ?case
    using Cons.IH [OF c(3)] unfolding par by (subst decode_parameters.simps) (simp add: len)
qed (simp add: decode_parameters.simps)

lemma decode_encoded_open:
  assumes "open_encode msg = Inr body"
  shows "open_decode body = Inr msg \<and> length body \<le> 265"
proof -
  obtain asn params where e: "effective_asn msg = Inr asn" "\<not> (op_hold_time msg = 1 \<or> op_hold_time msg = 2)"
    "encode_capabilities (op_capabilities msg) = Inr params" "length params \<le> 255"
    and body: "body = [4] @ to_be_bytes (op_asn msg) @ to_be_bytes (op_hold_time msg) @ to_be_bytes (op_router_id msg) @ [of_nat (length params)] @ params"
    using assms by (auto simp: open_encode_def and_then_Inr_iff split: if_splits)
  have len: "unat (of_nat (length params) :: u8) = length params" using e(4) by (simp add: unat_of_nat)
  have t: "open_take (to_be_bytes (w :: 'a::len word) @ r) n = Inr (to_be_bytes w, r)" if "n = LENGTH('a) div 8" for w r n
    using open_take_append [of "to_be_bytes w" r] that by simp
  have eta: "\<lparr>op_asn = op_asn msg, op_hold_time = op_hold_time msg, op_router_id = op_router_id msg, op_capabilities = op_capabilities msg\<rparr> = msg"
    by simp
  show ?thesis
    using e(1,2) decode_encoded_capabilities [OF e(3)] e(4)
    by (simp add: body open_decode_def t len Let_def eta)
qed

text \<open>
  The OPEN body codec loses nothing: every body it encodes has at most 265 bytes and decodes to the same
  version, autonomous system, hold time, router and capabilities, in order.
\<close>

theorem open_round_trip:
  assumes "open_encode msg = Inr body"
  shows "open_decode body = Inr msg \<and> length body \<le> 265"
  by (rule decode_encoded_open [OF assms])

theorem open_round_trip_witness:
  "\<exists>body. open_encode \<lparr>op_asn = 65001, op_hold_time = 90, op_router_id = 0x0A000001, op_capabilities = [\<lparr>cap_code = 2, cap_value = []\<rparr>]\<rparr> = Inr body \<and>
    open_decode body = Inr \<lparr>op_asn = 65001, op_hold_time = 90, op_router_id = 0x0A000001, op_capabilities = [\<lparr>cap_code = 2, cap_value = []\<rparr>]\<rparr>"
proof -
  let ?o = "\<lparr>op_asn = 65001, op_hold_time = 90, op_router_id = 0x0A000001, op_capabilities = [\<lparr>cap_code = 2, cap_value = []\<rparr>]\<rparr> :: bgp_open"
  obtain body where "open_encode ?o = Inr body"
    by (simp add: open_encode_def effective_asn_def capability_check_def)
  with open_round_trip [of ?o] show ?thesis by blast
qed

section \<open>Negotiation\<close>

lemma bs_ok_open_families: "bs_ok (open_families msg)"
  by (simp add: open_families_def bs_of_list_ok)

lemma common_families:
  "filter (\<lambda>f. f \<in> set (open_families b)) (open_families a) = filter (\<lambda>f. f \<in> set (open_families a)) (open_families b)"
  by (rule strict_sorted_equal) (auto simp: bs_ok_open_families sorted_wrt_filter)

lemma negotiate_parts:
  assumes "negotiate local peer asn = Inr n"
  shows "ng_hold_time n = min (op_hold_time peer) (op_hold_time local)"
    "ng_families n = filter (\<lambda>f. f \<in> set (open_families peer)) (open_families local)" "ng_families n \<noteq> []"
    "ng_graceful n = negotiate_graceful local peer"
    "ng_four_octet_asn n \<longleftrightarrow> list_ex (\<lambda>c. cap_code c = 65) (op_capabilities local) \<and> list_ex (\<lambda>c. cap_code c = 65) (op_capabilities peer)"
    "ng_route_refresh n \<longleftrightarrow> list_ex (\<lambda>c. cap_code c = 2) (op_capabilities local) \<and> list_ex (\<lambda>c. cap_code c = 2) (op_capabilities peer)"
    "op_hold_time peer \<notin> {1, 2}" "op_hold_time local \<notin> {1, 2}"
proof -
  obtain h where v: "validate_peer peer asn (op_router_id local) (op_hold_time local) = Inr h"
    and c: "filter (\<lambda>f. f \<in> set (open_families peer)) (open_families local) \<noteq> []"
    and n: "n = \<lparr>ng_graceful = negotiate_graceful local peer, ng_hold_time = h,
      ng_four_octet_asn = (list_ex (\<lambda>c. cap_code c = 65) (op_capabilities local) \<and> list_ex (\<lambda>c. cap_code c = 65) (op_capabilities peer)),
      ng_route_refresh = (list_ex (\<lambda>c. cap_code c = 2) (op_capabilities local) \<and> list_ex (\<lambda>c. cap_code c = 2) (op_capabilities peer)),
      ng_families = filter (\<lambda>f. f \<in> set (open_families peer)) (open_families local)\<rparr>"
    using assms unfolding negotiate_def and_then_Inr_iff Let_def by (metis (no_types, lifting) Inl_Inr_False Inr_inject)
  show "ng_families n = filter (\<lambda>f. f \<in> set (open_families peer)) (open_families local)" "ng_families n \<noteq> []"
    "ng_graceful n = negotiate_graceful local peer"
    "ng_four_octet_asn n \<longleftrightarrow> list_ex (\<lambda>c. cap_code c = 65) (op_capabilities local) \<and> list_ex (\<lambda>c. cap_code c = 65) (op_capabilities peer)"
    "ng_route_refresh n \<longleftrightarrow> list_ex (\<lambda>c. cap_code c = 2) (op_capabilities local) \<and> list_ex (\<lambda>c. cap_code c = 2) (op_capabilities peer)"
    using c unfolding n by simp_all
  have "h = min (op_hold_time peer) (op_hold_time local) \<and> op_hold_time peer \<notin> {1, 2} \<and> op_hold_time local \<notin> {1, 2}"
    using v by (auto simp: validate_peer_def and_then_Inr_iff split: if_splits)
  then show "ng_hold_time n = min (op_hold_time peer) (op_hold_time local)" "op_hold_time peer \<notin> {1, 2}" "op_hold_time local \<notin> {1, 2}"
    unfolding n by simp_all
qed

text \<open>
  C21. Both ends of a session agree. When two speakers accept each other's OPEN, they use the same hold time,
  the same families, the same AS width and refresh support, and the same view of graceful notifications; the
  hold time is zero or at least three seconds, and the families are common to both and not empty.
\<close>

theorem negotiate_agree:
  assumes "negotiate a b asn_b = Inr n" and "negotiate b a asn_a = Inr m"
  shows "ng_hold_time n = ng_hold_time m \<and> (ng_hold_time n = 0 \<or> 3 \<le> ng_hold_time n) \<and>
    ng_families n = ng_families m \<and> ng_families n \<noteq> [] \<and> set (ng_families n) = set (open_families a) \<inter> set (open_families b) \<and>
    ng_four_octet_asn n = ng_four_octet_asn m \<and> ng_route_refresh n = ng_route_refresh m \<and>
    map_option gr_notifications (ng_graceful n) = map_option gr_notifications (ng_graceful m)"
proof -
  note N = negotiate_parts [OF assms(1)] and M = negotiate_parts [OF assms(2)]
  have three: "w = 0 \<or> 3 \<le> w" if "w \<notin> {1, 2}" for w :: u16 using that by simp unat_arith
  have "ng_hold_time n = 0 \<or> 3 \<le> ng_hold_time n" using three [OF N(7)] three [OF N(8)] unfolding N(1) min_def by metis
  moreover have "ng_hold_time n = ng_hold_time m" unfolding N(1) M(1) by (rule min.commute)
  moreover have "ng_families n = ng_families m" unfolding N(2) M(2) by (rule common_families)
  moreover have "set (ng_families n) = set (open_families a) \<inter> set (open_families b)" unfolding N(2) by auto
  moreover have "map_option gr_notifications (ng_graceful n) = map_option gr_notifications (ng_graceful m)"
    unfolding N(4) M(4) by (auto simp: negotiate_graceful_def split: option.splits)
  ultimately show ?thesis using N(3,5,6) M(5,6) by blast
qed

definition lab_open :: "u32 \<Rightarrow> u16 \<Rightarrow> bgp_open" where
  "lab_open router hold = \<lparr>op_asn = 65001, op_hold_time = hold, op_router_id = router,
     op_capabilities = [\<lparr>cap_code = 1, cap_value = [0, 1, 0, 1]\<rparr>, \<lparr>cap_code = 2, cap_value = []\<rparr>]\<rparr>"

lemma lab_negotiate:
  assumes "router \<noteq> 0" "router' \<noteq> 0" "router \<noteq> router'" "hold \<notin> {1, 2}" "hold' \<notin> {1, 2}"
  shows "negotiate (lab_open router hold) (lab_open router' hold') 65001 =
    Inr \<lparr>ng_graceful = None, ng_hold_time = min hold' hold, ng_four_octet_asn = False, ng_route_refresh = True, ng_families = [FAMILY_IPV4]\<rparr>"
proof -
  have fam: "open_families (lab_open r h) = [FAMILY_IPV4]" for r h
    by (simp add: open_families_def lab_open_def List.map_filter_simps family_of_value_def family_validate_def
        from_be_bytes_def from_le_bytes_def bs_of_list_def FAMILY_IPV4_def)
  have enc: "\<exists>body. open_encode (lab_open r h) = Inr body" if "h \<notin> {1, 2}" for r h
    using that by (simp add: lab_open_def open_encode_def effective_asn_def capability_check_def)
  have asn: "effective_asn (lab_open r h) = Inr 65001" for r h by (simp add: effective_asn_def lab_open_def)
  obtain x y where "open_encode (lab_open router hold) = Inr x" "open_encode (lab_open router' hold') = Inr y"
    using enc assms(4,5) by meson
  moreover have "validate_peer (lab_open router' hold') 65001 (op_router_id (lab_open router hold)) (op_hold_time (lab_open router hold)) = Inr (min hold' hold)"
    using assms by (simp add: validate_peer_def asn) (simp add: lab_open_def)
  moreover have "negotiate_graceful (lab_open router hold) (lab_open router' hold') = None"
    by (simp add: negotiate_graceful_def open_restart_def lab_open_def)
  ultimately show ?thesis by (simp add: negotiate_def fam) (simp add: lab_open_def)
qed

theorem negotiate_agree_witness:
  "\<exists>n m. negotiate (lab_open 1 90) (lab_open 2 30) 65001 = Inr n \<and> negotiate (lab_open 2 30) (lab_open 1 90) 65001 = Inr m \<and>
    ng_hold_time n = 30 \<and> ng_hold_time m = 30 \<and> ng_families n = ng_families m"
proof -
  obtain n m where nm: "negotiate (lab_open 1 90) (lab_open 2 30) 65001 = Inr n" "negotiate (lab_open 2 30) (lab_open 1 90) 65001 = Inr m"
    and h: "ng_hold_time n = 30"
    using lab_negotiate [of 1 2 90 30] lab_negotiate [of 2 1 30 90] by simp
  with negotiate_agree [OF nm] show ?thesis by auto
qed

section \<open>A valid OPEN that negotiation rejects\<close>

definition crowded_open :: "u8 list" where
  "crowded_open = [4, 0xfd, 0xe9, 0, 90, 10, 0, 0, 2, 132, 2, 130, 1, 4, 0, 1, 0, 1] @ concat (replicate 62 [200, 0])"

lemma decode_crowd:
  "decode_capabilities (concat (replicate n [200, 0])) = Inr (replicate n \<lparr>cap_code = 200, cap_value = []\<rparr>)"
  by (induction n) (simp_all add: decode_capabilities.simps open_take_def capability_check_def)

lemma encode_crowd:
  "encode_capabilities (replicate n \<lparr>cap_code = 200, cap_value = []\<rparr>) = Inr (concat (replicate n [2, 2, 200, 0]))"
  by (induction n) (simp_all add: capability_check_def)

text \<open>
  C22. Negotiation refuses a valid OPEN. \<open>Open::decode\<close> accepts several capabilities in one parameter, but
  \<open>Open::encode\<close>, which \<open>negotiate\<close> runs on the peer's message again, spends a parameter on each. A peer's body of
  142 bytes with 63 capabilities in one parameter is decoded, its peer is acceptable and shares a family with the
  local speaker, and yet negotiation refuses it as malformed.
\<close>

theorem negotiate_refuses_valid_open:
  "\<exists>peer. open_decode crowded_open = Inr peer \<and> validate_peer peer 65001 1 90 = Inr 90 \<and>
    FAMILY_IPV4 \<in> set (open_families peer) \<inter> set (open_families (lab_open 1 90)) \<and>
    negotiate (lab_open 1 90) peer 65001 = Inl (open_error 4)"
proof -
  let ?caps = "\<lparr>cap_code = 1, cap_value = [0, 1, 0, 1]\<rparr> # replicate 62 \<lparr>cap_code = 200, cap_value = []\<rparr>"
  let ?peer = "\<lparr>op_asn = 65001, op_hold_time = 90, op_router_id = from_be_bytes [10, 0, 0, 2], op_capabilities = ?caps\<rparr> :: bgp_open"
  define crowd :: "u8 list" where "crowd = concat (replicate 62 [200, 0])"
  have len: "length crowd = 124" unfolding crowd_def by (simp add: length_concat sum_list_replicate)
  have be: "from_be_bytes [0xfd, 0xe9] = (65001 :: u16)" "from_be_bytes [0, 90] = (90 :: u16)" "from_be_bytes [10, 0, 0, 2] = (0x0A000002 :: u32)"
    by (simp_all add: from_be_bytes_def from_le_bytes_def)
  have "decode_capabilities ([1, 4, 0, 1, 0, 1] @ crowd) = Inr ?caps"
    using decode_crowd [of 62] unfolding crowd_def [symmetric]
    by (subst decode_capabilities.simps) (simp add: open_take_def capability_check_def)
  then have params: "decode_parameters ([2, 130, 1, 4, 0, 1, 0, 1] @ crowd) = Inr ?caps"
    by (subst decode_parameters.simps) (simp add: open_take_def len decode_parameters.simps [of "[]"])
  have asn: "effective_asn ?peer = Inr 65001" by (simp add: effective_asn_def)
  have "open_decode crowded_open = Inr ?peer"
    using params asn unfolding crowded_open_def crowd_def [symmetric] by (simp add: open_decode_def open_take_def len Let_def be)
  moreover have "validate_peer ?peer 65001 1 90 = Inr 90" using asn by (simp add: validate_peer_def be)
  moreover have "open_encode ?peer = Inl (open_error 4)"
    using asn encode_crowd [of 62] by (simp add: open_encode_def capability_check_def length_concat sum_list_replicate)
  moreover have "\<exists>body. open_encode (lab_open 1 90) = Inr body"
    by (simp add: lab_open_def open_encode_def effective_asn_def capability_check_def)
  moreover have "FAMILY_IPV4 \<in> set (open_families msg)" if "\<lparr>cap_code = 1, cap_value = [0, 1, 0, 1]\<rparr> = hd (op_capabilities msg)" "op_capabilities msg \<noteq> []" for msg
    using that by (cases "op_capabilities msg") (auto simp: open_families_def List.map_filter_simps family_of_value_def family_validate_def
        from_be_bytes_def from_le_bytes_def FAMILY_IPV4_def)
  ultimately show ?thesis by (intro exI [of _ ?peer]) (auto simp: negotiate_def lab_open_def)
qed

end
