(* ===== verification/BgpUpdate.thy ===== *)
theory BgpUpdate
  imports BgpFrame
begin

text \<open>
  The UPDATE message of \<open>flowsdn-bgp-proto\<close>: the validation of received bodies of \<open>src/update.rs\<close> and the
  export encoder of \<open>src/encode_update.rs\<close>. The fields of a \<open>Prefix\<close> are private, and every prefix comes from
  \<open>Prefix::new\<close>: its length is within its family's width, so the slices of \<open>Prefix::encode\<close> and of
  \<open>prefixes\<close> never panic.
\<close>

section \<open>Prefixes\<close>

definition update_error :: "u8 \<Rightarrow> bool \<Rightarrow> protocol_error" where
  "update_error subcode structural =
     \<lparr>er_code = 3, er_subcode = subcode, er_scope = (if structural then AttributeStructure else UpdateContent)\<rparr>"

definition up_take :: "u8 list \<Rightarrow> nat \<Rightarrow> u8 \<Rightarrow> bool \<Rightarrow> protocol_error + u8 list \<times> u8 list" where
  "up_take input n subcode structural =
     (if n \<le> length input then Inr (take n input, drop n input) else Inl (update_error subcode structural))"

definition up_byte :: "u8 list \<Rightarrow> u8 \<Rightarrow> bool \<Rightarrow> protocol_error + u8 \<times> u8 list" where
  "up_byte input subcode structural =
     and_then (up_take input 1 subcode structural) (\<lambda>(v, rest).
       case v of [] \<Rightarrow> Inl (update_error subcode structural) | b # _ \<Rightarrow> Inr (b, rest))"

definition up_short :: "u8 list \<Rightarrow> u8 \<Rightarrow> bool \<Rightarrow> protocol_error + u16 \<times> u8 list" where
  "up_short input subcode structural =
     and_then (up_take input 2 subcode structural) (\<lambda>(v, rest). Inr (from_be_bytes v, rest))"

text \<open>\<open>Prefix { address, bits }\<close>, ordered by field.\<close>

type_synonym bgp_prefix = "ip_addr \<times> u8"

definition bp_new :: "ip_addr \<Rightarrow> u8 \<Rightarrow> protocol_error + bgp_prefix" where
  "bp_new address bits =
     (let width = (if is_ipv4 address then 32 else 128) in
      if width < bits then Inl (update_error 10 False)
      else
        let shift = unat (saturating_sub width bits);
            masked = (case address of
                        V4 ip \<Rightarrow> V4 (shl_or_zero (shr_or_zero ip shift) shift)
                      | V6 ip \<Rightarrow> V6 (shl_or_zero (shr_or_zero ip shift) shift))
        in Inr (masked, bits))"

definition div_ceil8 :: "nat \<Rightarrow> nat" where
  "div_ceil8 n = (n + 7) div 8"

definition bp_encode :: "bgp_prefix \<Rightarrow> u8 list" where
  "bp_encode p =
     [snd p] @ take (div_ceil8 (unat (snd p))) (case fst p of V4 ip \<Rightarrow> to_be_bytes ip | V6 ip \<Rightarrow> to_be_bytes ip)"

lemma up_byte_Cons [simp]: "up_byte (b # bytes) c s = Inr (b, bytes)" "up_byte [] c s = Inl (update_error c s)"
  by (simp_all add: up_byte_def up_take_def)

lemma up_byte_Inr: "up_byte bytes c s = Inr (b, rest) \<longleftrightarrow> bytes = b # rest"
  by (cases bytes) auto

function bgp_prefixes :: "u8 list \<Rightarrow> bool \<Rightarrow> protocol_error + bgp_prefix list" where
  "bgp_prefixes bytes ipv6 =
     (if bytes = [] then Inr []
      else and_then (up_byte bytes 10 False) (\<lambda>(bits, bytes).
        if (if ipv6 then 128 else 32) < bits then Inl (update_error 10 False)
        else and_then (up_take bytes (div_ceil8 (unat bits)) 10 False) (\<lambda>(payload, bytes).
          let address = (if ipv6 then V6 (from_be_bytes (payload @ replicate (16 - length payload) 0))
                         else V4 (from_be_bytes (payload @ replicate (4 - length payload) 0)))
          in and_then (bp_new address bits) (\<lambda>p.
               and_then (bgp_prefixes bytes ipv6) (\<lambda>ps. Inr (p # ps))))))"
  by pat_completeness auto
termination
  by (relation "measure (length \<circ> fst)") (auto simp: up_byte_Inr up_take_def split: if_splits)

declare bgp_prefixes.simps [simp del]

section \<open>Validation\<close>

record unknown_transitive =
  ut_flags :: u8
  ut_code :: u8
  ut_value :: "u8 list"

record summary =
  sm_withdrawn :: "bgp_prefix list"
  sm_announced :: "bgp_prefix list"
  sm_mp_announced :: "bgp_prefix list"
  sm_mp_withdrawn :: "bgp_prefix list"
  sm_unknown_transitive :: "unknown_transitive list"

function as_path :: "u8 list \<Rightarrow> nat \<Rightarrow> protocol_error + unit" where
  "as_path v width =
     (if v = [] then Inr ()
      else and_then (up_byte v 11 False) (\<lambda>(segment, v).
        and_then (up_byte v 11 False) (\<lambda>(count, v).
          if \<not> (segment = 1 \<or> segment = 2) \<or> count = 0 then Inl (update_error 11 False)
          else and_then (up_take v (unat count * width) 11 False) (\<lambda>(_, v). as_path v width))))"
  by pat_completeness auto
termination
  by (relation "measure (length \<circ> fst)") (auto simp: up_byte_Inr up_take_def split: if_splits)

declare as_path.simps [simp del]

definition mp_prefixes :: "u8 list \<Rightarrow> bool \<Rightarrow> protocol_error + bgp_prefix list" where
  "mp_prefixes v reach =
     and_then (up_short v 9 False) (\<lambda>(afi, bytes).
     and_then (up_byte bytes 9 False) (\<lambda>(safi, bytes).
       if \<not> (afi = 1 \<or> afi = 2) \<or> safi \<noteq> 1 then Inl (update_error 9 False)
       else if reach then
         and_then (up_byte bytes 9 False) (\<lambda>(n, bytes).
           if \<not> (n = 4 \<or> n = 16 \<or> n = 32) \<or> afi = 2 \<and> n = 4 then Inl (update_error 9 False)
           else and_then (up_take bytes (unat n) 9 False) (\<lambda>(_, bytes).
             and_then (up_byte bytes 9 False) (\<lambda>(_, bytes). bgp_prefixes bytes (afi = 2))))
       else bgp_prefixes bytes (afi = 2)))"

text \<open>A path attribute: its flags, code and value, and the raw bytes it was read from.\<close>

type_synonym path_attribute = "u8 \<times> u8 \<times> u8 list \<times> u8 list"

text \<open>An error together with the contents of the out-parameter \<open>data\<close> at that moment.\<close>

type_synonym detailed = "u8 list \<times> protocol_error"

definition with_data :: "u8 list \<Rightarrow> protocol_error + 'a \<Rightarrow> detailed + 'a" where
  "with_data data r = map_sum (\<lambda>e. (data, e)) id r"

definition read_attribute :: "u8 list \<Rightarrow> protocol_error + path_attribute \<times> u8 list" where
  "read_attribute raw =
     and_then (up_byte raw 1 True) (\<lambda>(flags, rest).
     and_then (up_byte rest 1 True) (\<lambda>(code, rest).
     and_then (if flags AND 0x10 \<noteq> 0 then map_sum id (\<lambda>(n, rest). (unat n, rest)) (up_short rest 5 True)
               else map_sum id (\<lambda>(n, rest). (unat n, rest)) (up_byte rest 5 True)) (\<lambda>(n, rest).
     and_then (up_take rest n 5 True) (\<lambda>(v, rest).
       Inr ((flags, code, v, take (length raw - length rest) raw), rest)))))"

lemma up_short_length: "up_short bytes c s = Inr (w, rest) \<Longrightarrow> length rest < length bytes"
  by (auto simp: up_short_def up_take_def and_then_Inr_iff split: if_splits)

lemma read_attribute_length: "read_attribute raw = Inr (a, rest) \<Longrightarrow> length rest < length raw"
  by (auto simp: read_attribute_def and_then_Inr_iff up_byte_Inr up_take_def map_sum_def split: if_splits sum.splits
      dest!: up_short_length)

lemma with_data_Inr [simp]: "with_data d r = Inr x \<longleftrightarrow> r = Inr x"
  by (cases r) (simp_all add: with_data_def)

function read_attributes :: "u8 list \<Rightarrow> detailed + path_attribute list" where
  "read_attributes attributes =
     (if attributes = [] then Inr []
      else and_then (with_data attributes (read_attribute attributes)) (\<lambda>(a, attributes).
        and_then (read_attributes attributes) (\<lambda>attrs. Inr (a # attrs))))"
  by pat_completeness auto
termination
  by (relation "measure length") (auto dest: read_attribute_length)

declare read_attributes.simps [simp del]

definition expected_flags :: "u8 \<Rightarrow> u8 option" where
  "expected_flags code =
     (if code \<in> {1, 2, 3, 5, 6} then Some 0x40 else if code \<in> {4, 14, 15} then Some 0x80
      else if code \<in> {7, 8, 17, 18, 32} then Some 0xc0 else None)"

definition attribute_content :: "bool \<Rightarrow> u8 \<Rightarrow> u8 list \<Rightarrow> summary \<Rightarrow> protocol_error + summary" where
  "attribute_content four code v result =
     (if code = 1 then
        if length v \<noteq> 1 then Inl (update_error 5 False)
        else if 2 < v ! 0 then Inl (update_error 6 False)
        else Inr result
      else if code = 2 then map_sum id (\<lambda>_. result) (as_path v (if four then 4 else 2))
      else if code = 17 then map_sum id (\<lambda>_. result) (as_path v 4)
      else if code = 3 then
        if length v \<noteq> 4 then Inl (update_error 5 False)
        else
          let ip = from_be_bytes v :: u32 in
          if ip = 0 \<or> drop_bit 28 ip = 14 \<or> ip = 0xffffffff then Inl (update_error 8 False) else Inr result
      else if (code = 4 \<or> code = 5) \<and> length v \<noteq> 4 then Inl (update_error 5 False)
      else if code = 6 \<and> v \<noteq> [] then Inl (update_error 5 False)
      else if code = 7 \<and> length v \<noteq> (if four then 8 else 6) then Inl (update_error 5 False)
      else if code = 18 \<and> length v \<noteq> 8 then Inl (update_error 5 False)
      else if code = 8 \<and> length v mod 4 \<noteq> 0 then Inl (update_error 5 False)
      else if code = 32 \<and> length v mod 12 \<noteq> 0 then Inl (update_error 5 False)
      else if code = 14 then map_sum id (\<lambda>ps. result\<lparr>sm_mp_announced := ps\<rparr>) (mp_prefixes v True)
      else if code = 15 then map_sum id (\<lambda>ps. result\<lparr>sm_mp_withdrawn := ps\<rparr>) (mp_prefixes v False)
      else Inr result)"

definition attribute_step :: "bool \<Rightarrow> u8 \<Rightarrow> u8 \<Rightarrow> u8 list \<Rightarrow> summary \<Rightarrow> protocol_error + summary" where
  "attribute_step four flags code v result =
     (if flags AND 0x20 \<noteq> 0 \<and> flags AND 0xc0 \<noteq> 0xc0 then Inl (update_error 4 False)
      else case expected_flags code of
        Some expected \<Rightarrow>
          if flags AND 0xc0 \<noteq> expected \<or> flags AND 0x20 \<noteq> 0 \<and> expected \<noteq> 0xc0 then Inl (update_error 4 False)
          else attribute_content four code v result
      | None \<Rightarrow>
          if flags AND 0x80 = 0 then Inl (update_error 2 False)
          else if flags AND 0x40 \<noteq> 0 then
            Inr (result\<lparr>sm_unknown_transitive :=
              sm_unknown_transitive result @ [\<lparr>ut_flags = flags OR 0x20, ut_code = code, ut_value = v\<rparr>]\<rparr>)
          else Inr result)"

fun check_attributes :: "bool \<Rightarrow> path_attribute list \<Rightarrow> u8 btree_set \<Rightarrow> summary \<Rightarrow> detailed + u8 btree_set \<times> summary" where
  "check_attributes four [] seen result = Inr (seen, result)"
| "check_attributes four ((flags, code, v, raw) # attrs) seen result =
     (if code \<in> set seen then Inl (raw, update_error 1 False)
      else and_then (with_data raw (attribute_step four flags code v result)) (\<lambda>result.
        check_attributes four attrs (bs_insert code seen) result))"

definition validate_inner :: "u8 list \<Rightarrow> bool \<Rightarrow> detailed + summary" where
  "validate_inner body four =
     (if MAX_MESSAGE_LENGTH - HEADER_LENGTH < length body then Inl ([], framing 2)
      else
        and_then (with_data [] (up_short body 1 True)) (\<lambda>(withdrawn_length, bytes).
        and_then (with_data [] (up_take bytes (unat withdrawn_length) 1 True)) (\<lambda>(withdrawn_bytes, bytes).
        and_then (with_data [] (up_short bytes 1 True)) (\<lambda>(attribute_length, bytes).
        and_then (with_data [] (up_take bytes (unat attribute_length) 1 True)) (\<lambda>(attributes, bytes).
        and_then (read_attributes attributes) (\<lambda>attrs.
        and_then (with_data [] (bgp_prefixes withdrawn_bytes False)) (\<lambda>withdrawn.
        and_then (with_data [] (bgp_prefixes bytes False)) (\<lambda>announced.
        and_then (check_attributes four attrs [] \<lparr>sm_withdrawn = withdrawn, sm_announced = announced, sm_mp_announced = [],
                    sm_mp_withdrawn = [], sm_unknown_transitive = []\<rparr>) (\<lambda>(seen, result).
          if (sm_announced result \<noteq> [] \<or> sm_mp_announced result \<noteq> []) \<and> (1 \<notin> set seen \<or> 2 \<notin> set seen)
          then Inl ([if 1 \<notin> set seen then 1 else 2], update_error 3 False)
          else if sm_announced result \<noteq> [] \<and> 3 \<notin> set seen then Inl ([3], update_error 3 False)
          else Inr result)))))))))"

definition validate_detailed :: "u8 list \<Rightarrow> bool \<Rightarrow> detailed + summary" where
  "validate_detailed body four =
     map_sum (\<lambda>(data, e).
       (take (MAX_MESSAGE_LENGTH - 21)
          (if er_code e \<noteq> 3 \<or> er_subcode e \<notin> {2, 3, 4, 5, 6, 8, 9} then [] else data), e)) id
       (validate_inner body four)"

definition update_validate :: "u8 list \<Rightarrow> bool \<Rightarrow> protocol_error + summary" where
  "update_validate body four = map_sum snd id (validate_detailed body four)"

section \<open>Export\<close>

record export =
  ex_family :: family
  ex_next_hop :: ip_addr
  ex_local_asn :: u32
  ex_external :: bool
  ex_four_octet_asn :: bool
  ex_as_sequence :: "u32 list"
  ex_local_preference :: u32
  ex_origin :: u8

definition export_error :: protocol_error where
  "export_error = \<lparr>er_code = 3, er_subcode = 9, er_scope = UpdateContent\<rparr>"

definition attribute :: "u8 list \<Rightarrow> u8 \<Rightarrow> u8 \<Rightarrow> u8 list \<Rightarrow> protocol_error + u8 list" where
  "attribute out flags code v =
     (if 255 < length v then
        if 65535 < length v then Inl export_error
        else Inr (out @ [flags OR 0x10, code] @ to_be_bytes (of_nat (length v) :: u16) @ v)
      else Inr (out @ [flags AND NOT 0x10, code, of_nat (length v)] @ v))"

definition asn_bytes :: "bool \<Rightarrow> u32 \<Rightarrow> u8 list" where
  "asn_bytes four asn = (if four then to_be_bytes asn else to_be_bytes (if asn \<le> 65535 then ucast asn else 23456 :: u16))"

function path_bytes :: "u32 list \<Rightarrow> bool \<Rightarrow> u8 list" where
  "path_bytes seq four =
     (if seq = [] then []
      else
        let segment = take 255 seq in
        [2, of_nat (length segment)] @ concat (map (asn_bytes four) segment) @ path_bytes (drop 255 seq) four)"
  by pat_completeness auto
termination
  by (relation "measure (length \<circ> fst)") auto

declare path_bytes.simps [simp del]

definition ex_attributes :: "export \<Rightarrow> protocol_error + u8 list" where
  "ex_attributes ex =
     and_then (family_validate (ex_family ex)) (\<lambda>_.
       if ex_local_asn ex = 0 \<or> 2 < ex_origin ex \<or> 0 \<in> set (ex_as_sequence ex) \<or> 1024 < length (ex_as_sequence ex)
       then Inl export_error
       else
         let seq = (if ex_external ex then ex_local_asn ex # ex_as_sequence ex else ex_as_sequence ex) in
         and_then (attribute [] 0x40 1 [ex_origin ex]) (\<lambda>attrs.
         and_then (attribute attrs 0x40 2 (path_bytes seq (ex_four_octet_asn ex))) (\<lambda>attrs.
         and_then (if \<not> ex_four_octet_asn ex \<and> list_ex (\<lambda>asn. 65535 < asn) seq
                   then attribute attrs 0xc0 17 (path_bytes seq True) else Inr attrs) (\<lambda>attrs.
         and_then (if \<not> ex_external ex then attribute attrs 0x40 5 (to_be_bytes (ex_local_preference ex)) else Inr attrs) (\<lambda>attrs.
           case ex_next_hop ex of
             V4 ip \<Rightarrow>
               if ex_family ex \<noteq> FAMILY_IPV4 \<or> ip = 0 \<or> drop_bit 28 ip = 14 \<or> ip = 0xffffffff then Inl export_error
               else attribute attrs 0x40 3 (to_be_bytes ip)
           | V6 ip \<Rightarrow> if ip = 0 \<or> drop_bit 120 ip = 0xff then Inl export_error else Inr attrs)))))"

definition ex_body :: "export \<Rightarrow> u8 list \<Rightarrow> bgp_prefix list \<Rightarrow> protocol_error + u8 list" where
  "ex_body ex base ps =
     (let nlri = concat (map bp_encode ps);
          legacy = (ex_family ex = FAMILY_IPV4 \<and> is_ipv4 (ex_next_hop ex))
      in and_then (if legacy then Inr base
                   else (case ex_next_hop ex of
                           V4 _ \<Rightarrow> Inl export_error
                         | V6 ip \<Rightarrow>
                             attribute base 0x80 14
                               (to_be_bytes (fst (ex_family ex)) @ [snd (ex_family ex), 16] @ to_be_bytes ip @ [0] @ nlri))) (\<lambda>attrs.
           if 65535 < length attrs then Inl export_error
           else Inr ([0, 0] @ to_be_bytes (of_nat (length attrs) :: u16) @ attrs @ (if legacy then nlri else []))))"

definition ex_checked :: "export \<Rightarrow> u8 list \<Rightarrow> bgp_prefix list \<Rightarrow> protocol_error + u8 list" where
  "ex_checked ex base batch =
     and_then (ex_body ex base batch) (\<lambda>body.
     and_then (update_validate body (ex_four_octet_asn ex)) (\<lambda>_. bgp_encode UpdateKind body))"

fun announce_loop :: "export \<Rightarrow> u8 list \<Rightarrow> bgp_prefix list \<Rightarrow> bgp_prefix list \<Rightarrow> u8 list list \<Rightarrow> protocol_error + u8 list list" where
  "announce_loop ex base [] batch output =
     (if batch \<noteq> [] then and_then (ex_checked ex base batch) (\<lambda>msg. Inr (output @ [msg])) else Inr output)"
| "announce_loop ex base (p # ps) batch output =
     and_then (ex_body ex base (batch @ [p])) (\<lambda>body.
       if 4077 < length body then
         if batch = [] then Inl (framing 2)
         else and_then (ex_checked ex base batch) (\<lambda>msg. announce_loop ex base ps [p] (output @ [msg]))
       else announce_loop ex base ps (batch @ [p]) output)"

definition announcements :: "export \<Rightarrow> bgp_prefix list \<Rightarrow> protocol_error + u8 list list" where
  "announcements ex ps =
     and_then (ex_attributes ex) (\<lambda>base.
     and_then (ex_body ex base []) (\<lambda>body.
       if 4077 < length body then Inl (framing 2)
       else if list_ex (\<lambda>p. is_ipv4 (fst p) \<noteq> (ex_family ex = FAMILY_IPV4)) ps then Inl export_error
       else announce_loop ex base ps [] []))"

definition withdraw_body :: "family \<Rightarrow> u8 list \<Rightarrow> protocol_error + u8 list" where
  "withdraw_body f nlri =
     and_then
       (if f = FAMILY_IPV4 then
          if 65535 < length nlri then Inl export_error
          else Inr (to_be_bytes (of_nat (length nlri) :: u16) @ nlri @ [0, 0])
        else
          and_then (attribute [] 0x80 15 (to_be_bytes (fst f) @ [snd f] @ nlri)) (\<lambda>attrs.
            if 65535 < length attrs then Inl export_error
            else Inr ([0, 0] @ to_be_bytes (of_nat (length attrs) :: u16) @ attrs))) (\<lambda>body.
       and_then (update_validate body True) (\<lambda>_. bgp_encode UpdateKind body))"

fun withdraw_loop :: "family \<Rightarrow> bgp_prefix list \<Rightarrow> u8 list \<Rightarrow> u8 list list \<Rightarrow> protocol_error + u8 list list" where
  "withdraw_loop f [] nlri out =
     (if nlri \<noteq> [] then and_then (withdraw_body f nlri) (\<lambda>msg. Inr (out @ [msg])) else Inr out)"
| "withdraw_loop f (p # ps) nlri out =
     (if is_ipv4 (fst p) \<noteq> (f = FAMILY_IPV4) then Inl export_error
      else
        let encoded = bp_encode p in
        if 4000 < length nlri + length encoded
        then and_then (withdraw_body f nlri) (\<lambda>msg. withdraw_loop f ps encoded (out @ [msg]))
        else withdraw_loop f ps (nlri @ encoded) out)"

definition withdrawals :: "family \<Rightarrow> bgp_prefix list \<Rightarrow> protocol_error + u8 list list" where
  "withdrawals f ps = and_then (family_validate f) (\<lambda>_. withdraw_loop f ps [] [])"

section \<open>Prefixes on the wire\<close>

lemma nat_le_take: "m \<le> n \<Longrightarrow> take m (nat_le n x) = nat_le m x"
proof (induction m arbitrary: n x)
  case (Suc m)
  then show ?case by (cases n) auto
qed simp

lemma nat_le_zeros: "256 ^ m dvd x \<Longrightarrow> nat_le m x = replicate m 0"
proof (induction m arbitrary: x)
  case (Suc m)
  then obtain y where y: "x = 256 * (256 ^ m * y)" by (auto elim!: dvdE simp: mult.assoc)
  have "nat_le m (x div 256) = replicate m 0" using Suc.IH [of "x div 256"] y by simp
  moreover have "x mod 256 = 0" using y by simp
  ultimately show ?case by simp
qed simp

lemma push_bit_dvd: "s \<le> LENGTH('a) \<Longrightarrow> 2 ^ s dvd unat (push_bit s (w :: 'a::len word))"
proof -
  assume s: "s \<le> LENGTH('a)"
  have "unat (push_bit s w) = take_bit LENGTH('a) (push_bit s (unat w))" by (rule unsigned_push_bit_eq)
  also have "\<dots> = unat w * 2 ^ s mod 2 ^ LENGTH('a)" unfolding take_bit_eq_mod push_bit_eq_mult ..
  finally show ?thesis using s by (simp add: dvd_mod le_imp_power_dvd)
qed

lemma masked_bytes:
  assumes w: "w = push_bit s (v :: 'a::len word)" and s: "s \<le> LENGTH('a)" "8 * (LENGTH('a) div 8 - k) \<le> s" and k: "k \<le> LENGTH('a) div 8"
  shows "take k (to_be_bytes w) @ replicate (LENGTH('a) div 8 - k) 0 = to_be_bytes w"
proof -
  let ?n = "LENGTH('a) div 8"
  have "256 ^ (?n - k) dvd unat w"
    using push_bit_dvd [OF s(1), of v] s(2) unfolding w pow_256 by (meson dvd_trans le_imp_power_dvd)
  then have "nat_le (?n - k) (unat w) = replicate (?n - k) 0" by (rule nat_le_zeros)
  then have "drop k (to_be_bytes w) = replicate (?n - k) 0"
    by (simp add: to_be_bytes_def to_le_bytes_def drop_rev nat_le_take)
  then show ?thesis by (metis append_take_drop_id)
qed

definition bp_ok :: "bgp_prefix \<Rightarrow> bool" where
  "bp_ok p \<longleftrightarrow> bp_new (fst p) (snd p) = Inr p"

lemma mask_twice: "push_bit n (drop_bit n (push_bit n (drop_bit n w))) = push_bit n (drop_bit n (w :: 'a::len word))"
  by (rule bit_word_eqI) (auto simp: bit_push_bit_iff bit_drop_bit_eq)

lemma bp_new_ok: "bp_new a bits = Inr p \<Longrightarrow> bp_ok p"
  by (cases a) (auto simp: bp_ok_def bp_new_def Let_def mask_twice split: if_splits)

lemma div_ceil8_bound: "n \<le> 8 * m \<Longrightarrow> div_ceil8 n \<le> m" "n \<le> 8 * div_ceil8 n"
  unfolding div_ceil8_def by linarith+

lemma sub_width: "bits \<le> w \<Longrightarrow> unat (saturating_sub w bits) = unat w - unat (bits :: u8)"
  by (simp add: saturating_sub_def checked_sub_def word_le_nat_alt unat_sub)

lemma prefix_payload:
  assumes "bp_ok p"
  shows "case fst p of
      V4 ip \<Rightarrow> snd p \<le> 32 \<and> take (div_ceil8 (unat (snd p))) (to_be_bytes ip) @ replicate (4 - div_ceil8 (unat (snd p))) 0 = to_be_bytes ip
    | V6 ip \<Rightarrow> snd p \<le> 128 \<and> take (div_ceil8 (unat (snd p))) (to_be_bytes ip) @ replicate (16 - div_ceil8 (unat (snd p))) 0 = to_be_bytes ip"
proof -
  obtain a b where p: "p = (a, b)" by (cases p)
  show ?thesis
  proof (cases a)
    case (V4 ip)
    have b: "b \<le> 32" and ip: "ip = push_bit (32 - unat b) (drop_bit (32 - unat b) ip)"
      using assms by (auto simp: bp_ok_def bp_new_def p V4 Let_def sub_width split: if_splits)
    have "unat b \<le> 32" using b by (simp add: word_le_nat_alt)
    moreover from this have "div_ceil8 (unat b) \<le> 4" "unat b \<le> 8 * div_ceil8 (unat b)" using div_ceil8_bound [of "unat b"] by simp_all
    ultimately show ?thesis using masked_bytes [OF ip, of "div_ceil8 (unat b)"] b by (simp add: p V4)
  next
    case (V6 ip)
    have b: "b \<le> 128" and ip: "ip = push_bit (128 - unat b) (drop_bit (128 - unat b) ip)"
      using assms by (auto simp: bp_ok_def bp_new_def p V6 Let_def sub_width split: if_splits)
    have "unat b \<le> 128" using b by (simp add: word_le_nat_alt)
    moreover from this have "div_ceil8 (unat b) \<le> 16" "unat b \<le> 8 * div_ceil8 (unat b)" using div_ceil8_bound [of "unat b"] by simp_all
    ultimately show ?thesis using masked_bytes [OF ip, of "div_ceil8 (unat b)"] b by (simp add: p V6)
  qed
qed

lemma prefixes_encode_Cons:
  assumes "bp_ok p" "is_ipv4 (fst p) = (\<not> ipv6)"
  shows "bgp_prefixes (bp_encode p @ rest) ipv6 = and_then (bgp_prefixes rest ipv6) (\<lambda>ps. Inr (p # ps))"
proof -
  obtain a b where p: "p = (a, b)" by (cases p)
  have new: "bp_new a b = Inr p" using assms(1) by (simp add: bp_ok_def p)
  show ?thesis
  proof (cases a)
    case (V4 ip)
    define k where "k = div_ceil8 (unat b)"
    have k: "b \<le> 32" "take k (to_be_bytes ip) @ replicate (4 - k) 0 = to_be_bytes ip"
      using prefix_payload [OF assms(1)] by (simp_all add: p V4 k_def)
    have len: "length (take k (to_be_bytes ip)) = k"
      using k(1) div_ceil8_bound(1) [of "unat b" 4] by (simp add: k_def word_le_nat_alt)
    have "up_take (take k (to_be_bytes ip) @ rest) k 10 False = Inr (take k (to_be_bytes ip), rest)"
      using len by (simp add: up_take_def)
    then show ?thesis
      using assms(2) k leD [OF k(1)] len new unfolding p V4 bp_encode_def
      by (subst bgp_prefixes.simps) (simp add: k_def [symmetric] Let_def)
  next
    case (V6 ip)
    define k where "k = div_ceil8 (unat b)"
    have k: "b \<le> 128" "take k (to_be_bytes ip) @ replicate (16 - k) 0 = to_be_bytes ip"
      using prefix_payload [OF assms(1)] by (simp_all add: p V6 k_def)
    have len: "length (take k (to_be_bytes ip)) = k"
      using k(1) div_ceil8_bound(1) [of "unat b" 16] by (simp add: k_def word_le_nat_alt)
    have "up_take (take k (to_be_bytes ip) @ rest) k 10 False = Inr (take k (to_be_bytes ip), rest)"
      using len by (simp add: up_take_def)
    then show ?thesis
      using assms(2) k leD [OF k(1)] len new unfolding p V6 bp_encode_def
      by (subst bgp_prefixes.simps) (simp add: k_def [symmetric] Let_def)
  qed
qed

lemma prefixes_encode:
  "list_all bp_ok ps \<Longrightarrow> list_all (\<lambda>p. is_ipv4 (fst p) = (\<not> ipv6)) ps \<Longrightarrow> bgp_prefixes (concat (map bp_encode ps)) ipv6 = Inr ps"
  by (induction ps) (simp_all add: prefixes_encode_Cons bgp_prefixes.simps [of "[]"])

section \<open>Attributes on the wire\<close>

definition attribute_bytes :: "u8 \<Rightarrow> u8 \<Rightarrow> u8 list \<Rightarrow> u8 list" where
  "attribute_bytes flags code v =
     (if 255 < length v then [flags OR 0x10, code] @ to_be_bytes (of_nat (length v) :: u16) @ v
      else [flags AND NOT 0x10, code, of_nat (length v)] @ v)"

definition wire_flags :: "u8 \<Rightarrow> u8 list \<Rightarrow> u8" where
  "wire_flags flags v = (if 255 < length v then flags OR 0x10 else flags AND NOT 0x10)"

lemma attribute_Inr: "attribute out flags code v = Inr out' \<longleftrightarrow> length v \<le> 65535 \<and> out' = out @ attribute_bytes flags code v"
  by (auto simp: attribute_def attribute_bytes_def)

lemma flag_bits: "(flags OR 0x10) AND 0x10 \<noteq> (0 :: u8)" "(flags AND NOT 0x10) AND 0x10 = (0 :: u8)"
proof -
  have "bit ((flags OR 0x10) AND 0x10) 4" by (simp add: bit_or_iff bit_and_iff)
  then show "(flags OR 0x10) AND 0x10 \<noteq> (0 :: u8)" by fastforce
  have "(flags AND NOT m) AND m = 0" for m :: u8 by (rule bit_word_eqI) (auto simp: bit_and_iff bit_not_iff)
  then show "(flags AND NOT 0x10) AND 0x10 = (0 :: u8)" .
qed

lemma read_attribute_bytes:
  assumes "length v \<le> 65535"
  shows "read_attribute (attribute_bytes flags code v @ rest) = Inr ((wire_flags flags v, code, v, attribute_bytes flags code v), rest)"
proof (cases "255 < length v")
  case True
  define w where "w = (of_nat (length v) :: u16)"
  have w: "unat w = length v" unfolding w_def using assms by (simp add: unat_of_nat)
  have bytes: "attribute_bytes flags code v = (flags OR 0x10) # code # to_be_bytes w @ v" using True by (simp add: attribute_bytes_def w_def)
  have short: "up_short (to_be_bytes w @ r) c s = Inr (w, r)" for r c s by (simp add: up_short_def up_take_def)
  have tk: "up_take (v @ rest) (length v) c s = Inr (v, rest)" for c s by (simp add: up_take_def)
  have raw: "take (4 + length v) (a # b # to_be_bytes w @ v @ rest) = a # b # to_be_bytes w @ v" for a b
  proof -
    have "4 + length v = length (a # b # to_be_bytes w @ v)" by simp
    then show ?thesis by (metis append_Cons append_assoc append_eq_conv_conj)
  qed
  show ?thesis using True flag_bits(1) [of flags] by (simp add: read_attribute_def bytes short w tk wire_flags_def raw)
next
  case False
  have n: "unat (of_nat (length v) :: u8) = length v" using False by (simp add: unat_of_nat)
  have tk: "up_take (v @ rest) (length v) c s = Inr (v, rest)" for c s by (simp add: up_take_def)
  have raw: "take (3 + length v) (a # b # c # v @ rest) = a # b # c # v" for a b c
  proof -
    have "3 + length v = length (a # b # c # v)" by simp
    then show ?thesis by (metis append_Cons append_eq_conv_conj)
  qed
  show ?thesis using False flag_bits(2) [of flags] by (simp add: read_attribute_def attribute_bytes_def n tk wire_flags_def raw)
qed

text \<open>The attributes an encoder writes, read back.\<close>

fun wire_attributes :: "(u8 \<times> u8 \<times> u8 list) list \<Rightarrow> u8 list" where
  "wire_attributes [] = []"
| "wire_attributes ((flags, code, v) # attrs) = attribute_bytes flags code v @ wire_attributes attrs"

definition read_back :: "u8 \<times> u8 \<times> u8 list \<Rightarrow> path_attribute" where
  "read_back a = (case a of (flags, code, v) \<Rightarrow> (wire_flags flags v, code, v, attribute_bytes flags code v))"

lemma wire_append: "wire_attributes (xs @ ys) = wire_attributes xs @ wire_attributes ys"
  by (induction xs rule: wire_attributes.induct) simp_all

lemma attribute_bytes_nonempty [simp]: "attribute_bytes flags code v \<noteq> []"
  by (simp add: attribute_bytes_def)

lemma read_wire_attributes:
  "list_all (\<lambda>(flags, code, v). length v \<le> 65535) attrs \<Longrightarrow> read_attributes (wire_attributes attrs) = Inr (map read_back attrs)"
proof (induction attrs rule: wire_attributes.induct)
  case (2 flags code v attrs)
  then show ?case
    by (subst read_attributes.simps) (simp add: read_attribute_bytes with_data_def read_back_def)
qed (simp add: read_attributes.simps)

section \<open>What an export writes\<close>

text \<open>The attributes of an export, as \<open>Export::attributes\<close> and \<open>Export::body\<close> write them.\<close>

definition export_path :: "export \<Rightarrow> u32 list" where
  "export_path ex = (if ex_external ex then ex_local_asn ex # ex_as_sequence ex else ex_as_sequence ex)"

definition base_attributes :: "export \<Rightarrow> (u8 \<times> u8 \<times> u8 list) list" where
  "base_attributes ex =
     [(0x40, 1, [ex_origin ex]), (0x40, 2, path_bytes (export_path ex) (ex_four_octet_asn ex))] @
     (if \<not> ex_four_octet_asn ex \<and> list_ex (\<lambda>asn. 65535 < asn) (export_path ex) then [(0xc0, 17, path_bytes (export_path ex) True)] else []) @
     (if \<not> ex_external ex then [(0x40, 5, to_be_bytes (ex_local_preference ex))] else []) @
     (case ex_next_hop ex of V4 ip \<Rightarrow> [(0x40, 3, to_be_bytes ip)] | V6 _ \<Rightarrow> [])"

definition export_ok :: "export \<Rightarrow> bool" where
  "export_ok ex \<longleftrightarrow> family_validate (ex_family ex) = Inr () \<and> ex_local_asn ex \<noteq> 0 \<and> ex_origin ex \<le> 2 \<and>
     0 \<notin> set (ex_as_sequence ex) \<and> length (ex_as_sequence ex) \<le> 1024 \<and>
     (case ex_next_hop ex of
        V4 ip \<Rightarrow> ex_family ex = FAMILY_IPV4 \<and> ip \<noteq> 0 \<and> drop_bit 28 ip \<noteq> 14 \<and> ip \<noteq> 0xffffffff
      | V6 ip \<Rightarrow> ip \<noteq> 0 \<and> drop_bit 120 ip \<noteq> 0xff)"

lemma asn_bytes_length: "length (asn_bytes four asn) = (if four then 4 else 2)"
  by (simp add: asn_bytes_def)

lemma path_segment_length: "length (concat (map (asn_bytes four) seg)) = (if four then 4 else 2) * length seg"
  by (induction seg) (auto simp: asn_bytes_length)

lemma path_bytes_bound: "length (path_bytes seq four) \<le> 6 * length seq"
proof (induction seq four rule: path_bytes.induct)
  case (1 seq four)
  show ?case
  proof (cases "seq = []")
    case True
    then show ?thesis by (simp add: path_bytes.simps)
  next
    case False
    then have "length (path_bytes (drop 255 seq) four) \<le> 6 * (length seq - 255)" using 1 by simp
    moreover have "length (path_bytes seq four) = 2 + (if four then 4 else 2) * min (length seq) 255 + length (path_bytes (drop 255 seq) four)"
      using False by (subst path_bytes.simps) (simp add: Let_def path_segment_length)
    moreover have "(if four then 4 else 2) * min (length seq) 255 \<le> 4 * min (length seq) 255" by simp
    moreover have "0 < length seq" using False by simp
    ultimately show ?thesis by linarith
  qed
qed

lemma path_bytes_valid: "as_path (path_bytes seq four) (if four then 4 else 2) = Inr ()"
proof (induction seq four rule: path_bytes.induct)
  case (1 seq four)
  show ?case
  proof (cases "seq = []")
    case True
    then show ?thesis by (simp add: path_bytes.simps as_path.simps)
  next
    case False
    define seg where "seg = take 255 seq"
    let ?w = "if four then 4 else 2 :: nat"
    have seg: "length seg \<le> 255" "0 < length seg" using False by (simp_all add: seg_def)
    have c: "unat (of_nat (length seg) :: u8) = length seg" using seg(1) by (simp add: unat_of_nat)
    then have nz: "of_nat (length seg) \<noteq> (0 :: u8)" using seg(2) by (metis less_numeral_extra(3) unat_0)
    have "length (concat (map (asn_bytes four) seg)) = length seg * ?w" by (simp add: path_segment_length)
    then have tk: "up_take (concat (map (asn_bytes four) seg) @ r) (length seg * ?w) 11 False = Inr (concat (map (asn_bytes four) seg), r)" for r
      by (simp only: up_take_def append_eq_conv_conj length_append) simp
    have "path_bytes seq four = [2, of_nat (length seg)] @ concat (map (asn_bytes four) seg) @ path_bytes (drop 255 seq) four"
      using False by (subst path_bytes.simps) (simp add: seg_def Let_def)
    then show ?thesis using 1 False nz by (subst as_path.simps) (simp add: c tk)
  qed
qed

lemma attribute_ok: "length v \<le> 65535 \<Longrightarrow> attribute out flags code v = Inr (out @ attribute_bytes flags code v)"
  by (simp add: attribute_Inr)

lemma export_path_bound:
  assumes "export_ok ex"
  shows "length (path_bytes (export_path ex) four) \<le> 65535"
  using path_bytes_bound [of "export_path ex" four] assms by (auto simp: export_path_def export_ok_def split: if_splits)

lemma ex_attributes_ok:
  assumes ok: "export_ok ex"
  shows "ex_attributes ex = Inr (wire_attributes (base_attributes ex))"
proof -
  have g: "family_validate (ex_family ex) = Inr ()"
    "\<not> (ex_local_asn ex = 0 \<or> 2 < ex_origin ex \<or> 0 \<in> set (ex_as_sequence ex) \<or> 1024 < length (ex_as_sequence ex))"
    using ok by (auto simp: export_ok_def)
  note path = attribute_ok [OF export_path_bound [OF ok]]
  have seq: "(if ex_external ex then ex_local_asn ex # ex_as_sequence ex else ex_as_sequence ex) = export_path ex" by (simp add: export_path_def)
  show ?thesis
    using ok unfolding ex_attributes_def Let_def seq g(1) and_then_simps if_not_P [OF g(2)] base_attributes_def
    by (auto simp: path attribute_ok wire_append export_ok_def split: ip_addr.splits)
qed

lemma ex_attributes_eq:
  assumes "ex_attributes ex = Inr base"
  shows "export_ok ex \<and> base = wire_attributes (base_attributes ex)"
proof -
  have "export_ok ex"
    using assms by (auto simp: ex_attributes_def export_ok_def and_then_Inr_iff Let_def not_less split: if_splits ip_addr.splits)
  then show ?thesis using ex_attributes_ok assms by auto
qed

definition export_legacy :: "export \<Rightarrow> bool" where
  "export_legacy ex \<longleftrightarrow> ex_family ex = FAMILY_IPV4 \<and> is_ipv4 (ex_next_hop ex)"

definition reach_value :: "export \<Rightarrow> bgp_prefix list \<Rightarrow> u8 list" where
  "reach_value ex ps =
     to_be_bytes (fst (ex_family ex)) @ [snd (ex_family ex), 16] @
     (case ex_next_hop ex of V6 ip \<Rightarrow> to_be_bytes ip | V4 _ \<Rightarrow> []) @ [0] @ concat (map bp_encode ps)"

definition all_attributes :: "export \<Rightarrow> bgp_prefix list \<Rightarrow> (u8 \<times> u8 \<times> u8 list) list" where
  "all_attributes ex ps = base_attributes ex @ (if export_legacy ex then [] else [(0x80, 14, reach_value ex ps)])"

definition export_body :: "export \<Rightarrow> bgp_prefix list \<Rightarrow> u8 list" where
  "export_body ex ps =
     (let attrs = wire_attributes (all_attributes ex ps)
      in [0, 0] @ to_be_bytes (of_nat (length attrs) :: u16) @ attrs @ (if export_legacy ex then concat (map bp_encode ps) else []))"

lemma ex_body_Inr:
  assumes "ex_body ex (wire_attributes (base_attributes ex)) ps = Inr body"
  shows "body = export_body ex ps \<and> length (wire_attributes (all_attributes ex ps)) \<le> 65535"
proof (cases "export_legacy ex")
  case True
  then show ?thesis
    using assms by (auto simp: ex_body_def Let_def export_body_def all_attributes_def export_legacy_def split: if_splits)
next
  case False
  then obtain ip where ip: "ex_next_hop ex = V6 ip" "length (reach_value ex ps) \<le> 65535"
    using assms by (cases "ex_next_hop ex") (auto simp: ex_body_def Let_def export_legacy_def reach_value_def and_then_Inr_iff attribute_Inr)
  then show ?thesis
    using assms False
    by (auto simp: ex_body_def Let_def export_body_def all_attributes_def export_legacy_def reach_value_def attribute_Inr and_then_Inr_iff
        wire_append simp del: of_nat_add split: if_splits)
qed

section \<open>Reading an export back\<close>

lemma step_ok:
  assumes "expected_flags code = Some f"
  shows "attribute_step four (wire_flags f v) code v r = attribute_content four code v r"
proof -
  have "f = 0x40 \<or> f = 0x80 \<or> f = 0xc0" using assms by (auto simp: expected_flags_def split: if_splits)
  then show ?thesis using assms by (auto simp: attribute_step_def wire_flags_def)
qed

lemma check_step:
  assumes "code \<notin> set seen" "expected_flags code = Some f" "attribute_content four code v r = Inr r'"
  shows "check_attributes four (read_back (f, code, v) # attrs) seen r = check_attributes four attrs (bs_insert code seen) r'"
  using assms by (simp add: read_back_def step_ok with_data_def)

lemma reach_prefixes:
  assumes "family_validate (ex_family ex) = Inr ()" "ex_next_hop ex = V6 ip" "list_all bp_ok ps"
    "list_all (\<lambda>p. is_ipv4 (fst p) = (ex_family ex = FAMILY_IPV4)) ps"
  shows "mp_prefixes (reach_value ex ps) True = Inr ps"
proof -
  obtain afi safi where f: "ex_family ex = (afi, safi)" by (cases "ex_family ex")
  have afi: "afi = 1 \<or> afi = 2" "safi = 1" using assms(1) by (auto simp: family_validate_def f split: if_splits)
  have v6: "(ex_family ex = FAMILY_IPV4) = (\<not> (afi = 2))" using afi by (auto simp: f FAMILY_IPV4_def)
  have short: "up_short (to_be_bytes (w :: u16) @ r) c t = Inr (w, r)" for w r c t by (simp add: up_short_def up_take_def)
  have tk: "up_take (to_be_bytes ip @ r) 16 c t = Inr (to_be_bytes ip, r)" for r c t by (simp add: up_take_def)
  have "bgp_prefixes (concat (map bp_encode ps)) (afi = 2) = Inr ps"
    using assms(3,4) unfolding v6 by (rule prefixes_encode)
  then show ?thesis using afi by (auto simp: mp_prefixes_def reach_value_def f assms(2) short tk)
qed

lemma content_ok:
  assumes "export_ok ex"
  shows "attribute_content four 1 [ex_origin ex] r = Inr r"
    "attribute_content (ex_four_octet_asn ex) 2 (path_bytes (export_path ex) (ex_four_octet_asn ex)) r = Inr r"
    "attribute_content four 17 (path_bytes (export_path ex) True) r = Inr r"
    "attribute_content four 5 (to_be_bytes (ex_local_preference ex)) r = Inr r"
    "ex_next_hop ex = V4 ip \<Longrightarrow> attribute_content four 3 (to_be_bytes ip) r = Inr r"
proof -
  show "attribute_content four 1 [ex_origin ex] r = Inr r"
    using assms by (simp add: attribute_content_def export_ok_def linorder_not_less)
  show "attribute_content (ex_four_octet_asn ex) 2 (path_bytes (export_path ex) (ex_four_octet_asn ex)) r = Inr r"
    using path_bytes_valid [of "export_path ex" "ex_four_octet_asn ex"] by (simp add: attribute_content_def)
  show "attribute_content four 17 (path_bytes (export_path ex) True) r = Inr r"
    using path_bytes_valid [of "export_path ex" True] by (simp add: attribute_content_def)
  show "attribute_content four 5 (to_be_bytes (ex_local_preference ex)) r = Inr r" by (simp add: attribute_content_def)
  show "attribute_content four 3 (to_be_bytes ip) r = Inr r" if "ex_next_hop ex = V4 ip"
    using assms that by (simp add: attribute_content_def export_ok_def)
qed

lemma expected_known:
  "expected_flags 1 = Some 0x40" "expected_flags 2 = Some 0x40" "expected_flags 3 = Some 0x40" "expected_flags 5 = Some 0x40"
  "expected_flags 17 = Some 0xc0" "expected_flags 14 = Some 0x80"
  by (simp_all add: expected_flags_def)

definition codes :: "(u8 \<times> u8 \<times> u8 list) list \<Rightarrow> u8 list" where
  "codes attrs = map (\<lambda>a. fst (snd a)) attrs"

lemma check_known:
  assumes "\<forall>(f, code, v)\<in>set xs. expected_flags code = Some f \<and> attribute_content four code v r = Inr r"
    and "distinct (codes xs)" "set (codes xs) \<inter> set seen = {}"
  shows "\<exists>seen'. check_attributes four (map read_back xs @ attrs) seen r = check_attributes four attrs seen' r \<and>
    set seen' = set seen \<union> set (codes xs)"
  using assms
proof (induction xs arbitrary: seen)
  case (Cons a xs)
  obtain f code v where a: "a = (f, code, v)" by (cases a)
  have "check_attributes four (map read_back (a # xs) @ attrs) seen r = check_attributes four (map read_back xs @ attrs) (bs_insert code seen) r"
    using Cons.prems check_step [of code seen f four v r r] by (auto simp: a codes_def)
  moreover have "\<exists>seen'. check_attributes four (map read_back xs @ attrs) (bs_insert code seen) r = check_attributes four attrs seen' r \<and>
      set seen' = set (bs_insert code seen) \<union> set (codes xs)"
    using Cons.prems by (intro Cons.IH) (auto simp: a codes_def)
  ultimately show ?case by (auto simp: a codes_def)
qed (auto simp: codes_def)

lemma base_known:
  assumes "export_ok ex"
  shows "\<forall>(f, code, v)\<in>set (base_attributes ex). expected_flags code = Some f \<and> attribute_content (ex_four_octet_asn ex) code v r = Inr r"
    and "distinct (codes (base_attributes ex))" "{1, 2} \<subseteq> set (codes (base_attributes ex))" "14 \<notin> set (codes (base_attributes ex))"
    and "is_ipv4 (ex_next_hop ex) \<Longrightarrow> 3 \<in> set (codes (base_attributes ex))"
proof -
  show "\<forall>(f, code, v)\<in>set (base_attributes ex). expected_flags code = Some f \<and> attribute_content (ex_four_octet_asn ex) code v r = Inr r"
    using content_ok [OF assms, where r = r] by (cases "ex_next_hop ex") (auto simp: base_attributes_def expected_known)
  show "distinct (codes (base_attributes ex))" by (cases "ex_next_hop ex") (auto simp: base_attributes_def codes_def)
  show "{1, 2} \<subseteq> set (codes (base_attributes ex))" by (simp add: base_attributes_def codes_def)
  show "14 \<notin> set (codes (base_attributes ex))" by (cases "ex_next_hop ex") (auto simp: base_attributes_def codes_def)
  show "3 \<in> set (codes (base_attributes ex))" if "is_ipv4 (ex_next_hop ex)"
    using that by (cases "ex_next_hop ex") (simp_all add: base_attributes_def codes_def)
qed

definition export_summary :: "export \<Rightarrow> bgp_prefix list \<Rightarrow> summary" where
  "export_summary ex ps =
     \<lparr>sm_withdrawn = [], sm_announced = (if export_legacy ex then ps else []),
      sm_mp_announced = (if export_legacy ex then [] else ps), sm_mp_withdrawn = [], sm_unknown_transitive = []\<rparr>"

lemma check_all:
  assumes ok: "export_ok ex" and ps: "list_all bp_ok ps" "list_all (\<lambda>p. is_ipv4 (fst p) = (ex_family ex = FAMILY_IPV4)) ps"
  shows "\<exists>seen. check_attributes (ex_four_octet_asn ex) (map read_back (all_attributes ex ps)) []
      \<lparr>sm_withdrawn = [], sm_announced = (if export_legacy ex then ps else []), sm_mp_announced = [], sm_mp_withdrawn = [],
       sm_unknown_transitive = []\<rparr> = Inr (seen, export_summary ex ps) \<and> {1, 2} \<subseteq> set seen \<and> (export_legacy ex \<longrightarrow> 3 \<in> set seen)"
proof -
  let ?r = "\<lparr>sm_withdrawn = [], sm_announced = (if export_legacy ex then ps else []), sm_mp_announced = [], sm_mp_withdrawn = [],
       sm_unknown_transitive = []\<rparr> :: summary"
  let ?last = "if export_legacy ex then [] else [read_back (0x80, 14, reach_value ex ps)]"
  note B = base_known [OF ok]
  obtain seen where seen: "check_attributes (ex_four_octet_asn ex) (map read_back (base_attributes ex) @ ?last) [] ?r =
      check_attributes (ex_four_octet_asn ex) ?last seen ?r" "set seen = set (codes (base_attributes ex))"
    using check_known [OF B(1) [of ?r] B(2), of "[]" ?last] by auto
  have all: "map read_back (all_attributes ex ps) = map read_back (base_attributes ex) @ ?last" by (simp add: all_attributes_def)
  show ?thesis
  proof (cases "export_legacy ex")
    case True
    then show ?thesis using seen B(3,5) unfolding all by (simp add: export_summary_def export_legacy_def)
  next
    case False
    then obtain ip where ip: "ex_next_hop ex = V6 ip" using ok by (cases "ex_next_hop ex") (auto simp: export_ok_def export_legacy_def)
    have "mp_prefixes (reach_value ex ps) True = Inr ps"
      using reach_prefixes [OF _ ip ps] ok by (simp add: export_ok_def)
    then have "attribute_content four 14 (reach_value ex ps) ?r = Inr (export_summary ex ps)" for four
      using False by (simp add: attribute_content_def export_summary_def)
    then have "check_attributes (ex_four_octet_asn ex) [read_back (0x80, 14, reach_value ex ps)] seen ?r = Inr (bs_insert 14 seen, export_summary ex ps)"
      using check_step [OF _ expected_known(6)] B(4) seen(2) by simp
    then show ?thesis using seen B(3) False unfolding all by auto
  qed
qed

lemma validate_export:
  assumes ok: "export_ok ex" and ps: "list_all bp_ok ps" "list_all (\<lambda>p. is_ipv4 (fst p) = (ex_family ex = FAMILY_IPV4)) ps"
    and len: "length (export_body ex ps) \<le> 4077" "length (wire_attributes (all_attributes ex ps)) \<le> 65535"
    and vals: "list_all (\<lambda>(flags, code, v). length v \<le> 65535) (all_attributes ex ps)"
  shows "update_validate (export_body ex ps) (ex_four_octet_asn ex) = Inr (export_summary ex ps)"
proof -
  define A where "A = wire_attributes (all_attributes ex ps)"
  define w where "w = (of_nat (length A) :: u16)"
  let ?nlri = "if export_legacy ex then concat (map bp_encode ps) else []"
  have w: "unat w = length A" using len(2) by (simp add: w_def A_def unat_of_nat)
  have body: "export_body ex ps = [0, 0] @ to_be_bytes w @ A @ ?nlri" by (simp add: export_body_def Let_def A_def w_def)
  have short: "up_short (to_be_bytes (x :: u16) @ rest) c t = Inr (x, rest)" for x rest c t by (simp add: up_short_def up_take_def)
  have zero: "up_short (0 # 0 # rest) c t = Inr (0, rest)" for rest c t
    by (simp add: up_short_def up_take_def from_be_bytes_def from_le_bytes_def)
  have tk: "up_take (A @ rest) (length A) c t = Inr (A, rest)" "up_take rest 0 c t = Inr ([], rest)" for rest c t by (simp_all add: up_take_def)
  have read: "read_attributes A = Inr (map read_back (all_attributes ex ps))" unfolding A_def by (rule read_wire_attributes [OF vals])
  have nlri: "bgp_prefixes ?nlri False = Inr (if export_legacy ex then ps else [])"
    using prefixes_encode [OF ps(1), of False] ps(2) by (auto simp: export_legacy_def bgp_prefixes.simps [of "[]"])
  obtain seen where "check_attributes (ex_four_octet_asn ex) (map read_back (all_attributes ex ps)) []
      \<lparr>sm_withdrawn = [], sm_announced = (if export_legacy ex then ps else []), sm_mp_announced = [], sm_mp_withdrawn = [],
       sm_unknown_transitive = []\<rparr> = Inr (seen, export_summary ex ps)" "{1, 2} \<subseteq> set seen" "export_legacy ex \<longrightarrow> 3 \<in> set seen"
    using check_all [OF ok ps] by blast
  then have "validate_inner (export_body ex ps) (ex_four_octet_asn ex) = Inr (export_summary ex ps)"
    using len(1) unfolding body
    by (simp add: validate_inner_def limits zero short w tk read nlri with_data_def bgp_prefixes.simps [of "[]"]) (simp add: export_summary_def)
  then show ?thesis by (simp add: update_validate_def validate_detailed_def)
qed

section \<open>Splitting announcements\<close>

lemma attribute_bytes_length: "length (attribute_bytes flags code v) = (if 255 < length v then 4 else 3) + length v"
  by (simp add: attribute_bytes_def)

lemma export_body_length:
  "length (export_body ex ps) = 4 + length (wire_attributes (base_attributes ex)) +
     (if export_legacy ex then length (concat (map bp_encode ps)) else length (attribute_bytes 0x80 14 (reach_value ex ps)))"
  by (simp add: export_body_def Let_def all_attributes_def wire_append del: length_concat)

lemma bp_encode_length: "length (bp_encode p) \<le> 17"
  by (cases "fst p") (simp_all add: bp_encode_def)

lemma reach_value_snoc: "length (reach_value ex (ps @ [p])) = length (reach_value ex ps) + length (bp_encode p)"
  by (simp add: reach_value_def)

lemma export_body_snoc: "length (export_body ex (ps @ [p])) \<le> length (export_body ex ps) + 18"
  using bp_encode_length [of p] reach_value_snoc [of ex ps p] by (simp add: export_body_length attribute_bytes_length)

lemma ex_body_small:
  assumes "export_ok ex" "length (export_body ex ps) \<le> 65535"
  shows "ex_body ex (wire_attributes (base_attributes ex)) ps = Inr (export_body ex ps)"
proof (cases "export_legacy ex")
  case True
  then have "length (wire_attributes (base_attributes ex)) \<le> 65535" using assms(2) by (simp add: export_body_length)
  then show ?thesis using True by (simp add: ex_body_def Let_def export_body_def all_attributes_def export_legacy_def)
next
  case False
  then obtain ip where ip: "ex_next_hop ex = V6 ip" using assms(1) by (cases "ex_next_hop ex") (auto simp: export_ok_def export_legacy_def)
  have "length (reach_value ex ps) \<le> 65535" "length (wire_attributes (base_attributes ex) @ attribute_bytes 0x80 14 (reach_value ex ps)) \<le> 65535"
    using False assms(2) by (simp_all add: export_body_length attribute_bytes_length)
  then show ?thesis
    using False ip attribute_ok [of "reach_value ex ps"]
    by (simp add: ex_body_def Let_def export_body_def all_attributes_def export_legacy_def reach_value_def wire_append del: of_nat_add length_append)
qed

lemma all_values_small:
  assumes "length (wire_attributes attrs) \<le> 65535"
  shows "list_all (\<lambda>(flags, code, v). length v \<le> 65535) attrs"
  using assms by (induction attrs rule: wire_attributes.induct) (auto simp: attribute_bytes_length)

lemma checked_export:
  assumes ok: "export_ok ex" and ps: "list_all bp_ok ps" "list_all (\<lambda>p. is_ipv4 (fst p) = (ex_family ex = FAMILY_IPV4)) ps"
    and len: "length (export_body ex ps) \<le> 4077"
  shows "update_validate (export_body ex ps) (ex_four_octet_asn ex) = Inr (export_summary ex ps) \<and>
    ex_checked ex (wire_attributes (base_attributes ex)) ps = Inr (frame_bytes (replicate 16 0xff) UpdateKind (export_body ex ps))"
proof -
  have wire: "length (wire_attributes (all_attributes ex ps)) \<le> 65535"
    using len by (simp add: export_body_def Let_def)
  have v: "update_validate (export_body ex ps) (ex_four_octet_asn ex) = Inr (export_summary ex ps)"
    by (rule validate_export [OF ok ps len wire all_values_small [OF wire]])
  have "4 \<le> length (export_body ex ps)" by (simp add: export_body_length)
  then have "bgp_encode UpdateKind (export_body ex ps) = Inr (frame_bytes (replicate 16 0xff) UpdateKind (export_body ex ps))"
    using len by (simp add: encode_frame_bytes limits)
  then show ?thesis using v ex_body_small [OF ok] len by (simp add: ex_checked_def)
qed

abbreviation fits :: "export \<Rightarrow> bgp_prefix list \<Rightarrow> bool" where
  "fits ex ps \<equiv> length (export_body ex ps) \<le> 4077"

definition exportable :: "export \<Rightarrow> bgp_prefix list \<Rightarrow> bool" where
  "exportable ex ps \<longleftrightarrow> list_all bp_ok ps \<and> list_all (\<lambda>p. is_ipv4 (fst p) = (ex_family ex = FAMILY_IPV4)) ps"

lemma exportable_append [simp]: "exportable ex (xs @ ys) \<longleftrightarrow> exportable ex xs \<and> exportable ex ys"
  by (auto simp: exportable_def)

text \<open>The messages of the remaining prefixes, given the pending batch.\<close>

lemma export_body_mono: "length (export_body ex ps) \<le> length (export_body ex (ps @ [p]))"
  using reach_value_snoc [of ex ps p] by (simp add: export_body_length attribute_bytes_length)

lemma checked_fits: "ex_checked ex (wire_attributes (base_attributes ex)) b = Inr m \<Longrightarrow> fits ex b"
  by (auto simp: ex_checked_def and_then_Inr_iff encode_frame_bytes limits dest!: ex_body_Inr split: if_splits)

lemma announce_alone:
  assumes "\<not> fits ex [p]"
  shows "announce_loop ex (wire_attributes (base_attributes ex)) ps [p] out \<noteq> Inr msgs"
proof (cases ps)
  case Nil
  then show ?thesis using assms checked_fits by (auto simp: and_then_Inr_iff)
next
  case (Cons q qs)
  have "\<not> fits ex [p, q]" using assms export_body_mono [of ex "[p]" q] by simp
  then show ?thesis using assms checked_fits ex_body_Inr unfolding Cons by (auto simp: and_then_Inr_iff split: if_splits)
qed

lemma announce_loop_spec:
  assumes ok: "export_ok ex" and "exportable ex batch" "exportable ex ps" "fits ex batch"
  shows "(list_all (\<lambda>p. fits ex [p]) ps \<longrightarrow> (\<exists>msgs. announce_loop ex (wire_attributes (base_attributes ex)) ps batch out = Inr msgs)) \<and>
    (\<forall>msgs. announce_loop ex (wire_attributes (base_attributes ex)) ps batch out = Inr msgs \<longrightarrow>
      (\<exists>batches. concat batches = batch @ ps \<and> [] \<notin> set batches \<and> (\<forall>b\<in>set batches. fits ex b) \<and>
         msgs = out @ map (\<lambda>b. frame_bytes (replicate 16 0xff) UpdateKind (export_body ex b)) batches))"
  using assms(2-4)
proof (induction ps arbitrary: batch out)
  case Nil
  then show ?case
    using checked_export [OF ok, of batch] by (cases "batch = []") (auto simp: exportable_def intro: exI [of _ "[batch]"])
next
  case (Cons p ps)
  let ?base = "wire_attributes (base_attributes ex)" and ?m = "\<lambda>b. frame_bytes (replicate 16 0xff) UpdateKind (export_body ex b)"
  have ps: "exportable ex [p]" "exportable ex ps" using Cons.prems(2) by (auto simp: exportable_def)
  have body: "ex_body ex ?base (batch @ [p]) = Inr (export_body ex (batch @ [p]))"
    using ex_body_small [OF ok, of "batch @ [p]"] export_body_snoc [of ex batch p] Cons.prems(3) by simp
  show ?case
  proof (cases "fits ex (batch @ [p])")
    case True
    have "exportable ex (batch @ [p])" using Cons.prems(1) ps(1) by simp
    from Cons.IH [OF this ps(2) True, of out] show ?thesis using body True by (simp add: not_less)
  next
    case big: False
    show ?thesis
    proof (cases "batch = []")
      case True
      then show ?thesis using body big by simp
    next
      case False
      have chk: "ex_checked ex ?base batch = Inr (?m batch)"
        using checked_export [OF ok, of batch] Cons.prems(1,3) by (simp add: exportable_def)
      have step: "announce_loop ex ?base (p # ps) batch out = announce_loop ex ?base ps [p] (out @ [?m batch])"
        using body big False chk by simp
      show ?thesis
      proof (cases "fits ex [p]")
        case True
        note I = Cons.IH [OF ps(1,2) True, of "out @ [?m batch]"]
        have "\<exists>batches. concat batches = batch @ p # ps \<and> [] \<notin> set batches \<and> (\<forall>b\<in>set batches. fits ex b) \<and> msgs = out @ map ?m batches"
          if run: "announce_loop ex ?base ps [p] (out @ [?m batch]) = Inr msgs" for msgs
        proof -
          obtain bs where "concat bs = [p] @ ps" "[] \<notin> set bs" "\<forall>b\<in>set bs. fits ex b" "msgs = (out @ [?m batch]) @ map ?m bs"
            using I run by blast
          then show ?thesis using False Cons.prems(3) by (intro exI [of _ "batch # bs"]) auto
        qed
        then show ?thesis using I unfolding step by auto
      next
        case alone: False
        have "announce_loop ex ?base ps [p] out' \<noteq> Inr msgs" for out' msgs
          by (rule announce_alone [OF alone])
        then show ?thesis using alone unfolding step by simp
      qed
    qed
  qed
qed

text \<open>
  C20. Announcements are split without loss. With a well-formed export whose attributes leave room for each
  prefix, the encoder always succeeds; whenever it succeeds, the prefixes are cut in order into non-empty
  batches, one message each, every message has at most 4096 bytes, decodes as an UPDATE, passes the
  receiver's validation, and announces exactly its batch and nothing else.
\<close>

theorem announcements_spec:
  assumes "list_all bp_ok ps"
  shows "(export_ok ex \<and> list_all (\<lambda>p. is_ipv4 (fst p) = (ex_family ex = FAMILY_IPV4)) ps \<and>
      length (export_body ex []) \<le> 4077 \<and> list_all (\<lambda>p. length (export_body ex [p]) \<le> 4077) ps \<longrightarrow>
      (\<exists>msgs. announcements ex ps = Inr msgs)) \<and>
    (\<forall>msgs. announcements ex ps = Inr msgs \<longrightarrow>
      (\<exists>batches. concat batches = ps \<and> [] \<notin> set batches \<and>
         list_all2 (\<lambda>msg b. length msg \<le> MAX_MESSAGE_LENGTH \<and>
           (\<exists>body. bgp_decode msg = Inr (\<lparr>fr_kind = UpdateKind, fr_body = body\<rparr>, length msg) \<and>
              update_validate body (ex_four_octet_asn ex) = Inr (export_summary ex b))) msgs batches))"
proof (intro conjI impI allI)
  let ?m = "\<lambda>b. frame_bytes (replicate 16 0xff) UpdateKind (export_body ex b)"
  let ?base = "wire_attributes (base_attributes ex)"
  assume A: "export_ok ex \<and> list_all (\<lambda>p. is_ipv4 (fst p) = (ex_family ex = FAMILY_IPV4)) ps \<and>
      length (export_body ex []) \<le> 4077 \<and> list_all (\<lambda>p. length (export_body ex [p]) \<le> 4077) ps"
  have e: "ex_attributes ex = Inr ?base" using A ex_attributes_ok by blast
  have ex: "exportable ex ps" "exportable ex []" using A assms by (simp_all add: exportable_def)
  obtain msgs where "announce_loop ex ?base ps [] [] = Inr msgs"
    using announce_loop_spec [OF _ ex(2,1), of "[]"] A by blast
  then show "\<exists>msgs. announcements ex ps = Inr msgs"
    using A ex_body_small [of ex "[]"] by (auto simp: announcements_def e list_ex_iff list_all_iff)
next
  let ?m = "\<lambda>b. frame_bytes (replicate 16 0xff) UpdateKind (export_body ex b)"
  let ?base = "wire_attributes (base_attributes ex)"
  fix msgs assume run: "announcements ex ps = Inr msgs"
  then obtain base where b: "ex_attributes ex = Inr base" by (auto simp: announcements_def and_then_Inr_iff)
  have ok: "export_ok ex" "base = ?base" using ex_attributes_eq [OF b] by blast+
  have body: "ex_body ex ?base [] = Inr (export_body ex [])" "fits ex []"
    using run b ok ex_body_Inr by (auto simp: announcements_def and_then_Inr_iff split: if_splits)
  have fam: "list_all (\<lambda>p. is_ipv4 (fst p) = (ex_family ex = FAMILY_IPV4)) ps"
    and loop: "announce_loop ex ?base ps [] [] = Inr msgs"
    using run b ok body by (auto simp: announcements_def list_ex_iff list_all_iff split: if_splits)
  have ex: "exportable ex ps" "exportable ex []" using fam assms by (simp_all add: exportable_def)
  obtain batches where B: "concat batches = ps" "[] \<notin> set batches" "\<forall>b\<in>set batches. fits ex b" "msgs = map ?m batches"
    using announce_loop_spec [OF ok(1) ex(2,1) body(2), of "[]"] loop by auto
  have "length (?m b) \<le> MAX_MESSAGE_LENGTH \<and>
      (\<exists>body. bgp_decode (?m b) = Inr (\<lparr>fr_kind = UpdateKind, fr_body = body\<rparr>, length (?m b)) \<and>
         update_validate body (ex_four_octet_asn ex) = Inr (export_summary ex b))" if b: "b \<in> set batches" for b
  proof -
    have sub: "set b \<subseteq> set ps" using b B(1) by auto
    have v: "update_validate (export_body ex b) (ex_four_octet_asn ex) = Inr (export_summary ex b)"
      using checked_export [OF ok(1), of b] assms fam B(3) b sub by (auto simp: list_all_iff)
    have len: "4 \<le> length (export_body ex b)" "length (export_body ex b) \<le> 4077" using B(3) b by (simp_all add: export_body_length)
    have "bgp_decode (?m b) = Inr (\<lparr>fr_kind = UpdateKind, fr_body = export_body ex b\<rparr>, length (?m b))"
      using decode_frame_bytes [of "replicate 16 0xff" "export_body ex b" UpdateKind "[]"] len by (simp add: limits)
    then show ?thesis using v len by (auto simp: limits)
  qed
  then show "\<exists>batches. concat batches = ps \<and> [] \<notin> set batches \<and>
         list_all2 (\<lambda>msg b. length msg \<le> MAX_MESSAGE_LENGTH \<and>
           (\<exists>body. bgp_decode msg = Inr (\<lparr>fr_kind = UpdateKind, fr_body = body\<rparr>, length msg) \<and>
              update_validate body (ex_four_octet_asn ex) = Inr (export_summary ex b))) msgs batches"
    using B(1,2,4) by (intro exI [of _ batches]) (simp add: list_all2_map1 list.rel_refl_strong)
qed

definition lab_export :: export where
  "lab_export = \<lparr>ex_family = FAMILY_IPV4, ex_next_hop = V4 0x0A000001, ex_local_asn = 65001, ex_external = True,
     ex_four_octet_asn = True, ex_as_sequence = [], ex_local_preference = 100, ex_origin = 0\<rparr>"

theorem announcements_spec_witness:
  "\<exists>msgs. announcements lab_export [(V4 0x0A010000, 16)] = Inr msgs \<and> length msgs = 1"
proof -
  let ?p = "(V4 0x0A010000, 16) :: bgp_prefix"
  have p: "list_all bp_ok [?p]" by (simp add: bp_ok_def bp_new_def Let_def saturating_sub_def checked_sub_def)
  have ok: "export_ok lab_export" by (simp add: export_ok_def lab_export_def family_validate_def FAMILY_IPV4_def)
  have path: "path_bytes [65001] True = [2, 1] @ to_be_bytes (65001 :: u32)"
    by (simp add: path_bytes.simps asn_bytes_def)
  have legacy: "export_legacy lab_export" by (simp add: export_legacy_def lab_export_def)
  have "length (wire_attributes (base_attributes lab_export)) \<le> 100"
    by (simp add: base_attributes_def attribute_bytes_length lab_export_def export_path_def path)
  then have len: "length (export_body lab_export []) \<le> 4077" "length (export_body lab_export [?p]) \<le> 4077"
    using bp_encode_length [of ?p] by (simp_all add: export_body_length legacy)
  have fam: "list_all (\<lambda>q. is_ipv4 (fst q) = (ex_family lab_export = FAMILY_IPV4)) [?p]" by (simp add: lab_export_def)
  note spec = announcements_spec [OF p, of lab_export]
  obtain msgs where run: "announcements lab_export [?p] = Inr msgs" using spec ok fam len by auto
  then obtain batches where b: "concat batches = [?p]" "[] \<notin> set batches" "length msgs = length batches"
    using spec by (auto dest: list_all2_lengthD)
  have "batches \<noteq> []" using b(1) by auto
  then obtain x xs where x: "batches = x # xs" by (cases batches) auto
  have "x \<noteq> []" using b(2) x by auto
  then have "concat xs = []" using b(1) x by (cases x) auto
  then have "xs = []" using b(2) x by (cases xs) auto
  then show ?thesis using run b(3) x by simp
qed

end
