(* ===== verification/BgpSession.thy ===== *)
theory BgpSession
  imports BgpOpen BgpUpdate
begin

text \<open>
  The session core of \<open>flowsdn-bgp-proto/src/session.rs\<close>: an export-only BGP speaker as a state machine over
  events and a monotone clock in milliseconds. A method that takes \<open>&mut self\<close> and returns a \<open>Result\<close> gives the
  new session and the actions so far, or the error; \<open>poll\<close>, \<open>handle\<close> and \<open>receive\<close> work on a clone, so an error
  leaves the session as it was. The outer \<open>None\<close> of \<open>process\<close> and \<open>message\<close> is a panic of an \<open>expect\<close>.
\<close>

section \<open>State\<close>

datatype close_disposition = Hard | PeerMayRetainExports

datatype session_state = Idle | Connect | Active | OpenSent | OpenConfirm | Established

datatype session_error = InvalidConfig | ClockReversed | TimeOverflow | GenerationExhausted

record bgp_config =
  cf_local :: bgp_open
  cf_peer_asn :: u32
  cf_listen :: bool
  cf_passive :: bool
  cf_retry_ms :: u64
  cf_keepalive_ms :: u64
  cf_strict_update_errors :: bool
  cf_graceful_shutdown :: bool

datatype action =
    ConnectTo u64
  | Send bgp_kind "u8 list"
  | CloseConnection
  | ExportRoutes "family btree_set" bool
  | ObserveUpdate summary
  | DiscardUpdate protocol_error
  | DropConnection

record deadlines =
  dl_retry :: "u64 option"
  dl_hold :: "u64 option"
  dl_keepalive :: "u64 option"
  dl_idle :: "u64 option"

definition deadlines_default :: deadlines where
  "deadlines_default = \<lparr>dl_retry = None, dl_hold = None, dl_keepalive = None, dl_idle = None\<rparr>"

record session =
  se_config :: bgp_config
  se_state :: session_state
  se_deadlines :: deadlines
  se_negotiated :: "negotiated option"
  se_last_time :: u64
  se_generation :: u64
  se_running :: bool
  se_last_close :: close_disposition

datatype event =
    Start
  | TcpEstablished u64 bool
  | TcpFailed u64
  | TcpClosed u64
  | Message u64 frame
  | HardReset
  | SoftResetOut
  | Shutdown

type_synonym step = "session_error + session \<times> action list"

section \<open>Timers and resets\<close>

definition deadline :: "u64 \<Rightarrow> u64 \<Rightarrow> session_error + u64" where
  "deadline now delay = (case checked_add now delay of None \<Rightarrow> Inl TimeOverflow | Some t \<Rightarrow> Inr t)"

definition retry_delay :: "u64 \<Rightarrow> u64 \<Rightarrow> session_error + u64" where
  "retry_delay base entropy =
     (if base = 0 then Inl InvalidConfig
      else case checked_add base (entropy mod base) of None \<Rightarrow> Inl TimeOverflow | Some t \<Rightarrow> Inr t)"

definition session_new :: "bgp_config \<Rightarrow> session_error + session" where
  "session_new config =
     (if (case open_encode (cf_local config) of Inl _ \<Rightarrow> True | Inr _ \<Rightarrow> False) \<or> op_router_id (cf_local config) = 0 \<or>
         effective_asn (cf_local config) = Inr 0 \<or> cf_passive config \<and> \<not> cf_listen config \<or>
         cf_retry_ms config = 0 \<or> (- 1) div 2 < cf_retry_ms config \<or> cf_keepalive_ms config = 0
      then Inl InvalidConfig
      else Inr \<lparr>se_config = config, se_state = Idle, se_deadlines = deadlines_default, se_negotiated = None, se_last_time = 0,
                se_generation = 0, se_running = False, se_last_close = Hard\<rparr>)"

definition new_generation :: "session \<Rightarrow> session_error + session" where
  "new_generation s =
     (case checked_add (se_generation s) 1 of
        None \<Rightarrow> Inl GenerationExhausted
      | Some g \<Rightarrow> Inr (s\<lparr>se_generation := g\<rparr>))"

definition se_connect :: "session \<Rightarrow> u64 \<Rightarrow> u64 \<Rightarrow> action list \<Rightarrow> step" where
  "se_connect s now entropy out =
     and_then (new_generation s) (\<lambda>s.
     let s = s\<lparr>se_state := (if cf_passive (se_config s) then Active else Connect)\<rparr> in
     and_then (retry_delay (cf_retry_ms (se_config s)) entropy) (\<lambda>delay.
     and_then (deadline now delay) (\<lambda>t.
       Inr (s\<lparr>se_deadlines := deadlines_default\<lparr>dl_retry := Some t\<rparr>\<rparr>,
            if cf_passive (se_config s) then out else out @ [ConnectTo (se_generation s)]))))"

definition notify_peer :: "notification option \<Rightarrow> bool \<Rightarrow> bool \<Rightarrow> action list \<Rightarrow> session_error + action list" where
  "notify_peer notification hard notifications out =
     (case notification of
        None \<Rightarrow> Inr out
      | Some cause \<Rightarrow>
          and_then (if hard then map_sum (\<lambda>_. InvalidConfig) id (nt_hard_reset cause notifications) else Inr cause) (\<lambda>cause.
          and_then (map_sum (\<lambda>_. InvalidConfig) id (nt_encode cause)) (\<lambda>body.
            Inr (out @ [Send NotificationKind body]))))"

definition go_idle :: "session \<Rightarrow> u64 \<Rightarrow> action list \<Rightarrow> step" where
  "go_idle s now out =
     and_then (new_generation s) (\<lambda>s.
     and_then (if se_running s then map_sum id Some (deadline now 5000) else Inr None) (\<lambda>idle.
       Inr (s\<lparr>se_state := Idle, se_negotiated := None, se_deadlines := deadlines_default\<lparr>dl_idle := idle\<rparr>\<rparr>, out)))"

definition reset_notification :: "session \<Rightarrow> u64 \<Rightarrow> notification option \<Rightarrow> action list \<Rightarrow> step" where
  "reset_notification s now notification out =
     (let gr = Option.bind (se_negotiated s) ng_graceful;
          notifications = (case gr of Some g \<Rightarrow> gr_notifications g | None \<Rightarrow> False);
          hard = (case notification of Some n \<Rightarrow> nt_code n = 6 \<and> nt_subcode n \<in> {2, 3, 4, 9} | None \<Rightarrow> False);
          s = s\<lparr>se_last_close :=
                (if gr \<noteq> None \<and> \<not> hard \<and> (notification = None \<or> notifications) then PeerMayRetainExports else Hard)\<rparr>
      in and_then (notify_peer notification hard notifications out) (\<lambda>out. go_idle s now (out @ [CloseConnection])))"

definition se_reset :: "session \<Rightarrow> u64 \<Rightarrow> (u8 \<times> u8) option \<Rightarrow> action list \<Rightarrow> step" where
  "se_reset s now notification out =
     reset_notification s now
       (map_option (\<lambda>(code, subcode).
          if (code, subcode) = (2, 1) then nt_unsupported_version
          else \<lparr>nt_code = code, nt_subcode = subcode, nt_data = []\<rparr>) notification) out"

definition hold_delay :: "session \<Rightarrow> u64" where
  "hold_delay s = saturating_mul (ucast (case se_negotiated s of None \<Rightarrow> 0 | Some n \<Rightarrow> ng_hold_time n)) 1000"

definition reset_hold :: "session \<Rightarrow> u64 \<Rightarrow> session_error + session" where
  "reset_hold s now =
     (let hold = hold_delay s in
      and_then (if hold = 0 then Inr None else map_sum id Some (deadline now hold)) (\<lambda>t.
        Inr (s\<lparr>se_deadlines := (se_deadlines s)\<lparr>dl_hold := t\<rparr>\<rparr>)))"

definition keepalive_delay :: "session \<Rightarrow> u64" where
  "keepalive_delay s = min (cf_keepalive_ms (se_config s)) (hold_delay s div 3)"

definition schedule_keepalive :: "session \<Rightarrow> u64 \<Rightarrow> session_error + session" where
  "schedule_keepalive s now =
     (let delay = keepalive_delay s in
      and_then (if delay = 0 then Inr None else map_sum id Some (deadline now delay)) (\<lambda>t.
        Inr (s\<lparr>se_deadlines := (se_deadlines s)\<lparr>dl_keepalive := t\<rparr>\<rparr>)))"

definition due :: "u64 option \<Rightarrow> u64 \<Rightarrow> bool" where
  "due d now = (case d of None \<Rightarrow> False | Some t \<Rightarrow> t \<le> now)"

definition se_advance :: "session \<Rightarrow> u64 \<Rightarrow> u64 \<Rightarrow> action list \<Rightarrow> session_error + (session \<times> action list) \<times> bool" where
  "se_advance s now entropy out =
     (if now < se_last_time s then Inl ClockReversed
      else
        let s = s\<lparr>se_last_time := now\<rparr> in
        if due (dl_hold (se_deadlines s)) now then
          and_then (se_reset s now (Some (4, 0)) out) (\<lambda>r. Inr (r, True))
        else
          and_then
            (if due (dl_idle (se_deadlines s)) now then se_connect s now entropy out
             else if due (dl_retry (se_deadlines s)) now \<and> se_state s \<in> {Connect, Active}
             then se_connect s now entropy (out @ [CloseConnection])
             else Inr (s, out)) (\<lambda>(s, out).
          if due (dl_keepalive (se_deadlines s)) now \<and> se_state s \<in> {OpenConfirm, Established} then
            and_then (schedule_keepalive s now) (\<lambda>s. Inr ((s, out @ [Send KeepaliveKind []]), False))
          else Inr ((s, out), False)))"

section \<open>Events\<close>

function open_parameter_scan :: "u8 list \<Rightarrow> nat \<Rightarrow> u8" where
  "open_parameter_scan body offset =
     (if length body \<le> offset then 0
      else if length body \<le> offset + 1 then 0
      else
        let stop = offset + 2 + unat (body ! (offset + 1)) in
        if length body < stop then 0
        else if body ! offset \<noteq> 2 then 4
        else
          let prefix = take stop body in
          if length prefix \<le> 9 \<or> 255 < stop - 10 then 0
          else (case open_decode (prefix[9 := of_nat (stop - 10)]) of
                  Inl _ \<Rightarrow> 0
                | Inr _ \<Rightarrow> open_parameter_scan body stop))"
  by pat_completeness auto
termination
  by (relation "measure (\<lambda>(body, offset). length body - offset)") auto

declare open_parameter_scan.simps [simp del]

definition open_parameter_subcode :: "u8 list \<Rightarrow> u8" where
  "open_parameter_subcode body =
     (if length body \<le> 9 then 0
      else if length body \<noteq> 10 + unat (body ! 9) then 0
      else open_parameter_scan body 10)"

fun multiprotocol_data :: "capability list \<Rightarrow> session_error + u8 list" where
  "multiprotocol_data [] = Inr []"
| "multiprotocol_data (cap # caps) =
     (if 255 < length (cap_value cap) then Inl InvalidConfig
      else and_then (multiprotocol_data caps) (\<lambda>rest.
        Inr ([cap_code cap, of_nat (length (cap_value cap))] @ cap_value cap @ rest)))"

definition message_open :: "session \<Rightarrow> u8 list \<Rightarrow> u64 \<Rightarrow> action list \<Rightarrow> step" where
  "message_open s body now out =
     (case and_then (open_decode body) (\<lambda>peer. negotiate (cf_local (se_config s)) peer (cf_peer_asn (se_config s))) of
        Inr negotiated \<Rightarrow>
          let s = s\<lparr>se_negotiated := Some negotiated, se_state := OpenConfirm, se_deadlines := deadlines_default\<rparr> in
          and_then (reset_hold s now) (\<lambda>s.
          and_then (schedule_keepalive s now) (\<lambda>s. Inr (s, out @ [Send KeepaliveKind []])))
      | Inl e \<Rightarrow>
          let subcode = (if er_subcode e = 4 then open_parameter_subcode body else er_subcode e);
              data = (if subcode = 1 then [0, 4] else []) in
          and_then (if subcode = 7
                    then map_sum id (\<lambda>more. data @ more)
                           (multiprotocol_data (filter (\<lambda>c. cap_code c = 1) (op_capabilities (cf_local (se_config s)))))
                    else Inr data) (\<lambda>data.
            reset_notification s now (Some \<lparr>nt_code = er_code e, nt_subcode = subcode, nt_data = data\<rparr>) out))"

definition message_update :: "session \<Rightarrow> bool \<Rightarrow> u8 list \<Rightarrow> u64 \<Rightarrow> action list \<Rightarrow> step" where
  "message_update s four body now out =
     (case validate_detailed body four of
        Inr summary \<Rightarrow> and_then (reset_hold s now) (\<lambda>s. Inr (s, out @ [ObserveUpdate summary]))
      | Inl (data, e) \<Rightarrow>
          (case bgp_error_action e (cf_strict_update_errors (se_config s)) of
             NotifyAndClose \<Rightarrow>
               reset_notification s now (Some \<lparr>nt_code = er_code e, nt_subcode = er_subcode e, nt_data = data\<rparr>) out
           | CountLogAndDiscard \<Rightarrow> Inr (s, out @ [DiscardUpdate e])))"

definition unexpected_subcode :: "session_state \<Rightarrow> u8" where
  "unexpected_subcode st = (case st of OpenSent \<Rightarrow> 1 | OpenConfirm \<Rightarrow> 2 | _ \<Rightarrow> 3)"

definition message :: "session \<Rightarrow> frame \<Rightarrow> u64 \<Rightarrow> action list \<Rightarrow> step option" where
  "message s f now out =
     (let unexpected = reset_notification s now
            (Some \<lparr>nt_code = 5, nt_subcode = unexpected_subcode (se_state s), nt_data = [kind_byte (fr_kind f)]\<rparr>) out in
      if se_state s \<notin> {OpenSent, OpenConfirm, Established} then Some (Inr (s, out))
      else case bgp_encode (fr_kind f) (fr_body f) of
        Inl e \<Rightarrow>
          let n = HEADER_LENGTH + length (fr_body f);
              w = (if n \<le> 65535 then of_nat n else - 1 :: u16) in
          Some (reset_notification s now
            (Some \<lparr>nt_code = er_code e, nt_subcode = er_subcode e, nt_data = to_be_bytes w\<rparr>) out)
      | Inr _ \<Rightarrow>
          if fr_kind f = NotificationKind then
            let notifications = (case Option.bind (se_negotiated s) ng_graceful of Some g \<Rightarrow> gr_notifications g | None \<Rightarrow> False);
                graceful = (case nt_decode (fr_body f) of Inr n \<Rightarrow> nt_permits_graceful_restart n notifications | Inl _ \<Rightarrow> False)
            in Some (and_then (se_reset s now None out) (\<lambda>(s, out).
                 Inr (if graceful then s else s\<lparr>se_last_close := Hard\<rparr>, out)))
          else if se_state s = OpenSent \<and> fr_kind f = OpenKind then Some (message_open s (fr_body f) now out)
          else if se_state s = OpenConfirm \<and> fr_kind f = KeepaliveKind then
            (case reset_hold (s\<lparr>se_state := Established\<rparr>) now of
               Inl e \<Rightarrow> Some (Inl e)
             | Inr s \<Rightarrow>
                 (case se_negotiated s of
                    None \<Rightarrow> None
                  | Some n \<Rightarrow> Some (Inr (s, out @ [ExportRoutes (ng_families n) True]))))
          else if se_state s = Established then
            (case fr_kind f of
               KeepaliveKind \<Rightarrow> Some (and_then (reset_hold s now) (\<lambda>s. Inr (s, out)))
             | UpdateKind \<Rightarrow>
                 (case se_negotiated s of
                    None \<Rightarrow> None
                  | Some n \<Rightarrow> Some (message_update s (ng_four_octet_asn n) (fr_body f) now out))
             | RouteRefreshKind \<Rightarrow>
                 (case decode_refresh (fr_body f) of
                    Inl _ \<Rightarrow> Some (Inr (s, out))
                  | Inr family \<Rightarrow>
                      (case se_negotiated s of
                         None \<Rightarrow> None
                       | Some n \<Rightarrow>
                           Some (Inr (s, if family \<in> set (ng_families n) then out @ [ExportRoutes [family] False] else out))))
             | _ \<Rightarrow> Some unexpected)
          else Some unexpected)"

text \<open>A lost or refused connection attempt: wait in \<open>Active\<close> for the next retry.\<close>

definition retry_later :: "session \<Rightarrow> deadlines \<Rightarrow> u64 \<Rightarrow> u64 \<Rightarrow> action list \<Rightarrow> step" where
  "retry_later s d now entropy out =
     and_then (new_generation s) (\<lambda>s.
     and_then (retry_delay (cf_retry_ms (se_config s)) entropy) (\<lambda>delay.
     and_then (deadline now delay) (\<lambda>t.
       Inr (s\<lparr>se_state := Active, se_deadlines := d\<lparr>dl_retry := Some t\<rparr>\<rparr>, out))))"

definition tcp_established :: "session \<Rightarrow> u64 \<Rightarrow> bool \<Rightarrow> u64 \<Rightarrow> action list \<Rightarrow> step" where
  "tcp_established s generation inbound now out =
     (if generation \<noteq> se_generation s \<or> \<not> se_running s \<or> inbound \<and> \<not> cf_listen (se_config s) \<or>
         se_state s \<in> {OpenSent, OpenConfirm, Established} \<or> dl_idle (se_deadlines s) \<noteq> None
      then Inr (s, out @ [DropConnection])
      else if \<not> inbound \<and> cf_passive (se_config s) then Inr (s, out @ [DropConnection])
      else if \<not> inbound \<and> se_state s = Idle then Inr (s, out @ [DropConnection])
      else
        and_then (deadline now 240000) (\<lambda>t.
        and_then (map_sum (\<lambda>_. InvalidConfig) id (open_encode (cf_local (se_config s)))) (\<lambda>body.
          Inr (s\<lparr>se_state := OpenSent, se_deadlines := deadlines_default\<lparr>dl_hold := Some t\<rparr>\<rparr>, out @ [Send OpenKind body]))))"

definition process :: "session \<Rightarrow> event \<Rightarrow> u64 \<Rightarrow> u64 \<Rightarrow> action list \<Rightarrow> step option" where
  "process s ev now entropy out =
     (case ev of
        Start \<Rightarrow>
          let s = s\<lparr>se_running := True\<rparr> in
          Some (if se_state s = Idle \<and> dl_idle (se_deadlines s) = None then se_connect s now entropy out else Inr (s, out))
      | HardReset \<Rightarrow> Some (se_reset s now (Some (6, 4)) out)
      | Shutdown \<Rightarrow>
          let s = s\<lparr>se_running := False\<rparr> in
          Some (se_reset s now (if cf_graceful_shutdown (se_config s) then None else Some (6, 2)) out)
      | SoftResetOut \<Rightarrow>
          if se_state s = Established then
            (case se_negotiated s of
               None \<Rightarrow> None
             | Some n \<Rightarrow> Some (Inr (s, out @ [ExportRoutes (ng_families n) False])))
          else Some (Inr (s, out))
      | TcpEstablished generation inbound \<Rightarrow> Some (tcp_established s generation inbound now out)
      | TcpFailed generation \<Rightarrow>
          Some (if generation = se_generation s \<and> se_state s \<in> {Connect, Active}
                then retry_later s (se_deadlines s) now entropy out else Inr (s, out))
      | TcpClosed generation \<Rightarrow>
          Some (if generation \<noteq> se_generation s then Inr (s, out)
                else case se_state s of
                       OpenSent \<Rightarrow> retry_later s deadlines_default now entropy out
                     | OpenConfirm \<Rightarrow> se_reset s now None out
                     | Established \<Rightarrow> se_reset s now None out
                     | Connect \<Rightarrow> retry_later s (se_deadlines s) now entropy out
                     | Active \<Rightarrow> retry_later s (se_deadlines s) now entropy out
                     | Idle \<Rightarrow> Inr (s, out))
      | Message generation f \<Rightarrow>
          if generation \<noteq> se_generation s then Some (Inr (s, out)) else message s f now out)"

section \<open>The interface\<close>

definition session_poll :: "session \<Rightarrow> u64 \<Rightarrow> u64 \<Rightarrow> session \<times> (session_error + action list)" where
  "session_poll s now entropy =
     (case se_advance s now entropy [] of Inl e \<Rightarrow> (s, Inl e) | Inr ((s', out), _) \<Rightarrow> (s', Inr out))"

definition session_handle :: "session \<Rightarrow> event \<Rightarrow> u64 \<Rightarrow> u64 \<Rightarrow> (session \<times> (session_error + action list)) option" where
  "session_handle s ev now entropy =
     (case se_advance s now entropy [] of
        Inl e \<Rightarrow> Some (s, Inl e)
      | Inr ((s1, out), _) \<Rightarrow>
          (case process s1 ev now entropy out of
             None \<Rightarrow> None
           | Some (Inl e) \<Rightarrow> Some (s, Inl e)
           | Some (Inr (s2, out)) \<Rightarrow> Some (s2, Inr out)))"

definition session_receive ::
    "session \<Rightarrow> u64 \<Rightarrow> u8 list \<Rightarrow> u64 \<Rightarrow> u64 \<Rightarrow> (session \<times> (session_error + (action list \<times> nat) option)) option" where
  "session_receive s generation bytes now entropy =
     (case bgp_decode bytes of
        Inr (f, consumed) \<Rightarrow>
          map_option (map_prod id (map_sum id (\<lambda>out. Some (out, consumed)))) (session_handle s (Message generation f) now entropy)
      | Inl NeedMore \<Rightarrow> Some (s, Inr None)
      | Inl (Protocol e) \<Rightarrow>
          (case se_advance s now entropy [] of
             Inl er \<Rightarrow> Some (s, Inl er)
           | Inr ((s1, out), _) \<Rightarrow>
               if generation = se_generation s1 \<and> se_state s1 \<in> {OpenSent, OpenConfirm, Established} then
                 let data = (if er_subcode e = 2 then (if 18 \<le> length bytes then take 2 (drop 16 bytes) else [])
                             else if er_subcode e = 3 then (if 19 \<le> length bytes then take 1 (drop 18 bytes) else [])
                             else [])
                 in (case reset_notification s1 now (Some \<lparr>nt_code = er_code e, nt_subcode = er_subcode e, nt_data = data\<rparr>) out of
                       Inl er \<Rightarrow> Some (s, Inl er)
                     | Inr (s2, out) \<Rightarrow> Some (s2, Inr (Some (out, length bytes))))
               else Some (s1, Inr (Some (out, length bytes)))))"

definition retain_outbound :: "u32 \<Rightarrow> u32 \<Rightarrow> bool option" where
  "retain_outbound local peer = (if local = peer then None else Some (peer < local))"

section \<open>The invariant\<close>

definition config_ok :: "bgp_config \<Rightarrow> bool" where
  "config_ok c \<longleftrightarrow> (\<exists>body. open_encode (cf_local c) = Inr body) \<and> cf_retry_ms c \<noteq> 0 \<and> cf_retry_ms c \<le> (- 1) div 2 \<and> cf_keepalive_ms c \<noteq> 0"

fun state_shape :: "session_state \<Rightarrow> bool \<Rightarrow> deadlines \<Rightarrow> bool" where
  "state_shape Idle running d \<longleftrightarrow> dl_retry d = None \<and> dl_hold d = None \<and> dl_keepalive d = None \<and> (dl_idle d \<noteq> None \<longleftrightarrow> running)"
| "state_shape Connect running d \<longleftrightarrow> running \<and> dl_retry d \<noteq> None \<and> dl_hold d = None \<and> dl_keepalive d = None \<and> dl_idle d = None"
| "state_shape Active running d \<longleftrightarrow> running \<and> dl_retry d \<noteq> None \<and> dl_hold d = None \<and> dl_keepalive d = None \<and> dl_idle d = None"
| "state_shape OpenSent running d \<longleftrightarrow> running \<and> dl_retry d = None \<and> dl_hold d \<noteq> None \<and> dl_keepalive d = None \<and> dl_idle d = None"
| "state_shape OpenConfirm running d \<longleftrightarrow> running \<and> dl_retry d = None \<and> dl_idle d = None"
| "state_shape Established running d \<longleftrightarrow> running \<and> dl_retry d = None \<and> dl_idle d = None"

definition session_shape :: "session \<Rightarrow> bool" where
  "session_shape s \<longleftrightarrow> config_ok (se_config s) \<and> state_shape (se_state s) (se_running s) (se_deadlines s) \<and>
     (case se_negotiated s of
        None \<Rightarrow> se_state s \<notin> {OpenConfirm, Established}
      | Some n \<Rightarrow> se_state s \<in> {OpenConfirm, Established} \<and> ng_families n \<noteq> [])"

definition future :: "session \<Rightarrow> bool" where
  "future s \<longleftrightarrow> (\<forall>t. Some t \<in> {dl_retry (se_deadlines s), dl_hold (se_deadlines s), dl_keepalive (se_deadlines s), dl_idle (se_deadlines s)} \<longrightarrow>
     se_last_time s < t)"

definition session_inv :: "session \<Rightarrow> bool" where
  "session_inv s \<longleftrightarrow> session_shape s \<and> future s"

fun is_export :: "action \<Rightarrow> bool" where
  "is_export (ExportRoutes _ _) = True"
| "is_export _ = False"

abbreviation exports :: "action list \<Rightarrow> action list" where
  "exports out \<equiv> filter is_export out"

text \<open>
  A step at the current time keeps the invariant, the clock and the configuration, and exports at most once:
  only from \<open>Established\<close>, and only negotiated families.
\<close>

definition good_step :: "session \<Rightarrow> action list \<Rightarrow> session \<times> action list \<Rightarrow> bool" where
  "good_step s out r \<longleftrightarrow> session_inv (fst r) \<and> se_last_time (fst r) = se_last_time s \<and> se_config (fst r) = se_config s \<and>
     (exports (snd r) = exports out \<or>
      (\<exists>F b n. exports (snd r) = exports out @ [ExportRoutes F b] \<and> se_state (fst r) = Established \<and>
         se_negotiated (fst r) = Some n \<and> F \<noteq> [] \<and> set F \<subseteq> set (ng_families n)))"

lemma deadline_later: "deadline now delay = Inr t \<Longrightarrow> delay \<noteq> 0 \<Longrightarrow> now < t"
  by (auto simp: deadline_def checked_add_later split: option.splits)

lemma retry_delay_pos:
  assumes "retry_delay base entropy = Inr t"
  shows "t \<noteq> 0"
proof -
  have b: "base \<noteq> 0" and t: "checked_add base (entropy mod base) = Some t"
    using assms by (auto simp: retry_delay_def split: if_splits option.splits)
  show ?thesis
  proof (cases "entropy mod base = 0")
    case True
    then show ?thesis using b t by (auto simp: checked_add_def split: if_splits)
  next
    case False
    then show ?thesis using checked_add_later [OF t] by auto
  qed
qed

lemma connect_step:
  assumes "se_connect s now entropy out = Inr r" "config_ok (se_config s)" "se_running s" "se_negotiated s = None" "se_last_time s = now"
  shows "session_inv (fst r) \<and> se_last_time (fst r) = now \<and> se_config (fst r) = se_config s \<and> exports (snd r) = exports out \<and>
    se_state (fst r) \<in> {Connect, Active} \<and> se_negotiated (fst r) = None \<and> dl_keepalive (se_deadlines (fst r)) = None"
  using assms retry_delay_pos deadline_later
  by (auto simp: se_connect_def and_then_Inr_iff new_generation_def Let_def session_inv_def session_shape_def future_def deadlines_default_def
      split: option.splits if_splits)

lemma notify_exports: "notify_peer n hard notifications out = Inr out' \<Longrightarrow> exports out' = exports out"
  by (auto simp: notify_peer_def and_then_Inr_iff split: option.splits)

lemma idle_step:
  assumes "go_idle s now out = Inr r" "config_ok (se_config s)" "se_last_time s = now"
  shows "session_inv (fst r) \<and> se_last_time (fst r) = now \<and> se_config (fst r) = se_config s \<and> snd r = out \<and> se_state (fst r) = Idle \<and>
    se_running (fst r) = se_running s"
proof -
  obtain g idle where g: "checked_add (se_generation s) 1 = Some g"
    and idle: "(if se_running s then map_sum id Some (deadline now 5000) else Inr None) = Inr idle"
    and r: "r = (s\<lparr>se_generation := g, se_state := Idle, se_negotiated := None, se_deadlines := deadlines_default\<lparr>dl_idle := idle\<rparr>\<rparr>, out)"
    using assms(1) by (auto simp: go_idle_def and_then_Inr_iff new_generation_def split: option.splits)
  have "idle \<noteq> None \<longleftrightarrow> se_running s" "\<And>t. idle = Some t \<Longrightarrow> now < t"
    using idle deadline_later [of now 5000] by (cases "deadline now 5000"; auto split: if_splits)+
  then show ?thesis using assms(2,3) by (auto simp: r session_inv_def session_shape_def future_def deadlines_default_def)
qed

lemma reset_step:
  assumes "reset_notification s now n out = Inr r" "config_ok (se_config s)" "se_last_time s = now"
  shows "session_inv (fst r) \<and> se_last_time (fst r) = now \<and> se_config (fst r) = se_config s \<and> exports (snd r) = exports out \<and> se_state (fst r) = Idle"
proof -
  obtain out1 lc hard notifications where n: "notify_peer n hard notifications out = Inr out1"
    and i: "go_idle (s\<lparr>se_last_close := lc\<rparr>) now (out1 @ [CloseConnection]) = Inr r"
    using assms(1) unfolding reset_notification_def Let_def and_then_Inr_iff by blast
  show ?thesis using idle_step [OF i] notify_exports [OF n] assms(2,3) by simp
qed

lemma retry_step:
  assumes "retry_later s d now entropy out = Inr r" "config_ok (se_config s)" "se_last_time s = now" "se_running s" "se_negotiated s = None"
    "dl_hold d = None" "dl_keepalive d = None" "dl_idle d = None"
  shows "session_inv (fst r) \<and> se_last_time (fst r) = now \<and> se_config (fst r) = se_config s \<and> exports (snd r) = exports out"
  using assms retry_delay_pos deadline_later
  by (auto simp: retry_later_def and_then_Inr_iff new_generation_def Let_def session_inv_def session_shape_def future_def
      split: option.splits)

lemma inv_config: "session_inv s \<Longrightarrow> config_ok (se_config s)"
  by (simp add: session_inv_def session_shape_def)

lemma good_reset:
  "reset_notification s now n out = Inr r \<Longrightarrow> session_inv s \<Longrightarrow> se_last_time s = now \<Longrightarrow> good_step s out r"
  using reset_step [OF _ inv_config] by (auto simp: good_step_def)

lemma good_se_reset: "se_reset s now n out = Inr r \<Longrightarrow> session_inv s \<Longrightarrow> se_last_time s = now \<Longrightarrow> good_step s out r"
  unfolding se_reset_def by (rule good_reset)

lemma good_same: "session_inv s \<Longrightarrow> good_step s out (s, out)"
  by (simp add: good_step_def)

lemma reset_hold_Inr:
  assumes "reset_hold s now = Inr s'"
  obtains t where "s' = s\<lparr>se_deadlines := (se_deadlines s)\<lparr>dl_hold := t\<rparr>\<rparr>" "\<And>x. t = Some x \<Longrightarrow> now < x"
proof -
  obtain t where t: "(if hold_delay s = 0 then Inr None else map_sum id Some (deadline now (hold_delay s))) = Inr t"
    and s': "s' = s\<lparr>se_deadlines := (se_deadlines s)\<lparr>dl_hold := t\<rparr>\<rparr>"
    using assms by (auto simp: reset_hold_def Let_def and_then_Inr_iff)
  have "now < x" if "t = Some x" for x
    using t that deadline_later [of now "hold_delay s" x] by (cases "deadline now (hold_delay s)") (auto split: if_splits)
  with s' that show thesis by blast
qed

lemma schedule_keepalive_Inr:
  assumes "schedule_keepalive s now = Inr s'"
  obtains t where "s' = s\<lparr>se_deadlines := (se_deadlines s)\<lparr>dl_keepalive := t\<rparr>\<rparr>" "\<And>x. t = Some x \<Longrightarrow> now < x"
proof -
  obtain t where t: "(if keepalive_delay s = 0 then Inr None else map_sum id Some (deadline now (keepalive_delay s))) = Inr t"
    and s': "s' = s\<lparr>se_deadlines := (se_deadlines s)\<lparr>dl_keepalive := t\<rparr>\<rparr>"
    using assms by (auto simp: schedule_keepalive_def Let_def and_then_Inr_iff)
  have "now < x" if "t = Some x" for x
    using t that deadline_later [of now "keepalive_delay s" x] by (cases "deadline now (keepalive_delay s)") (auto split: if_splits)
  with s' that show thesis by blast
qed

text \<open>The timers of a session that is up.\<close>

lemma inv_up:
  assumes "session_inv s" "se_state s \<in> {OpenConfirm, Established}" "se_last_time s = now"
    and "\<And>x. hold = Some x \<Longrightarrow> now < x" "\<And>x. keep = Some x \<Longrightarrow> now < x"
  shows "session_inv (s\<lparr>se_deadlines := (se_deadlines s)\<lparr>dl_hold := hold, dl_keepalive := keep\<rparr>\<rparr>)"
  using assms by (auto simp: session_inv_def session_shape_def future_def split: option.splits)

lemma hold_up:
  assumes "reset_hold s now = Inr s'" "session_inv s" "se_state s \<in> {OpenConfirm, Established}" "se_last_time s = now"
  shows "session_inv s' \<and> se_state s' = se_state s \<and> se_negotiated s' = se_negotiated s \<and> se_last_time s' = now \<and> se_config s' = se_config s"
proof (rule reset_hold_Inr [OF assms(1)])
  fix t assume t: "s' = s\<lparr>se_deadlines := (se_deadlines s)\<lparr>dl_hold := t\<rparr>\<rparr>" "\<And>x. t = Some x \<Longrightarrow> now < x"
  have "\<And>x. dl_keepalive (se_deadlines s) = Some x \<Longrightarrow> now < x" using assms(2,4) by (auto simp: session_inv_def future_def)
  from inv_up [OF assms(2,3,4), of t "dl_keepalive (se_deadlines s)"] this t
  have "session_inv (s\<lparr>se_deadlines := (se_deadlines s)\<lparr>dl_hold := t, dl_keepalive := dl_keepalive (se_deadlines s)\<rparr>\<rparr>)" by blast
  then show ?thesis using assms(4) by (simp add: t(1))
qed

lemma good_message_open:
  assumes run: "message_open s body now out = Inr r" and inv: "session_inv s" "se_state s = OpenSent" "se_last_time s = now"
  shows "good_step s out r"
proof (cases "and_then (open_decode body) (\<lambda>peer. negotiate (cf_local (se_config s)) peer (cf_peer_asn (se_config s)))")
  case (Inl e)
  then obtain n where "reset_notification s now n out = Inr r" using run by (auto simp: message_open_def Let_def and_then_Inr_iff)
  then show ?thesis by (rule good_reset [OF _ inv(1,3)])
next
  case (Inr n)
  have fam: "ng_families n \<noteq> []" using Inr negotiate_parts(3) by (auto simp: and_then_Inr_iff)
  let ?s = "s\<lparr>se_negotiated := Some n, se_state := OpenConfirm, se_deadlines := deadlines_default\<rparr>"
  obtain s1 s2 where h: "reset_hold ?s now = Inr s1" and k: "schedule_keepalive s1 now = Inr s2" and r: "r = (s2, out @ [Send KeepaliveKind []])"
    using run Inr by (auto simp: message_open_def Let_def and_then_Inr_iff)
  have up: "session_inv ?s" using inv fam by (auto simp: session_inv_def session_shape_def future_def deadlines_default_def)
  note H = hold_up [OF h up]
  show ?thesis
  proof (rule schedule_keepalive_Inr [OF k])
    fix t assume t: "s2 = s1\<lparr>se_deadlines := (se_deadlines s1)\<lparr>dl_keepalive := t\<rparr>\<rparr>" "\<And>x. t = Some x \<Longrightarrow> now < x"
    have "\<And>x. dl_hold (se_deadlines s1) = Some x \<Longrightarrow> now < x" using H inv(3) by (auto simp: session_inv_def future_def)
    with inv_up [of s1 now "dl_hold (se_deadlines s1)" t] H t inv(3) have "session_inv s2" by simp
    then show ?thesis using H t(1) inv(3) by (simp add: r good_step_def)
  qed
qed

lemma good_message_update:
  assumes run: "message_update s four body now out = Inr r" and inv: "session_inv s" "se_state s = Established" "se_last_time s = now"
  shows "good_step s out r"
proof (cases "validate_detailed body four")
  case (Inl de)
  then consider n where "reset_notification s now n out = Inr r" | e where "r = (s, out @ [DiscardUpdate e])"
    using run by (auto simp: message_update_def split: prod.splits error_action.splits)
  then show ?thesis using good_reset [OF _ inv(1,3)] inv(1) by cases (blast, simp add: good_step_def)
next
  case (Inr sm)
  then show ?thesis using run hold_up [OF _ inv(1) _ inv(3)] inv by (auto simp: message_update_def and_then_Inr_iff good_step_def)
qed

lemma good_tcp:
  assumes run: "tcp_established s g inbound now out = Inr r" and inv: "session_inv s" "se_last_time s = now"
  shows "good_step s out r"
proof -
  consider "r = (s, out @ [DropConnection])"
    | t body where "deadline now 240000 = Inr t" "se_running s" "se_state s \<notin> {OpenSent, OpenConfirm, Established}"
      "r = (s\<lparr>se_state := OpenSent, se_deadlines := deadlines_default\<lparr>dl_hold := Some t\<rparr>\<rparr>, out @ [Send OpenKind body])"
    using run by (auto simp: tcp_established_def and_then_Inr_iff split: if_splits)
  then show ?thesis
  proof cases
    case 1
    then show ?thesis using inv by (simp add: good_step_def)
  next
    case 2
    have "now < t" using deadline_later [OF 2(1)] by simp
    moreover have "se_negotiated s = None" using inv(1) 2(3) by (auto simp: session_inv_def session_shape_def split: option.splits)
    ultimately show ?thesis
      using 2 inv by (auto simp: good_step_def session_inv_def session_shape_def future_def deadlines_default_def)
  qed
qed

lemma inv_negotiated:
  assumes "session_inv s" "se_state s \<in> {OpenConfirm, Established}"
  obtains n where "se_negotiated s = Some n" "ng_families n \<noteq> []"
  using assms by (auto simp: session_inv_def session_shape_def split: option.splits)

lemma inv_establish: "session_inv s \<Longrightarrow> se_state s = OpenConfirm \<Longrightarrow> session_inv (s\<lparr>se_state := Established\<rparr>)"
  by (auto simp: session_inv_def session_shape_def future_def split: option.splits)

lemma inv_last_close [simp]: "session_inv (s\<lparr>se_last_close := c\<rparr>) = session_inv s"
  by (cases "se_negotiated s") (simp_all add: session_inv_def session_shape_def future_def)

lemma good_export:
  assumes "session_inv s'" "se_last_time s' = se_last_time s" "se_config s' = se_config s" "se_state s' = Established"
    "se_negotiated s' = Some n" "F \<noteq> []" "set F \<subseteq> set (ng_families n)"
  shows "good_step s out (s', out @ [ExportRoutes F b])"
  using assms by (auto simp: good_step_def)

lemma good_message:
  assumes inv: "session_inv s" "se_last_time s = now"
  shows "\<exists>m. message s f now out = Some m \<and> (\<forall>r. m = Inr r \<longrightarrow> good_step s out r)"
proof -
  let ?unexpected = "reset_notification s now (Some \<lparr>nt_code = 5, nt_subcode = unexpected_subcode (se_state s), nt_data = [kind_byte (fr_kind f)]\<rparr>) out"
  note R = good_reset [OF _ inv]
  consider (other) "se_state s \<notin> {OpenSent, OpenConfirm, Established}"
    | (frame) e where "se_state s \<in> {OpenSent, OpenConfirm, Established}" "bgp_encode (fr_kind f) (fr_body f) = Inl e"
    | (ok) bs where "se_state s \<in> {OpenSent, OpenConfirm, Established}" "bgp_encode (fr_kind f) (fr_body f) = Inr bs"
    by (cases "bgp_encode (fr_kind f) (fr_body f)") blast+
  then show ?thesis
  proof cases
    case other
    then show ?thesis using good_same [OF inv(1)] by (simp add: message_def)
  next
    case frame
    then show ?thesis using R by (simp add: message_def Let_def)
  next
    case ok
    consider (notification) "fr_kind f = NotificationKind" | (hello) "se_state s = OpenSent" "fr_kind f = OpenKind"
      | (confirm) "se_state s = OpenConfirm" "fr_kind f = KeepaliveKind"
      | (keepalive) "se_state s = Established" "fr_kind f = KeepaliveKind"
      | (update) "se_state s = Established" "fr_kind f = UpdateKind"
      | (refresh) "se_state s = Established" "fr_kind f = RouteRefreshKind"
      | (unexpected) "message s f now out = Some ?unexpected"
      using ok by (cases "se_state s"; cases "fr_kind f") (simp_all add: message_def Let_def)
    then show ?thesis
    proof cases
      case notification
      have "good_step s out r" if h: "and_then (se_reset s now None out) (\<lambda>(s, out). Inr (if b then s else s\<lparr>se_last_close := Hard\<rparr>, out)) = Inr r" for b r
      proof -
        obtain s1 out1 where 1: "se_reset s now None out = Inr (s1, out1)" "r = (if b then s1 else s1\<lparr>se_last_close := Hard\<rparr>, out1)"
          using h by (auto simp: and_then_Inr_iff)
        show ?thesis using good_se_reset [OF 1(1) inv] by (auto simp: 1(2) good_step_def)
      qed
      then show ?thesis using ok notification by (simp add: message_def Let_def)
    next
      case hello
      then show ?thesis using ok hello good_message_open [OF _ inv(1) _ inv(2)] by (simp add: message_def Let_def)
    next
      case confirm
      let ?s = "s\<lparr>se_state := Established\<rparr>"
      obtain n where n: "se_negotiated s = Some n" "ng_families n \<noteq> []" using inv_negotiated [OF inv(1)] confirm by auto
      show ?thesis
      proof (cases "reset_hold ?s now")
        case (Inl e)
        then show ?thesis using ok confirm by (simp add: message_def Let_def)
      next
        case (Inr s1)
        from hold_up [OF Inr inv_establish [OF inv(1) confirm(1)]] inv(2)
        have 1: "session_inv s1" "se_state s1 = Established" "se_negotiated s1 = Some n" "se_last_time s1 = se_last_time s" "se_config s1 = se_config s"
          using n by simp_all
        have "good_step s out (s1, out @ [ExportRoutes (ng_families n) True])" by (rule good_export [OF 1(1,4,5,2,3) n(2) order_refl])
        then show ?thesis using ok confirm Inr 1(3) by (simp add: message_def Let_def)
      qed
    next
      case keepalive
      have "good_step s out r" if "and_then (reset_hold s now) (\<lambda>s. Inr (s, out)) = Inr r" for r
        using that hold_up [OF _ inv(1) _ inv(2)] keepalive inv(2) by (auto simp: and_then_Inr_iff good_step_def)
      then show ?thesis using ok keepalive by (simp add: message_def Let_def)
    next
      case update
      obtain n where n: "se_negotiated s = Some n" using inv_negotiated [OF inv(1)] update by auto
      then show ?thesis using ok update good_message_update [OF _ inv(1) _ inv(2)] by (simp add: message_def Let_def)
    next
      case refresh
      obtain n where n: "se_negotiated s = Some n" using inv_negotiated [OF inv(1)] refresh by auto
      have "good_step s out (s, if family \<in> set (ng_families n) then out @ [ExportRoutes [family] False] else out)" for family
        using good_export [OF inv(1) refl refl refresh(1) n, of "[family]"] good_same [OF inv(1)] by simp
      then show ?thesis using ok refresh n by (cases "decode_refresh (fr_body f)") (simp_all add: message_def Let_def good_same [OF inv(1)])
    next
      case unexpected
      then show ?thesis using R by simp
    qed
  qed
qed

lemma good_process:
  assumes inv: "session_inv s" "se_last_time s = now"
  shows "\<exists>m. process s ev now entropy out = Some m \<and> (\<forall>r. m = Inr r \<longrightarrow> good_step s out r)"
proof -
  have retry: "good_step s out r" if "retry_later s d now entropy out = Inr r" "se_state s \<in> {Connect, Active, OpenSent}"
      "d = deadlines_default \<or> d = se_deadlines s \<and> se_state s \<noteq> OpenSent" for d r
    using retry_step [OF that(1) inv_config [OF inv(1)] inv(2)] inv that(2,3)
    by (auto simp: good_step_def session_inv_def session_shape_def deadlines_default_def split: option.splits)
  show ?thesis
proof (cases ev)
  case Start
  show ?thesis
  proof (cases "se_state s = Idle \<and> dl_idle (se_deadlines s) = None")
    case True
    have c: "config_ok (se_config s)" "se_negotiated s = None" using inv(1) True by (auto simp: session_inv_def session_shape_def split: option.splits)
    have "good_step s out r" if "se_connect (s\<lparr>se_running := True\<rparr>) now entropy out = Inr r" for r
      using connect_step [OF that] c inv(2) by (auto simp: good_step_def)
    then show ?thesis using True by (simp add: Start process_def Let_def)
  next
    case False
    have "se_running s" using inv(1) False by (cases "se_state s") (auto simp: session_inv_def session_shape_def)
    then have "s\<lparr>se_running := True\<rparr> = s" by simp
    then show ?thesis using False good_same [OF inv(1)] by (simp only: Start process_def event.case Let_def) auto
  qed
next
  case (TcpEstablished g inbound)
  then show ?thesis using good_tcp [OF _ inv] by (simp add: process_def)
next
  case (TcpFailed g)
  then show ?thesis using retry [of "se_deadlines s"] good_same [OF inv(1)] by (auto simp: process_def)
next
  case (TcpClosed g)
  then show ?thesis
    using retry good_se_reset [OF _ inv] good_same [OF inv(1)] by (cases "se_state s") (auto simp: process_def deadlines_default_def)
next
  case (Message g f)
  then show ?thesis using good_message [OF inv] good_same [OF inv(1)] by (simp add: process_def)
next
  case HardReset
  then show ?thesis using good_se_reset [OF _ inv] by (simp add: process_def)
next
  case SoftResetOut
  show ?thesis
  proof (cases "se_state s = Established")
    case True
    then obtain n where n: "se_negotiated s = Some n" "ng_families n \<noteq> []" using inv_negotiated [OF inv(1)] by auto
    then show ?thesis using good_export [OF inv(1) refl refl True n(1), of "ng_families n"] by (simp add: SoftResetOut process_def True)
  next
    case False
    then show ?thesis using good_same [OF inv(1)] by (simp add: SoftResetOut process_def)
  qed
next
  case Shutdown
  have c: "config_ok (se_config s)" using inv(1) by (rule inv_config)
  have "good_step s out r" if "se_reset (s\<lparr>se_running := False\<rparr>) now n out = Inr r" for n r
    using reset_step [OF that [unfolded se_reset_def]] c inv(2) by (auto simp: good_step_def)
  then show ?thesis by (simp add: Shutdown process_def Let_def)
qed
qed

section \<open>Time\<close>

lemma shape_at: "session_shape (s\<lparr>se_last_time := t\<rparr>) = session_shape s"
  by (cases "se_negotiated s") (simp_all add: session_shape_def)

lemma good_advance:
  assumes inv: "session_inv s" and run: "se_advance s now entropy out = Inr (r, b)"
  shows "session_inv (fst r) \<and> se_last_time (fst r) = now \<and> se_config (fst r) = se_config s \<and> exports (snd r) = exports out"
proof -
  define s0 where "s0 = s\<lparr>se_last_time := now\<rparr>"
  have s0: "session_shape s0" "se_last_time s0 = now" "se_config s0 = se_config s" using inv by (simp_all add: s0_def shape_at session_inv_def)
  have c: "config_ok (se_config s0)" using s0(1) by (simp add: session_shape_def)
  have d: "se_deadlines s0 = se_deadlines s" "se_state s0 = se_state s" by (simp_all add: s0_def)
  show ?thesis
  proof (cases "due (dl_hold (se_deadlines s0)) now")
    case True
    then have "se_reset s0 now (Some (4, 0)) out = Inr r"
      using run by (auto simp: se_advance_def s0_def [symmetric] Let_def and_then_Inr_iff split: if_splits)
    from reset_step [OF this [unfolded se_reset_def] c s0(2)] show ?thesis using s0(3) by simp
  next
    case hold: False
    obtain s1 out1 where 1: "(if due (dl_idle (se_deadlines s0)) now then se_connect s0 now entropy out
             else if due (dl_retry (se_deadlines s0)) now \<and> se_state s0 \<in> {Connect, Active}
             then se_connect s0 now entropy (out @ [CloseConnection])
             else Inr (s0, out)) = Inr (s1, out1)"
      and 2: "(if due (dl_keepalive (se_deadlines s1)) now \<and> se_state s1 \<in> {OpenConfirm, Established} then
            and_then (schedule_keepalive s1 now) (\<lambda>s. Inr ((s, out1 @ [Send KeepaliveKind []]), False))
          else Inr ((s1, out1), False)) = Inr (r, b)"
      using run hold by (auto simp: se_advance_def s0_def [symmetric] Let_def and_then_Inr_iff split: if_splits)
    show ?thesis
    proof (cases "due (dl_idle (se_deadlines s0)) now \<or> due (dl_retry (se_deadlines s0)) now \<and> se_state s0 \<in> {Connect, Active}")
      case True
      have "se_running s0" "se_negotiated s0 = None"
        using True s0(1) by (cases "se_state s0"; auto simp: session_shape_def due_def split: option.splits)+
      moreover obtain out0 where "se_connect s0 now entropy out0 = Inr (s1, out1)" "exports out0 = exports out"
        using 1 True by (auto split: if_splits)
      ultimately have "session_inv s1 \<and> se_last_time s1 = now \<and> se_config s1 = se_config s0 \<and> exports out1 = exports out \<and> dl_keepalive (se_deadlines s1) = None"
        using connect_step [of s0 now entropy _ "(s1, out1)"] c s0(2) by fastforce
      then show ?thesis using 2 s0(3) by (auto simp: due_def)
    next
      case False
      then have eq: "s1 = s0" "out1 = out" using 1 by (auto split: if_splits)
      have late: "\<not> due (dl_retry (se_deadlines s0)) now" "\<not> due (dl_idle (se_deadlines s0)) now" "\<not> due (dl_hold (se_deadlines s0)) now"
        using False hold s0(1) by (cases "se_state s0"; auto simp: session_shape_def due_def)+
      show ?thesis
      proof (cases "due (dl_keepalive (se_deadlines s0)) now")
        case True
        have up: "se_state s0 \<in> {OpenConfirm, Established}" using True s0(1) by (cases "se_state s0") (auto simp: session_shape_def due_def)
        then obtain s2 where k: "schedule_keepalive s0 now = Inr s2" and r: "r = (s2, out @ [Send KeepaliveKind []])"
          using 2 True by (auto simp: eq and_then_Inr_iff)
        show ?thesis
        proof (rule schedule_keepalive_Inr [OF k])
          fix t assume t: "s2 = s0\<lparr>se_deadlines := (se_deadlines s0)\<lparr>dl_keepalive := t\<rparr>\<rparr>" "\<And>x. t = Some x \<Longrightarrow> now < x"
          have "session_shape s2" using s0(1) up unfolding t(1) by (auto simp: session_shape_def split: option.splits)
          moreover have "future s2" using late t s0(2) by (auto simp: future_def due_def split: option.splits)
          ultimately show ?thesis using s0 t(1) by (simp add: r session_inv_def)
        qed
      next
        case keep: False
        have "future s0" using late keep s0(2) by (auto simp: future_def due_def not_le split: option.splits)
        then show ?thesis using 2 keep s0 by (auto simp: eq session_inv_def)
      qed
    qed
  qed
qed

section \<open>Reachable sessions\<close>

text \<open>Every session an owner can hold: any sequence of polls, events and received bytes, at any times.\<close>

inductive session_reach :: "bgp_config \<Rightarrow> session \<Rightarrow> bool" for config where
  new: "session_new config = Inr s \<Longrightarrow> session_reach config s"
| poll: "session_reach config s \<Longrightarrow> session_poll s now entropy = (s', r) \<Longrightarrow> session_reach config s'"
| handle: "session_reach config s \<Longrightarrow> session_handle s ev now entropy = Some (s', r) \<Longrightarrow> session_reach config s'"
| receive: "session_reach config s \<Longrightarrow> session_receive s generation bytes now entropy = Some (s', r) \<Longrightarrow> session_reach config s'"

lemma poll_step:
  assumes "session_inv s" "session_poll s now entropy = (s', r)"
  shows "session_inv s' \<and> se_config s' = se_config s \<and> (\<forall>e. r = Inl e \<longrightarrow> s' = s) \<and> (\<forall>out. r = Inr out \<longrightarrow> exports out = [])"
proof (cases "se_advance s now entropy []")
  case (Inl e)
  then show ?thesis using assms by (auto simp: session_poll_def)
next
  case (Inr rb)
  obtain r1 b where rb: "rb = (r1, b)" by (cases rb)
  from good_advance [OF assms(1) Inr [unfolded rb]] show ?thesis
    using assms(2) by (cases r1) (auto simp: session_poll_def Inr rb)
qed

lemma handle_step:
  assumes inv: "session_inv s"
  obtains s' r where "session_handle s ev now entropy = Some (s', r)" "session_inv s'" "se_config s' = se_config s" "\<forall>e. r = Inl e \<longrightarrow> s' = s"
    "\<forall>out F b. r = Inr out \<and> ExportRoutes F b \<in> set out \<longrightarrow>
       se_state s' = Established \<and> F \<noteq> [] \<and> (\<exists>n. se_negotiated s' = Some n \<and> set F \<subseteq> set (ng_families n))"
proof (cases "se_advance s now entropy []")
  case (Inl e)
  then show thesis using that [of s "Inl e"] inv by (simp add: session_handle_def)
next
  case (Inr rb)
  obtain s1 out1 b where rb: "rb = ((s1, out1), b)" by (cases rb; cases "fst rb") auto
  have a: "session_inv s1" "se_last_time s1 = now" "se_config s1 = se_config s" "exports out1 = []"
    using good_advance [OF inv Inr [unfolded rb]] by simp_all
  obtain m where m: "process s1 ev now entropy out1 = Some m" "\<forall>r. m = Inr r \<longrightarrow> good_step s1 out1 r"
    using good_process [OF a(1,2)] by blast
  show thesis
  proof (cases m)
    case (Inl e)
    then show thesis using that [of s "Inl e"] inv m(1) Inr rb by (simp add: session_handle_def)
  next
    case r: (Inr r2)
    obtain s2 out2 where r2: "r2 = (s2, out2)" by (cases r2)
    have g: "good_step s1 out1 (s2, out2)" using m(2) r r2 by simp
    have gate: "se_state s2 = Established \<and> F \<noteq> [] \<and> (\<exists>n. se_negotiated s2 = Some n \<and> set F \<subseteq> set (ng_families n))"
      if "ExportRoutes F c \<in> set out2" for F c
    proof -
      have e: "ExportRoutes F c \<in> set (exports out2)" using that by simp
      consider "exports out2 = []"
        | F' b n where "exports out2 = [ExportRoutes F' b]" "se_state s2 = Established" "se_negotiated s2 = Some n" "F' \<noteq> []" "set F' \<subseteq> set (ng_families n)"
        using g unfolding good_step_def a(4) fst_conv snd_conv append_Nil by blast
      then show ?thesis using e by cases (simp_all del: set_filter)
    qed
    show thesis
      by (rule that [of s2 "Inr out2"]) (use g gate a m(1) Inr rb r r2 in \<open>auto simp: session_handle_def good_step_def\<close>)
  qed
qed

lemma receive_step:
  assumes inv: "session_inv s"
  obtains s' r where "session_receive s generation bytes now entropy = Some (s', r)" "session_inv s'" "se_config s' = se_config s" "\<forall>e. r = Inl e \<longrightarrow> s' = s"
proof (cases "bgp_decode bytes")
  case (Inr fn)
  obtain f n where fn: "fn = (f, n)" by (cases fn)
  show thesis
  proof (rule handle_step [OF inv, of "Message generation f" now entropy])
    fix s' r assume h: "session_handle s (Message generation f) now entropy = Some (s', r)" "session_inv s'" "se_config s' = se_config s" "\<forall>e. r = Inl e \<longrightarrow> s' = s"
    show thesis
      by (rule that [of s' "map_sum id (\<lambda>out. Some (out, n)) r"]) (use h in \<open>auto simp: session_receive_def Inr fn map_sum_def split: sum.splits\<close>)
  qed
next
  case (Inl de)
  show thesis
  proof (cases de)
    case NeedMore
    then show thesis using that [of s "Inr None"] inv by (simp add: session_receive_def Inl)
  next
    case (Protocol e)
    show thesis
    proof (cases "se_advance s now entropy []")
      case er: (Inl er)
      then show thesis using that [of s "Inl er"] inv by (simp add: session_receive_def Inl Protocol)
    next
      case (Inr rb)
      obtain s1 out1 b where rb: "rb = ((s1, out1), b)" by (cases rb; cases "fst rb") auto
      have a: "session_inv s1" "se_last_time s1 = now" "se_config s1 = se_config s" using good_advance [OF inv Inr [unfolded rb]] by simp_all
      define d where "d = (if er_subcode e = 2 then (if 18 \<le> length bytes then take 2 (drop 16 bytes) else [])
                             else if er_subcode e = 3 then (if 19 \<le> length bytes then take 1 (drop 18 bytes) else [])
                             else [])"
      let ?n = "Some \<lparr>nt_code = er_code e, nt_subcode = er_subcode e, nt_data = d\<rparr>"
      show thesis
      proof (cases "generation = se_generation s1 \<and> se_state s1 \<in> {OpenSent, OpenConfirm, Established}")
        case True
        show thesis
        proof (cases "reset_notification s1 now ?n out1")
          case e2: (Inl e2)
          then show thesis using that [of s "Inl e2"] inv True Inr rb by (simp add: session_receive_def Inl Protocol d_def)
        next
          case r2: (Inr r2)
          obtain s2 out2 where p: "r2 = (s2, out2)" by (cases r2)
          have "session_inv s2" "se_config s2 = se_config s1" using reset_step [OF r2 inv_config [OF a(1)] a(2)] p by simp_all
          then show thesis using that [of s2 "Inr (Some (out2, length bytes))"] a True Inr rb r2 p by (simp add: session_receive_def Inl Protocol d_def)
        qed
      next
        case False
        then have "session_receive s generation bytes now entropy = Some (s1, Inr (Some (out1, length bytes)))"
          using Inr rb by (auto simp: session_receive_def Inl Protocol)
        then show thesis using that [of s1 "Inr (Some (out1, length bytes))"] a by simp
      qed
    qed
  qed
qed

lemma session_new_inv: "session_new config = Inr s \<Longrightarrow> session_inv s \<and> se_config s = config"
  by (auto simp: session_new_def session_inv_def session_shape_def future_def deadlines_default_def config_ok_def not_less split: if_splits sum.splits)

lemma reach_inv: "session_reach config s \<Longrightarrow> session_inv s \<and> se_config s = config"
proof (induction rule: session_reach.induct)
  case (new s)
  then show ?case by (rule session_new_inv)
next
  case (poll s now entropy s' r)
  then show ?case using poll_step [of s now entropy s' r] by auto
next
  case (handle s ev now entropy s' r)
  show ?case by (rule handle_step [of s ev now entropy]) (use handle in auto)
next
  case (receive s generation bytes now entropy s' r)
  show ?case by (rule receive_step [of s generation bytes now entropy]) (use receive in auto)
qed

end
