(* ===== verification/BgpReach.thy ===== *)
theory BgpReach
  imports BgpSession
begin

text \<open>
  What holds of every BGP session its owner can reach (\<open>flowsdn-bgp-proto/src/session.rs\<close>): no step panics and no
  error leaves a half-made change; routes are exported only when the session is up; a session that is not up
  always has a timer that moves it on; and two sessions with compatible configurations bring each other up.
\<close>

section \<open>Safety\<close>

text \<open>
  C12. The session is total and transactional. A session reached by any sequence of polls, events and bytes at any
  times keeps its configuration, has exactly the timers of its state, all in the future, and a negotiation result
  exactly when it is up; every event and every input gives a result, so no expectation panics; and a result that
  is an error leaves the session as it was.
\<close>

theorem session_total:
  assumes "session_reach config s"
  shows "se_config s = config \<and> session_inv s \<and>
    (\<exists>s' r. session_handle s ev now entropy = Some (s', r) \<and> (\<forall>e. r = Inl e \<longrightarrow> s' = s)) \<and>
    (\<exists>s' r. session_receive s generation bytes now entropy = Some (s', r) \<and> (\<forall>e. r = Inl e \<longrightarrow> s' = s))"
proof -
  have inv: "session_inv s" "se_config s = config" using reach_inv [OF assms] by simp_all
  have "\<exists>s' r. session_handle s ev now entropy = Some (s', r) \<and> (\<forall>e. r = Inl e \<longrightarrow> s' = s)"
    by (rule handle_step [OF inv(1), of ev now entropy]) blast
  moreover have "\<exists>s' r. session_receive s generation bytes now entropy = Some (s', r) \<and> (\<forall>e. r = Inl e \<longrightarrow> s' = s)"
    by (rule receive_step [OF inv(1), of generation bytes now entropy]) blast
  ultimately show ?thesis using inv by blast
qed

text \<open>
  C13. Routes leave only an established session: when an event makes a reachable session ask for an export, the
  session it leaves behind is established and the export names at least one family, all of them negotiated with
  the peer.
\<close>

theorem export_gate:
  assumes "session_reach config s" and "session_handle s ev now entropy = Some (s', Inr out)" and "ExportRoutes F b \<in> set out"
  shows "se_state s' = Established \<and> F \<noteq> [] \<and> (\<exists>n. se_negotiated s' = Some n \<and> set F \<subseteq> set (ng_families n))"
proof -
  have inv: "session_inv s" using reach_inv [OF assms(1)] by simp
  show ?thesis
  proof (rule handle_step [OF inv, of ev now entropy])
    fix s'' r assume run: "session_handle s ev now entropy = Some (s'', r)"
      and gate: "\<forall>out F b. r = Inr out \<and> ExportRoutes F b \<in> set out \<longrightarrow>
         se_state s'' = Established \<and> F \<noteq> [] \<and> (\<exists>n. se_negotiated s'' = Some n \<and> set F \<subseteq> set (ng_families n))"
    have "Some (s'', r) = Some (s', Inr out)" by (rule trans [OF run [symmetric] assms(2)])
    then have eq: "s'' = s'" "r = Inr out" by simp_all
    show ?thesis using gate [rule_format, OF conjI, OF eq(2) assms(3)] unfolding eq(1) .
  qed
qed

text \<open>
  Late events of an earlier connection are harmless: a message, a failure or a close that carries another
  generation than the current one does what a poll at that time does and nothing more, and a late connection is
  only told to drop.
\<close>

theorem stale_generation:
  assumes "session_poll s now entropy = (s', Inr out)" and "generation \<noteq> se_generation s'"
  shows "session_handle s (Message generation f) now entropy = Some (s', Inr out) \<and>
    session_handle s (TcpFailed generation) now entropy = Some (s', Inr out) \<and>
    session_handle s (TcpClosed generation) now entropy = Some (s', Inr out) \<and>
    session_handle s (TcpEstablished generation inbound) now entropy = Some (s', Inr (out @ [DropConnection]))"
proof -
  obtain b where b: "se_advance s now entropy [] = Inr ((s', out), b)"
  proof (cases "se_advance s now entropy []")
    case (Inl e)
    then show thesis using assms(1) by (simp add: session_poll_def)
  next
    case (Inr r)
    obtain s1 out1 b where "r = ((s1, out1), b)" by (metis surj_pair)
    then show thesis using that assms(1) Inr by (simp add: session_poll_def)
  qed
  then show ?thesis using assms(2) by (simp add: session_handle_def process_def tcp_established_def)
qed

section \<open>Progress\<close>

definition pending :: "session \<Rightarrow> u64 option" where
  "pending s = (case se_state s of
       Idle \<Rightarrow> dl_idle (se_deadlines s)
     | OpenSent \<Rightarrow> dl_hold (se_deadlines s)
     | _ \<Rightarrow> dl_retry (se_deadlines s))"

lemma deadline_ok: "unat now + unat delay < 2 ^ 64 \<Longrightarrow> deadline now delay = Inr (now + delay)"
  by (simp add: deadline_def checked_add_def)

lemma unat_max_u64: "unat (- 1 :: u64) = 2 ^ 64 - 1"
  by transfer (simp add: take_bit_minus_one_eq_mask mask_eq_exp_minus_1)

lemma retry_delay_ok:
  assumes "base \<noteq> 0" "base \<le> (- 1) div 2"
  shows "\<exists>t. retry_delay base entropy = Inr t \<and> unat t < 2 * unat base"
proof -
  have "unat (entropy mod base) < unat base" using assms(1) by (simp add: unat_mod unat_gt_0)
  moreover have "unat base \<le> unat ((- 1 :: u64) div 2)" using assms(2) by (simp add: word_le_nat_alt)
  moreover have "unat ((- 1 :: u64) div 2) = 2 ^ 63 - 1" by (simp only: unat_div unat_max_u64) simp
  ultimately have "unat base + unat (entropy mod base) < 2 ^ 64" by simp
  then have "retry_delay base entropy = Inr (base + entropy mod base)" "unat (base + entropy mod base) = unat base + unat (entropy mod base)"
    using assms(1) by (simp_all add: retry_delay_def checked_add_def unat_add_no_wrap)
  then show ?thesis using \<open>unat (entropy mod base) < unat base\<close> by simp
qed

lemma new_generation_ok: "se_generation s \<noteq> - 1 \<Longrightarrow> new_generation s = Inr (s\<lparr>se_generation := se_generation s + 1\<rparr>)"
proof -
  assume "se_generation s \<noteq> - 1"
  then have "unat (se_generation s) \<noteq> unat (- 1 :: u64)" by (simp add: word_unat_eq_iff)
  then have "unat (se_generation s) + 1 < 2 ^ 64" using unat_bound [of "se_generation s"] by (simp add: unat_max_u64)
  then show ?thesis by (simp add: new_generation_def checked_add_def)
qed

lemma connect_ok:
  assumes "config_ok (se_config s)" "se_generation s \<noteq> - 1" "unat now + 2 * unat (cf_retry_ms (se_config s)) < 2 ^ 64"
  shows "\<exists>s'. se_connect s now entropy out = Inr (s', if cf_passive (se_config s) then out else out @ [ConnectTo (se_generation s + 1)]) \<and>
    se_generation s' = se_generation s + 1 \<and> se_state s' = (if cf_passive (se_config s) then Active else Connect) \<and>
    dl_keepalive (se_deadlines s') = None"
proof -
  obtain d where d: "retry_delay (cf_retry_ms (se_config s)) entropy = Inr d" "unat d < 2 * unat (cf_retry_ms (se_config s))"
    using retry_delay_ok assms(1) unfolding config_ok_def by blast
  then have "deadline now d = Inr (now + d)" using deadline_ok assms(3) by simp
  then show ?thesis by (simp add: se_connect_def new_generation_ok [OF assms(2)] Let_def d(1) deadlines_default_def)
qed

lemma notify_hold: "notify_peer (Some \<lparr>nt_code = 4, nt_subcode = 0, nt_data = []\<rparr>) False notifications out = Inr (out @ [Send NotificationKind [4, 0]])"
  by (simp add: notify_peer_def nt_encode_def encode_frame_bytes limits)

lemma idle_ok:
  assumes "se_generation s \<noteq> - 1" "unat now + 5000 < 2 ^ 64" "se_running s"
  shows "go_idle s now out = Inr (s\<lparr>se_generation := se_generation s + 1, se_state := Idle, se_negotiated := None,
    se_deadlines := deadlines_default\<lparr>dl_idle := Some (now + 5000)\<rparr>\<rparr>, out)"
  using assms deadline_ok [of now 5000] by (simp add: go_idle_def new_generation_ok)

lemma hold_expires:
  assumes "se_generation s \<noteq> - 1" "unat now + 5000 < 2 ^ 64" "se_running s"
  shows "\<exists>s'. se_reset s now (Some (4, 0)) out = Inr (s', out @ [Send NotificationKind [4, 0], CloseConnection]) \<and>
    se_generation s' = se_generation s + 1 \<and> se_state s' = Idle \<and> dl_idle (se_deadlines s') = Some (now + 5000)"
  using assms by (simp add: se_reset_def reset_notification_def Let_def notify_hold idle_ok)

lemma poll_gives_up:
  assumes "se_state s = OpenSent" "dl_hold (se_deadlines s) = Some t" "t \<le> now" "\<not> now < se_last_time s"
    and "se_running s" "unat now + 5000 < 2 ^ 64" "se_generation s \<noteq> - 1"
  shows "\<exists>s'. session_poll s now entropy = (s', Inr [Send NotificationKind [4, 0], CloseConnection]) \<and> se_generation s' = se_generation s + 1 \<and>
    se_state s' = Idle \<and> dl_idle (se_deadlines s') = Some (now + 5000)"
proof -
  define s0 where "s0 = s\<lparr>se_last_time := now\<rparr>"
  obtain s' where "se_reset s0 now (Some (4, 0)) [] = Inr (s', [Send NotificationKind [4, 0], CloseConnection])"
    "se_generation s' = se_generation s + 1" "se_state s' = Idle" "dl_idle (se_deadlines s') = Some (now + 5000)"
    using hold_expires [of s0 now "[]"] assms by (auto simp: s0_def)
  moreover have "due (dl_hold (se_deadlines s0)) now" using assms by (simp add: s0_def due_def)
  ultimately show ?thesis using assms(4) by (simp add: session_poll_def se_advance_def s0_def [symmetric] Let_def)
qed

lemma poll_connects:
  assumes "due (dl_idle (se_deadlines s)) now \<or> due (dl_retry (se_deadlines s)) now \<and> se_state s \<in> {Connect, Active}"
    and "\<not> due (dl_hold (se_deadlines s)) now" "\<not> now < se_last_time s" "config_ok (se_config s)"
    and "unat now + 2 * unat (cf_retry_ms (se_config s)) < 2 ^ 64" "se_generation s \<noteq> - 1"
  shows "\<exists>s' out. session_poll s now entropy = (s', Inr out) \<and> se_generation s' = se_generation s + 1 \<and>
    se_state s' = (if cf_passive (se_config s) then Active else Connect) \<and>
    (ConnectTo (se_generation s') \<in> set out \<longleftrightarrow> \<not> cf_passive (se_config s))"
proof -
  define s0 where "s0 = s\<lparr>se_last_time := now\<rparr>"
  define out0 where "out0 = (if due (dl_idle (se_deadlines s0)) now then [] else [CloseConnection])"
  have s0: "se_generation s0 = se_generation s" "se_config s0 = se_config s" "se_state s0 = se_state s" "se_deadlines s0 = se_deadlines s"
    by (simp_all add: s0_def)
  have "(if due (dl_idle (se_deadlines s0)) now then se_connect s0 now entropy []
      else if due (dl_retry (se_deadlines s0)) now \<and> se_state s0 \<in> {Connect, Active} then se_connect s0 now entropy ([] @ [CloseConnection]) else Inr (s0, []))
      = se_connect s0 now entropy out0" using assms(1) by (auto simp: s0 out0_def)
  moreover obtain s' where s': "se_connect s0 now entropy out0 =
      Inr (s', if cf_passive (se_config s) then out0 else out0 @ [ConnectTo (se_generation s + 1)])"
    "se_generation s' = se_generation s + 1" "se_state s' = (if cf_passive (se_config s) then Active else Connect)" "dl_keepalive (se_deadlines s') = None"
    using connect_ok [of s0 now entropy out0] assms(4-6) by (auto simp: s0)
  ultimately have "se_advance s now entropy [] =
      Inr ((s', if cf_passive (se_config s) then out0 else out0 @ [ConnectTo (se_generation s + 1)]), False)"
    using assms(2,3) unfolding se_advance_def s0_def [symmetric] Let_def by (simp add: s0 due_def)
  then show ?thesis using s'(2,3) by (simp add: session_poll_def out0_def)
qed

text \<open>
  C14. A session that should run never hangs. A reachable running session that is not yet open has a pending timer,
  and polling it at or after that time, while the clock and the generation counter have room, moves it on under a
  new generation: an unanswered OPEN is given up with a Hold Timer Expired notification and an idle timer of five
  seconds; from any other state the next connection attempt starts, actively unless the session is passive.
\<close>

theorem session_progress:
  assumes "session_reach config s" and "se_running s" and "se_state s \<notin> {OpenConfirm, Established}"
  shows "\<exists>t. pending s = Some t \<and>
    (\<forall>now entropy. t \<le> now \<longrightarrow> unat now + 5000 < 2 ^ 64 \<longrightarrow> unat now + 2 * unat (cf_retry_ms config) < 2 ^ 64 \<longrightarrow> se_generation s \<noteq> - 1 \<longrightarrow>
      (\<exists>s' out. session_poll s now entropy = (s', Inr out) \<and> se_generation s' = se_generation s + 1 \<and>
         (if se_state s = OpenSent
          then out = [Send NotificationKind [4, 0], CloseConnection] \<and> se_state s' = Idle \<and> dl_idle (se_deadlines s') = Some (now + 5000)
          else se_state s' = (if cf_passive config then Active else Connect) \<and>
            (ConnectTo (se_generation s') \<in> set out \<longleftrightarrow> \<not> cf_passive config))))"
proof -
  have inv: "session_shape s" "future s" "se_config s = config" using reach_inv [OF assms(1)] by (simp_all add: session_inv_def)
  obtain t where t: "pending s = Some t"
    using inv(1) assms(2,3) by (cases "se_state s") (auto simp: session_shape_def pending_def)
  have later: "se_last_time s < t" using inv(2) t by (cases "se_state s") (auto simp: future_def pending_def)
  have "\<exists>s' out. session_poll s now entropy = (s', Inr out) \<and> se_generation s' = se_generation s + 1 \<and>
         (if se_state s = OpenSent
          then out = [Send NotificationKind [4, 0], CloseConnection] \<and> se_state s' = Idle \<and> dl_idle (se_deadlines s') = Some (now + 5000)
          else se_state s' = (if cf_passive config then Active else Connect) \<and>
            (ConnectTo (se_generation s') \<in> set out \<longleftrightarrow> \<not> cf_passive config))"
    if now: "t \<le> now" "unat now + 5000 < 2 ^ 64" "unat now + 2 * unat (cf_retry_ms config) < 2 ^ 64" "se_generation s \<noteq> - 1" for now entropy
  proof (cases "se_state s = OpenSent")
    case True
    then show ?thesis using poll_gives_up [of s t now entropy] t later now assms(2) by (auto simp: pending_def)
  next
    case False
    have "due (dl_idle (se_deadlines s)) now \<or> due (dl_retry (se_deadlines s)) now \<and> se_state s \<in> {Connect, Active}"
      using False t now(1) assms(3) by (cases "se_state s") (auto simp: pending_def due_def)
    moreover have "\<not> due (dl_hold (se_deadlines s)) now"
      using False inv(1) assms(3) by (cases "se_state s") (auto simp: session_shape_def due_def)
    ultimately show ?thesis using poll_connects [of s now entropy] later now inv False by (auto simp: session_shape_def)
  qed
  with t show ?thesis by blast
qed

section \<open>Two sessions bring each other up\<close>

lemma hold_delay_bound: "unat (hold_delay s) \<le> 65535000"
proof -
  let ?h = "case se_negotiated s of None \<Rightarrow> 0 | Some n \<Rightarrow> ng_hold_time n"
  have u: "unat (ucast ?h :: u64) = unat ?h" by simp
  have "unat ?h \<le> 65535" using unat_bound [of ?h] by simp
  then have le: "unat (ucast ?h :: u64) * unat (1000 :: u64) \<le> 65535000" unfolding u by simp
  then have lt: "unat (ucast ?h :: u64) * unat (1000 :: u64) < 2 ^ LENGTH(64)" by simp
  show ?thesis using le unfolding hold_delay_def saturating_mul_def if_P [OF lt] iffD1 [OF unat_mult_lem lt] .
qed

definition timer :: "u64 \<Rightarrow> u64 \<Rightarrow> u64 option" where
  "timer now delay = (if delay = 0 then None else Some (now + delay))"

lemma reset_hold_ok:
  "unat now + 65535000 < 2 ^ 64 \<Longrightarrow> reset_hold s now = Inr (s\<lparr>se_deadlines := (se_deadlines s)\<lparr>dl_hold := timer now (hold_delay s)\<rparr>\<rparr>)"
  using hold_delay_bound [of s] deadline_ok [of now "hold_delay s"] by (simp add: reset_hold_def Let_def timer_def)

lemma schedule_keepalive_ok:
  assumes "unat now + 65535000 < 2 ^ 64"
  shows "schedule_keepalive s now = Inr (s\<lparr>se_deadlines := (se_deadlines s)\<lparr>dl_keepalive := timer now (keepalive_delay s)\<rparr>\<rparr>)"
proof -
  have "keepalive_delay s \<le> hold_delay s div 3" by (simp add: keepalive_delay_def)
  then have "unat (keepalive_delay s) \<le> unat (hold_delay s) div 3" by (simp add: word_le_nat_alt unat_div)
  then have "unat now + unat (keepalive_delay s) < 2 ^ 64" using hold_delay_bound [of s] assms by linarith
  then show ?thesis using deadline_ok [of now "keepalive_delay s"] by (simp add: schedule_keepalive_def Let_def timer_def)
qed

lemma advance_quiet:
  assumes "se_last_time s \<le> now" and "\<And>d. d \<in> {dl_retry (se_deadlines s), dl_hold (se_deadlines s), dl_keepalive (se_deadlines s), dl_idle (se_deadlines s)} \<Longrightarrow> \<not> due d now"
  shows "se_advance s now entropy out = Inr ((s\<lparr>se_last_time := now\<rparr>, out), False)"
  using assms by (simp add: se_advance_def Let_def)

lemma receive_wire:
  assumes "bgp_encode kind body = Inr wire" and "se_advance s now entropy [] = Inr ((s1, []), False)" and "se_state s1 \<in> {OpenSent, OpenConfirm, Established}"
    and "se_generation s1 = generation" and "message s1 \<lparr>fr_kind = kind, fr_body = body\<rparr> now [] = Some (Inr (s2, out))"
  shows "session_receive s generation wire now entropy = Some (s2, Inr (Some (out, length wire)))"
proof -
  have "bgp_decode wire = Inr (\<lparr>fr_kind = kind, fr_body = body\<rparr>, length wire)"
    using decode_frame_bytes [of "replicate 16 0xff" body kind "[]"] assms(1) by (auto simp: encode_frame_bytes limits split: if_splits)
  then show ?thesis using assms by (simp add: session_receive_def session_handle_def process_def)
qed

lemma open_wire:
  assumes "open_encode msg = Inr body"
  obtains wire where "bgp_encode OpenKind body = Inr wire"
proof -
  have "length body \<le> 265" using decode_encoded_open [OF assms] by simp
  moreover have "10 \<le> length body" using assms by (auto simp: open_encode_def and_then_Inr_iff split: if_splits)
  ultimately show thesis using that by (simp add: encode_frame_bytes limits)
qed

text \<open>
  The session \<open>s\<close> comes up with a peer that sends the OPEN \<open>peer\<close> at \<open>now\<close>: the OPEN is answered with a KEEPALIVE,
  and a KEEPALIVE of the peer that arrives before a timer fires starts the initial export.
\<close>

definition comes_up :: "session \<Rightarrow> bgp_open \<Rightarrow> u64 \<Rightarrow> negotiated \<Rightarrow> bool" where
  "comes_up s peer now n \<longleftrightarrow>
     (\<exists>body opened alive s1. open_encode peer = Inr body \<and> bgp_encode OpenKind body = Inr opened \<and> bgp_encode KeepaliveKind [] = Inr alive \<and>
        (\<forall>entropy. session_receive s (se_generation s) opened now entropy = Some (s1, Inr (Some ([Send KeepaliveKind []], length opened)))) \<and>
        se_state s1 = OpenConfirm \<and>
        (\<forall>later entropy. now \<le> later \<and> unat later + 65535000 < 2 ^ 64 \<and> \<not> due (dl_hold (se_deadlines s1)) later \<and> \<not> due (dl_keepalive (se_deadlines s1)) later \<longrightarrow>
           (\<exists>s2. session_receive s1 (se_generation s) alive later entropy =
                   Some (s2, Inr (Some ([ExportRoutes (ng_families n) True], length alive))) \<and>
                 se_state s2 = Established \<and> se_negotiated s2 = Some n)))"

lemma session_comes_up:
  assumes inv: "session_inv s" "se_state s = OpenSent" and now: "se_last_time s \<le> now" "\<not> due (dl_hold (se_deadlines s)) now" "unat now + 65535000 < 2 ^ 64"
    and peer: "open_encode peer = Inr body" "negotiate (cf_local (se_config s)) peer (cf_peer_asn (se_config s)) = Inr n"
  shows "comes_up s peer now n"
proof -
  obtain opened where o1: "bgp_encode OpenKind body = Inr opened" by (rule open_wire [OF peer(1)])
  obtain alive where k1: "bgp_encode KeepaliveKind [] = Inr alive" by (simp add: encode_frame_bytes limits)
  have shape: "dl_retry (se_deadlines s) = None" "dl_keepalive (se_deadlines s) = None" "dl_idle (se_deadlines s) = None"
    using inv by (simp_all add: session_inv_def session_shape_def)
  have adv: "se_advance s now entropy [] = Inr ((s\<lparr>se_last_time := now\<rparr>, []), False)" for entropy
    by (rule advance_quiet) (use now shape in \<open>auto simp: due_def\<close>)
  define u where "u = s\<lparr>se_last_time := now, se_negotiated := Some n, se_state := OpenConfirm, se_deadlines := deadlines_default\<rparr>"
  define v where "v = u\<lparr>se_deadlines := (se_deadlines u)\<lparr>dl_hold := timer now (hold_delay u)\<rparr>\<rparr>"
  define s1 where "s1 = v\<lparr>se_deadlines := (se_deadlines v)\<lparr>dl_keepalive := timer now (keepalive_delay v)\<rparr>\<rparr>"
  have "message_open (s\<lparr>se_last_time := now\<rparr>) body now [] = Inr (s1, [Send KeepaliveKind []])"
    using peer(2) decode_encoded_open [OF peer(1)] reset_hold_ok [OF now(3), of u] schedule_keepalive_ok [OF now(3), of v]
    by (simp add: message_open_def Let_def u_def [symmetric] v_def [symmetric] s1_def [symmetric])
  then have "message (s\<lparr>se_last_time := now\<rparr>) \<lparr>fr_kind = OpenKind, fr_body = body\<rparr> now [] = Some (Inr (s1, [Send KeepaliveKind []]))"
    using inv(2) o1 by (simp add: message_def)
  then have r1: "session_receive s (se_generation s) opened now entropy = Some (s1, Inr (Some ([Send KeepaliveKind []], length opened)))" for entropy
    by (rule receive_wire [OF o1 adv, rotated 2]) (use inv(2) in simp_all)
  have s1: "se_state s1 = OpenConfirm" "se_negotiated s1 = Some n" "se_generation s1 = se_generation s" "se_last_time s1 = now"
    "dl_retry (se_deadlines s1) = None" "dl_idle (se_deadlines s1) = None"
    by (simp_all add: s1_def v_def u_def deadlines_default_def)
  have "\<exists>s2. session_receive s1 (se_generation s) alive later entropy = Some (s2, Inr (Some ([ExportRoutes (ng_families n) True], length alive))) \<and>
      se_state s2 = Established \<and> se_negotiated s2 = Some n"
    if later: "now \<le> later" "unat later + 65535000 < 2 ^ 64" "\<not> due (dl_hold (se_deadlines s1)) later" "\<not> due (dl_keepalive (se_deadlines s1)) later" for later entropy
  proof -
    have adv: "se_advance s1 later entropy [] = Inr ((s1\<lparr>se_last_time := later\<rparr>, []), False)"
      by (rule advance_quiet) (use later s1 in \<open>auto simp: due_def\<close>)
    obtain s2 where s2: "reset_hold (s1\<lparr>se_last_time := later, se_state := Established\<rparr>) later = Inr s2" "se_state s2 = Established" "se_negotiated s2 = Some n"
      using reset_hold_ok [OF later(2), of "s1\<lparr>se_last_time := later, se_state := Established\<rparr>"] s1 by simp
    then have "message (s1\<lparr>se_last_time := later\<rparr>) \<lparr>fr_kind = KeepaliveKind, fr_body = []\<rparr> later [] = Some (Inr (s2, [ExportRoutes (ng_families n) True]))"
      using k1 s1 by (simp add: message_def)
    from receive_wire [OF k1 adv _ _ this] s1 s2 show ?thesis by auto
  qed
  with peer(1) o1 k1 r1 s1(1) show ?thesis unfolding comes_up_def by blast
qed

text \<open>
  C11. Two sessions bring each other up: when two reachable sessions have sent their OPEN to each other, neither has
  let its hold timer run out, and each accepts the other's OPEN, then each answers the other's OPEN with a
  KEEPALIVE and each becomes established on the other's KEEPALIVE, with the same families to export and the
  same hold time on both sides.
\<close>

theorem handshake_establishes:
  assumes "session_reach ca a" and "session_reach cb b" and "se_state a = OpenSent" and "se_state b = OpenSent"
    and "se_last_time a \<le> now" and "se_last_time b \<le> now" and "\<not> due (dl_hold (se_deadlines a)) now" and "\<not> due (dl_hold (se_deadlines b)) now"
    and "unat now + 65535000 < 2 ^ 64"
    and "negotiate (cf_local ca) (cf_local cb) (cf_peer_asn ca) = Inr n" and "negotiate (cf_local cb) (cf_local ca) (cf_peer_asn cb) = Inr m"
  shows "comes_up a (cf_local cb) now n \<and> comes_up b (cf_local ca) now m \<and> ng_families n = ng_families m \<and> ng_hold_time n = ng_hold_time m"
proof -
  have a: "session_inv a" "se_config a = ca" and b: "session_inv b" "se_config b = cb"
    using reach_inv [OF assms(1)] reach_inv [OF assms(2)] by simp_all
  obtain x y where "open_encode (cf_local ca) = Inr x" "open_encode (cf_local cb) = Inr y"
    using inv_config [OF a(1)] inv_config [OF b(1)] by (auto simp: config_ok_def a(2) b(2))
  then have "comes_up a (cf_local cb) now n" "comes_up b (cf_local ca) now m"
    using session_comes_up [OF a(1) assms(3,5,7,9)] session_comes_up [OF b(1) assms(4,6,8,9)] assms(10,11) by (simp_all add: a(2) b(2))
  moreover have "ng_families n = ng_families m"
    unfolding negotiate_parts(2) [OF assms(10)] negotiate_parts(2) [OF assms(11)] by (rule common_families)
  moreover have "ng_hold_time n = ng_hold_time m"
    unfolding negotiate_parts(1) [OF assms(10)] negotiate_parts(1) [OF assms(11)] by (rule min.commute)
  ultimately show ?thesis by blast
qed

section \<open>A concrete pair of speakers\<close>

definition lab_config :: "u32 \<Rightarrow> bgp_config" where
  "lab_config router = \<lparr>cf_local = lab_open router 90, cf_peer_asn = 65001, cf_listen = True, cf_passive = False, cf_retry_ms = 1000,
     cf_keepalive_ms = 30000, cf_strict_update_errors = False, cf_graceful_shutdown = False\<rparr>"

definition lab_sent :: "u32 \<Rightarrow> session" where
  "lab_sent router = \<lparr>se_config = lab_config router, se_state = OpenSent, se_deadlines = deadlines_default\<lparr>dl_hold := Some 240000\<rparr>,
     se_negotiated = None, se_last_time = 0, se_generation = 1, se_running = True, se_last_close = Hard\<rparr>"

lemma lab_open_encode: "\<exists>body. open_encode (lab_open router 90) = Inr body"
  by (simp add: lab_open_def open_encode_def effective_asn_def capability_check_def)

lemma speaker_reach:
  assumes "router \<noteq> 0"
  shows "session_reach (lab_config router) (lab_sent router)"
proof -
  obtain body where body: "open_encode (lab_open router 90) = Inr body" using lab_open_encode by blast
  define s0 where "s0 = (lab_sent router)\<lparr>se_state := Idle, se_deadlines := deadlines_default, se_generation := 0, se_running := False\<rparr>"
  define s1 where "s1 = (lab_sent router)\<lparr>se_state := Connect, se_deadlines := deadlines_default\<lparr>dl_retry := Some 1000\<rparr>\<rparr>"
  have asn: "effective_asn (lab_open router 90) = Inr 65001" "op_router_id (lab_open router 90) = router"
    by (simp_all add: effective_asn_def lab_open_def)
  have big: "\<not> (- 1 :: u64) div 2 < 1000" by (simp add: word_less_nat_alt unat_div unat_max_u64)
  have "session_new (lab_config router) = Inr s0"
    using assms body asn big by (simp add: session_new_def lab_config_def s0_def lab_sent_def)
  then have r0: "session_reach (lab_config router) s0" by (rule session_reach.new)
  have "session_handle s0 Start 0 0 = Some (s1, Inr [ConnectTo 1])"
    by (simp add: session_handle_def se_advance_def due_def process_def se_connect_def new_generation_def retry_delay_def deadline_def checked_add_def
        s0_def s1_def lab_sent_def lab_config_def deadlines_default_def Let_def)
  with r0 have r1: "session_reach (lab_config router) s1" by (rule session_reach.handle)
  have "session_handle s1 (TcpEstablished 1 False) 0 0 = Some (lab_sent router, Inr [Send OpenKind body])"
    by (simp add: session_handle_def se_advance_def due_def process_def tcp_established_def deadline_def checked_add_def body
        s1_def lab_sent_def lab_config_def deadlines_default_def Let_def)
  with r1 show ?thesis by (rule session_reach.handle)
qed

lemma lab_pair: "negotiate (lab_open 1 90) (lab_open 2 90) 65001 = Inr \<lparr>ng_graceful = None, ng_hold_time = 90, ng_four_octet_asn = False, ng_route_refresh = True, ng_families = [FAMILY_IPV4]\<rparr>"
  "negotiate (lab_open 2 90) (lab_open 1 90) 65001 = Inr \<lparr>ng_graceful = None, ng_hold_time = 90, ng_four_octet_asn = False, ng_route_refresh = True, ng_families = [FAMILY_IPV4]\<rparr>"
  using lab_negotiate [of 1 2 90 90] lab_negotiate [of 2 1 90 90] by simp_all

lemma lab_quiet: "se_state (lab_sent r) = OpenSent" "se_last_time (lab_sent r) = 0" "\<not> due (dl_hold (se_deadlines (lab_sent r))) 0"
  "se_config (lab_sent r) = lab_config r" "cf_local (lab_config r) = lab_open r 90" "cf_peer_asn (lab_config r) = 65001" "se_running (lab_sent r)"
  by (simp_all add: lab_sent_def lab_config_def due_def deadlines_default_def)

theorem session_total_witness:
  "se_config (lab_sent 1) = lab_config 1 \<and> (\<exists>s' r. session_handle (lab_sent 1) HardReset 7 0 = Some (s', r))"
  using session_total [OF speaker_reach [of 1], of HardReset 7 0 1 "[]"] by (simp add: lab_quiet) blast

theorem stale_generation_witness:
  "session_handle (lab_sent 1) (TcpClosed 0) 0 0 = Some (lab_sent 1, Inr [])"
proof -
  have "session_poll (lab_sent 1) 0 0 = (lab_sent 1, Inr [])"
    by (simp add: session_poll_def se_advance_def due_def lab_sent_def deadlines_default_def)
  from stale_generation [OF this, of 0] show ?thesis by (simp add: lab_sent_def)
qed

theorem session_progress_witness:
  "\<exists>s'. session_poll (lab_sent 1) 240000 0 = (s', Inr [Send NotificationKind [4, 0], CloseConnection]) \<and> se_state s' = Idle"
proof -
  have "pending (lab_sent 1) = Some 240000" "se_generation (lab_sent 1) \<noteq> - 1" "cf_retry_ms (lab_config 1) = 1000"
    by (simp_all add: pending_def lab_sent_def lab_config_def deadlines_default_def)
  moreover have "se_running (lab_sent 1)" "se_state (lab_sent 1) \<notin> {OpenConfirm, Established}" by (simp_all add: lab_quiet)
  note session_progress [OF speaker_reach [of 1, OF one_neq_zero] this]
  ultimately show ?thesis by (simp only: option.inject simp_thms ex_simps lab_quiet) (drule spec [of _ 240000], drule spec [of _ 0], auto)
qed

theorem handshake_establishes_witness:
  "\<exists>n m. comes_up (lab_sent 1) (lab_open 2 90) 0 n \<and> comes_up (lab_sent 2) (lab_open 1 90) 0 m \<and> ng_families n = ng_families m \<and> ng_hold_time m = 90"
proof -
  let ?n = "\<lparr>ng_graceful = None, ng_hold_time = 90, ng_four_octet_asn = False, ng_route_refresh = True, ng_families = [FAMILY_IPV4]\<rparr>"
  have "comes_up (lab_sent 1) (cf_local (lab_config 2)) 0 ?n \<and> comes_up (lab_sent 2) (cf_local (lab_config 1)) 0 ?n \<and> ng_families ?n = ng_families ?n \<and> ng_hold_time ?n = ng_hold_time ?n"
    by (rule handshake_establishes [OF speaker_reach speaker_reach]) (simp_all add: lab_quiet lab_pair)
  then show ?thesis unfolding lab_quiet by (intro exI [of _ ?n]) simp
qed

theorem export_gate_witness:
  "\<exists>s ev s' out. session_handle s ev 0 0 = Some (s', Inr out) \<and> ExportRoutes [FAMILY_IPV4] True \<in> set out \<and> se_state s' = Established"
proof -
  let ?n = "\<lparr>ng_graceful = None, ng_hold_time = 90, ng_four_octet_asn = False, ng_route_refresh = True, ng_families = [FAMILY_IPV4]\<rparr>"
  have inv: "session_inv (lab_sent 1)" using reach_inv [OF speaker_reach [of 1]] by simp
  obtain body where body: "open_encode (lab_open 2 90) = Inr body" using lab_open_encode by blast
  have "comes_up (lab_sent 1) (lab_open 2 90) 0 ?n"
    by (rule session_comes_up [OF inv _ _ _ _ body]) (simp_all add: lab_quiet lab_pair)
  then obtain opened alive s1 where alive: "bgp_encode KeepaliveKind [] = Inr alive"
    and all1: "\<forall>entropy. session_receive (lab_sent 1) (se_generation (lab_sent 1)) opened 0 entropy = Some (s1, Inr (Some ([Send KeepaliveKind []], length opened)))"
    and all2: "\<forall>later entropy. 0 \<le> later \<and> unat later + 65535000 < 2 ^ 64 \<and> \<not> due (dl_hold (se_deadlines s1)) later \<and> \<not> due (dl_keepalive (se_deadlines s1)) later \<longrightarrow>
           (\<exists>s2. session_receive s1 (se_generation (lab_sent 1)) alive later entropy =
                   Some (s2, Inr (Some ([ExportRoutes (ng_families ?n) True], length alive))) \<and>
                 se_state s2 = Established \<and> se_negotiated s2 = Some ?n)"
    unfolding comes_up_def by (elim exE conjE) (rule that)
  note open1 = spec [OF all1, of 0]
  have r1: "session_reach (lab_config 1) s1" using session_reach.receive [OF speaker_reach [of 1] open1] by simp
  have "future s1" using reach_inv [OF r1] by (simp add: session_inv_def)
  then have "\<not> due (dl_hold (se_deadlines s1)) 0 \<and> \<not> due (dl_keepalive (se_deadlines s1)) 0" by (auto simp: future_def due_def split: option.splits)
  then obtain s2 where s2: "session_receive s1 (se_generation (lab_sent 1)) alive 0 0 = Some (s2, Inr (Some ([ExportRoutes [FAMILY_IPV4] True], length alive)))"
    using spec [OF spec [OF all2, of 0], of 0] by auto
  have "bgp_decode alive = Inr (\<lparr>fr_kind = KeepaliveKind, fr_body = []\<rparr>, length alive)"
    using decode_frame_bytes [of "replicate 16 0xff" "[]" KeepaliveKind "[]"] alive by (auto simp: encode_frame_bytes limits)
  then have h: "session_handle s1 (Message (se_generation (lab_sent 1)) \<lparr>fr_kind = KeepaliveKind, fr_body = []\<rparr>) 0 0 = Some (s2, Inr [ExportRoutes [FAMILY_IPV4] True])"
    using s2 by (auto simp: session_receive_def map_sum_def map_prod_def split: prod.splits sum.splits) (metis sum.exhaust)
  with export_gate [OF r1 h] show ?thesis by (metis list.set_intros(1))
qed

end
