(* ===== verification/BgpCollision.thy ===== *)
theory BgpCollision
  imports BgpUpdate
begin

text \<open>
  Ownership of the connections of a BGP peer (\<open>flowsdn-bgp-proto/src/collision.rs\<close>), which decides between two
  connections that the ends opened at once. An \<open>Arc<()>\<close> that only serves as an identity is a number.
\<close>

section \<open>Connections\<close>

record connection =
  cn_issuer :: nat
  cn_sequence :: u64

datatype conn_direction = Inbound | Outbound

datatype resolution = Accepted "connection option" | Rejected | InvalidRouterId

record connections =
  cs_issuer :: nat
  cs_sequence :: u64
  cs_pending :: "u64 btree_set"
  cs_current :: "(connection \<times> conn_direction \<times> bool) option"

definition connections_default :: "nat \<Rightarrow> connections" where
  "connections_default issuer = \<lparr>cs_issuer = issuer, cs_sequence = 0, cs_pending = [], cs_current = None\<rparr>"

definition conn_allocate :: "connections \<Rightarrow> (connections \<times> connection) option" where
  "conn_allocate t =
     (case checked_add (cs_sequence t) 1 of
        None \<Rightarrow> None
      | Some n \<Rightarrow> Some (t\<lparr>cs_sequence := n, cs_pending := bs_insert n (cs_pending t)\<rparr>,
                        \<lparr>cn_issuer = cs_issuer t, cn_sequence = n\<rparr>))"

definition conn_abandon :: "connections \<Rightarrow> connection \<Rightarrow> connections \<times> bool" where
  "conn_abandon t c =
     (if cs_issuer t = cn_issuer c
      then (t\<lparr>cs_pending := bs_remove (cn_sequence c) (cs_pending t)\<rparr>, cn_sequence c \<in> set (cs_pending t))
      else (t, False))"

definition conn_is_current :: "connections \<Rightarrow> connection \<Rightarrow> bool" where
  "conn_is_current t c \<longleftrightarrow> cs_issuer t = cn_issuer c \<and>
     (case cs_current t of None \<Rightarrow> False | Some (active, _, _) \<Rightarrow> cn_sequence active = cn_sequence c)"

definition conn_established :: "connections \<Rightarrow> connection \<Rightarrow> connections \<times> bool" where
  "conn_established t c =
     (if \<not> conn_is_current t c then (t, False)
      else (t\<lparr>cs_current := map_option (\<lambda>(active, dir, _). (active, dir, True)) (cs_current t)\<rparr>, True))"

definition conn_closed :: "connections \<Rightarrow> connection \<Rightarrow> connections \<times> bool" where
  "conn_closed t c = (if \<not> conn_is_current t c then (t, False) else (t\<lparr>cs_current := None\<rparr>, True))"

definition preferred :: "u32 \<Rightarrow> u32 \<Rightarrow> conn_direction" where
  "preferred local peer = (if peer < local then Outbound else Inbound)"

definition conn_consider :: "connections \<Rightarrow> connection \<Rightarrow> conn_direction \<Rightarrow> u32 \<Rightarrow> u32 \<Rightarrow> connections \<times> resolution" where
  "conn_consider t c dir local peer =
     (if cs_issuer t \<noteq> cn_issuer c then (t, Rejected)
      else
        let known = cn_sequence c \<in> set (cs_pending t);
            t = t\<lparr>cs_pending := bs_remove (cn_sequence c) (cs_pending t)\<rparr>;
            accept = (t\<lparr>cs_current := Some (c, dir, False)\<rparr>, Accepted (map_option fst (cs_current t))) in
        if \<not> known then (t, Rejected)
        else if local = peer \<or> local = 0 \<or> peer = 0 then (t, InvalidRouterId)
        else
          case cs_current t of
            None \<Rightarrow> accept
          | Some (current, current_dir, established) \<Rightarrow>
              if established \<or> cn_sequence current = cn_sequence c \<or> current_dir = dir then (t, Rejected)
              else if dir \<noteq> preferred local peer then (t, Rejected)
              else accept)"

text \<open>The tables a peer's owner can reach, with every connection it was ever given.\<close>

inductive conn_reach :: "nat \<Rightarrow> connections \<Rightarrow> connection set \<Rightarrow> bool" for issuer where
  start: "conn_reach issuer (connections_default issuer) {}"
| allocate: "conn_reach issuer t given \<Longrightarrow> conn_allocate t = Some (t', c) \<Longrightarrow> conn_reach issuer t' (insert c given)"
| abandon: "conn_reach issuer t given \<Longrightarrow> conn_abandon t c = (t', r) \<Longrightarrow> conn_reach issuer t' given"
| established: "conn_reach issuer t given \<Longrightarrow> conn_established t c = (t', r) \<Longrightarrow> conn_reach issuer t' given"
| closed: "conn_reach issuer t given \<Longrightarrow> conn_closed t c = (t', r) \<Longrightarrow> conn_reach issuer t' given"
| decide: "conn_reach issuer t given \<Longrightarrow> conn_consider t c dir local peer = (t', q) \<Longrightarrow> conn_reach issuer t' given"

definition conn_inv :: "nat \<Rightarrow> connections \<Rightarrow> connection set \<Rightarrow> bool" where
  "conn_inv issuer t given \<longleftrightarrow> cs_issuer t = issuer \<and> bs_ok (cs_pending t) \<and>
     (\<forall>c\<in>given. cn_issuer c = issuer \<and> cn_sequence c \<le> cs_sequence t) \<and>
     (\<forall>n\<in>set (cs_pending t). \<lparr>cn_issuer = issuer, cn_sequence = n\<rparr> \<in> given) \<and>
     (\<forall>c d e. cs_current t = Some (c, d, e) \<longrightarrow> c \<in> given \<and> cn_sequence c \<notin> set (cs_pending t))"

lemma inv_drop_pending: "conn_inv issuer t given \<Longrightarrow> conn_inv issuer (t\<lparr>cs_pending := bs_remove n (cs_pending t)\<rparr>) given"
  by (simp add: conn_inv_def bs_ok_remove)

lemma inv_current:
  "conn_inv issuer t given \<Longrightarrow> (\<And>c d e. cur = Some (c, d, e) \<Longrightarrow> c \<in> given \<and> cn_sequence c \<notin> set (cs_pending t)) \<Longrightarrow>
   conn_inv issuer (t\<lparr>cs_current := cur\<rparr>) given"
  by (simp add: conn_inv_def)

lemma conn_reach_inv: "conn_reach issuer t given \<Longrightarrow> conn_inv issuer t given"
proof (induction rule: conn_reach.induct)
  case start
  then show ?case by (simp add: conn_inv_def connections_default_def)
next
  case (allocate t given t' c)
  then obtain n where n: "checked_add (cs_sequence t) 1 = Some n" and t': "t' = t\<lparr>cs_sequence := n, cs_pending := bs_insert n (cs_pending t)\<rparr>"
    and c: "c = \<lparr>cn_issuer = cs_issuer t, cn_sequence = n\<rparr>"
    by (auto simp: conn_allocate_def split: option.splits)
  have le: "cn_sequence x < n" if "x \<in> given" for x
    using allocate.IH that checked_add_later [OF n] by (auto simp: conn_inv_def)
  then show ?case using allocate.IH by (auto simp: conn_inv_def t' c bs_ok_insert intro: less_imp_le dest: le)
next
  case (abandon t given c t' r)
  have "t' = t \<or> t' = t\<lparr>cs_pending := bs_remove (cn_sequence c) (cs_pending t)\<rparr>"
    using abandon.hyps(2) by (simp add: conn_abandon_def split: if_splits)
  then show ?case using abandon.IH inv_drop_pending by metis
next
  case (established t given c t' r)
  have "t' = t \<or> t' = t\<lparr>cs_current := map_option (\<lambda>(active, dir, _). (active, dir, True)) (cs_current t)\<rparr>"
    using established.hyps(2) by (simp add: conn_established_def split: if_splits)
  moreover have "conn_inv issuer (t\<lparr>cs_current := map_option (\<lambda>(active, dir, _). (active, dir, True)) (cs_current t)\<rparr>) given"
    by (rule inv_current [OF established.IH]) (use established.IH in \<open>auto simp: conn_inv_def\<close>)
  ultimately show ?case using established.IH by metis
next
  case (closed t given c t' r)
  have "t' = t \<or> t' = t\<lparr>cs_current := None\<rparr>" using closed.hyps(2) by (simp add: conn_closed_def split: if_splits)
  then show ?case using closed.IH inv_current [OF closed.IH, of None] by force
next
  case (decide t given c dir local peer t' q)
  define u where "u = t\<lparr>cs_pending := bs_remove (cn_sequence c) (cs_pending t)\<rparr>"
  have u: "conn_inv issuer u given" unfolding u_def by (rule inv_drop_pending [OF decide.IH])
  consider "t' = t" | "t' = u" | "t' = u\<lparr>cs_current := Some (c, dir, False)\<rparr>" "cs_issuer t = cn_issuer c" "cn_sequence c \<in> set (cs_pending t)"
    using decide.hyps(2) by (simp add: conn_consider_def u_def [symmetric] Let_def split: if_splits option.splits prod.splits)
  then show ?case
  proof cases
    case 3
    then have "\<lparr>cn_issuer = issuer, cn_sequence = cn_sequence c\<rparr> \<in> given" "cn_issuer c = issuer" using decide.IH by (simp_all add: conn_inv_def)
    then have "c \<in> given" by (cases c) simp
    then show ?thesis unfolding 3(1) by (intro inv_current [OF u]) (simp add: u_def)
  qed (use decide.IH u in simp_all)
qed

text \<open>
  C25. Connections are owned soundly: in every reachable table a new connection differs from all given before it;
  a decided connection cannot be decided or abandoned again; the current one was given and decided; and an
  established connection is never displaced, whatever is considered next.
\<close>

theorem connections_sound:
  assumes "conn_reach issuer t given"
  shows "(\<forall>t' c. conn_allocate t = Some (t', c) \<longrightarrow> c \<notin> given \<and> cn_sequence c \<in> set (cs_pending t')) \<and>
    (\<forall>c dir local peer t' q. conn_consider t c dir local peer = (t', q) \<longrightarrow>
       (\<forall>dir' local' peer'. snd (conn_consider t' c dir' local' peer') = Rejected) \<and> \<not> snd (conn_abandon t' c)) \<and>
    (\<forall>c d e. cs_current t = Some (c, d, e) \<longrightarrow> c \<in> given \<and> conn_is_current t c \<and> \<not> snd (conn_abandon t c)) \<and>
    (\<forall>c d. cs_current t = Some (c, d, True) \<longrightarrow>
       (\<forall>c' dir local peer. cs_current (fst (conn_consider t c' dir local peer)) = cs_current t))"
proof -
  have inv: "conn_inv issuer t given" by (rule conn_reach_inv [OF assms])
  have "c \<notin> given \<and> cn_sequence c \<in> set (cs_pending t')" if "conn_allocate t = Some (t', c)" for t' c
    using that inv checked_add_later [of "cs_sequence t" 1] by (fastforce simp: conn_allocate_def conn_inv_def split: option.splits)
  moreover have "snd (conn_consider t' c dir' local' peer') = Rejected \<and> \<not> snd (conn_abandon t' c)"
    if "conn_consider t c dir local peer = (t', q)" for c dir local peer t' q dir' local' peer'
  proof -
    have "cs_issuer t' \<noteq> cn_issuer c \<or> cn_sequence c \<notin> set (cs_pending t')"
      using that by (auto simp: conn_consider_def Let_def split: if_splits option.splits)
    then show ?thesis by (auto simp: conn_consider_def conn_abandon_def Let_def)
  qed
  moreover have "c \<in> given \<and> conn_is_current t c \<and> \<not> snd (conn_abandon t c)" if "cs_current t = Some (c, d, e)" for c d e
    using that inv by (auto simp: conn_inv_def conn_is_current_def conn_abandon_def)
  moreover have "cs_current (fst (conn_consider t c' dir local peer)) = cs_current t" if "cs_current t = Some (c, d, True)" for c d c' dir local peer
    using that by (simp add: conn_consider_def Let_def)
  ultimately show ?thesis by blast
qed

text \<open>One end decides its outbound and its inbound connection, in either order.\<close>

definition conn_settle :: "connections \<Rightarrow> bool \<Rightarrow> connection \<Rightarrow> connection \<Rightarrow> u32 \<Rightarrow> u32 \<Rightarrow> connections" where
  "conn_settle t outbound_first outbound inbound local peer =
     (if outbound_first
      then fst (conn_consider (fst (conn_consider t outbound Outbound local peer)) inbound Inbound local peer)
      else fst (conn_consider (fst (conn_consider t inbound Inbound local peer)) outbound Outbound local peer))"

lemma settle_current:
  assumes "cs_current t = None" "cn_issuer o1 = cs_issuer t" "cn_issuer i1 = cs_issuer t" "cn_sequence o1 \<noteq> cn_sequence i1"
    and "cn_sequence o1 \<in> set (cs_pending t)" "cn_sequence i1 \<in> set (cs_pending t)" "local \<noteq> peer" "local \<noteq> 0" "peer \<noteq> 0"
  shows "cs_current (conn_settle t first o1 i1 local peer) = Some (if peer < local then (o1, Outbound, False) else (i1, Inbound, False))"
  using assms by (simp add: conn_settle_def conn_consider_def Let_def preferred_def)

text \<open>
  C24. Both ends resolve a connection collision the same way. Two speakers have opened a connection to each other at
  once, so that each end holds two connections, \<open>x\<close> from \<open>a\<close> to \<open>b\<close> and \<open>y\<close> from \<open>b\<close> to \<open>a\<close>. Whatever the order in
  which either end decides them, both keep the connection opened by the end with the larger router id.
\<close>

theorem collision_agree:
  assumes "cs_current ta = None" and "cs_current tb = None" and "ida \<noteq> idb" and "ida \<noteq> 0" and "idb \<noteq> 0"
    and "{xa, ya} \<subseteq> {c. cn_issuer c = cs_issuer ta \<and> cn_sequence c \<in> set (cs_pending ta)}" and "cn_sequence xa \<noteq> cn_sequence ya"
    and "{xb, yb} \<subseteq> {c. cn_issuer c = cs_issuer tb \<and> cn_sequence c \<in> set (cs_pending tb)}" and "cn_sequence xb \<noteq> cn_sequence yb"
  shows "cs_current (conn_settle ta firsta xa ya ida idb) = Some (if idb < ida then (xa, Outbound, False) else (ya, Inbound, False)) \<and>
    cs_current (conn_settle tb firstb yb xb idb ida) = Some (if idb < ida then (xb, Inbound, False) else (yb, Outbound, False))"
proof -
  have "ida < idb \<longleftrightarrow> \<not> idb < ida" using assms(3) by auto
  then show ?thesis
    using assms settle_current [of ta xa ya ida idb firsta] settle_current [of tb yb xb idb ida firstb] by auto
qed

theorem connections_sound_witness:
  "\<exists>t c. conn_allocate (connections_default 7) = Some (t, c) \<and> c \<notin> {} \<and> cn_sequence c \<in> set (cs_pending t)"
  using connections_sound [OF conn_reach.start [of 7]]
  by (simp add: conn_allocate_def connections_default_def checked_add_def)

theorem collision_agree_witness:
  "cs_current (conn_settle \<lparr>cs_issuer = 0, cs_sequence = 2, cs_pending = [1, 2], cs_current = None\<rparr> True
      \<lparr>cn_issuer = 0, cn_sequence = 1\<rparr> \<lparr>cn_issuer = 0, cn_sequence = 2\<rparr> 9 5) = Some (\<lparr>cn_issuer = 0, cn_sequence = 1\<rparr>, Outbound, False) \<and>
   cs_current (conn_settle \<lparr>cs_issuer = 4, cs_sequence = 2, cs_pending = [1, 2], cs_current = None\<rparr> True
      \<lparr>cn_issuer = 4, cn_sequence = 1\<rparr> \<lparr>cn_issuer = 4, cn_sequence = 2\<rparr> 5 9) = Some (\<lparr>cn_issuer = 4, cn_sequence = 2\<rparr>, Inbound, False)"
  using collision_agree [of "\<lparr>cs_issuer = 0, cs_sequence = 2, cs_pending = [1, 2], cs_current = None\<rparr>"
      "\<lparr>cs_issuer = 4, cs_sequence = 2, cs_pending = [1, 2], cs_current = None\<rparr>" 9 5
      "\<lparr>cn_issuer = 0, cn_sequence = 1\<rparr>" "\<lparr>cn_issuer = 0, cn_sequence = 2\<rparr>" "\<lparr>cn_issuer = 4, cn_sequence = 2\<rparr>" "\<lparr>cn_issuer = 4, cn_sequence = 1\<rparr>" True True]
  by simp

end
