(* ===== verification/BgpRib.thy ===== *)
theory BgpRib
  imports BgpUpdate
begin

text \<open>
  The route stores and plans beside the BGP session core (\<open>flowsdn-bgp-proto/src/rib.rs\<close>, \<open>planning.rs\<close>). An \<open>Arc<()>\<close>
  that only serves as an identity is a number. The store of local routes carries the number its next
  \<open>Arc::default\<close> gets, which no earlier one has.
\<close>

section \<open>Local routes\<close>

record path_handle =
  ph_issuer :: nat
  ph_prefix :: bgp_prefix
  ph_incarnation :: nat

record local_rib =
  lr_issuer :: nat
  lr_prefixes :: "bgp_prefix btree_set"
  lr_handles :: "(bgp_prefix, nat) btree_map"
  lr_next :: nat

definition local_rib_default :: "nat \<Rightarrow> local_rib" where
  "local_rib_default issuer = \<lparr>lr_issuer = issuer, lr_prefixes = [], lr_handles = [], lr_next = 0\<rparr>"

definition rib_advertise :: "local_rib \<Rightarrow> bgp_prefix \<Rightarrow> local_rib \<times> path_handle" where
  "rib_advertise r p =
     (let r = r\<lparr>lr_prefixes := bs_insert p (lr_prefixes r)\<rparr> in
      case bt_get (lr_handles r) p of
        Some i \<Rightarrow> (r, \<lparr>ph_issuer = lr_issuer r, ph_prefix = p, ph_incarnation = i\<rparr>)
      | None \<Rightarrow> (r\<lparr>lr_handles := bt_insert p (lr_next r) (lr_handles r), lr_next := lr_next r + 1\<rparr>,
                 \<lparr>ph_issuer = lr_issuer r, ph_prefix = p, ph_incarnation = lr_next r\<rparr>))"

definition rib_withdraw :: "local_rib \<Rightarrow> path_handle \<Rightarrow> local_rib \<times> bool" where
  "rib_withdraw r h =
     (if lr_issuer r \<noteq> ph_issuer h \<or> bt_get (lr_handles r) (ph_prefix h) \<noteq> Some (ph_incarnation h) then (r, False)
      else (r\<lparr>lr_handles := bt_remove (ph_prefix h) (lr_handles r), lr_prefixes := bs_remove (ph_prefix h) (lr_prefixes r)\<rparr>,
            ph_prefix h \<in> set (lr_prefixes r)))"

section \<open>Observed routes\<close>

record counters =
  ct_announcements :: u64
  ct_withdrawals :: u64
  ct_omitted :: u64

record observed_rib =
  or_cap :: nat
  or_v4 :: "bgp_prefix btree_set"
  or_v6 :: "bgp_prefix btree_set"
  or_counters :: counters
  or_overflow_reported :: bool

definition observed_new :: "nat \<Rightarrow> observed_rib" where
  "observed_new cap = \<lparr>or_cap = cap, or_v4 = [], or_v6 = [],
     or_counters = \<lparr>ct_announcements = 0, ct_withdrawals = 0, ct_omitted = 0\<rparr>, or_overflow_reported = False\<rparr>"

definition observe_withdrawn :: "bgp_prefix \<Rightarrow> observed_rib \<Rightarrow> observed_rib" where
  "observe_withdrawn p r =
     (let r = r\<lparr>or_counters := (or_counters r)\<lparr>ct_withdrawals := saturating_add (ct_withdrawals (or_counters r)) 1\<rparr>\<rparr> in
      if \<not> is_ipv4 (fst p) then r\<lparr>or_v6 := bs_remove p (or_v6 r)\<rparr> else r\<lparr>or_v4 := bs_remove p (or_v4 r)\<rparr>)"

definition observe_announced :: "bgp_prefix \<Rightarrow> observed_rib \<times> bool \<Rightarrow> observed_rib \<times> bool" where
  "observe_announced p = (\<lambda>(r, overflow).
     (let r = r\<lparr>or_counters := (or_counters r)\<lparr>ct_announcements := saturating_add (ct_announcements (or_counters r)) 1\<rparr>\<rparr>;
          store = (if \<not> is_ipv4 (fst p) then or_v6 r else or_v4 r) in
      if p \<in> set store then (r, overflow)
      else if length store < or_cap r then
        (if \<not> is_ipv4 (fst p) then r\<lparr>or_v6 := bs_insert p store\<rparr> else r\<lparr>or_v4 := bs_insert p store\<rparr>, overflow)
      else (r\<lparr>or_counters := (or_counters r)\<lparr>ct_omitted := saturating_add (ct_omitted (or_counters r)) 1\<rparr>\<rparr>, True)))"

definition rib_observe :: "observed_rib \<Rightarrow> summary \<Rightarrow> observed_rib \<times> bool" where
  "rib_observe r u =
     (let r = fold observe_withdrawn (sm_withdrawn u @ sm_mp_withdrawn u) r;
          (r, overflow) = fold observe_announced (sm_announced u @ sm_mp_announced u) (r, False) in
      (r\<lparr>or_overflow_reported := or_overflow_reported r \<or> overflow\<rparr>, overflow \<and> \<not> or_overflow_reported r))"

section \<open>Plans\<close>

datatype auth_mode = NoAuth | Md5 | TcpAo

datatype plan_error = UnsupportedTcpAo | InvalidPort | PassiveNeedsListener | StatusTooLarge

record transport =
  tr_local_port :: "u16 option"
  tr_peer_port :: u16
  tr_passive :: bool
  tr_auth :: auth_mode

record session_plan =
  sp_listen :: "u16 option"
  sp_initiate :: bool
  sp_wait_in_active :: bool

definition transport_plan :: "transport \<Rightarrow> plan_error + session_plan" where
  "transport_plan t =
     (if tr_auth t = TcpAo then Inl UnsupportedTcpAo
      else if tr_peer_port t = 0 \<or> tr_local_port t = Some 0 then Inl InvalidPort
      else if tr_passive t \<and> tr_local_port t = None then Inl PassiveNeedsListener
      else Inr \<lparr>sp_listen = tr_local_port t, sp_initiate = (\<not> tr_passive t), sp_wait_in_active = tr_passive t\<rparr>)"

type_synonym advertisement = "string \<times> bgp_prefix \<times> string"

fun status_loop :: "advertisement list \<Rightarrow> nat \<Rightarrow> advertisement btree_set \<Rightarrow> plan_error + advertisement btree_set" where
  "status_loop [] maximum result = Inr result"
| "status_loop (row # rows) maximum result =
     (let result = bs_insert row result in
      if maximum < length result then Inl StatusTooLarge else status_loop rows maximum result)"

definition advertised_status :: "bool \<Rightarrow> advertisement list \<Rightarrow> nat \<Rightarrow> plan_error + advertisement list option" where
  "advertised_status enabled rows maximum =
     (if \<not> enabled then Inr None else map_sum id Some (status_loop rows maximum []))"

section \<open>Local routes: handles\<close>

inductive rib_reach :: "nat \<Rightarrow> local_rib \<Rightarrow> path_handle list \<Rightarrow> bool" for issuer where
  start: "rib_reach issuer (local_rib_default issuer) []"
| advertise: "rib_reach issuer r given \<Longrightarrow> rib_advertise r p = (r', h) \<Longrightarrow> rib_reach issuer r' (h # given)"
| withdraw: "rib_reach issuer r given \<Longrightarrow> rib_withdraw r h = (r', ok) \<Longrightarrow> rib_reach issuer r' given"

definition rib_inv :: "nat \<Rightarrow> local_rib \<Rightarrow> path_handle list \<Rightarrow> bool" where
  "rib_inv issuer r given \<longleftrightarrow> lr_issuer r = issuer \<and> bs_ok (lr_prefixes r) \<and> set (lr_prefixes r) = dom (bt_get (lr_handles r)) \<and>
     (\<forall>h\<in>set given. ph_issuer h = issuer \<and> ph_incarnation h < lr_next r) \<and> (\<forall>p i. bt_get (lr_handles r) p = Some i \<longrightarrow> i < lr_next r)"

lemma rib_reach_inv: "rib_reach issuer r given \<Longrightarrow> rib_inv issuer r given"
proof (induction rule: rib_reach.induct)
  case start
  then show ?case by (simp add: rib_inv_def local_rib_default_def)
next
  case (advertise r given p r' h)
  show ?case
  proof (cases "bt_get (lr_handles r) p")
    case None
    then have "r' = r\<lparr>lr_prefixes := bs_insert p (lr_prefixes r), lr_handles := bt_insert p (lr_next r) (lr_handles r), lr_next := lr_next r + 1\<rparr>"
      "h = \<lparr>ph_issuer = lr_issuer r, ph_prefix = p, ph_incarnation = lr_next r\<rparr>"
      using advertise.hyps(2) by (simp_all add: rib_advertise_def)
    then show ?thesis using advertise.IH by (auto simp: rib_inv_def bs_ok_insert less_Suc_eq)
  next
    case (Some i)
    then have "r' = r\<lparr>lr_prefixes := bs_insert p (lr_prefixes r)\<rparr>" "h = \<lparr>ph_issuer = lr_issuer r, ph_prefix = p, ph_incarnation = i\<rparr>"
      using advertise.hyps(2) by (simp_all add: rib_advertise_def)
    then show ?thesis using advertise.IH Some by (auto simp: rib_inv_def bs_ok_insert simp del: split_paired_All)
  qed
next
  case (withdraw r given h r' ok)
  have "r' = r \<or> r' = r\<lparr>lr_handles := bt_remove (ph_prefix h) (lr_handles r), lr_prefixes := bs_remove (ph_prefix h) (lr_prefixes r)\<rparr>"
    using withdraw.hyps(2) by (simp add: rib_withdraw_def split: if_splits)
  moreover have "rib_inv issuer (r\<lparr>lr_handles := bt_remove (ph_prefix h) (lr_handles r), lr_prefixes := bs_remove (ph_prefix h) (lr_prefixes r)\<rparr>) given"
    using withdraw.IH by (simp add: rib_inv_def bs_ok_remove)
  ultimately show ?case using withdraw.IH by metis
qed

text \<open>
  C27. A route is withdrawn exactly by the handles of its current advertisement: after an advertisement the prefix is
  advertised and its handle withdraws it, once; a handle given before the prefix was withdrawn and advertised
  again is refused and changes nothing; and a store refuses the handles of another.
\<close>

theorem local_rib_handles:
  assumes "rib_reach issuer r given" and "rib_advertise r p = (r', h)"
  shows "set (lr_prefixes r') = insert p (set (lr_prefixes r)) \<and>
    (\<exists>r2. rib_withdraw r' h = (r2, True) \<and> set (lr_prefixes r2) = set (lr_prefixes r) - {p} \<and> rib_withdraw r2 h = (r2, False) \<and>
      (\<forall>r3 h3. rib_advertise r2 p = (r3, h3) \<longrightarrow> rib_withdraw r3 h = (r3, False))) \<and>
    (p \<notin> set (lr_prefixes r) \<longrightarrow> (\<forall>old\<in>set given. rib_withdraw r' old = (r', False) \<or> ph_prefix old \<noteq> p)) \<and>
    (\<forall>other. ph_issuer other \<noteq> issuer \<longrightarrow> rib_withdraw r' other = (r', False))"
proof -
  have inv: "rib_inv issuer r given" by (rule rib_reach_inv [OF assms(1)])
  have inv': "rib_inv issuer r' (h # given)" by (rule rib_reach_inv) (rule rib_reach.advertise [OF assms])
  have h: "ph_prefix h = p" "ph_issuer h = issuer" "bt_get (lr_handles r') p = Some (ph_incarnation h)" "lr_prefixes r' = bs_insert p (lr_prefixes r)"
    using assms(2) inv by (auto simp: rib_advertise_def rib_inv_def Let_def split: option.splits)
  have issuer: "lr_issuer r' = issuer" and next_id: "ph_incarnation h < lr_next r'" using inv' by (simp_all add: rib_inv_def)
  define r2 where "r2 = r'\<lparr>lr_handles := bt_remove p (lr_handles r'), lr_prefixes := bs_remove p (lr_prefixes r')\<rparr>"
  have "rib_withdraw r' h = (r2, True)" using h issuer by (simp add: rib_withdraw_def r2_def)
  moreover have "set (lr_prefixes r2) = set (lr_prefixes r) - {p}" using h(4) by (auto simp: r2_def)
  moreover have "rib_withdraw r2 h = (r2, False)" using h by (simp add: rib_withdraw_def r2_def)
  moreover have "rib_withdraw r3 h = (r3, False)" if "rib_advertise r2 p = (r3, h3)" for r3 h3
  proof -
    have "bt_get (lr_handles r3) p = Some (lr_next r')" using that by (auto simp: rib_advertise_def r2_def Let_def)
    then show ?thesis using h(1) next_id by (simp add: rib_withdraw_def)
  qed
  moreover have "rib_withdraw r' old = (r', False)" if "p \<notin> set (lr_prefixes r)" "old \<in> set given" "ph_prefix old = p" for old
  proof -
    have "bt_get (lr_handles r) p = None" using that(1) inv by (auto simp: rib_inv_def)
    then have "bt_get (lr_handles r') p = Some (lr_next r)" using assms(2) by (auto simp: rib_advertise_def Let_def)
    moreover have "ph_incarnation old < lr_next r" using that(2) inv by (simp add: rib_inv_def)
    ultimately show ?thesis using that(3) by (simp add: rib_withdraw_def)
  qed
  moreover have "rib_withdraw r' other = (r', False)" if "ph_issuer other \<noteq> issuer" for other
    using that issuer by (simp add: rib_withdraw_def)
  moreover have "set (lr_prefixes r') = insert p (set (lr_prefixes r))" by (simp add: h(4))
  ultimately show ?thesis by blast
qed

theorem local_rib_handles_witness:
  "\<exists>r2. rib_withdraw (fst (rib_advertise (local_rib_default 3) (V4 10, 8))) (snd (rib_advertise (local_rib_default 3) (V4 10, 8))) = (r2, True)"
  using local_rib_handles [OF rib_reach.start, of 3 "(V4 10, 8)", OF surjective_pairing] by blast

section \<open>Observed routes: the bound\<close>

definition routes :: "observed_rib \<Rightarrow> bgp_prefix set" where
  "routes r = set (or_v4 r) \<union> set (or_v6 r)"

definition stores_ok :: "observed_rib \<Rightarrow> bool" where
  "stores_ok r \<longleftrightarrow> bs_ok (or_v4 r) \<and> bs_ok (or_v6 r) \<and> length (or_v4 r) \<le> or_cap r \<and> length (or_v6 r) \<le> or_cap r \<and>
     (\<forall>p\<in>set (or_v4 r). is_ipv4 (fst p)) \<and> (\<forall>p\<in>set (or_v6 r). \<not> is_ipv4 (fst p))"

abbreviation omitted :: "observed_rib \<Rightarrow> u64" where
  "omitted r \<equiv> ct_omitted (or_counters r)"

lemma saturating_succ: "saturating_add x (1 :: u64) \<noteq> 0"
  using checked_add_later [of x 1] by (auto simp: saturating_add_def split: option.splits)

lemma bs_length_insert: "bs_ok s \<Longrightarrow> k \<notin> set s \<Longrightarrow> length (bs_insert k s) = Suc (length s)"
  by (simp add: bs_length bs_ok_insert)

lemma bs_length_remove: "length (bs_remove k s) \<le> length s"
  by (simp add: bs_remove_def)

lemma withdrawn_step:
  assumes "stores_ok r"
  shows "stores_ok (observe_withdrawn p r) \<and> routes (observe_withdrawn p r) = routes r - {p} \<and> or_cap (observe_withdrawn p r) = or_cap r \<and>
    or_overflow_reported (observe_withdrawn p r) = or_overflow_reported r \<and> omitted (observe_withdrawn p r) = omitted r"
  using assms bs_length_remove [of p "or_v4 r"] bs_length_remove [of p "or_v6 r"]
  by (auto simp: observe_withdrawn_def Let_def stores_ok_def routes_def bs_ok_remove)

lemma announced_cases:
  assumes "observe_announced p (r, over) = (r', over')"
  obtains (known) k where "p \<in> routes r" "over' = over" "r' = r\<lparr>or_counters := k\<rparr>" "ct_omitted k = omitted r"
    | (v4) k where "is_ipv4 (fst p)" "p \<notin> set (or_v4 r)" "length (or_v4 r) < or_cap r" "over' = over"
        "r' = r\<lparr>or_counters := k, or_v4 := bs_insert p (or_v4 r)\<rparr>" "ct_omitted k = omitted r"
    | (v6) k where "\<not> is_ipv4 (fst p)" "p \<notin> set (or_v6 r)" "length (or_v6 r) < or_cap r" "over' = over"
        "r' = r\<lparr>or_counters := k, or_v6 := bs_insert p (or_v6 r)\<rparr>" "ct_omitted k = omitted r"
    | (full) k where "over'" "r' = r\<lparr>or_counters := k\<rparr>" "ct_omitted k \<noteq> 0"
proof -
  define k where "k = (or_counters r)\<lparr>ct_announcements := saturating_add (ct_announcements (or_counters r)) 1\<rparr>"
  define f where "f = k\<lparr>ct_omitted := saturating_add (ct_omitted k) 1\<rparr>"
  have k: "ct_omitted k = omitted r" "ct_omitted f \<noteq> 0" by (simp_all add: k_def f_def saturating_succ)
  note step = assms [unfolded observe_announced_def prod.case Let_def k_def [symmetric]]
  show thesis
  proof (cases "is_ipv4 (fst p)")
    case True
    then show thesis using step known [of k] v4 [of k] full [of f] k by (simp add: routes_def f_def split: if_splits)
  next
    case False
    then show thesis using step known [of k] v6 [of k] full [of f] k by (simp add: routes_def f_def split: if_splits)
  qed
qed

lemma announced_step:
  assumes "stores_ok r" "observe_announced p (r, over) = (r', over')"
  shows "stores_ok r' \<and> or_cap r' = or_cap r \<and> or_overflow_reported r' = or_overflow_reported r \<and>
    (over' = over \<and> omitted r' = omitted r \<and> routes r' = insert p (routes r) \<or> over' \<and> omitted r' \<noteq> 0 \<and> routes r' = routes r)"
  using assms(2)
proof (cases rule: announced_cases)
  case (known k)
  then show ?thesis using assms(1) by (simp add: stores_ok_def routes_def insert_absorb)
next
  case (v4 k)
  then show ?thesis using assms(1) by (simp add: stores_ok_def routes_def bs_ok_insert bs_length_insert)
next
  case (v6 k)
  then show ?thesis using assms(1) by (simp add: stores_ok_def routes_def bs_ok_insert bs_length_insert)
next
  case (full k)
  then show ?thesis using assms(1) by (simp add: stores_ok_def routes_def)
qed

lemma withdrawn_fold:
  "stores_ok r \<Longrightarrow> stores_ok (fold observe_withdrawn ps r) \<and> routes (fold observe_withdrawn ps r) = routes r - set ps \<and>
     or_cap (fold observe_withdrawn ps r) = or_cap r \<and>
     or_overflow_reported (fold observe_withdrawn ps r) = or_overflow_reported r \<and> omitted (fold observe_withdrawn ps r) = omitted r"
proof (induction ps arbitrary: r)
  case (Cons p ps)
  show ?case using Cons.IH [of "observe_withdrawn p r"] withdrawn_step [OF Cons.prems, of p] by auto
qed simp

lemma announced_fold:
  "stores_ok r \<Longrightarrow> fold observe_announced ps (r, over) = (r', over') \<Longrightarrow>
     stores_ok r' \<and> or_cap r' = or_cap r \<and> or_overflow_reported r' = or_overflow_reported r \<and> routes r' \<subseteq> routes r \<union> set ps \<and>
     (over' = over \<and> omitted r' = omitted r \<and> routes r' = routes r \<union> set ps \<or> over' \<and> omitted r' \<noteq> 0)"
proof (induction ps arbitrary: r over)
  case (Cons p ps)
  obtain r1 over1 where s: "observe_announced p (r, over) = (r1, over1)" by (cases "observe_announced p (r, over)")
  note S = announced_step [OF Cons.prems(1) s]
  have "fold observe_announced ps (r1, over1) = (r', over')" using Cons.prems(2) s by simp
  from Cons.IH [OF _ this] S show ?case by auto
qed simp

fun observe_run :: "observed_rib \<Rightarrow> summary list \<Rightarrow> observed_rib \<times> bool list" where
  "observe_run r [] = (r, [])"
| "observe_run r (u # us) =
     (let (r, report) = rib_observe r u; (r, reports) = observe_run r us in (r, report # reports))"

definition live :: "summary \<Rightarrow> bgp_prefix set \<Rightarrow> bgp_prefix set" where
  "live u S = S - set (sm_withdrawn u @ sm_mp_withdrawn u) \<union> set (sm_announced u @ sm_mp_announced u)"

lemma observe_step:
  assumes "stores_ok r" "rib_observe r u = (r', report)"
  shows "stores_ok r' \<and> or_cap r' = or_cap r \<and> routes r' \<subseteq> live u (routes r) \<and>
    (or_overflow_reported r' \<longleftrightarrow> or_overflow_reported r \<or> report) \<and> (report \<longrightarrow> \<not> or_overflow_reported r) \<and>
    (omitted r' = omitted r \<and> or_overflow_reported r' = or_overflow_reported r \<and> routes r' = live u (routes r) \<or>
     or_overflow_reported r' \<and> omitted r' \<noteq> 0)"
proof -
  define r1 where "r1 = fold observe_withdrawn (sm_withdrawn u @ sm_mp_withdrawn u) r"
  obtain r2 over where s: "fold observe_announced (sm_announced u @ sm_mp_announced u) (r1, False) = (r2, over)"
    by (cases "fold observe_announced (sm_announced u @ sm_mp_announced u) (r1, False)")
  note W = withdrawn_fold [OF assms(1), of "sm_withdrawn u @ sm_mp_withdrawn u", folded r1_def]
  note A = announced_fold [OF _ s]
  have r': "r' = r2\<lparr>or_overflow_reported := or_overflow_reported r2 \<or> over\<rparr>" "report = (over \<and> \<not> or_overflow_reported r2)"
    using assms(2) s unfolding rib_observe_def Let_def r1_def [symmetric] by simp_all
  have "stores_ok r' = stores_ok r2" "routes r' = routes r2" by (simp_all add: r' stores_ok_def routes_def)
  moreover have "routes r1 \<union> set (sm_announced u @ sm_mp_announced u) = live u (routes r)" using W by (simp add: live_def)
  ultimately show ?thesis using W A unfolding r' by auto
qed

lemma live_mono: "A \<subseteq> B \<Longrightarrow> fold live us A \<subseteq> fold live us B"
proof (induction us arbitrary: A B)
  case (Cons u us)
  have "live u A \<subseteq> live u B" using Cons.prems by (auto simp: live_def)
  from Cons.IH [OF this] show ?case by simp
qed simp

lemma observe_run_from:
  "stores_ok r \<Longrightarrow> observe_run r us = (r', reports) \<Longrightarrow> (or_overflow_reported r \<longleftrightarrow> omitted r \<noteq> 0) \<Longrightarrow>
     stores_ok r' \<and> or_cap r' = or_cap r \<and> (or_overflow_reported r' \<longleftrightarrow> omitted r' \<noteq> 0) \<and>
     (or_overflow_reported r' \<longleftrightarrow> or_overflow_reported r \<or> True \<in> set reports) \<and>
     length (filter id reports) \<le> (if or_overflow_reported r then 0 else 1) \<and>
     routes r' \<subseteq> fold live us (routes r) \<and> (omitted r' = 0 \<longrightarrow> routes r' = fold live us (routes r))"
proof (induction us arbitrary: r reports)
  case (Cons u us)
  obtain r1 b where s: "rib_observe r u = (r1, b)" by (cases "rib_observe r u")
  obtain bs where bs: "observe_run r1 us = (r', bs)" "reports = b # bs" using Cons.prems(2) s by (auto split: prod.splits)
  note S = observe_step [OF Cons.prems(1) s]
  then have "or_overflow_reported r1 \<longleftrightarrow> omitted r1 \<noteq> 0" using Cons.prems(3) by metis
  note I = Cons.IH [OF conjunct1 [OF S] bs(1) this]
  show ?case using S I live_mono [of "routes r1" "live u (routes r)" us] Cons.prems(3) by (auto simp: bs(2))
qed simp

text \<open>
  C26. Observed routes stay bounded and honest. After any sequence of updates from a peer, each store holds at most the
  cap, only prefixes of its family, each once; the overflow was reported at most once, and exactly when a route
  was omitted; nothing is held that the peer does not currently announce; and while nothing was omitted the
  stores hold exactly what it announces.
\<close>

theorem observed_rib_bounded:
  assumes "observe_run (observed_new cap) us = (r, reports)"
  shows "stores_ok r \<and> or_cap r = cap \<and> length (filter id reports) \<le> 1 \<and> (True \<in> set reports \<longleftrightarrow> omitted r \<noteq> 0) \<and>
    routes r \<subseteq> fold live us {} \<and> (omitted r = 0 \<longrightarrow> routes r = fold live us {})"
proof -
  have "stores_ok (observed_new cap)" "routes (observed_new cap) = {}" "or_cap (observed_new cap) = cap"
    "\<not> or_overflow_reported (observed_new cap)" "omitted (observed_new cap) = 0"
    by (simp_all add: observed_new_def stores_ok_def routes_def)
  with observe_run_from [OF _ assms] show ?thesis by auto
qed

theorem observed_rib_bounded_witness:
  "\<exists>r. observe_run (observed_new 1) [\<lparr>sm_withdrawn = [], sm_announced = [(V4 0, 0), (V4 1, 32)], sm_mp_announced = [], sm_mp_withdrawn = [],
      sm_unknown_transitive = []\<rparr>] = (r, [True]) \<and> length (or_v4 r) \<le> 1 \<and> omitted r \<noteq> 0"
proof -
  obtain r where r: "observe_run (observed_new 1) [\<lparr>sm_withdrawn = [], sm_announced = [(V4 0, 0), (V4 1, 32)], sm_mp_announced = [], sm_mp_withdrawn = [],
      sm_unknown_transitive = []\<rparr>] = (r, [True])"
    by (simp add: rib_observe_def observe_announced_def observed_new_def Let_def)
  from observed_rib_bounded [OF r] r show ?thesis by (auto simp: stores_ok_def)
qed

section \<open>Plans: the status snapshot\<close>

lemma status_loop_spec:
  "bs_ok result \<Longrightarrow> length result \<le> maximum \<Longrightarrow>
     status_loop rows maximum result =
       (if card (set rows \<union> set result) \<le> maximum then Inr (fold bs_insert rows result) else Inl StatusTooLarge)"
proof (induction rows arbitrary: result)
  case (Cons row rows)
  have ok: "bs_ok (bs_insert row result)" using Cons.prems(1) by (rule bs_ok_insert)
  have eq: "set (row # rows) \<union> set result = set rows \<union> set (bs_insert row result)" by auto
  show ?case
  proof (cases "length (bs_insert row result) \<le> maximum")
    case True
    then show ?thesis using Cons.IH [OF ok] unfolding eq by (simp add: Let_def)
  next
    case False
    have "length (bs_insert row result) \<le> card (set rows \<union> set (bs_insert row result))"
      unfolding bs_length [OF ok] by (rule card_mono) auto
    then have "\<not> card (set (row # rows) \<union> set result) \<le> maximum" using False unfolding eq by linarith
    then show ?thesis using False by (simp add: Let_def)
  qed
qed (simp add: bs_length)

text \<open>
  The advertised status is complete or refused: disabled it is absent; enabled it lists every advertisement once
  in order when they are at most the maximum, and is refused when they are more, never cut short.
\<close>

theorem advertised_status_spec:
  "advertised_status enabled rows maximum =
     (if \<not> enabled then Inr None
      else if card (set rows) \<le> maximum then Inr (Some (sorted_list_of_set (set rows)))
      else Inl StatusTooLarge)"
proof -
  have "bs_of_list rows = sorted_list_of_set (set rows)"
    by (metis bs_of_list_ok bs_of_list_set sorted_list_of_set.idem_if_sorted_distinct strict_sorted_iff)
  then have "fold bs_insert rows [] = sorted_list_of_set (set rows)" by (simp only: bs_of_list_def)
  then show ?thesis by (simp add: advertised_status_def status_loop_spec)
qed

end
