(* ===== verification/Spec2Isabelle.thy ===== *)
theory Spec2Isabelle
  imports Prelude Allocator Ipam CidrSet Ports Oracle MapState LabelSelector Simulator K8sPolicy Numeric
    AbiCommon AbiPolicy AbiLb AbiAffinity AbiEndpoint AbiCt Tunnel
    KernelMap CidrRules PolicyState SocketUpdate BgpReach BgpCollision BgpRib
begin

text \<open>
  A verification development for flowsdn, a Rust networking stack for Kubernetes nodes: an agent that gives pods
  addresses, computes which traffic a policy allows, programs kernel maps for policy and load balancing, and
  announces routes over BGP. The paths below are relative to \<open>src/crates\<close>.

  \<^bold>\<open>Conventions.\<close> A struct is a record, an enum a datatype, a method that takes \<open>&mut self\<close> a function from the old to
  the new state. Machine integers are words of their width, with \<open>checked_add\<close>, \<open>saturating_sub\<close> and the other
  operations of the standard library defined in \<open>Prelude\<close>; \<open>usize\<close> is a natural number. A \<open>Result\<close> is a sum whose
  left side is the error; error texts are named constructors. A panic, or a loop that does not end, is the outer
  \<open>None\<close> of an option. \<open>BTreeMap\<close> and \<open>BTreeSet\<close> are strictly sorted lists with the interface locale
  \<open>ordered_map\<close>. Floating point numbers appear twice: as bit patterns with the total order of the standard library
  (policy priorities), and as rationals rounded to 53 bits (Maglev counters).

  \<^bold>\<open>Address management.\<close> \<open>Ipam\<close> models \<open>flowsdn-ipam/src/lib.rs\<close>: a pool of one prefix, backed by a bitmap and an owner
  map, and the coordinator of both families. \<open>CidrSet\<close> models \<open>flowsdn-ipam/src/cidrset.rs\<close>, which cuts a cluster
  prefix into node prefixes. Both interpret the locale \<open>allocator\<close> of the theory \<open>Allocator\<close>, which states what a caller
  may rely on: a request returns, hands out what nobody holds, and fails only when nothing is free. The lemmas show
  the invariants, that requests are distinct or disjoint, and what every operation does on success and on error. The
  scan of a pool takes fuel, one step for each address, which suffices because every step passes an address.

  \<^bold>\<open>Policy.\<close> \<open>Ports\<close> (\<open>flowsdn-policy/src/ports.rs\<close>) expands a port range into the fewest aligned blocks. \<open>Oracle\<close>
  (\<open>oracle.rs\<close>) is the direct evaluation of rules and \<open>MapState\<close> (\<open>mapstate.rs\<close>) the compiled index; both interpret the
  locale \<open>policy_engine\<close>, and the index decides every packet as the evaluation does. \<open>Simulator\<close> (\<open>simulator.rs\<close>)
  evaluates and compiles the rules that select a subject. \<open>LabelSelector\<close> and \<open>K8sPolicy\<close> (\<open>k8s.rs\<close>) parse a
  NetworkPolicy and lower it to such rules; the decision on the result is the one Kubernetes documents. \<open>KernelMap\<close>
  (\<open>kernel_map.rs\<close>) is the map the kernel reads: the indexed lookup equals the scan, pruning loses no decision, and
  inherited authentication is a fixed point. \<open>CidrRules\<close> (\<open>cidr.rs\<close>, with the prefixes of
  \<open>flowsdn-identity/src/cidr.rs\<close>) shows that rules with exceptions select by longest prefix. \<open>PolicyState\<close>
  (\<open>repository.rs\<close>, \<open>named_ports.rs\<close>) holds the two stateful stores as step relations with their invariants and a
  refinement to the abstract choice of a named port. \<open>Numeric\<close> models \<open>flowsdn-identity/src/numeric.rs\<close>: the scopes
  of a numeric identity and the split into cluster and local number.

  \<^bold>\<open>Kernel map layouts.\<close> \<open>Bytes\<close> has the byte conversions and the locale \<open>map_bytes\<close> of a codec of fixed size.
  \<open>AbiCommon\<close>, \<open>AbiPolicy\<close>, \<open>AbiLb\<close>, \<open>AbiAffinity\<close>, \<open>AbiEndpoint\<close> and \<open>AbiCt\<close> interpret it for each key and value of
  \<open>flowsdn-bpf-abi/src\<close>; \<open>Tunnel\<close> interprets \<open>wire_header\<close> for the headers of \<open>tunnel.rs\<close>, which may also be refused.

  \<^bold>\<open>Load balancing.\<close> \<open>MaglevTable\<close> (\<open>flowsdn-lb/src/maglev.rs\<close>) builds lookup tables: construction ends, fills every
  entry and shares the entries fairly. Its two unbounded loops take fuel, one turn over the table and one over the
  backends; the sizes are prime, so a turn of a permutation meets a free entry, and the counters let some backend
  accept in each round. \<open>FlowHash\<close> (\<open>flowsdn-bpf-abi/src/maglev.rs\<close>) is the hash that picks an entry. \<open>SocketLb\<close>
  (\<open>flowsdn-lb/src/socket.rs\<close>) computes the desired maps and the ordered writes that lead to them. \<open>SocketDesired\<close>
  and \<open>SocketMaglev\<close> show that every frontend resolves to its backends; \<open>SocketPlan\<close> shows, over the locales
  \<open>lb_family\<close> and \<open>lb_table\<close>, that after every prefix of the writes each lookup still finds its slots and backends.
  \<open>SocketUpdate\<close> composes planning with the loader (\<open>flowsdn-bpf-loader/src/socket_lb.rs\<close>) and the agent's round
  (\<open>flowsdn-agent/src/kubernetes_controller.rs\<close>, \<open>program\<close>): whatever calls the kernel refuses, and whatever rounds are
  cut short, lookups stay safe, and one undisturbed round reaches the desired maps.

  \<^bold>\<open>BGP.\<close> \<open>BgpFrame\<close>, \<open>BgpOpen\<close> and \<open>BgpUpdate\<close> model the messages of \<open>flowsdn-bgp-proto/src\<close>: the envelope decodes at
  any position of a stream, two speakers negotiate the same session, and an announcement is cut into messages that
  the receiver's validation accepts and that announce exactly its prefixes. \<open>BgpSession\<close> is the session state machine
  of \<open>session.rs\<close> with its invariant, and \<open>BgpReach\<close> what holds of every reachable session: it never panics, exports
  only when established, always has a timer that moves it on, and two compatible sessions bring each other up.
  \<open>BgpCollision\<close> (\<open>collision.rs\<close>) shows that both ends of a collision keep the same connection, and \<open>BgpRib\<close>
  (\<open>rib.rs\<close>, \<open>planning.rs\<close>) that stores of observed routes stay bounded and that only a current handle withdraws a route.
  An \<open>Arc<()>\<close> used as an identity is a number. The theorem \<open>negotiate_refuses_valid_open\<close> records a defect: a valid OPEN
  with many capabilities in one parameter is refused.

  \<^bold>\<open>Parameters.\<close> The kernel appears in \<open>SocketUpdate\<close> as a function that says which call it refuses; no property
  assumes that it refuses none except the one that states that the desired maps are reached. Clocks and random numbers are
  arguments of each step of a session.

  \<^bold>\<open>Not modelled.\<close> Code whose effect is outside the program: sockets, netlink, files, namespaces, kernel programs over
  raw packet memory (\<open>flowsdn-bpf\<close>), program loading and pinning (the rest of \<open>flowsdn-bpf-loader\<close>), and the
  asynchronous loops around the models above (\<open>flowsdn-agent\<close>, \<open>flowsdn-k8s\<close>, \<open>flowsdn-table\<close>, \<open>flowsdn-reconcile\<close>,
  \<open>flowsdn-operator\<close>), whose behaviour is that of the runtime and the API server. Parsers and matchers that rest on third-party regular
  expressions or serialization (\<open>flowsdn-config\<close>, \<open>flowsdn-gateway\<close>, the labels of \<open>flowsdn-identity\<close>, \<open>flowsdn-hubble\<close>,
  \<open>flowsdn-clustermesh\<close>). The plugin, connector, encryption, health and cloud crates, which are I/O, and the
  command line, packaging and test tools. Error texts and log output are left out throughout.
\<close>

end
